(* ===== verification/Prelude.thy ===== *)
theory Prelude
  imports Main "HOL-Library.Word" "HOL-Library.Multiset"
begin

text \<open>
  Shared vocabulary of the development: the machine types of the kernel sources, the ways a
  kernel function can stop without returning, and the generic facts on words, lists and options
  that the component theories use.  Definitions that model code live in the component theories;
  the only operations defined here are the two block moves (\<open>overwrite\<close>, \<open>splice_out\<close>) by which
  components express the effect of a \<open>memcpy\<close> on a buffer held as a list.
\<close>

section \<open>Machine types\<close>

type_synonym u8 = "8 word"
type_synonym u16 = "16 word"
type_synonym u32 = "32 word"
type_synonym u64 = "64 word"

section \<open>Ways to stop\<close>

text \<open>
  \<open>Panic\<close> is \<open>kernel_panic\<close> with its first reason string, \<open>Assert_failed\<close> is a failed \<open>assert\<close>,
  \<open>Out_of_bounds\<close> is a read or write outside the object the code indexes (undefined behaviour in
  C++), \<open>Null_deref\<close> a dereference of a null pointer, \<open>Use_after_free\<close> an access to a deleted
  object, \<open>Div_by_zero\<close> the processor trap and \<open>Loops\<close> a loop that never ends.
\<close>

datatype kfault = Panic string | Assert_failed | Out_of_bounds | Null_deref | Use_after_free | Div_by_zero | Loops

type_synonym 'a kres = "kfault + 'a"

definition kbind :: "'a kres \<Rightarrow> ('a \<Rightarrow> 'b kres) \<Rightarrow> 'b kres" where
  "kbind m f = (case m of Inl e \<Rightarrow> Inl e | Inr x \<Rightarrow> f x)"

lemma kbind_simps [simp]:
  "kbind (Inl e) f = Inl e"
  "kbind (Inr x) f = f x"
  by (simp_all add: kbind_def)

lemma kbind_Inr_iff [simp]: "kbind m f = Inr y \<longleftrightarrow> (\<exists>x. m = Inr x \<and> f x = Inr y)"
  by (cases m) auto

lemma option_Inr_iff:
  "(case x of None \<Rightarrow> Inl e | Some y \<Rightarrow> f y) = Inr z \<longleftrightarrow> (\<exists>y. x = Some y \<and> f y = Inr z)"
  by (cases x) auto

text \<open>
  The error numbers the kernel returns, negated, to its callers.  Their values come from a header that is
  not part of the repository, so they are kept as names: \<open>Inl e\<close> stands for the result \<open>-e\<close>.
\<close>

datatype errno =
    EBADF | EBUSY | EFAULT | EINTR | EINVAL | EIO | EISDIR | ENOENT | ENOSYS | ENOTDIR | EPERM | EPIPE | EROFS | ESPIPE

type_synonym 'a sysret = "errno + 'a"

named_theorems absdefs \<open>definitions of abstraction functions and invariants\<close>
named_theorems opdefs \<open>definitions of the operations of a component\<close>

section \<open>Lists as memory blocks\<close>

definition overwrite :: "'a list \<Rightarrow> nat \<Rightarrow> 'a list \<Rightarrow> 'a list" where
  "overwrite xs i ys = take i xs @ ys @ drop (i + length ys) xs"

lemma length_overwrite [simp]:
  "i + length ys \<le> length xs \<Longrightarrow> length (overwrite xs i ys) = length xs"
  by (simp add: overwrite_def)

lemma overwrite_Nil [simp]: "overwrite xs i [] = xs"
  by (simp add: overwrite_def)

lemma take_overwrite_before:
  "n \<le> i \<Longrightarrow> i \<le> length xs \<Longrightarrow> take n (overwrite xs i ys) = take n xs"
  by (simp add: overwrite_def min_def)

lemma take_overwrite_upto:
  "i \<le> length xs \<Longrightarrow> take (i + length ys) (overwrite xs i ys) = take i xs @ ys"
  by (simp add: overwrite_def)

lemma nth_overwrite:
  assumes "i + length ys \<le> length xs" "n < length xs"
  shows "overwrite xs i ys ! n = (if i \<le> n \<and> n < i + length ys then ys ! (n - i) else xs ! n)"
  using assms by (auto simp: overwrite_def nth_append min_def)

definition splice_out :: "'a list \<Rightarrow> nat \<Rightarrow> nat \<Rightarrow> 'a list" where
  "splice_out xs n len = overwrite xs 0 (take (len - n) (drop n xs))"

lemma length_splice_out [simp]:
  "len \<le> length xs \<Longrightarrow> length (splice_out xs n len) = length xs"
  by (simp add: splice_out_def)

lemma take_splice_out:
  assumes "n \<le> len" "len \<le> length xs"
  shows "take (len - n) (splice_out xs n len) = drop n (take len xs)"
proof -
  have "length (take (len - n) (drop n xs)) = len - n" using assms by simp
  then show ?thesis
    using take_overwrite_upto [of 0 xs "take (len - n) (drop n xs)"]
    by (simp add: splice_out_def drop_take)
qed

text \<open>\<open>realloc\<close> keeps the common prefix; \<open>junk\<close> is what the fresh memory happens to hold.\<close>

definition realloc_bytes :: "(nat \<Rightarrow> 'a) \<Rightarrow> nat \<Rightarrow> 'a list \<Rightarrow> 'a list" where
  "realloc_bytes junk n xs = take n xs @ map junk [length xs..<n]"

lemma length_realloc_bytes [simp]: "length (realloc_bytes junk n xs) = n"
  by (simp add: realloc_bytes_def)

lemma take_realloc_bytes: "k \<le> n \<Longrightarrow> k \<le> length xs \<Longrightarrow> take k (realloc_bytes junk n xs) = take k xs"
  by (simp add: realloc_bytes_def min_def)

section \<open>Lists\<close>

lemma take_list_update_Suc:
  "n < length xs \<Longrightarrow> take (Suc n) (xs[n := x]) = take n xs @ [x]"
  by (simp add: take_Suc_conv_app_nth)

lemma nth_map_upt_0 [simp]: "i < n \<Longrightarrow> map f [0..<n] ! i = f i"
  by simp

lemma in_set_list_update: "x \<in> set (xs[i := y]) \<Longrightarrow> x = y \<or> x \<in> set xs"
  by (metis insert_iff set_update_subset_insert subset_iff)

section \<open>Words\<close>

lemma unat_plus_no_wrap:
  fixes a b :: "'a::len word"
  assumes "unat a + unat b < 2 ^ LENGTH('a)"
  shows "unat (a + b) = unat a + unat b"
  using assms by (simp add: unat_word_ariths)

lemma unat_minus_no_wrap:
  fixes a b :: "'a::len word"
  assumes "b \<le> a"
  shows "unat (a - b) = unat a - unat b"
  using assms by (rule unat_sub)

lemma unat_times_no_wrap:
  fixes a b :: "'a::len word"
  assumes "unat a * unat b < 2 ^ LENGTH('a)"
  shows "unat (a * b) = unat a * unat b"
  using assms by (simp add: unat_word_ariths)

lemma unat_of_nat_small:
  "n < 2 ^ LENGTH('a::len) \<Longrightarrow> unat (of_nat n :: 'a word) = n"
  by (simp add: unat_of_nat take_bit_nat_eq_self)

lemma unat_u32_less: "unat (x :: u32) < 4294967296"
  using unsigned_less [of x] by simp

lemma unat_u64_less: "unat (x :: u64) < 18446744073709551616"
  using unsigned_less [of x] by simp

lemma unat_ucast_64_32: "unat (x :: u64) < 2 ^ 32 \<Longrightarrow> unat (ucast x :: u32) = unat x"
  by (simp add: unsigned_ucast_eq take_bit_nat_eq_self)

lemma unat_ucast_u32_u64 [simp]: "unat (ucast (w :: u32) :: u64) = unat w"
  using unat_u32_less [of w] by (simp add: unsigned_ucast_eq take_bit_nat_eq_self)

end
