(* ===== verification/KMath.thy ===== *)
theory KMath
  imports Prelude
begin

unbundle bit_operations_syntax

text \<open>
  The arithmetic helpers of \<^verbatim>\<open>Kernel/include/kmath.h\<close>: \<open>kstd::min\<close>, \<open>kstd::max\<close>,
  \<open>kstd::round_up\<close> and \<open>kstd::intervals_needed\<close>, the last two at the width of their operands.
\<close>

definition kstd_min :: "'a::linorder \<Rightarrow> 'a \<Rightarrow> 'a" where
  "kstd_min x y = (if x > y then y else x)"

definition kstd_max :: "'a::linorder \<Rightarrow> 'a \<Rightarrow> 'a" where
  "kstd_max x y = (if x > y then x else y)"

definition round_up :: "'a::len word \<Rightarrow> 'a word \<Rightarrow> 'a word" where
  "round_up x interval = (x + interval - 1) AND NOT interval"

definition intervals_needed :: "'a::len word \<Rightarrow> 'a word \<Rightarrow> 'a word kres" where
  "intervals_needed x interval =
     (if interval = 0 then Inl Div_by_zero else Inr ((x + interval - 1) div interval))"

lemma kstd_min_eq_min [simp]: "kstd_min x y = min x y"
  by (auto simp: kstd_min_def min_def)

lemma kstd_max_eq_max [simp]: "kstd_max x y = max x y"
  by (auto simp: kstd_max_def max_def)

lemma ceil_div_bounds:
  fixes x k :: nat
  assumes "0 < k"
  shows "x \<le> (x + k - 1) div k * k" and "0 < x \<Longrightarrow> ((x + k - 1) div k - 1) * k < x"
proof -
  let ?n = "(x + k - 1) div k"
  have eq: "?n * k + (x + k - 1) mod k = x + k - 1" by simp
  have "(x + k - 1) mod k < k" using assms by simp
  with eq assms show "x \<le> ?n * k" by linarith
  assume "0 < x"
  then have "1 \<le> ?n" using assms by (simp add: Suc_leI div_greater_zero_iff)
  then have "(?n - 1) * k + k = ?n * k"
    by (metis add.commute le_add_diff_inverse2 mult_Suc plus_1_eq_Suc)
  with eq \<open>0 < x\<close> assms show "(?n - 1) * k < x" by linarith
qed

lemma unat_ceil_div:
  fixes x k :: "'a::len word"
  assumes "0 < unat k" "unat x + unat k < 2 ^ LENGTH('a)"
  shows "unat ((x + k - 1) div k) = (unat x + unat k - 1) div unat k"
proof -
  have "unat (x + k) = unat x + unat k" using assms(2) by (rule unat_plus_no_wrap)
  moreover from this have "1 \<le> x + k"
    using assms(1) by (simp add: word_le_nat_alt)
  ultimately have "unat (x + k - 1) = unat x + unat k - 1"
    by (simp add: unat_minus_no_wrap)
  then show ?thesis by (simp add: unat_div)
qed

text \<open>
   Away from overflow, \<open>intervals_needed\<close> returns the least number of intervals that cover
  \<open>x\<close> bytes: that many intervals are enough and one fewer is not.
\<close>

theorem intervals_needed_least:
  fixes x k :: "'a::len word"
  assumes "k \<noteq> 0" "unat x + unat k < 2 ^ LENGTH('a)"
  shows "\<exists>n. intervals_needed x k = Inr n \<and> unat x \<le> unat n * unat k
           \<and> (x \<noteq> 0 \<longrightarrow> (unat n - 1) * unat k < unat x)"
proof -
  have k: "0 < unat k" using assms(1) by (simp add: unat_gt_0)
  show ?thesis
    using unat_ceil_div [OF k assms(2)] ceil_div_bounds [OF k, of "unat x"] assms(1)
    by (auto simp: intervals_needed_def unat_gt_0)
qed

theorem intervals_needed_least_witness:
  "\<exists>n. intervals_needed (1025 :: u32) 512 = Inr n \<and> unat (1025 :: u32) \<le> unat n * unat (512 :: u32)
     \<and> ((1025 :: u32) \<noteq> 0 \<longrightarrow> (unat n - 1) * unat (512 :: u32) < unat (1025 :: u32))"
  by (rule intervals_needed_least) simp_all

text \<open>
   \<open>round_up\<close> masks with the complement of the interval itself instead of the complement of
  the interval minus one.  For a power-of-two interval and a size that is already a multiple of
  it but has the interval's bit set, the result is one short of the size: a buffer of that length
  is too small for its contents.
\<close>

theorem round_up_below_size:
  "round_up (512 :: u32) 512 = 511 \<and> round_up (1536 :: u32) 512 = 1535
     \<and> (\<exists>x :: u32. round_up x 512 < x)"
proof -
  have "round_up (512 :: u32) 512 < 512" by (simp add: round_up_def)
  then have "\<exists>x :: u32. round_up x 512 < x" by blast
  then show ?thesis by (simp add: round_up_def)
qed

end
