(* ===== verification/KList.thy ===== *)
theory KList
  imports Prelude
begin

text \<open>
  The kernel's growable array \<open>list<T>\<close> of \<^verbatim>\<open>Kernel/include/klist.hpp\<close>.  The state is the class's
  three members: \<open>_size\<close>, \<open>_capacity\<close> and the block \<open>_mem\<close>, whose cells are \<open>None\<close> while they
  hold whatever \<open>malloc\<close> or \<open>realloc\<close> left there.  Reads and writes outside the block are
  \<open>Out_of_bounds\<close>; \<open>grow\<close> takes the allocator's answer as the argument \<open>mem_ok\<close> (does a
  \<open>realloc\<close> of this many elements succeed) and panics when it is negative, as the source does.

  The interface \<open>sequence\<close> states what the rest of the kernel relies on: every operation acts on
  the abstract list \<open>elems\<close> as the corresponding list function does.  The components that hold a
  \<open>list<T>\<close> member (address spaces, descriptor tables, watcher queues) are modelled over HOL lists,
  which this interpretation justifies.
\<close>

section \<open>Model\<close>

record 'a klist =
  kl_size :: nat
  kl_capacity :: nat
  kl_mem :: "'a option list"

definition list_new :: "nat \<Rightarrow> 'a klist" where
  "list_new capacity = \<lparr>kl_size = 0, kl_capacity = capacity, kl_mem = replicate capacity None\<rparr>"

definition grow :: "(nat \<Rightarrow> bool) \<Rightarrow> 'a klist \<Rightarrow> 'a klist kres" where
  "grow mem_ok l =
     (let cap = kl_capacity l * 2 in
      if mem_ok cap
      then Inr (l\<lparr>kl_capacity := cap, kl_mem := kl_mem l @ replicate (cap - kl_capacity l) None\<rparr>)
      else Inl (Panic ''Out of memory!''))"

definition list_store :: "'a klist \<Rightarrow> nat \<Rightarrow> 'a option \<Rightarrow> 'a klist kres" where
  "list_store l i v =
     (if i < length (kl_mem l) then Inr (l\<lparr>kl_mem := (kl_mem l)[i := v]\<rparr>) else Inl Out_of_bounds)"

definition grow_if_full :: "(nat \<Rightarrow> bool) \<Rightarrow> 'a klist \<Rightarrow> 'a klist kres" where
  "grow_if_full mem_ok l = (if kl_size l \<ge> kl_capacity l then grow mem_ok l else Inr l)"

definition list_add :: "(nat \<Rightarrow> bool) \<Rightarrow> 'a \<Rightarrow> 'a klist \<Rightarrow> 'a klist kres" where
  "list_add mem_ok item l =
     kbind (grow_if_full mem_ok l)
       (\<lambda>l. kbind (list_store l (kl_size l) (Some item)) (\<lambda>l. Inr (l\<lparr>kl_size := kl_size l + 1\<rparr>)))"

text \<open>The shifting loop of \<open>insert\<close>: \<open>for(i = _size; i > pos; i--) _mem[i] = _mem[i - 1]\<close>.\<close>

fun shift_right :: "'a list \<Rightarrow> nat \<Rightarrow> nat \<Rightarrow> 'a list" where
  "shift_right m i pos = (if i > pos then shift_right (m[i := m ! (i - 1)]) (i - 1) pos else m)"

declare shift_right.simps [simp del]

definition list_insert :: "(nat \<Rightarrow> bool) \<Rightarrow> 'a \<Rightarrow> nat \<Rightarrow> 'a klist \<Rightarrow> 'a klist kres" where
  "list_insert mem_ok obj pos l =
     (if pos = kl_size l then list_add mem_ok obj l
      else kbind (grow_if_full mem_ok l)
        (\<lambda>l. if pos < kl_size l \<and> \<not> kl_size l < length (kl_mem l) then Inl Out_of_bounds
             else kbind (list_store (l\<lparr>kl_mem := shift_right (kl_mem l) (kl_size l) pos,
                                      kl_size := kl_size l + 1\<rparr>) pos (Some obj)) Inr))"

definition list_set :: "'a \<Rightarrow> nat \<Rightarrow> 'a klist \<Rightarrow> (bool \<times> 'a klist) kres" where
  "list_set obj idx l =
     (if idx \<ge> kl_size l then Inr (False, l)
      else kbind (list_store l idx (Some obj)) (\<lambda>l. Inr (True, l)))"

text \<open>
  The shifting loop of \<open>remove_at\<close>: \<open>for(i = index; i < _size - 1; i++) _mem[i] = _mem[i + 1]\<close>.
  With \<open>_size\<close> zero the bound wraps to the largest \<open>size_t\<close> and the loop leaves the block.
\<close>

function shift_left :: "'a list \<Rightarrow> nat \<Rightarrow> nat \<Rightarrow> 'a list" where
  "shift_left m i n = (if i < n - 1 then shift_left (m[i := m ! (i + 1)]) (i + 1) n else m)"
  by pat_completeness auto
termination by (relation "measure (\<lambda>(m, i, n). n - i)") auto

declare shift_left.simps [simp del]

definition list_remove_at :: "nat \<Rightarrow> 'a klist \<Rightarrow> ('a option \<times> 'a klist) kres" where
  "list_remove_at index l =
     (if kl_size l = 0 \<or> \<not> index < length (kl_mem l) then Inl Out_of_bounds
      else Inr (kl_mem l ! index,
                l\<lparr>kl_mem := shift_left (kl_mem l) index (kl_size l), kl_size := kl_size l - 1\<rparr>))"

function find_from :: "'a option list \<Rightarrow> 'a \<Rightarrow> nat \<Rightarrow> nat \<Rightarrow> nat option" where
  "find_from m item i n =
     (if i < n then (if m ! i = Some item then Some i else find_from m item (i + 1) n) else None)"
  by pat_completeness auto
termination by (relation "measure (\<lambda>(m, item, i, n). n - i)") auto

declare find_from.simps [simp del]

definition list_remove :: "'a \<Rightarrow> 'a klist \<Rightarrow> 'a klist kres" where
  "list_remove item l =
     (case find_from (kl_mem l) item 0 (kl_size l) of
        None \<Rightarrow> Inr l
      | Some i \<Rightarrow> kbind (list_remove_at i l) (\<lambda>(_, l). Inr l))"

definition list_clear :: "'a klist \<Rightarrow> 'a klist" where
  "list_clear l = l\<lparr>kl_size := 0\<rparr>"

definition list_get :: "nat \<Rightarrow> 'a klist \<Rightarrow> 'a option kres" where
  "list_get index l =
     (if index \<ge> kl_size l then Inl (Panic ''Out of bounds list access'')
      else Inr (kl_mem l ! index))"

section \<open>Invariant and abstraction\<close>

definition kl_inv :: "'a klist \<Rightarrow> bool" where
  "kl_inv l \<longleftrightarrow> kl_size l \<le> kl_capacity l \<and> 0 < kl_capacity l \<and> length (kl_mem l) = kl_capacity l
     \<and> (\<forall>i < kl_size l. kl_mem l ! i \<noteq> None)"

definition elems :: "'a klist \<Rightarrow> 'a list" where
  "elems l = map the (take (kl_size l) (kl_mem l))"

lemmas kl_defs [absdefs] = kl_inv_def elems_def

lemma elems_length [simp]: "kl_inv l \<Longrightarrow> length (elems l) = kl_size l"
  by (simp add: kl_defs)

lemma elems_nth: "kl_inv l \<Longrightarrow> i < kl_size l \<Longrightarrow> kl_mem l ! i = Some (elems l ! i)"
  by (auto simp: kl_defs)

lemma list_new_correct: "0 < c \<Longrightarrow> kl_inv (list_new c) \<and> elems (list_new c) = []"
  by (simp add: kl_defs list_new_def)

lemma grow_if_full_correct:
  assumes "kl_inv l" "\<forall>n. mem_ok n"
  shows "\<exists>l'. grow_if_full mem_ok l = Inr l' \<and> kl_inv l' \<and> elems l' = elems l
           \<and> kl_size l' = kl_size l \<and> kl_size l' < kl_capacity l'"
  using assms by (auto simp: grow_if_full_def grow_def kl_defs Let_def nth_append)

lemma list_add_correct:
  assumes inv: "kl_inv l" and ok: "\<forall>n. mem_ok n"
  shows "\<exists>l'. list_add mem_ok x l = Inr l' \<and> kl_inv l' \<and> elems l' = elems l @ [x]"
proof -
  obtain m where m: "grow_if_full mem_ok l = Inr m" "kl_inv m" "elems m = elems l"
      "kl_size m < kl_capacity m"
    using grow_if_full_correct [OF assms] by blast
  have "elems (m\<lparr>kl_mem := (kl_mem m)[kl_size m := Some x], kl_size := kl_size m + 1\<rparr>) = elems m @ [x]"
    using m(2,4) by (simp add: kl_defs take_list_update_Suc)
  with m show ?thesis
    by (auto simp: list_add_def list_store_def kl_inv_def nth_list_update less_Suc_eq)
qed

section \<open>The shifting loops\<close>

lemma shift_right_length [simp]: "length (shift_right m i p) = length m"
  by (induction m i p rule: shift_right.induct) (subst shift_right.simps, simp)

lemma shift_right_nth:
  "i < length m \<Longrightarrow> j < length m \<Longrightarrow>
   shift_right m i p ! j = (if p < j \<and> j \<le> i then m ! (j - 1) else m ! j)"
proof (induction m i p arbitrary: j rule: shift_right.induct)
  case (1 m i p)
  show ?case
  proof (cases "p < i")
    case True
    have "shift_right m i p = shift_right (m[i := m ! (i - 1)]) (i - 1) p"
      using True by (subst shift_right.simps) simp
    with True "1" show ?thesis by (auto simp: nth_list_update)
  qed (use "1.prems" in \<open>subst shift_right.simps, auto\<close>)
qed

lemma shift_left_length [simp]: "length (shift_left m i n) = length m"
  by (induction m i n rule: shift_left.induct) (subst shift_left.simps, simp)

lemma shift_left_nth:
  "n \<le> length m \<Longrightarrow> j < length m \<Longrightarrow>
   shift_left m i n ! j = (if i \<le> j \<and> j < n - 1 then m ! (j + 1) else m ! j)"
proof (induction m i n arbitrary: j rule: shift_left.induct)
  case (1 m i n)
  show ?case
  proof (cases "i < n - 1")
    case True
    have "shift_left m i n = shift_left (m[i := m ! (i + 1)]) (i + 1) n"
      using True by (subst shift_left.simps) simp
    with True "1" show ?thesis by (auto simp: nth_list_update)
  qed (use "1.prems" in \<open>subst shift_left.simps, auto\<close>)
qed

section \<open>Insertion, removal, update, lookup\<close>

lemma elems_eqI:
  assumes "kl_inv l" "kl_size l = length xs" "\<And>i. i < length xs \<Longrightarrow> kl_mem l ! i = Some (xs ! i)"
  shows "elems l = xs"
proof (rule nth_equalityI)
  fix i assume "i < length (elems l)"
  then have "i < length xs" using assms(1,2) by simp
  with assms show "elems l ! i = xs ! i" using elems_nth [of l i] by simp
qed (use assms in simp)

lemma list_insert_correct:
  assumes inv: "kl_inv l" and ok: "\<forall>n. mem_ok n" and p: "p \<le> length (elems l)"
  shows "\<exists>l'. list_insert mem_ok x p l = Inr l' \<and> kl_inv l'
           \<and> elems l' = take p (elems l) @ [x] @ drop p (elems l)"
proof (cases "p = kl_size l")
  case True
  with list_add_correct [OF inv ok, of x] inv show ?thesis by (auto simp: list_insert_def)
next
  case False
  obtain m where m: "grow_if_full mem_ok l = Inr m" "kl_inv m" "elems m = elems l"
      "kl_size m = kl_size l" "kl_size m < kl_capacity m"
    using grow_if_full_correct [OF inv ok] by blast
  have p': "p < kl_size m" using False p inv m(4) by simp
  let ?mem = "(shift_right (kl_mem m) (kl_size m) p)[p := Some x]"
  let ?l = "m\<lparr>kl_mem := ?mem, kl_size := kl_size m + 1\<rparr>"
  let ?xs = "take p (elems m) @ [x] @ drop p (elems m)"
  have len: "length (kl_mem m) = kl_capacity m" using m(2) by (simp add: kl_inv_def)
  have cell: "kl_mem ?l ! i = Some (?xs ! i)" if "i < kl_size m + 1" for i
    using that p' m(2,5) len elems_nth [OF m(2)]
    by (auto simp: shift_right_nth nth_append nth_Cons' nth_list_update min_def)
  have inv': "kl_inv ?l" using cell m(2,5) by (simp add: kl_inv_def)
  moreover have "elems ?l = ?xs"
    using inv' by (rule elems_eqI) (use cell p' m(2) in \<open>auto\<close>)
  moreover have "list_insert mem_ok x p l = Inr ?l"
    using False m p' len by (simp add: list_insert_def list_store_def)
  ultimately show ?thesis using m(3) by auto
qed

lemma list_remove_at_correct:
  assumes inv: "kl_inv l" and i: "i < length (elems l)"
  shows "\<exists>l'. list_remove_at i l = Inr (Some (elems l ! i), l') \<and> kl_inv l'
           \<and> elems l' = take i (elems l) @ drop (i + 1) (elems l)"
proof -
  let ?l = "l\<lparr>kl_mem := shift_left (kl_mem l) i (kl_size l), kl_size := kl_size l - 1\<rparr>"
  let ?xs = "take i (elems l) @ drop (i + 1) (elems l)"
  have i': "i < kl_size l" using i inv by simp
  have len: "kl_size l \<le> length (kl_mem l)" using inv by (simp add: kl_inv_def)
  have cell: "kl_mem ?l ! j = Some (?xs ! j)" if "j < kl_size l - 1" for j
    using that i' inv len elems_nth [OF inv]
    by (auto simp: shift_left_nth nth_append min_def)
  have inv': "kl_inv ?l" using cell inv by (auto simp: kl_inv_def)
  moreover have "elems ?l = ?xs"
    using inv' by (rule elems_eqI) (use cell i' inv in auto)
  moreover have "list_remove_at i l = Inr (Some (elems l ! i), ?l)"
    using i' len elems_nth [OF inv i'] by (simp add: list_remove_at_def)
  ultimately show ?thesis by blast
qed

lemma list_set_correct:
  assumes "kl_inv l" "i < length (elems l)"
  shows "\<exists>l'. list_set x i l = Inr (True, l') \<and> kl_inv l' \<and> elems l' = (elems l)[i := x]"
  using assms
  by (auto simp: list_set_def list_store_def kl_defs nth_list_update take_update_swap map_update)

lemma list_get_correct:
  "kl_inv l \<Longrightarrow> list_get i l =
     (if i < length (elems l) then Inr (Some (elems l ! i))
      else Inl (Panic ''Out of bounds list access''))"
  by (simp add: list_get_def elems_nth)

lemma list_clear_correct: "kl_inv l \<Longrightarrow> kl_inv (list_clear l) \<and> elems (list_clear l) = []"
  by (simp add: list_clear_def kl_defs)

lemma find_from_None: "find_from m x i n = None \<Longrightarrow> i \<le> j \<Longrightarrow> j < n \<Longrightarrow> m ! j \<noteq> Some x"
proof (induction m x i n rule: find_from.induct)
  case (1 m x i n)
  from "1.prems" have "m ! i \<noteq> Some x" "find_from m x (i + 1) n = None"
    by (auto simp: find_from.simps [of m x i n] split: if_splits)
  with "1" show ?case by (cases "j = i") auto
qed

lemma find_from_Some:
  "find_from m x i n = Some k \<Longrightarrow> i \<le> k \<and> k < n \<and> m ! k = Some x \<and> (\<forall>j. i \<le> j \<and> j < k \<longrightarrow> m ! j \<noteq> Some x)"
proof (induction m x i n rule: find_from.induct)
  case (1 m x i n)
  show ?case
  proof (cases "m ! i = Some x")
    case True
    with "1.prems" show ?thesis by (auto simp: find_from.simps [of m x i n] split: if_splits)
  next
    case False
    with "1.prems" have "i < n" "find_from m x (i + 1) n = Some k"
      by (auto simp: find_from.simps [of m x i n] split: if_splits)
    with "1.IH" False have "i + 1 \<le> k \<and> k < n \<and> m ! k = Some x
        \<and> (\<forall>j. i + 1 \<le> j \<and> j < k \<longrightarrow> m ! j \<noteq> Some x)" by blast
    with False show ?thesis by (auto simp: Suc_le_eq dest: le_neq_implies_less)
  qed
qed

lemma list_remove_correct:
  assumes inv: "kl_inv l"
  shows "\<exists>l'. list_remove x l = Inr l' \<and> kl_inv l' \<and> elems l' = remove1 x (elems l)"
proof (cases "find_from (kl_mem l) x 0 (kl_size l)")
  case None
  then have "\<forall>i < kl_size l. elems l ! i \<noteq> x"
    using find_from_None [OF None] elems_nth [OF inv] by auto
  then have "x \<notin> set (elems l)" using inv by (auto simp: in_set_conv_nth)
  with None inv show ?thesis by (simp add: list_remove_def remove1_idem)
next
  case (Some k)
  note k = find_from_Some [OF Some]
  have kx: "k < length (elems l)" "elems l ! k = x" and "\<forall>j < k. elems l ! j \<noteq> x"
    using k inv elems_nth [OF inv] by auto
  then have "x \<notin> set (take k (elems l))" by (auto simp: in_set_conv_nth)
  then have "remove1 x (take k (elems l) @ x # drop (Suc k) (elems l)) = take k (elems l) @ drop (Suc k) (elems l)"
    by (simp add: remove1_append)
  then have "remove1 x (elems l) = take k (elems l) @ drop (k + 1) (elems l)"
    using kx by (metis Suc_eq_plus1 id_take_nth_drop)
  with Some list_remove_at_correct [OF inv kx(1)] show ?thesis by (auto simp: list_remove_def)
qed

section \<open>The interface the kernel relies on\<close>

locale sequence =
  fixes inv :: "'l \<Rightarrow> bool"
    and abs :: "'l \<Rightarrow> 'a list"
    and add :: "'a \<Rightarrow> 'l \<Rightarrow> 'l kres"
    and ins :: "'a \<Rightarrow> nat \<Rightarrow> 'l \<Rightarrow> 'l kres"
    and rem :: "nat \<Rightarrow> 'l \<Rightarrow> ('a option \<times> 'l) kres"
    and get :: "nat \<Rightarrow> 'l \<Rightarrow> 'a option kres"
  assumes add_law: "inv l \<Longrightarrow> \<exists>l'. add x l = Inr l' \<and> inv l' \<and> abs l' = abs l @ [x]"
    and ins_law: "inv l \<Longrightarrow> p \<le> length (abs l) \<Longrightarrow>
      \<exists>l'. ins x p l = Inr l' \<and> inv l' \<and> abs l' = take p (abs l) @ [x] @ drop p (abs l)"
    and rem_law: "inv l \<Longrightarrow> i < length (abs l) \<Longrightarrow>
      \<exists>l'. rem i l = Inr (Some (abs l ! i), l') \<and> inv l' \<and> abs l' = take i (abs l) @ drop (i + 1) (abs l)"
    and get_law: "inv l \<Longrightarrow> i < length (abs l) \<Longrightarrow> get i l = Inr (Some (abs l ! i))"
begin

fun add_all :: "'a list \<Rightarrow> 'l \<Rightarrow> 'l kres" where
  "add_all [] l = Inr l"
| "add_all (x # xs) l = kbind (add x l) (add_all xs)"

lemma add_all_abs: "inv l \<Longrightarrow> \<exists>l'. add_all xs l = Inr l' \<and> inv l' \<and> abs l' = abs l @ xs"
proof (induction xs arbitrary: l)
  case (Cons x xs)
  obtain m where m: "add x l = Inr m" "inv m" "abs m = abs l @ [x]"
    using add_law [OF Cons.prems] by blast
  with Cons.IH [OF m(2)] show ?case by auto
qed simp

lemma get_after_add:
  "inv l \<Longrightarrow> add x l = Inr l' \<Longrightarrow> get (length (abs l)) l' = Inr (Some x)
     \<and> (\<forall>i < length (abs l). get i l' = get i l)"
  using add_law [of l x] by (auto simp: get_law nth_append)

lemma remove_undoes_insert:
  assumes "inv l" "p \<le> length (abs l)" "ins x p l = Inr l'"
  shows "\<exists>l''. rem p l' = Inr (Some x, l'') \<and> inv l'' \<and> abs l'' = abs l"
proof -
  have l': "inv l'" "abs l' = take p (abs l) @ [x] @ drop p (abs l)"
    using ins_law [OF assms(1,2), of x] assms(3) by auto
  have "p < length (abs l')" "abs l' ! p = x" "take p (abs l') @ drop (p + 1) (abs l') = abs l"
    using l'(2) assms(2) by (simp_all add: nth_append)
  then show ?thesis using rem_law [OF l'(1), of p] by auto
qed

end

interpretation kl: sequence kl_inv elems "list_add (\<lambda>_. True)" "list_insert (\<lambda>_. True)"
    list_remove_at list_get
  by unfold_locales
    (metis list_add_correct, metis list_insert_correct, metis list_remove_at_correct,
      simp add: list_get_correct)

section \<open>Properties\<close>

text \<open>
  C27.  Functional refinement: on a well-formed \<open>list<T>\<close> and with memory available, \<open>insert\<close> at a
  position within the list (its end included) returns a well-formed list whose elements are the
  old ones with the new one spliced in at that position; the growth of the block and the
  backwards copying loop are part of the statement.
\<close>

theorem list_insert_refines:
  assumes "kl_inv l" "\<forall>n. mem_ok n" "p \<le> length (elems l)"
  shows "\<exists>l'. list_insert mem_ok x p l = Inr l' \<and> kl_inv l'
           \<and> elems l' = take p (elems l) @ [x] @ drop p (elems l)"
  using assms by (rule list_insert_correct)

theorem list_insert_refines_witness:
  "\<exists>l'. list_insert (\<lambda>_. True) (7 :: nat) 1
          \<lparr>kl_size = 2, kl_capacity = 2, kl_mem = [Some 5, Some 6]\<rparr> = Inr l' \<and> kl_inv l'
     \<and> elems l' = take 1 (elems \<lparr>kl_size = 2, kl_capacity = 2, kl_mem = [Some 5, Some 6]\<rparr>)
         @ [7] @ drop 1 (elems \<lparr>kl_size = 2, kl_capacity = 2, kl_mem = [Some 5, Some 6]\<rparr>)"
  by (rule list_insert_refines) (auto simp: kl_defs less_Suc_eq numeral_2_eq_2)

text \<open>
   Round trip: removing at the position an element was just inserted at returns that element
  and restores the previous contents.
\<close>

theorem list_remove_at_insert:
  assumes "kl_inv l" "p \<le> length (elems l)" "list_insert (\<lambda>_. True) x p l = Inr l'"
  shows "\<exists>l''. list_remove_at p l' = Inr (Some x, l'') \<and> kl_inv l'' \<and> elems l'' = elems l"
  using assms by (rule kl.remove_undoes_insert)

theorem list_remove_at_insert_witness:
  "\<exists>l''. list_remove_at 0 \<lparr>kl_size = 2, kl_capacity = 2, kl_mem = [Some True, Some False]\<rparr>
           = Inr (Some True, l'') \<and> kl_inv l''
     \<and> elems l'' = elems \<lparr>kl_size = 1, kl_capacity = 2, kl_mem = [Some False, None]\<rparr>"
proof (rule list_remove_at_insert)
  show "list_insert (\<lambda>_. True) True 0 \<lparr>kl_size = 1, kl_capacity = 2, kl_mem = [Some False, None]\<rparr>
      = Inr \<lparr>kl_size = 2, kl_capacity = 2, kl_mem = [Some True, Some False]\<rparr>"
    by (simp add: list_insert_def grow_if_full_def list_store_def shift_right.simps numeral_2_eq_2)
qed (simp_all add: kl_defs)

text \<open>
   \<open>remove\<close> deletes exactly the first element equal to its argument and leaves the list alone
  when there is none; it never leaves the block, whatever the contents.
\<close>

theorem list_remove_refines:
  assumes "kl_inv l"
  shows "\<exists>l'. list_remove x l = Inr l' \<and> kl_inv l' \<and> elems l' = remove1 x (elems l)"
  using assms by (rule list_remove_correct)

theorem list_remove_refines_witness:
  "\<exists>l'. list_remove (5 :: nat) \<lparr>kl_size = 3, kl_capacity = 4, kl_mem = [Some 4, Some 5, Some 5, None]\<rparr> = Inr l'
     \<and> kl_inv l'
     \<and> elems l' = remove1 5 (elems \<lparr>kl_size = 3, kl_capacity = 4, kl_mem = [Some 4, Some 5, Some 5, None]\<rparr>)"
  by (rule list_remove_refines) (auto simp: kl_defs less_Suc_eq numeral_3_eq_3)

end
