(* ===== verification/KString.thy ===== *)
theory KString
  imports Prelude
begin

unbundle bit_operations_syntax

text \<open>
  The memory and string routines of \<^verbatim>\<open>Kernel/src/kstring.cpp\<close>, over an explicit byte store.  A
  pointer is a natural number (the null pointer is 0; a valid C++ pointer computation never wraps),
  a \<open>size_t\<close> count is its value, \<open>char\<close> is a byte.  Each loop of the source is a recursion with
  the same guard and the same order of accesses.  Loops that only a null byte stops are
  \<^theory_text>\<open>partial_function (option)\<close>: \<open>None\<close> is \<open>does not return\<close>, and the lemmas show that they return
  on null-terminated strings (predicate \<open>cstr\<close>).
\<close>

type_synonym mem = "nat \<Rightarrow> u8"
type_synonym ptr = nat

section \<open>Model\<close>

subsection \<open>Blocks of bytes\<close>

text \<open>\<open>reverse\<close>: \<open>e\<close> is the pointer \<open>end\<close>, \<open>k\<close> the number of rounds left.\<close>

fun reverse_loop :: "mem \<Rightarrow> ptr \<Rightarrow> ptr \<Rightarrow> nat \<Rightarrow> mem" where
  "reverse_loop m str e 0 = m"
| "reverse_loop m str e (Suc k) = reverse_loop (m(e := m str, str := m e)) (str + 1) (e - 1) k"

definition reverse :: "mem \<Rightarrow> ptr \<Rightarrow> nat \<Rightarrow> mem" where
  "reverse m str len = reverse_loop m str (str + len - 1) (len div 2)"

fun memset :: "mem \<Rightarrow> ptr \<Rightarrow> u32 \<Rightarrow> nat \<Rightarrow> mem" where
  "memset m dst c 0 = m"
| "memset m dst c (Suc n) = memset (m(dst := ucast c)) (dst + 1) c n"

text \<open>One aligned machine word is read whole before it is written.\<close>

definition copy_word :: "mem \<Rightarrow> ptr \<Rightarrow> ptr \<Rightarrow> mem" where
  "copy_word m d s = (\<lambda>a. if d \<le> a \<and> a < d + 8 then m (s + (a - d)) else m a)"

fun copy_words :: "mem \<Rightarrow> ptr \<Rightarrow> ptr \<Rightarrow> nat \<Rightarrow> mem \<times> ptr \<times> ptr \<times> nat" where
  "copy_words m d s n =
     (if n \<ge> 8 then copy_words (copy_word m d s) (d + 8) (s + 8) (n - 8) else (m, d, s, n))"

declare copy_words.simps [simp del]

fun copy_bytes :: "mem \<Rightarrow> ptr \<Rightarrow> ptr \<Rightarrow> nat \<Rightarrow> mem" where
  "copy_bytes m d s 0 = m"
| "copy_bytes m d s (Suc n) = copy_bytes (m(d := m s)) (d + 1) (s + 1) n"

definition memcpy :: "mem \<Rightarrow> ptr \<Rightarrow> ptr \<Rightarrow> nat \<Rightarrow> mem \<times> ptr" where
  "memcpy m dest src n =
     (let (m, dest, src, n) =
        (if dest mod 8 = 0 \<and> src mod 8 = 0 then copy_words m dest src n else (m, dest, src, n))
      in (copy_bytes m dest src n, dest))"

fun memcmp :: "mem \<Rightarrow> ptr \<Rightarrow> ptr \<Rightarrow> nat \<Rightarrow> int" where
  "memcmp m a b 0 = 0"
| "memcmp m a b (Suc n) = (if m a \<noteq> m b then uint (m a) - uint (m b) else memcmp m (a + 1) (b + 1) n)"

subsection \<open>Strings\<close>

partial_function (option) strcmp_loop :: "mem \<Rightarrow> ptr \<Rightarrow> ptr \<Rightarrow> nat \<Rightarrow> int option" where
  "strcmp_loop m a b i =
     (if m (a + i) = 0 \<and> m (b + i) = 0 then Some 0
      else if m (a + i) < m (b + i) then Some (- 1)
      else if m (a + i) > m (b + i) then Some 1
      else strcmp_loop m a b (i + 1))"

definition strcmp :: "mem \<Rightarrow> ptr \<Rightarrow> ptr \<Rightarrow> int option" where
  "strcmp m a b = strcmp_loop m a b 0"

fun strncmp_loop :: "mem \<Rightarrow> ptr \<Rightarrow> ptr \<Rightarrow> nat \<Rightarrow> nat \<Rightarrow> int" where
  "strncmp_loop m a b i 0 = 0"
| "strncmp_loop m a b i (Suc k) =
     (if m (a + i) = 0 \<and> m (b + i) = 0 then 0
      else if m (a + i) < m (b + i) then - 1
      else if m (a + i) > m (b + i) then 1
      else strncmp_loop m a b (i + 1) k)"

definition strncmp :: "mem \<Rightarrow> ptr \<Rightarrow> ptr \<Rightarrow> nat \<Rightarrow> int" where
  "strncmp m a b maxlen = strncmp_loop m a b 0 maxlen"

text \<open>
  \<open>strncpy\<close>: when both pointers have the same alignment a byte loop reaches a word boundary, a word
  loop copies words that the test \<open>HASZERO\<close> lets through, and the rest goes through the byte loop
  and \<open>memset\<close>.  \<open>copy_until\<close> is the byte loop with its stop condition \<open>stop\<close> on the source
  pointer; the byte that ends a loop has been written before its guard fails.
\<close>

definition load64 :: "mem \<Rightarrow> ptr \<Rightarrow> u64" where
  "load64 m p = word_of_int (\<Sum>i<8. uint (m (p + i)) * 256 ^ i)"

definition HASZERO :: "u64 \<Rightarrow> u64" where
  "HASZERO x = (x - 0x0101010101010101) AND NOT x AND 0x8080808080808080"

fun copy_until :: "(ptr \<Rightarrow> bool) \<Rightarrow> mem \<Rightarrow> ptr \<Rightarrow> ptr \<Rightarrow> nat \<Rightarrow> mem \<times> ptr \<times> ptr \<times> nat" where
  "copy_until stop m dst src mx =
     (if stop src \<or> mx = 0 then (m, dst, src, mx)
      else let m' = m(dst := m src) in
        if m src = 0 then (m', dst, src, mx)
        else copy_until stop m' (dst + 1) (src + 1) (mx - 1))"

declare copy_until.simps [simp del]

fun copy_nonzero_words :: "mem \<Rightarrow> ptr \<Rightarrow> ptr \<Rightarrow> nat \<Rightarrow> mem \<times> ptr \<times> ptr \<times> nat" where
  "copy_nonzero_words m wd ws mx =
     (if mx \<ge> 8 \<and> HASZERO (load64 m ws) = 0
      then copy_nonzero_words (copy_word m wd ws) (wd + 8) (ws + 8) (mx - 8)
      else (m, wd, ws, mx))"

declare copy_nonzero_words.simps [simp del]

definition strncpy_tail :: "mem \<times> ptr \<times> ptr \<times> nat \<Rightarrow> mem \<times> ptr" where
  "strncpy_tail = (\<lambda>(m, dst, src, mx). (memset m dst 0 mx, dst))"

definition strncpy :: "mem \<Rightarrow> ptr \<Rightarrow> ptr \<Rightarrow> nat \<Rightarrow> mem \<times> ptr" where
  "strncpy m dst src mx =
     (if src mod 8 = dst mod 8
      then let (m, dst, src, mx) = copy_until (\<lambda>s. s mod 8 = 0) m dst src mx in
        if mx = 0 \<or> m src = 0 then strncpy_tail (m, dst, src, mx)
        else let (m, dst, src, mx) = copy_nonzero_words m dst src mx
             in strncpy_tail (copy_until (\<lambda>_. False) m dst src mx)
      else strncpy_tail (copy_until (\<lambda>_. False) m dst src mx))"

fun strnlen_loop :: "mem \<Rightarrow> ptr \<Rightarrow> nat \<Rightarrow> nat \<Rightarrow> nat" where
  "strnlen_loop m str i maxlen =
     (if m (str + i) \<noteq> 0 \<and> maxlen \<noteq> 0 then strnlen_loop m str (i + 1) (maxlen - 1) else i)"

declare strnlen_loop.simps [simp del]

definition strnlen :: "mem \<Rightarrow> ptr \<Rightarrow> nat \<Rightarrow> nat" where
  "strnlen m str maxlen = strnlen_loop m str 0 maxlen"

text \<open>The appending loop of \<open>strncat\<close>: \<open>k\<close> is \<open>max_size - i\<close>.\<close>

fun strncat_loop :: "mem \<Rightarrow> ptr \<Rightarrow> ptr \<Rightarrow> nat \<Rightarrow> mem \<times> ptr" where
  "strncat_loop m d s 0 = (m, d)"
| "strncat_loop m d s (Suc k) =
     (if m s \<noteq> 0 then strncat_loop (m(d := m s)) (d + 1) (s + 1) k else (m, d))"

definition strncat :: "mem \<Rightarrow> ptr \<Rightarrow> ptr \<Rightarrow> nat \<Rightarrow> mem \<times> ptr" where
  "strncat m dest src max_size =
     (let (m', d) = strncat_loop m (dest + strnlen m dest max_size) src max_size
      in (m'(d := 0), dest))"

text \<open>A \<open>char\<close> is signed on this target: \<open>s[i] == c\<close> compares sign-extended values.\<close>

partial_function (option) strchr_loop :: "mem \<Rightarrow> ptr \<Rightarrow> int \<Rightarrow> nat \<Rightarrow> ptr option" where
  "strchr_loop m s c i =
     (if m (s + i) \<noteq> 0 then (if sint (m (s + i)) = c then Some (s + i) else strchr_loop m s c (i + 1))
      else if c = 0 then Some (s + i) else Some 0)"

definition strchr :: "mem \<Rightarrow> ptr \<Rightarrow> int \<Rightarrow> ptr option" where
  "strchr m s c = strchr_loop m s c 0"

partial_function (option) skip_delims :: "mem \<Rightarrow> ptr \<Rightarrow> ptr \<Rightarrow> ptr option" where
  "skip_delims m del tok =
     (if m tok = 0 then Some tok
      else Option.bind (strchr m del (sint (m tok)))
        (\<lambda>r. if r \<noteq> 0 then skip_delims m del (tok + 1) else Some tok))"

partial_function (option) scan_token :: "mem \<Rightarrow> ptr \<Rightarrow> ptr \<Rightarrow> ptr option" where
  "scan_token m del p =
     (if m p = 0 then Some p
      else Option.bind (strchr m del (sint (m p)))
        (\<lambda>r. if r = 0 then scan_token m del (p + 1) else Some p))"

text \<open>
  \<open>strtok_r\<close>: \<open>saved\<close> is \<open>*m\<close> of the source.  The result is the store, the new \<open>*m\<close> and the token
  pointer, the last two with 0 for null.
\<close>

definition strtok_r :: "mem \<Rightarrow> ptr \<Rightarrow> ptr \<Rightarrow> ptr \<Rightarrow> (mem \<times> ptr \<times> ptr) option" where
  "strtok_r m s del saved =
     (if s = 0 \<and> saved = 0 then Some (m, saved, 0)
      else Option.bind (skip_delims m del (if s \<noteq> 0 then s else saved))
        (\<lambda>tok. Option.bind (scan_token m del tok)
          (\<lambda>p. let (m', saved') = (if m p \<noteq> 0 then (m(p := 0), p + 1) else (m, 0))
               in Some (m', saved', if p = tok then 0 else tok))))"

text \<open>\<open>strdup\<close>, with the block that \<open>malloc\<close> returned as an argument (0 for null).\<close>

definition strdup :: "ptr \<Rightarrow> mem \<Rightarrow> ptr \<Rightarrow> mem \<times> ptr" where
  "strdup new_string m s =
     (let num_bytes = strnlen m s 1024 in
      if new_string = 0 then (m, 0)
      else ((fst (memcpy m new_string s num_bytes))(new_string + num_bytes := 0), new_string))"

subsection \<open>Numbers\<close>

definition digit_char :: "nat \<Rightarrow> u8" where
  "digit_char rem = (if rem > 9 then of_nat (rem - 10) + 97 else of_nat rem + 48)"

fun itoa_loop :: "mem \<Rightarrow> ptr \<Rightarrow> nat \<Rightarrow> nat \<Rightarrow> nat \<Rightarrow> mem \<times> nat" where
  "itoa_loop m str base i num =
     (if num \<noteq> 0 \<and> 1 < base
      then itoa_loop (m(str + i := digit_char (num mod base))) str base (i + 1) (num div base)
      else (m, i))"

declare itoa_loop.simps [simp del]

text \<open>
  With base 1 the loop of \<open>itoa\<close> runs for ever and with base 0 it divides by zero: \<open>None\<close>.
\<close>

definition itoa :: "mem \<Rightarrow> u64 \<Rightarrow> ptr \<Rightarrow> nat \<Rightarrow> mem option" where
  "itoa m num str base =
     (if num = 0 then Some (m(str := 48, str + 1 := 0))
      else if base \<le> 1 then None
      else let (m', i) = itoa_loop m str base 0 (unat num)
           in Some (reverse (m'(str + i := 0)) str i))"

fun hex_to_pointer_loop :: "mem \<Rightarrow> ptr \<Rightarrow> nat \<Rightarrow> u64 \<Rightarrow> int \<times> u64" where
  "hex_to_pointer_loop m buffer 0 p = (0, p)"
| "hex_to_pointer_loop m buffer (Suc k) p =
     (if m buffer = 0 then (0, p)
      else let c = m buffer; p = push_bit 4 p in
        if 48 \<le> c \<and> c \<le> 57 then hex_to_pointer_loop m (buffer + 1) k (p OR (ucast (c - 48) AND 15))
        else if 97 \<le> c \<and> c \<le> 102 then hex_to_pointer_loop m (buffer + 1) k (p OR (ucast (c - 97 + 10) AND 15))
        else if 65 \<le> c \<and> c \<le> 70 then hex_to_pointer_loop m (buffer + 1) k (p OR (ucast (c - 65 + 10) AND 15))
        else (1, p))"

definition hex_to_pointer :: "mem \<Rightarrow> ptr \<Rightarrow> nat \<Rightarrow> int \<times> u64" where
  "hex_to_pointer m buffer buffer_size = hex_to_pointer_loop m buffer buffer_size 0"

section \<open>Null-terminated strings\<close>

definition cstr :: "mem \<Rightarrow> ptr \<Rightarrow> u8 list \<Rightarrow> bool" where
  "cstr m p s \<longleftrightarrow> 0 \<notin> set s \<and> (\<forall>i < length s. m (p + i) = s ! i) \<and> m (p + length s) = 0"

lemma cstr_Nil [simp]: "cstr m p [] \<longleftrightarrow> m p = 0"
  by (simp add: cstr_def)

lemma cstr_Cons [simp]: "cstr m p (c # s) \<longleftrightarrow> c \<noteq> 0 \<and> m p = c \<and> cstr m (p + 1) s"
  by (auto simp: cstr_def All_less_Suc2)

lemma cstr_nonzero: "cstr m p s \<Longrightarrow> i < length s \<Longrightarrow> m (p + i) = s ! i \<and> s ! i \<noteq> 0"
  by (metis cstr_def nth_mem)

lemma cstr_end: "cstr m p s \<Longrightarrow> m (p + length s) = 0"
  by (simp add: cstr_def)

lemma cstr_unique: "cstr m p s \<Longrightarrow> cstr m p t \<Longrightarrow> s = t"
proof (induction s arbitrary: p t)
  case Nil
  then show ?case by (cases t) auto
next
  case (Cons c s)
  then show ?case by (cases t) auto
qed

lemma cstr_frame:
  "cstr m p s \<Longrightarrow> (\<And>a. p \<le> a \<Longrightarrow> a \<le> p + length s \<Longrightarrow> m' a = m a) \<Longrightarrow> cstr m' p s"
  by (auto simp: cstr_def)

subsection \<open>Length and comparison\<close>

lemma strnlen_loop_cstr:
  "cstr m (p + i) s \<Longrightarrow> strnlen_loop m p i n = i + min (length s) n"
proof (induction s arbitrary: i n)
  case Nil
  then show ?case by (subst strnlen_loop.simps) simp
next
  case (Cons c s)
  then show ?case by (cases n) (subst strnlen_loop.simps, simp)+
qed

fun compare_bytes :: "u8 list \<Rightarrow> u8 list \<Rightarrow> int" where
  "compare_bytes [] [] = 0"
| "compare_bytes [] (y # ys) = - 1"
| "compare_bytes (x # xs) [] = 1"
| "compare_bytes (x # xs) (y # ys) = (if x < y then - 1 else if y < x then 1 else compare_bytes xs ys)"

lemma compare_bytes_0_iff: "compare_bytes s t = 0 \<longleftrightarrow> s = t"
  by (induction s t rule: compare_bytes.induct) auto

lemma word8_gt_0 [simp]: "(x :: u8) \<noteq> 0 \<Longrightarrow> 0 < x"
  by (simp add: word_neq_0_conv)

lemma strcmp_loop_cstr:
  "cstr m (a + i) s \<Longrightarrow> cstr m (b + i) t \<Longrightarrow> strcmp_loop m a b i = Some (compare_bytes s t)"
proof (induction s t arbitrary: i rule: compare_bytes.induct)
  case (4 x xs y ys)
  then show ?case by (subst strcmp_loop.simps) auto
qed (subst strcmp_loop.simps, auto)+

lemma strncmp_loop_cstr:
  "cstr m (a + i) s \<Longrightarrow> cstr m (b + i) t \<Longrightarrow>
   strncmp_loop m a b i n = compare_bytes (take n s) (take n t)"
proof (induction s t arbitrary: i n rule: compare_bytes.induct)
  case (1 i n) then show ?case by (cases n) auto
next
  case (2 y ys) then show ?case by (cases n) auto
next
  case (3 x xs) then show ?case by (cases n) auto
next
  case (4 x xs y ys) then show ?case by (cases n) auto
qed

lemma strnlen_cstr: "cstr m p s \<Longrightarrow> strnlen m p n = min (length s) n"
  using strnlen_loop_cstr [of m p 0] by (simp add: strnlen_def)

lemma strcmp_cstr: "cstr m a s \<Longrightarrow> cstr m b t \<Longrightarrow> strcmp m a b = Some (compare_bytes s t)"
  using strcmp_loop_cstr [of m a 0 s b t] by (simp add: strcmp_def)

lemma strncmp_cstr:
  "cstr m a s \<Longrightarrow> cstr m b t \<Longrightarrow> strncmp m a b n = compare_bytes (take n s) (take n t)"
  using strncmp_loop_cstr [of m a 0 s b t] by (simp add: strncmp_def)

subsection \<open>Search\<close>

lemma sint_eq_iff8 [simp]: "sint (x :: u8) = sint y \<longleftrightarrow> x = y"
  by (simp add: signed_word_eqI inj_eq)

lemma sint_0_iff8 [simp]: "sint (x :: u8) = 0 \<longleftrightarrow> x = 0"
  by (metis sint_0 sint_eq_iff8)

lemma strchr_loop_cstr:
  "cstr m (p + i) s \<Longrightarrow> c \<noteq> 0 \<Longrightarrow>
   strchr_loop m p (sint (c :: u8)) i =
     Some (if c \<in> set s then p + i + length (takeWhile (\<lambda>x. x \<noteq> c) s) else 0)"
proof (induction s arbitrary: i)
  case Nil
  then show ?case by (subst strchr_loop.simps) simp
next
  case (Cons x s)
  then show ?case by (subst strchr_loop.simps) (auto simp: ac_simps)
qed

lemma strchr_cstr:
  "cstr m p s \<Longrightarrow> c \<noteq> 0 \<Longrightarrow>
   strchr m p (sint (c :: u8)) = Some (if c \<in> set s then p + length (takeWhile (\<lambda>x. x \<noteq> c) s) else 0)"
  using strchr_loop_cstr [of m p 0 s c] by (simp add: strchr_def)

lemma strchr_member:
  "cstr m p s \<Longrightarrow> 0 < p \<Longrightarrow> c \<noteq> 0 \<Longrightarrow>
   \<exists>r. strchr m p (sint (c :: u8)) = Some r \<and> (r \<noteq> 0 \<longleftrightarrow> c \<in> set s)"
  by (simp add: strchr_cstr)

subsection \<open>Tokens\<close>

lemma skip_delims_cstr:
  assumes "cstr m del ds" "0 < del"
  shows "cstr m tok s \<Longrightarrow>
    skip_delims m del tok = Some (tok + length (takeWhile (\<lambda>c. c \<in> set ds) s))"
proof (induction s arbitrary: tok)
  case Nil
  then show ?case by (subst skip_delims.simps) simp
next
  case (Cons c s)
  then obtain r where "strchr m del (sint c) = Some r" "r \<noteq> 0 \<longleftrightarrow> c \<in> set ds"
    using strchr_member [OF assms, of c] by auto
  with Cons show ?case by (subst skip_delims.simps) auto
qed

lemma scan_token_cstr:
  assumes "cstr m del ds" "0 < del"
  shows "cstr m p s \<Longrightarrow> scan_token m del p = Some (p + length (takeWhile (\<lambda>c. c \<notin> set ds) s))"
proof (induction s arbitrary: p)
  case Nil
  then show ?case by (subst scan_token.simps) simp
next
  case (Cons c s)
  then obtain r where "strchr m del (sint c) = Some r" "r \<noteq> 0 \<longleftrightarrow> c \<in> set ds"
    using strchr_member [OF assms, of c] by auto
  with Cons show ?case by (subst scan_token.simps) auto
qed

lemma cstr_append: "cstr m p (s @ t) \<longleftrightarrow> 0 \<notin> set s \<and> (\<forall>i < length s. m (p + i) = s ! i) \<and> cstr m (p + length s) t"
  by (induction s arbitrary: p) (auto simp: All_less_Suc2)

lemma cstr_cut:
  assumes "cstr m p (s @ c # t)"
  shows "cstr (m(p + length s := 0)) p s \<and> cstr (m(p + length s := 0)) (p + length s + 1) t"
  using assms by (auto simp: cstr_append) (auto simp: cstr_def)

lemma strtok_r_spec:
  assumes del: "cstr m del ds" "0 < del" and s: "cstr m s str" "0 < s"
  defines "rest \<equiv> dropWhile (\<lambda>c. c \<in> set ds) str"
  defines "tok \<equiv> takeWhile (\<lambda>c. c \<notin> set ds) rest"
  defines "p \<equiv> s + (length str - length rest)"
  shows "case drop (length tok) rest of
      [] \<Rightarrow> strtok_r m s del saved = Some (m, 0, if tok = [] then 0 else p) \<and> cstr m p tok
    | c # after \<Rightarrow> \<exists>m'. strtok_r m s del saved = Some (m', p + length tok + 1, p) \<and> tok \<noteq> []
        \<and> cstr m' p tok \<and> cstr m' (p + length tok + 1) after
        \<and> (\<forall>a. a \<noteq> p + length tok \<longrightarrow> m' a = m a)"
proof -
  have str: "str = takeWhile (\<lambda>c. c \<in> set ds) str @ rest" by (simp add: rest_def)
  then have len: "length str - length rest = length (takeWhile (\<lambda>c. c \<in> set ds) str)"
    by (metis add_diff_cancel_right' length_append)
  have rest: "cstr m p rest" using s(1) str cstr_append by (metis p_def len)
  have eqs: "skip_delims m del s = Some p" "scan_token m del p = Some (p + length tok)"
    using skip_delims_cstr [OF del s(1)] scan_token_cstr [OF del rest] by (simp_all add: p_def len tok_def)
  have split: "rest = tok @ drop (length tok) rest" by (metis takeWhile_eq_take append_take_drop_id tok_def)
  show ?thesis
  proof (cases "drop (length tok) rest")
    case Nil
    then have "rest = tok" using split by simp
    then show ?thesis using rest eqs s(2) Nil cstr_end [OF rest] by (simp add: strtok_r_def Let_def)
  next
    case (Cons c after)
    then have r: "cstr m p (tok @ c # after)" using rest split by simp
    have "tok \<noteq> []"
    proof
      assume "tok = []"
      then have "rest = c # after" using Cons by simp
      moreover have "rest = [] \<or> hd rest \<in> set ds"
        using \<open>tok = []\<close> by (simp add: tok_def takeWhile_eq_Nil_iff)
      ultimately show False using hd_dropWhile [of "\<lambda>c. c \<in> set ds" str] by (simp add: rest_def)
    qed
    moreover have "m (p + length tok) \<noteq> 0" using r by (simp add: cstr_append)
    ultimately show ?thesis
      using Cons eqs s(2) cstr_cut [OF r] by (simp add: strtok_r_def Let_def)
  qed
qed

text \<open>
  \<open>strtok_r\<close> returns one token: with the delimiters skipped it is the longest prefix free of
  delimiters, null-terminated in place; the saved pointer denotes exactly the text after the
  delimiter that ended it, or is null when the string is used up; and when only delimiters were left
  there is no token and nothing is written.
\<close>

theorem strtok_r_token:
  assumes del: "cstr m del ds" "0 < del" and s: "cstr m s str" "0 < s"
  defines "rest \<equiv> dropWhile (\<lambda>c. c \<in> set ds) str"
  defines "tok \<equiv> takeWhile (\<lambda>c. c \<notin> set ds) rest"
  defines "p \<equiv> s + (length str - length rest)"
  shows "case drop (length tok) rest of
      [] \<Rightarrow> strtok_r m s del saved = Some (m, 0, if tok = [] then 0 else p) \<and> cstr m p tok
    | c # after \<Rightarrow> \<exists>m'. strtok_r m s del saved = Some (m', p + length tok + 1, p) \<and> tok \<noteq> []
        \<and> cstr m' p tok \<and> cstr m' (p + length tok + 1) after
        \<and> (\<forall>a. a \<noteq> p + length tok \<longrightarrow> m' a = m a)"
  unfolding rest_def tok_def p_def by (rule strtok_r_spec [OF del s])

lemma strtok_r_token_witness:
  "\<exists>m'. strtok_r ((\<lambda>_. 0)(1 := 47, 2 := 98, 3 := 105, 4 := 47, 5 := 120, 9 := 47)) 1 9 0 = Some (m', 5, 2)
     \<and> cstr m' 2 [98, 105]"
  \<comment> \<open>the path \<open>/bi/x\<close> at address 1, split at \<open>/\<close>\<close>
proof -
  let ?m = "((\<lambda>_. 0) :: mem)(1 := 47, 2 := 98, 3 := 105, 4 := 47, 5 := 120, 9 := 47)"
  have "cstr ?m 9 [47]" "cstr ?m 1 [47, 98, 105, 47, 120]" by simp_all
  from strtok_r_token [OF this(1) _ this(2), of 0]
  have "\<exists>m'. strtok_r ?m (Suc 0) 9 0 = Some (m', Suc (Suc (Suc (Suc (Suc 0)))), Suc (Suc 0))
      \<and> cstr m' (Suc (Suc 0)) [98, 105]" by auto
  moreover have "Suc (Suc (Suc (Suc (Suc 0)))) = 5" "Suc (Suc 0) = 2" by simp_all
  ultimately show ?thesis by (simp only: One_nat_def)
qed

section \<open>Block operations\<close>

definition moved :: "mem \<Rightarrow> ptr \<Rightarrow> ptr \<Rightarrow> nat \<Rightarrow> mem" where
  "moved m d s n = (\<lambda>a. if d \<le> a \<and> a < d + n then m (s + (a - d)) else m a)"

text \<open>Ranges that do not overlap, and ranges a copy in increasing order of addresses moves correctly.\<close>

definition disjoint :: "ptr \<Rightarrow> ptr \<Rightarrow> nat \<Rightarrow> bool" where
  "disjoint d s n \<longleftrightarrow> d + n \<le> s \<or> s + n \<le> d"

definition forward :: "ptr \<Rightarrow> ptr \<Rightarrow> nat \<Rightarrow> bool" where
  "forward d s n \<longleftrightarrow> d \<le> s \<or> s + n \<le> d"

lemma disjoint_forward: "disjoint d s n \<Longrightarrow> forward d s n"
  by (auto simp: disjoint_def forward_def)

lemma moved_0 [simp]: "moved m d s 0 = m"
  by (auto simp: moved_def fun_eq_iff)

lemma moved_compose:
  assumes "forward d s n" "k \<le> n"
  shows "moved (moved m d s k) (d + k) (s + k) (n - k) = moved m d s n"
  using assms by (auto simp: moved_def forward_def fun_eq_iff)

lemma copy_bytes_moved: "forward d s n \<Longrightarrow> copy_bytes m d s n = moved m d s n"
proof (induction n arbitrary: m d s)
  case (Suc n)
  have "forward (d + 1) (s + 1) n" using Suc.prems by (auto simp: forward_def)
  moreover have "m(d := m s) = moved m d s 1" by (auto simp: moved_def)
  ultimately show ?case using Suc.IH moved_compose [OF Suc.prems, of 1 m] by simp
qed simp

lemma copy_words_moved:
  "forward d s n \<Longrightarrow>
   copy_words m d s n = (moved m d s (n - n mod 8), d + (n - n mod 8), s + (n - n mod 8), n mod 8)"
proof (induction m d s n rule: copy_words.induct)
  case (1 m d s n)
  show ?case
  proof (cases "n \<ge> 8")
    case True
    have disj: "forward (d + 8) (s + 8) (n - 8)" "forward d s (n - n mod 8)"
      using "1.prems" True by (auto simp: forward_def)
    have mod: "(n - 8) mod 8 = n mod 8" using True by (simp add: mod_if)
    have le: "8 \<le> n - n mod 8"
      using True by (metis div_greater_zero_iff minus_mod_eq_mult_div mult.commute mult_le_mono2
          nat_mult_1_right numeral_eq_Suc zero_less_Suc Suc_leI One_nat_def)
    have "copy_word m d s = moved m d s 8" by (simp add: copy_word_def moved_def)
    then have "moved (copy_word m d s) (d + 8) (s + 8) (n - 8 - n mod 8) = moved m d s (n - n mod 8)"
      using moved_compose [OF disj(2) le, of m] by (simp add: add.commute)
    then show ?thesis
      using "1.IH" [OF True disj(1)] True le mod by (subst copy_words.simps) simp
  next
    case False
    then show ?thesis by (subst copy_words.simps) simp
  qed
qed

lemma memset_eq: "memset m d c n = (\<lambda>a. if d \<le> a \<and> a < d + n then ucast c else m a)"
  by (induction n arbitrary: m d) (auto simp: fun_eq_iff)

lemma reverse_loop_eq:
  "k = (e + 1 - str) div 2 \<Longrightarrow>
   reverse_loop m str e k = (\<lambda>a. if str \<le> a \<and> a \<le> e then m (str + e - a) else m a)"
proof (induction k arbitrary: m str e)
  case 0
  then have "e \<le> str" by (auto simp: div_eq_0_iff)
  then show ?case by (auto simp: fun_eq_iff intro!: arg_cong [of _ _ m])
next
  case (Suc k)
  then have se: "str < e" by (auto simp: not_less dest: Suc_inject)
  then have "k = (e - 1 + 1 - (str + 1)) div 2" using Suc.prems by simp
  from Suc.IH [OF this] se show ?case by (auto simp: fun_eq_iff intro!: arg_cong [of _ _ m])
qed

lemma reverse_eq:
  "reverse m str n = (\<lambda>a. if str \<le> a \<and> a < str + n then m (str + (n - 1 - (a - str))) else m a)"
proof (cases n)
  case (Suc k)
  then have "reverse m str n = (\<lambda>a. if str \<le> a \<and> a \<le> str + k then m (str + (str + k) - a) else m a)"
    using reverse_loop_eq [of "n div 2" "str + k" str m] by (simp add: reverse_def)
  with Suc show ?thesis by (auto simp: fun_eq_iff intro!: arg_cong [of _ _ m])
qed (auto simp: reverse_def fun_eq_iff)

lemma memcpy_moved:
  assumes "forward dest src n"
  shows "fst (memcpy m dest src n) = moved m dest src n"
proof (cases "dest mod 8 = 0 \<and> src mod 8 = 0")
  case True
  let ?k = "n - n mod 8"
  have "forward (dest + ?k) (src + ?k) (n mod 8)"
    using assms by (auto simp: forward_def)
  then have "copy_bytes (moved m dest src ?k) (dest + ?k) (src + ?k) (n mod 8)
      = moved (moved m dest src ?k) (dest + ?k) (src + ?k) (n - ?k)"
    by (simp add: copy_bytes_moved)
  also have "\<dots> = moved m dest src n"
    using moved_compose [OF assms, of ?k m] by simp
  finally show ?thesis using True assms by (simp add: memcpy_def copy_words_moved)
next
  case False
  then show ?thesis using assms by (auto simp: memcpy_def copy_bytes_moved)
qed

text \<open>
  \<open>memcpy\<close> with its word loop moves exactly the \<open>n\<close> bytes, also between buffers that overlap as long as the
  destination starts first; the pointer
  it returns is the destination only when the word loop was not taken: with both pointers aligned it is the
  destination advanced by the whole words.
\<close>

theorem memcpy_correct:
  assumes "forward dest src n"
  shows "memcpy m dest src n =
    (moved m dest src n, if dest mod 8 = 0 \<and> src mod 8 = 0 then dest + (n - n mod 8) else dest)"
proof (rule prod_eqI)
  show "snd (memcpy m dest src n)
      = snd (moved m dest src n, if dest mod 8 = 0 \<and> src mod 8 = 0 then dest + (n - n mod 8) else dest)"
    using assms by (simp add: memcpy_def copy_words_moved)
qed (simp add: memcpy_moved [OF assms])

lemma memcpy_correct_witness:
  "forward 64 72 (11 :: nat) \<and> snd (memcpy (\<lambda>a. of_nat a) 64 72 11) = 72
     \<and> fst (memcpy (\<lambda>a. of_nat a) 64 72 11) 70 = 78"
  using memcpy_correct [of 64 72 11 "\<lambda>a. of_nat a"] by (simp add: forward_def moved_def)

subsection \<open>The word test of strncpy\<close>

lemma sum_bytes_split:
  fixes f :: "nat \<Rightarrow> int"
  shows "(\<Sum>j < i + Suc n. f j * 256 ^ j)
    = (\<Sum>j<i. f j * 256 ^ j) + f i * 256 ^ i + 256 ^ Suc i * (\<Sum>j<n. f (Suc (i + j)) * 256 ^ j)"
  by (induction n) (simp_all add: algebra_simps power_add)

lemma sum_bytes_bound:
  fixes f :: "nat \<Rightarrow> int"
  assumes "\<forall>j<i. 0 \<le> f j \<and> f j \<le> 255"
  shows "0 \<le> (\<Sum>j<i. f j * 256 ^ j) \<and> (\<Sum>j<i. f j * 256 ^ j) < 256 ^ i"
  using assms
proof (induction i)
  case (Suc i)
  have top: "0 \<le> f i * 256 ^ i" "f i * 256 ^ i \<le> 255 * 256 ^ i" using Suc.prems by auto
  have "0 \<le> (\<Sum>j<i. f j * 256 ^ j)" "(\<Sum>j<i. f j * 256 ^ j) < 256 ^ i" using Suc by auto
  with top show ?case unfolding sum.lessThan_Suc power_Suc by linarith
qed simp

lemma bit_top_of_byte:
  fixes A c H :: int
  assumes "0 \<le> A" "A < 256 ^ i"
  shows "bit (A + c * 256 ^ i + 256 ^ Suc i * H) (8 * i + 7) \<longleftrightarrow> odd (c div 128)"
proof -
  have "(A + c * 256 ^ i + 256 ^ Suc i * H) div 256 ^ i = (A + 256 ^ i * (c + 256 * H)) div 256 ^ i"
    by (simp add: algebra_simps)
  also have "\<dots> = c + 256 * H" using assms by (subst div_mult_self2) (auto simp: div_pos_pos_trivial)
  finally have "(A + c * 256 ^ i + 256 ^ Suc i * H) div (256 ^ i * 128) = (c + 256 * H) div 128"
    using zdiv_zmult2_eq [of 128 "A + c * 256 ^ i + 256 ^ Suc i * H" "256 ^ i"] by simp
  moreover have "(2 :: int) ^ (8 * i + 7) = 256 ^ i * 128" by (simp add: power_add power_mult)
  moreover have "(c + 256 * H) div 128 = c div 128 + 2 * H"
    using div_mult_self2 [of 128 c "2 * H"] by (simp add: algebra_simps)
  ultimately show ?thesis by (simp add: bit_iff_odd)
qed

lemma HASZERO_zero_byte:
  assumes i: "i < 8" "m (p + i) = 0" and first: "\<forall>j<i. m (p + j) \<noteq> 0"
  shows "bit (HASZERO (load64 m p)) (8 * i + 7)"
proof -
  let ?b = "\<lambda>j. uint (m (p + j))" and ?V = "\<Sum>j<8. uint (m (p + j)) * 256 ^ j"
  obtain n where n: "8 = i + Suc n" using i(1) less_iff_Suc_add by (metis add_Suc_right)
  have byte: "0 \<le> ?b j" "?b j \<le> 255" for j
    using uint_lt2p [of "m (p + j)"] by auto
  have pos: "1 \<le> ?b j" if "j < i" for j
    using first that by (metis byte(1) uint_0_iff int_one_le_iff_zero_less le_less)
  have "(\<Sum>j<8. 256 ^ j) = (0x0101010101010101 :: int)"
    by (simp add: numeral_eq_Suc)
  then have "?V - 0x0101010101010101 = (\<Sum>j<8. (?b j - 1) * 256 ^ j)"
    by (simp add: left_diff_distrib sum_subtractf)
  then have V1: "?V - 0x0101010101010101 = (\<Sum>j < i + Suc n. (?b j - 1) * 256 ^ j)"
    unfolding n .
  have "0 \<le> ?b j - 1 \<and> ?b j - 1 \<le> 255" if "j < i" for j
    using pos [OF that] byte [of j] by linarith
  then have "bit (?V - 0x0101010101010101) (8 * i + 7)"
    using sum_bytes_bound [of i "\<lambda>j. ?b j - 1"] i(2)
    by (subst V1, subst sum_bytes_split) (subst bit_top_of_byte, auto)
  moreover have "\<not> bit ?V (8 * i + 7)"
    using sum_bytes_bound [of i ?b] byte i(2)
    by (subst n, subst sum_bytes_split) (subst bit_top_of_byte, auto)
  moreover have "load64 m p - 0x0101010101010101 = word_of_int (?V - 0x0101010101010101)"
    by (simp add: load64_def)
  ultimately have "bit (load64 m p - 0x0101010101010101) (8 * i + 7)" "\<not> bit (load64 m p) (8 * i + 7)"
    using i(1) by (simp_all only: load64_def bit_word_of_int_iff) simp_all
  moreover have "bit (0x8080808080808080 :: u64) (8 * i + 7)"
    using i(1) by (auto simp: less_Suc_eq numeral_eq_Suc bit_numeral_rec)
  ultimately show ?thesis
    using i(1) by (simp add: HASZERO_def bit_simps)
qed

lemma HASZERO_0_nonzero:
  assumes "HASZERO (load64 m p) = 0"
  shows "\<forall>i<8. m (p + i) \<noteq> 0"
proof (rule ccontr)
  assume "\<not> (\<forall>i<8. m (p + i) \<noteq> 0)"
  then obtain i where "i < 8 \<and> m (p + i) = 0" "\<forall>j<i. \<not> (j < 8 \<and> m (p + j) = 0)"
    using exists_least_iff [of "\<lambda>i. i < 8 \<and> m (p + i) = 0"] by auto
  then have "bit (HASZERO (load64 m p)) (8 * i + 7)" by (intro HASZERO_zero_byte) auto
  then show False using assms by simp
qed

subsection \<open>strncpy against its specification\<close>

definition ncopied :: "mem \<Rightarrow> ptr \<Rightarrow> ptr \<Rightarrow> nat \<Rightarrow> mem" where
  "ncopied m d s n = (\<lambda>a. if d \<le> a \<and> a < d + n
      then (if \<forall>j \<le> a - d. m (s + j) \<noteq> 0 then m (s + (a - d)) else 0) else m a)"

lemma moved_source: "disjoint d s n \<Longrightarrow> k \<le> n \<Longrightarrow> j < n \<Longrightarrow> moved m d s k (s + j) = m (s + j)"
  by (auto simp: moved_def disjoint_def)

lemma ncopied_prefix:
  assumes "disjoint d s n" "k \<le> n" and nz: "\<forall>j<k. m (s + j) \<noteq> 0"
  shows "ncopied (moved m d s k) (d + k) (s + k) (n - k) = ncopied m d s n"
proof
  fix a
  have source: "moved m d s k (s + (k + j)) = m (s + (k + j))" if "k + j < n" for j
    using moved_source [OF assms(1,2) that] .
  have split: "(\<forall>j \<le> a - d. m (s + j) \<noteq> 0) \<longleftrightarrow> (\<forall>j \<le> a - (d + k). m (s + (k + j)) \<noteq> 0)"
    if "d + k \<le> a"
  proof
    assume all: "\<forall>j \<le> a - (d + k). m (s + (k + j)) \<noteq> 0"
    show "\<forall>j \<le> a - d. m (s + j) \<noteq> 0"
    proof (intro allI impI)
      fix j
      assume "j \<le> a - d"
      then show "m (s + j) \<noteq> 0" using nz all [rule_format, of "j - k"] that by (cases "j < k") auto
    qed
  qed (use that in auto)
  show "ncopied (moved m d s k) (d + k) (s + k) (n - k) a = ncopied m d s n a"
  proof (cases "d + k \<le> a \<and> a < d + n")
    case True
    then obtain e where "a = d + k + e" using le_Suc_ex by blast
    with True split show ?thesis
      using source [of e] source assms(2) by (auto simp: ncopied_def add.assoc add.left_commute)
  next
    case False
    then show ?thesis
      using assms nz by (auto simp: ncopied_def moved_def)
  qed
qed

lemma copy_until_eq:
  assumes "disjoint d s n"
  shows "\<exists>k \<le> n. (\<forall>j<k. m (s + j) \<noteq> 0) \<and>
    (copy_until stop m d s n = (moved m d s k, d + k, s + k, n - k) \<and> (stop (s + k) \<or> k = n)
     \<or> k < n \<and> m (s + k) = 0
       \<and> copy_until stop m d s n = ((moved m d s k)(d + k := 0), d + k, s + k, n - k))"
  using assms
proof (induction n arbitrary: m d s)
  case 0
  show ?case by (subst copy_until.simps) simp
next
  case (Suc n)
  show ?case
  proof (cases "stop s \<or> m s = 0")
    case True
    then show ?thesis
      by (intro exI [of _ 0], subst (1 2) copy_until.simps) (auto simp: Let_def)
  next
    case False
    let ?m = "moved m d s 1"
    have upd: "m(d := m s) = ?m" by (auto simp: moved_def)
    have "disjoint (d + 1) (s + 1) n" using Suc.prems by (auto simp: disjoint_def)
    from Suc.IH [OF this, of ?m] obtain k where k: "k \<le> n" "\<forall>j<k. ?m (s + 1 + j) \<noteq> 0"
      "copy_until stop ?m (d + 1) (s + 1) n = (moved ?m (d + 1) (s + 1) k, d + 1 + k, s + 1 + k, n - k)
         \<and> (stop (s + 1 + k) \<or> k = n)
       \<or> k < n \<and> ?m (s + 1 + k) = 0 \<and> copy_until stop ?m (d + 1) (s + 1) n
           = ((moved ?m (d + 1) (s + 1) k)(d + 1 + k := 0), d + 1 + k, s + 1 + k, n - k)"
      by blast
    have src: "?m (s + 1 + j) = m (s + 1 + j)" if "j < n" for j
      using moved_source [OF Suc.prems, of 1 "Suc j"] that by simp
    have comp: "moved ?m (d + 1) (s + 1) k = moved m d s (Suc k)"
      using moved_compose [of d s "Suc k" 1 m] Suc.prems k(1) by (auto simp: disjoint_def forward_def)
    have step: "copy_until stop m d s (Suc n) = copy_until stop ?m (d + 1) (s + 1) n"
      using False by (subst copy_until.simps) (simp add: Let_def upd [simplified])
    have nz: "\<forall>j<Suc k. m (s + j) \<noteq> 0"
      using k(1,2) False src by (auto simp: less_Suc_eq_0_disj)
    show ?thesis
      using k(1,3) nz src [of k] by (intro exI [of _ "Suc k"]) (auto simp: step comp [simplified] fun_upd_def)
  qed
qed

lemma copy_nonzero_words_eq:
  assumes "disjoint d s n"
  shows "\<exists>k \<le> n. (\<forall>j<k. m (s + j) \<noteq> 0)
           \<and> copy_nonzero_words m d s n = (moved m d s k, d + k, s + k, n - k)"
  using assms
proof (induction n arbitrary: m d s rule: less_induct)
  case (less n)
  show ?case
  proof (cases "n \<ge> 8 \<and> HASZERO (load64 m s) = 0")
    case True
    let ?m = "moved m d s 8"
    have upd: "copy_word m d s = ?m" by (simp add: copy_word_def moved_def)
    have "n - 8 < n" using True by simp
    moreover have "disjoint (d + 8) (s + 8) (n - 8)" using less.prems True by (auto simp: disjoint_def)
    ultimately obtain k where k: "k \<le> n - 8" "\<forall>j<k. ?m (s + 8 + j) \<noteq> 0"
        "copy_nonzero_words ?m (d + 8) (s + 8) (n - 8)
           = (moved ?m (d + 8) (s + 8) k, d + 8 + k, s + 8 + k, n - 8 - k)"
      using less.IH by blast
    have "m (s + j) \<noteq> 0" if "j < 8 + k" for j
    proof (cases "j < 8")
      case False
      then show ?thesis
        using k(2) [rule_format, of "j - 8"] that True k(1)
          moved_source [OF less.prems, of 8 j m] by simp
    qed (use True HASZERO_0_nonzero in blast)
    moreover have "moved ?m (d + 8) (s + 8) k = moved m d s (8 + k)"
      using moved_compose [of d s "8 + k" 8 m] less.prems k(1) True by (auto simp: disjoint_def forward_def)
    moreover have "copy_nonzero_words m d s n = copy_nonzero_words ?m (d + 8) (s + 8) (n - 8)"
      using True by (subst copy_nonzero_words.simps) (simp add: upd)
    ultimately show ?thesis using k(1,3) True by (intro exI [of _ "8 + k"]) auto
  next
    case False
    then show ?thesis by (intro exI [of _ 0], subst copy_nonzero_words.simps) auto
  qed
qed

lemma tail_of_copy:
  assumes "disjoint d s n" "k < n" "\<forall>j<k. m (s + j) \<noteq> 0" "m (s + k) = 0"
    "m' = moved m d s k \<or> m' = (moved m d s k)(d + k := 0)"
  shows "memset m' (d + k) 0 (n - k) = ncopied m d s n"
proof
  fix a
  have "\<forall>j \<le> a - d. m (s + j) \<noteq> 0" if "a < d + k" "d \<le> a"
    using assms(3) that by auto
  moreover have "\<exists>j \<le> a - d. m (s + j) = 0" if "d + k \<le> a"
    using assms(4) that by (intro exI [of _ k]) auto
  ultimately show "memset m' (d + k) 0 (n - k) a = ncopied m d s n a"
    using assms(2,5) by (auto simp: memset_eq ncopied_def moved_def)
qed

lemma plain_copy:
  assumes "disjoint d s n"
  shows "fst (strncpy_tail (copy_until (\<lambda>_. False) m d s n)) = ncopied m d s n"
proof -
  obtain k where k: "k \<le> n" "\<forall>j<k. m (s + j) \<noteq> 0" and alt:
     "copy_until (\<lambda>_. False) m d s n = (moved m d s k, d + k, s + k, n - k) \<and> k = n
      \<or> k < n \<and> m (s + k) = 0
        \<and> copy_until (\<lambda>_. False) m d s n = ((moved m d s k)(d + k := 0), d + k, s + k, n - k)"
    using copy_until_eq [OF assms, of m "\<lambda>_. False"] by auto
  from alt show ?thesis
  proof
    assume "k < n \<and> m (s + k) = 0
        \<and> copy_until (\<lambda>_. False) m d s n = ((moved m d s k)(d + k := 0), d + k, s + k, n - k)"
    then show ?thesis using tail_of_copy [OF assms _ k(2)] by (simp add: strncpy_tail_def)
  next
    assume "copy_until (\<lambda>_. False) m d s n = (moved m d s k, d + k, s + k, n - k) \<and> k = n"
    then show ?thesis
      using k(2) by (auto simp: strncpy_tail_def ncopied_def moved_def fun_eq_iff)
  qed
qed

text \<open>
  \<open>strncpy\<close>'s word-at-a-time copy is the textbook bounded copy: for non-overlapping buffers of
  any alignment, every one of the \<open>mx\<close> destination bytes is the source byte if no null byte precedes
  or equals it and 0 otherwise, and no other byte changes.  In particular the \<open>HASZERO\<close> trick never
  lets a word with a null byte through.
\<close>

theorem strncpy_eq_bytewise:
  assumes "disjoint dst src mx"
  shows "fst (strncpy m dst src mx) = ncopied m dst src mx"
proof (cases "src mod 8 = dst mod 8")
  case True
  obtain k where k: "k \<le> mx" "\<forall>j<k. m (src + j) \<noteq> 0" and alt:
     "copy_until (\<lambda>s. s mod 8 = 0) m dst src mx = (moved m dst src k, dst + k, src + k, mx - k)
      \<or> k < mx \<and> m (src + k) = 0 \<and> copy_until (\<lambda>s. s mod 8 = 0) m dst src mx
          = ((moved m dst src k)(dst + k := 0), dst + k, src + k, mx - k)"
    using copy_until_eq [OF assms, of m "\<lambda>s. s mod 8 = 0"] by blast
  have disj: "disjoint (dst + k) (src + k) (mx - k)" using assms k(1) by (auto simp: disjoint_def)
  have src_k: "moved m dst src k (src + k) = m (src + k)" if "k < mx"
    using moved_source [OF assms k(1) that] .
  from alt show ?thesis
  proof
    assume c: "copy_until (\<lambda>s. s mod 8 = 0) m dst src mx = (moved m dst src k, dst + k, src + k, mx - k)"
    let ?m = "moved m dst src k"
    obtain l where l: "l \<le> mx - k" "\<forall>j<l. ?m (src + k + j) \<noteq> 0" "copy_nonzero_words ?m (dst + k) (src + k) (mx - k)
        = (moved ?m (dst + k) (src + k) l, dst + k + l, src + k + l, mx - k - l)"
      using copy_nonzero_words_eq [OF disj] by blast
    have "disjoint (dst + k + l) (src + k + l) (mx - k - l)"
      using disj l(1) by (auto simp: disjoint_def)
    then have rest: "fst (strncpy_tail (copy_until (\<lambda>_. False) (moved ?m (dst + k) (src + k) l)
        (dst + k + l) (src + k + l) (mx - k - l))) = ncopied m dst src mx"
      using plain_copy ncopied_prefix [OF disj l(1,2)] ncopied_prefix [OF assms k] by simp
    have "memset ?m (dst + k) 0 (mx - k) = ncopied m dst src mx" if "mx = k \<or> ?m (src + k) = 0"
    proof (cases "k = mx")
      case True
      then show ?thesis using k(2) by (auto simp: ncopied_def moved_def fun_eq_iff)
    next
      case False
      then show ?thesis using that src_k k tail_of_copy [OF assms _ k(2)] by simp
    qed
    then show ?thesis
      using True c l(3) rest k(1) by (auto simp: strncpy_def Let_def strncpy_tail_def)
  next
    assume c: "k < mx \<and> m (src + k) = 0 \<and> copy_until (\<lambda>s. s mod 8 = 0) m dst src mx
          = ((moved m dst src k)(dst + k := 0), dst + k, src + k, mx - k)"
    then have "((moved m dst src k)(dst + k := 0)) (src + k) = 0" using src_k by simp
    then show ?thesis
      using True c tail_of_copy [OF assms _ k(2)] by (simp add: strncpy_def strncpy_tail_def)
  qed
next
  case False
  then show ?thesis using plain_copy [OF assms] by (simp add: strncpy_def)
qed

lemma strncpy_eq_bytewise_witness:
  "disjoint 4096 8192 (16 :: nat) \<and> fst (strncpy (\<lambda>_. 7) 4096 8192 16) = ncopied (\<lambda>_. 7) 4096 8192 16"
  using strncpy_eq_bytewise [of 4096 8192 16 "\<lambda>_. 7"] by (simp add: disjoint_def)

section \<open>Numerals\<close>

text \<open>The digits of a number, least significant first, as the loop of \<open>itoa\<close> produces them.\<close>

fun digits_le :: "nat \<Rightarrow> nat \<Rightarrow> nat list" where
  "digits_le base n = (if n \<noteq> 0 \<and> 1 < base then (n mod base) # digits_le base (n div base) else [])"

declare digits_le.simps [simp del]

lemma digits_le_0 [simp]: "digits_le base 0 = []"
  by (subst digits_le.simps) simp

lemma digits_le_value: "1 < base \<Longrightarrow> foldr (\<lambda>d v. d + base * v) (digits_le base n) 0 = n"
proof (induction base n rule: digits_le.induct)
  case (1 base n)
  then show ?case by (cases "n = 0") (simp, subst digits_le.simps, simp)
qed

lemma digits_le_bound: "1 < base \<Longrightarrow> d \<in> set (digits_le base n) \<Longrightarrow> d < base"
proof (induction base n rule: digits_le.induct)
  case (1 base n)
  then show ?case by (cases "n = 0") (simp, subst (asm) (2) digits_le.simps, auto)
qed

lemma digits_le_length: "1 < base \<Longrightarrow> n < base ^ k \<Longrightarrow> length (digits_le base n) \<le> k"
proof (induction k arbitrary: n)
  case (Suc k)
  then have "n div base < base ^ k" by (simp add: less_mult_imp_div_less mult.commute)
  with Suc show ?case by (cases "n = 0") (simp, subst digits_le.simps, simp)
qed simp

lemma itoa_loop_eq:
  "1 < base \<Longrightarrow>
   itoa_loop m str base i n =
     (let ds = digits_le base n in
      ((\<lambda>a. if str + i \<le> a \<and> a < str + i + length ds then digit_char (ds ! (a - (str + i))) else m a),
       i + length ds))"
proof (induction m str base i n rule: itoa_loop.induct)
  case (1 m str base i n)
  show ?case
  proof (cases "n = 0")
    case True
    then show ?thesis by (subst itoa_loop.simps) (auto simp: fun_eq_iff)
  next
    case False
    have ds: "digits_le base n = (n mod base) # digits_le base (n div base)"
      using False "1.prems" by (subst digits_le.simps) simp
    have cond: "n \<noteq> 0 \<and> 1 < base" using False "1.prems" by simp
    note ih = "1.IH" [OF cond "1.prems"]
    have "itoa_loop m str base i n
        = itoa_loop (m(str + i := digit_char (n mod base))) str base (i + 1) (n div base)"
      using False "1.prems" by (subst itoa_loop.simps) simp
    also have "\<dots> = (let ds = digits_le base n in
      ((\<lambda>a. if str + i \<le> a \<and> a < str + i + length ds then digit_char (ds ! (a - (str + i))) else m a),
       i + length ds))"
      unfolding ih by (auto simp: ds Let_def fun_eq_iff nth_Cons')
    finally show ?thesis .
  qed
qed

lemma digit_char_nonzero: "d < 36 \<Longrightarrow> digit_char d \<noteq> 0"
proof -
  assume "d < 36"
  then have "unat (digit_char d) = (if d > 9 then d + 87 else d + 48)"
    by (auto simp: digit_char_def unat_word_ariths unat_of_nat_small take_bit_nat_eq_self
        unat_of_nat)
  then show ?thesis by (metis add_is_0 numeral_neq_zero unat_0 zero_neq_numeral)
qed

lemma itoa_cstr:
  assumes "num \<noteq> 0" "1 < base" "base \<le> 36"
  shows "\<exists>m'. itoa m num str base = Some m'
           \<and> cstr m' str (map digit_char (rev (digits_le base (unat num))))
           \<and> (\<forall>a. a < str \<or> str + length (digits_le base (unat num)) < a \<longrightarrow> m' a = m a)"
proof -
  let ?ds = "digits_le base (unat num)"
  have "digit_char d \<noteq> 0" if "d \<in> set ?ds" for d
    using digits_le_bound [OF assms(2) that] assms(3) by (intro digit_char_nonzero) simp
  then show ?thesis
    using assms by (force simp: itoa_def itoa_loop_eq Let_def reverse_eq cstr_def rev_nth)
qed

subsection \<open>Reading a hexadecimal numeral back\<close>

lemma hex_digit_add:
  fixes p :: u64
  assumes "d < 16"
  shows "push_bit 4 p OR of_nat d = p * 16 + of_nat d"
proof -
  have "push_bit 4 p AND (of_nat d :: u64) = 0"
  proof (rule bit_eqI)
    fix n
    have "\<not> bit (of_nat d :: u64) n" if "4 \<le> n"
    proof -
      have "d < 2 ^ n" using assms power_increasing [OF that, of "2::nat"] by simp
      then have "\<not> bit d n" by (simp add: bit_iff_odd)
      then show ?thesis by (simp add: bit_of_nat_iff)
    qed
    then show "bit (push_bit 4 p AND (of_nat d :: u64)) n \<longleftrightarrow> bit (0 :: u64) n"
      by (auto simp: bit_simps)
  qed
  then show ?thesis by (simp add: disjunctive_add_eq_or [symmetric] push_bit_eq_mult)
qed

lemma hex_digit_step:
  assumes d: "d < 16" and c: "m b = digit_char d"
  shows "hex_to_pointer_loop m b (Suc k) p = hex_to_pointer_loop m (b + 1) k (p * 16 + of_nat d)"
proof -
  have "d = 0 \<or> d = 1 \<or> d = 2 \<or> d = 3 \<or> d = 4 \<or> d = 5 \<or> d = 6 \<or> d = 7 \<or> d = 8 \<or> d = 9
      \<or> d = 10 \<or> d = 11 \<or> d = 12 \<or> d = 13 \<or> d = 14 \<or> d = 15"
    using d by arith
  then have "hex_to_pointer_loop m b (Suc k) p
      = hex_to_pointer_loop m (b + 1) k (push_bit 4 p OR of_nat d)"
    by (elim disjE; simp add: c digit_char_def Let_def)
  then show ?thesis using hex_digit_add [OF d, of p] by simp
qed

lemma hex_to_pointer_loop_digits:
  "cstr m b (map digit_char ds) \<Longrightarrow> (\<forall>d \<in> set ds. d < 16) \<Longrightarrow> length ds \<le> n \<Longrightarrow>
   hex_to_pointer_loop m b n p = (0, foldl (\<lambda>v d. v * 16 + of_nat d) p ds)"
proof (induction ds arbitrary: b n p)
  case Nil
  then show ?case by (cases n) auto
next
  case (Cons d ds)
  then obtain k where n: "n = Suc k" by (cases n) auto
  have "hex_to_pointer_loop m b (Suc k) p = hex_to_pointer_loop m (b + 1) k (p * 16 + of_nat d)"
    using Cons.prems by (intro hex_digit_step) auto
  then show ?case using Cons n by simp
qed

lemma foldl_digits_word:
  "foldl (\<lambda>v d. v * 16 + of_nat d) 0 (rev ds) = (of_nat (foldr (\<lambda>d v. d + 16 * v) ds 0) :: u64)"
  by (simp add: foldl_conv_foldr) (induction ds, auto simp: algebra_simps)

text \<open>
  Pointers survive printing and parsing.  \<open>itoa\<close> in base 16 writes a null-terminated numeral of
  at most sixteen characters and changes no byte outside it, and \<open>hex_to_pointer\<close> reads that numeral
  back to the number, for every 64-bit value and every buffer size that covers the numeral.  (The
  kernel's symbol file is read back this way.)
\<close>

theorem hex_itoa_roundtrip:
  assumes "16 \<le> n"
  shows "\<exists>m'. itoa m num str 16 = Some m' \<and> hex_to_pointer m' str n = (0, num)
           \<and> strnlen m' str 17 \<le> 16 \<and> (\<forall>a. a < str \<or> str + 16 < a \<longrightarrow> m' a = m a)"
proof (cases "num = 0")
  case True
  have "hex_to_pointer_loop (m(str := 48, Suc str := 0)) str n 0 = (0, 0)"
    using hex_to_pointer_loop_digits [of "m(str := 48, Suc str := 0)" str "[0]" n 0] assms
    by (simp add: digit_char_def)
  moreover have "cstr (m(str := 48, Suc str := 0)) str [48]" by simp
  ultimately show ?thesis
    using True by (simp add: itoa_def hex_to_pointer_def strnlen_cstr [of _ _ "[48]"])
next
  case False
  let ?ds = "digits_le 16 (unat num)"
  obtain m' where m': "itoa m num str 16 = Some m'" "cstr m' str (map digit_char (rev ?ds))"
      "\<forall>a. a < str \<or> str + length ?ds < a \<longrightarrow> m' a = m a"
    using itoa_cstr [OF False, of 16 m str] by auto
  have len: "length ?ds \<le> 16"
    using digits_le_length [of 16 "unat num" 16] unat_u64_less [of num] by simp
  have "\<forall>d \<in> set (rev ?ds). d < 16" using digits_le_bound [of 16 _ "unat num"] by auto
  then have "hex_to_pointer m' str n = (0, foldl (\<lambda>v d. v * 16 + of_nat d) 0 (rev ?ds))"
    using hex_to_pointer_loop_digits [OF m'(2)] len assms by (simp add: hex_to_pointer_def)
  also have "\<dots> = (0, num)" by (simp add: foldl_digits_word digits_le_value)
  finally show ?thesis using m' len by (auto simp: strnlen_cstr [OF m'(2)])
qed

lemma hex_itoa_roundtrip_witness:
  "\<exists>m'. itoa (\<lambda>_. 0) 0xffff800000000000 0x1000 16 = Some m'
     \<and> hex_to_pointer m' 0x1000 24 = (0, 0xffff800000000000)"
  using hex_itoa_roundtrip [of 24 "\<lambda>_. 0" "0xffff800000000000" "0x1000"] by auto

end
