(* ===== verification/PhysAlloc.thy ===== *)
theory PhysAlloc
  imports Prelude
begin

unbundle bit_operations_syntax

text \<open>
  The physical page-frame allocator, \<^verbatim>\<open>Kernel/src/arch/x86_64/physical_allocator.cpp\<close>.  The record
  holds the namespace's globals: the bitmap of 32-bit chunks (a set bit is a used frame), the two
  counters and the search hint.  Block numbers are naturals; \<open>phys_inv\<close> keeps the bitmap below
  \<open>2 ^ 27\<close> chunks (the code has 524488), where neither \<open>i << 5\<close> nor the shift to an address wraps.
  The allocator's lock is held from the search to the update, so an operation is one step.

  The interface \<open>frame_allocator\<close> is what the page-table code relies on: a fresh frame is a free one
  and is taken, freeing gives back exactly that frame.
\<close>

section \<open>Model\<close>

record phys =
  phys_mem_bitmap :: "u32 list"
  used_blocks :: u64
  max_blocks :: nat
  next_chunk :: nat

definition PHYS_BITMAP_SIZE_DWORDS :: nat where
  "PHYS_BITMAP_SIZE_DWORDS = 524488"

definition clear_bit :: "nat \<Rightarrow> u32 list \<Rightarrow> u32 list kres" where
  "clear_bit b bm =
     (if b div 32 < length bm
      then Inr (bm[b div 32 := bm ! (b div 32) AND NOT (push_bit (b mod 32) 1)])
      else Inl Out_of_bounds)"

definition set_bit :: "nat \<Rightarrow> u32 list \<Rightarrow> u32 list kres" where
  "set_bit b bm =
     (if b div 32 < length bm
      then Inr (bm[b div 32 := bm ! (b div 32) OR push_bit (b mod 32) 1])
      else Inl Out_of_bounds)"

definition initialize_physical_allocator :: "phys \<Rightarrow> phys" where
  "initialize_physical_allocator p =
     p\<lparr>phys_mem_bitmap := replicate PHYS_BITMAP_SIZE_DWORDS (- 1),
       max_blocks := PHYS_BITMAP_SIZE_DWORDS,
       used_blocks := of_nat PHYS_BITMAP_SIZE_DWORDS\<rparr>"

text \<open>The inner loop over the bits \<open>j\<close> of a chunk, and the lambda \<open>body\<close> around it.\<close>

function first_clear_bit :: "u32 \<Rightarrow> nat \<Rightarrow> nat option" where
  "first_clear_bit w j =
     (if j < 32 then (if w AND push_bit j 1 = 0 then Some j else first_clear_bit w (j + 1)) else None)"
  by pat_completeness auto
termination by (relation "measure (\<lambda>(w, j). 32 - j)") auto

declare first_clear_bit.simps [simp del]

definition search_chunk :: "nat \<Rightarrow> phys \<Rightarrow> (nat \<times> phys) kres" where
  "search_chunk i p =
     (if \<not> i < length (phys_mem_bitmap p) then Inl Out_of_bounds
      else if phys_mem_bitmap p ! i \<noteq> - 1
      then (case first_clear_bit (phys_mem_bitmap p ! i) 0 of
              Some j \<Rightarrow> Inr (i * 32 + j, p\<lparr>next_chunk := i\<rparr>)
            | None \<Rightarrow> Inr (0, p))
      else Inr (0, p))"

text \<open>The loop \<open>for(i; i < (max_blocks >> 5); i++)\<close>; its second component is the bound.\<close>

function search_chunks :: "nat \<Rightarrow> nat \<Rightarrow> phys \<Rightarrow> (nat \<times> phys) kres" where
  "search_chunks i n p =
     (if i < n
      then kbind (search_chunk i p)
        (\<lambda>(found, p'). if found \<noteq> 0 then Inr (found, p') else search_chunks (i + 1) n p')
      else Inr (0, p))"
  by pat_completeness auto
termination by (relation "measure (\<lambda>(i, n, p). n - i)") auto

declare search_chunks.simps [simp del]

definition get_first_free_block :: "phys \<Rightarrow> (nat \<times> phys) kres" where
  "get_first_free_block p =
     (let p = (if next_chunk p = 0 then p\<lparr>next_chunk := 1\<rparr> else p) in
      kbind (search_chunks (next_chunk p) (max_blocks p div 32) p)
        (\<lambda>(found, p). if found \<noteq> 0 then Inr (found, p)
                      else search_chunks 1 (max_blocks p div 32) p))"

definition reset_used_blocks :: "phys \<Rightarrow> phys" where
  "reset_used_blocks p = p\<lparr>used_blocks := 0\<rparr>"

primrec clear_blocks :: "nat \<Rightarrow> nat \<Rightarrow> phys \<Rightarrow> phys kres" where
  "clear_blocks 0 a p = Inr p"
| "clear_blocks (Suc n) a p =
     kbind (clear_bit a (phys_mem_bitmap p))
       (\<lambda>bm. clear_blocks n (a + 1) (p\<lparr>phys_mem_bitmap := bm, used_blocks := used_blocks p - 1\<rparr>))"

text \<open>The two \<open>uint32_t\<close> locals truncate a 64-bit quotient.\<close>

definition mark_memory_region_free :: "u64 \<Rightarrow> u64 \<Rightarrow> phys \<Rightarrow> phys kres" where
  "mark_memory_region_free base sz p =
     clear_blocks (unat (ucast ((sz + 4095) div 4096) :: u32)) (unat (ucast (base div 4096) :: u32)) p"

definition allocate_physical_block :: "phys \<Rightarrow> (u64 \<times> phys) kres" where
  "allocate_physical_block p =
     kbind (get_first_free_block p)
       (\<lambda>(index, p). if index = 0 then Inl (Panic ''Out of memory!'')
          else kbind (set_bit index (phys_mem_bitmap p))
            (\<lambda>bm. Inr (push_bit 12 (of_nat index),
                       p\<lparr>phys_mem_bitmap := bm, used_blocks := used_blocks p + 1\<rparr>)))"

definition free_physical_block :: "u64 \<Rightarrow> phys \<Rightarrow> phys kres" where
  "free_physical_block addr p =
     (let index = unat (drop_bit 12 addr); chunk = index div 32 in
      if index = 0 then Inl Assert_failed
      else kbind (clear_bit index (phys_mem_bitmap p))
        (\<lambda>bm. let p = p\<lparr>phys_mem_bitmap := bm, used_blocks := used_blocks p - 1\<rparr>
              in Inr (if chunk < next_chunk p then p\<lparr>next_chunk := chunk\<rparr> else p)))"

section \<open>Invariant and abstraction\<close>

definition phys_inv :: "phys \<Rightarrow> bool" where
  "phys_inv p \<longleftrightarrow> max_blocks p div 32 \<le> length (phys_mem_bitmap p)
     \<and> length (phys_mem_bitmap p) < 2 ^ 27"

definition free_blocks :: "phys \<Rightarrow> nat set" where
  "free_blocks p = {b. b div 32 < length (phys_mem_bitmap p)
     \<and> \<not> bit (phys_mem_bitmap p ! (b div 32)) (b mod 32)}"

text \<open>The blocks the search can return: those of the chunks from 1 to below \<open>max_blocks >> 5\<close>.\<close>

definition searched :: "phys \<Rightarrow> nat set" where
  "searched p = {b. 1 \<le> b div 32 \<and> b div 32 < max_blocks p div 32}"

lemmas phys_defs [absdefs] = phys_inv_def free_blocks_def searched_def

section \<open>Bits\<close>

lemma and_push_bit_0_iff: "w AND push_bit j 1 = (0 :: u32) \<longleftrightarrow> \<not> bit w j" if "j < 32"
proof
  assume "w AND push_bit j 1 = 0"
  then have "\<not> bit (w AND push_bit j 1) j" by simp
  then show "\<not> bit w j" using that by (simp add: bit_simps)
qed (auto intro!: bit_word_eqI simp: bit_simps)

lemma first_clear_bit_Some:
  "first_clear_bit w j = Some k \<Longrightarrow> j \<le> k \<and> k < 32 \<and> \<not> bit w k"
proof (induction w j rule: first_clear_bit.induct)
  case (1 w j)
  then show ?case
    using first_clear_bit.simps [of w j] by (auto simp: and_push_bit_0_iff [simplified] split: if_splits)
qed

lemma first_clear_bit_None:
  "first_clear_bit w j = None \<Longrightarrow> j \<le> k \<Longrightarrow> k < 32 \<Longrightarrow> bit w k"
proof (induction w j rule: first_clear_bit.induct)
  case (1 w j)
  then show ?case
    using first_clear_bit.simps [of w j]
    by (cases "j = k") (auto simp: and_push_bit_0_iff [simplified] split: if_splits)
qed

lemma word_all_ones_iff: "(w :: u32) = - 1 \<longleftrightarrow> (\<forall>k<32. bit w k)"
  by (auto simp: bit_eq_iff bit_simps)

lemma bit_update [simp]:
  assumes "n < 32"
  shows "bit (w OR push_bit k 1 :: u32) n \<longleftrightarrow> bit w n \<or> n = k"
    "bit (w AND NOT (push_bit k 1) :: u32) n \<longleftrightarrow> bit w n \<and> n \<noteq> k"
  using assms by (auto simp: bit_simps)

lemma block_eq_iff: "(x :: nat) = b \<longleftrightarrow> x div 32 = b div 32 \<and> x mod 32 = b mod 32"
  by (metis div_mult_mod_eq)

lemma free_blocks_set_bit:
  assumes "set_bit b (phys_mem_bitmap p) = Inr bm"
  shows "free_blocks (p\<lparr>phys_mem_bitmap := bm, used_blocks := u\<rparr>) = free_blocks p - {b}"
proof (rule set_eqI)
  fix x
  show "x \<in> free_blocks (p\<lparr>phys_mem_bitmap := bm, used_blocks := u\<rparr>) \<longleftrightarrow> x \<in> free_blocks p - {b}"
    using assms unfolding Diff_iff singleton_iff block_eq_iff [of x b]
    by (cases "x div 32 = b div 32")
      (auto simp: set_bit_def free_blocks_def simp del: push_bit_of_1 split: if_splits)
qed

lemma free_blocks_clear_bit:
  assumes "clear_bit b (phys_mem_bitmap p) = Inr bm"
  shows "free_blocks (p\<lparr>phys_mem_bitmap := bm, used_blocks := u\<rparr>) = insert b (free_blocks p)"
proof (rule set_eqI)
  fix x
  show "x \<in> free_blocks (p\<lparr>phys_mem_bitmap := bm, used_blocks := u\<rparr>) \<longleftrightarrow> x \<in> insert b (free_blocks p)"
    using assms unfolding insert_iff block_eq_iff [of x b]
    by (cases "x div 32 = b div 32")
      (auto simp: clear_bit_def free_blocks_def simp del: push_bit_of_1 split: if_splits)
qed

lemma bitmap_length:
  "clear_bit b bm = Inr bm' \<Longrightarrow> length bm' = length bm"
  "set_bit b bm = Inr bm' \<Longrightarrow> length bm' = length bm"
  by (auto simp: clear_bit_def set_bit_def split: if_splits)

section \<open>The search\<close>

lemma search_chunk_correct:
  assumes "i < length (phys_mem_bitmap p)" "1 \<le> i"
  shows "(\<exists>b. search_chunk i p = Inr (b, p\<lparr>next_chunk := i\<rparr>) \<and> b div 32 = i \<and> b \<in> free_blocks p \<and> b \<noteq> 0)
    \<or> search_chunk i p = Inr (0, p) \<and> (\<forall>b. b div 32 = i \<longrightarrow> b \<notin> free_blocks p)"
proof (cases "first_clear_bit (phys_mem_bitmap p ! i) 0")
  case None
  then have "\<forall>k<32. bit (phys_mem_bitmap p ! i) k" using first_clear_bit_None by blast
  then show ?thesis using assms by (simp add: search_chunk_def None free_blocks_def word_all_ones_iff)
next
  case (Some j)
  then have j: "j < 32" "\<not> bit (phys_mem_bitmap p ! i) j" using first_clear_bit_Some by blast+
  then have "search_chunk i p = Inr (i * 32 + j, p\<lparr>next_chunk := i\<rparr>)"
    using assms by (auto simp: search_chunk_def Some word_all_ones_iff)
  moreover have "i * 32 + j \<in> free_blocks p" using j assms by (simp add: free_blocks_def)
  ultimately show ?thesis using j assms by (intro disjI1 exI [of _ "i * 32 + j"]) auto
qed

lemma search_chunks_correct:
  "n \<le> length (phys_mem_bitmap p) \<Longrightarrow> 1 \<le> i \<Longrightarrow>
   (\<exists>b. search_chunks i n p = Inr (b, p\<lparr>next_chunk := b div 32\<rparr>)
        \<and> i \<le> b div 32 \<and> b div 32 < n \<and> b \<in> free_blocks p \<and> b \<noteq> 0)
   \<or> search_chunks i n p = Inr (0, p) \<and> (\<forall>b \<in> free_blocks p. i \<le> b div 32 \<longrightarrow> n \<le> b div 32)"
proof (induction "n - i" arbitrary: i)
  case 0
  then show ?case by (subst (1 2) search_chunks.simps) auto
next
  case (Suc k)
  then have "i < n" by simp
  have step: "search_chunks i n p = kbind (search_chunk i p)
      (\<lambda>(found, p'). if found \<noteq> 0 then Inr (found, p') else search_chunks (i + 1) n p')"
    using \<open>i < n\<close> by (subst search_chunks.simps) simp
  have "i < length (phys_mem_bitmap p)" using \<open>i < n\<close> Suc.prems by simp
  from search_chunk_correct [OF this Suc.prems(2)] show ?case
  proof
    assume "\<exists>b. search_chunk i p = Inr (b, p\<lparr>next_chunk := i\<rparr>) \<and> b div 32 = i \<and> b \<in> free_blocks p \<and> b \<noteq> 0"
    then show ?thesis using step \<open>i < n\<close> by auto
  next
    assume none: "search_chunk i p = Inr (0, p) \<and> (\<forall>b. b div 32 = i \<longrightarrow> b \<notin> free_blocks p)"
    have "search_chunks i n p = search_chunks (i + 1) n p" using none step by simp
    moreover have "b \<in> free_blocks p \<Longrightarrow> i \<le> b div 32 \<Longrightarrow> i + 1 \<le> b div 32" for b
      using none by (cases "b div 32 = i") auto
    ultimately show ?thesis using Suc.hyps(1) [of "i + 1"] Suc.hyps(2) Suc.prems by fastforce
  qed
qed

lemma free_blocks_next_chunk [simp]: "free_blocks (p\<lparr>next_chunk := i\<rparr>) = free_blocks p"
  by (simp add: free_blocks_def)

lemma get_first_free_block_correct:
  assumes inv: "phys_inv p"
  shows "(\<exists>b. get_first_free_block p = Inr (b, p\<lparr>next_chunk := b div 32\<rparr>)
            \<and> b \<in> free_blocks p \<inter> searched p \<and> b \<noteq> 0)
    \<or> free_blocks p \<inter> searched p = {} \<and> (\<exists>p'. get_first_free_block p = Inr (0, p'))"
proof -
  define q where "q = (if next_chunk p = 0 then p\<lparr>next_chunk := 1\<rparr> else p)"
  have q: "max_blocks q = max_blocks p" "free_blocks q = free_blocks p" "1 \<le> next_chunk q"
    "max_blocks q div 32 \<le> length (phys_mem_bitmap q)" "q\<lparr>next_chunk := i\<rparr> = p\<lparr>next_chunk := i\<rparr>" for i
    using inv by (auto simp: q_def phys_inv_def)
  have g: "get_first_free_block p = kbind (search_chunks (next_chunk q) (max_blocks q div 32) q)
      (\<lambda>(found, p). if found \<noteq> 0 then Inr (found, p) else search_chunks 1 (max_blocks p div 32) p)"
    by (simp add: get_first_free_block_def q_def Let_def)
  from search_chunks_correct [OF q(4,3)] show ?thesis
  proof
    assume "search_chunks (next_chunk q) (max_blocks q div 32) q = Inr (0, q)
      \<and> (\<forall>b \<in> free_blocks q. next_chunk q \<le> b div 32 \<longrightarrow> max_blocks q div 32 \<le> b div 32)"
    then have "get_first_free_block p = search_chunks 1 (max_blocks q div 32) q" using g by simp
    then have "(\<exists>b. get_first_free_block p = Inr (b, p\<lparr>next_chunk := b div 32\<rparr>)
        \<and> 1 \<le> b div 32 \<and> b div 32 < max_blocks p div 32 \<and> b \<in> free_blocks p \<and> b \<noteq> 0)
      \<or> get_first_free_block p = Inr (0, q)
        \<and> (\<forall>b \<in> free_blocks p. 1 \<le> b div 32 \<longrightarrow> max_blocks p div 32 \<le> b div 32)"
      using search_chunks_correct [OF q(4), of 1] unfolding q by simp
    then show ?thesis unfolding searched_def by fastforce
  next
    assume "\<exists>b. search_chunks (next_chunk q) (max_blocks q div 32) q = Inr (b, q\<lparr>next_chunk := b div 32\<rparr>)
        \<and> next_chunk q \<le> b div 32 \<and> b div 32 < max_blocks q div 32 \<and> b \<in> free_blocks q \<and> b \<noteq> 0"
    then obtain b where "search_chunks (next_chunk q) (max_blocks q div 32) q = Inr (b, q\<lparr>next_chunk := b div 32\<rparr>)"
        "next_chunk q \<le> b div 32" "b div 32 < max_blocks q div 32" "b \<in> free_blocks q" "b \<noteq> 0"
      by blast
    then have "get_first_free_block p = Inr (b, p\<lparr>next_chunk := b div 32\<rparr>)" "b \<in> free_blocks p \<inter> searched p"
      using g q by (simp_all add: searched_def)
    with \<open>b \<noteq> 0\<close> show ?thesis by blast
  qed
qed

section \<open>The operations on the set of free blocks\<close>

lemma phys_inv_update [simp]:
  "length bm = length (phys_mem_bitmap p) \<Longrightarrow>
   phys_inv (p\<lparr>phys_mem_bitmap := bm, used_blocks := u, next_chunk := n\<rparr>) = phys_inv p"
  "length bm = length (phys_mem_bitmap p) \<Longrightarrow>
   phys_inv (p\<lparr>phys_mem_bitmap := bm, used_blocks := u\<rparr>) = phys_inv p"
  by (simp_all add: phys_inv_def)

lemma block_of_address:
  assumes "b < 2 ^ 32"
  shows "unat (drop_bit 12 (push_bit 12 (of_nat b :: u64))) = b \<and> unat (push_bit 12 (of_nat b :: u64)) = b * 4096"
proof -
  have "unat (of_nat b :: u64) = b" using assms by (intro unat_of_nat_small) simp
  then have "unat (push_bit 12 (of_nat b :: u64)) = b * 4096"
    using assms by (simp add: push_bit_eq_mult unat_word_ariths)
  then show ?thesis by (simp add: unat_drop_bit_eq) (simp add: drop_bit_eq_div)
qed

lemma free_block_bound: "phys_inv p \<Longrightarrow> b \<in> free_blocks p \<Longrightarrow> b < 2 ^ 32"
  by (auto simp: phys_defs)

lemma allocate_correct:
  assumes inv: "phys_inv p"
  shows "if free_blocks p \<inter> searched p = {} then allocate_physical_block p = Inl (Panic ''Out of memory!'')
    else \<exists>b p'. allocate_physical_block p = Inr (push_bit 12 (of_nat b), p') \<and> b \<in> free_blocks p \<inter> searched p
      \<and> phys_inv p' \<and> free_blocks p' = free_blocks p - {b} \<and> searched p' = searched p
      \<and> used_blocks p' = used_blocks p + 1"
  using get_first_free_block_correct [OF inv]
proof
  assume "\<exists>b. get_first_free_block p = Inr (b, p\<lparr>next_chunk := b div 32\<rparr>)
            \<and> b \<in> free_blocks p \<inter> searched p \<and> b \<noteq> 0"
  then obtain b where b: "get_first_free_block p = Inr (b, p\<lparr>next_chunk := b div 32\<rparr>)"
      "b \<in> free_blocks p \<inter> searched p" "b \<noteq> 0" by blast
  then obtain bm where bm: "set_bit b (phys_mem_bitmap p) = Inr bm"
    by (auto simp: set_bit_def free_blocks_def)
  define q where "q = p\<lparr>next_chunk := b div 32\<rparr>"
  let ?p' = "q\<lparr>phys_mem_bitmap := bm, used_blocks := used_blocks p + 1\<rparr>"
  have "allocate_physical_block p = Inr (push_bit 12 (of_nat b), ?p')"
    using b bm by (simp add: allocate_physical_block_def q_def)
  moreover have "free_blocks ?p' = free_blocks p - {b}"
    using free_blocks_set_bit [of b q bm] bm by (simp add: q_def)
  moreover have "phys_inv ?p'" "searched ?p' = searched p" "used_blocks ?p' = used_blocks p + 1"
    using inv bitmap_length(2) [OF bm] by (simp_all add: q_def phys_inv_def searched_def)
  ultimately have "\<exists>b p'. allocate_physical_block p = Inr (push_bit 12 (of_nat b), p') \<and> b \<in> free_blocks p \<inter> searched p
      \<and> phys_inv p' \<and> free_blocks p' = free_blocks p - {b} \<and> searched p' = searched p
      \<and> used_blocks p' = used_blocks p + 1" using b(2) by blast
  then show ?thesis using b(2) by auto
next
  assume "free_blocks p \<inter> searched p = {} \<and> (\<exists>p'. get_first_free_block p = Inr (0, p'))"
  then show ?thesis by (auto simp: allocate_physical_block_def)
qed

lemma free_correct:
  assumes "phys_inv p" "b div 32 < length (phys_mem_bitmap p)" "b \<noteq> 0"
  shows "\<exists>p'. free_physical_block (push_bit 12 (of_nat b)) p = Inr p' \<and> phys_inv p'
           \<and> free_blocks p' = insert b (free_blocks p) \<and> searched p' = searched p
           \<and> used_blocks p' = used_blocks p - 1"
proof -
  have "b < 2 ^ 32" using assms by (auto simp: phys_inv_def)
  then have idx: "unat (drop_bit 12 (push_bit 12 (of_nat b :: u64))) = b" using block_of_address by blast
  obtain bm where bm: "clear_bit b (phys_mem_bitmap p) = Inr bm" using assms by (auto simp: clear_bit_def)
  let ?q = "p\<lparr>phys_mem_bitmap := bm, used_blocks := used_blocks p - 1\<rparr>"
  let ?p' = "if b div 32 < next_chunk p then ?q\<lparr>next_chunk := b div 32\<rparr> else ?q"
  have "free_physical_block (push_bit 12 (of_nat b)) p = Inr ?p'"
    using assms idx bm by (simp add: free_physical_block_def Let_def)
  moreover have "free_blocks ?p' = insert b (free_blocks p)"
    using free_blocks_clear_bit [OF bm, of "used_blocks p - 1"] by simp
  moreover have "phys_inv ?p'" "searched ?p' = searched p" "used_blocks ?p' = used_blocks p - 1"
    using assms(1) bitmap_length(1) [OF bm] by (auto simp: searched_def phys_inv_def)
  ultimately show ?thesis by blast
qed

section \<open>The allocator as an interface\<close>

primrec alloc_many :: "('s \<Rightarrow> ('a \<times> 's) kres) \<Rightarrow> nat \<Rightarrow> 's \<Rightarrow> ('a list \<times> 's) kres" where
  "alloc_many alloc 0 s = Inr ([], s)"
| "alloc_many alloc (Suc n) s =
     kbind (alloc s) (\<lambda>(a, s). kbind (alloc_many alloc n s) (\<lambda>(as, s). Inr (a # as, s)))"

locale frame_allocator =
  fixes alloc :: "'s \<Rightarrow> ('a \<times> 's) kres"
    and release :: "'a \<Rightarrow> 's \<Rightarrow> 's kres"
    and inv :: "'s \<Rightarrow> bool"
    and managed :: "'s \<Rightarrow> 'a set"
    and frames :: "'s \<Rightarrow> 'a set"
  assumes frames_managed: "inv s \<Longrightarrow> frames s \<subseteq> managed s \<and> finite (managed s)"
    and alloc_ok: "inv s \<Longrightarrow> frames s \<noteq> {} \<Longrightarrow>
      \<exists>a s'. alloc s = Inr (a, s') \<and> a \<in> frames s \<and> inv s' \<and> frames s' = frames s - {a} \<and> managed s' = managed s"
    and alloc_fail: "inv s \<Longrightarrow> frames s = {} \<Longrightarrow> \<exists>e. alloc s = Inl e"
    and release_ok: "inv s \<Longrightarrow> a \<in> managed s \<Longrightarrow>
      \<exists>s'. release a s = Inr s' \<and> inv s' \<and> frames s' = insert a (frames s) \<and> managed s' = managed s"
begin

lemma alloc_many_ok:
  "inv s \<Longrightarrow> n \<le> card (frames s) \<Longrightarrow>
   \<exists>as s'. alloc_many alloc n s = Inr (as, s') \<and> length as = n \<and> distinct as \<and> set as \<subseteq> frames s
     \<and> inv s' \<and> frames s' = frames s - set as \<and> managed s' = managed s"
proof (induction n arbitrary: s)
  case (Suc n)
  have fin: "finite (frames s)" using frames_managed [OF Suc.prems(1)] finite_subset by blast
  have "frames s \<noteq> {}" using Suc.prems(2) by auto
  then obtain a s' where s': "alloc s = Inr (a, s')" "a \<in> frames s" "inv s'" "frames s' = frames s - {a}"
      "managed s' = managed s"
    using alloc_ok Suc.prems(1) by blast
  have "n \<le> card (frames s')" using fin s' Suc.prems(2) by (simp add: card_Diff_singleton)
  from Suc.IH [OF s'(3) this] show ?case using s' by (auto simp: card_Diff_singleton)
qed auto

lemma alloc_many_fail:
  "inv s \<Longrightarrow> card (frames s) < n \<Longrightarrow> \<exists>e. alloc_many alloc n s = Inl e"
proof (induction n arbitrary: s)
  case (Suc n)
  have fin: "finite (frames s)" using frames_managed [OF Suc.prems(1)] finite_subset by blast
  show ?case
  proof (cases "frames s = {}")
    case True
    then show ?thesis using alloc_fail Suc.prems(1) by fastforce
  next
    case False
    then obtain a s' where s': "alloc s = Inr (a, s')" "a \<in> frames s" "inv s'" "frames s' = frames s - {a}"
      using alloc_ok Suc.prems(1) by blast
    have "card (frames s') = card (frames s) - 1" using s' by (simp add: card_Diff_singleton)
    moreover have "0 < card (frames s)" using fin False by (simp add: card_gt_0_iff)
    ultimately have "card (frames s') < n" using Suc.prems(2) by linarith
    then obtain e where "alloc_many alloc n s' = Inl e" using Suc.IH [OF s'(3)] by blast
    then show ?thesis using s'(1) by simp
  qed
qed simp

lemma alloc_Inr:
  assumes "inv s" "alloc s = Inr (a, s')"
  shows "a \<in> frames s \<and> a \<in> managed s \<and> inv s' \<and> frames s' = frames s - {a} \<and> managed s' = managed s"
proof -
  have "frames s \<noteq> {}" using assms alloc_fail by fastforce
  then show ?thesis using alloc_ok [OF assms(1)] assms frames_managed by fastforce
qed

lemma release_Inr:
  assumes "inv s" "a \<in> managed s" "release a s = Inr s'"
  shows "inv s' \<and> frames s' = insert a (frames s) \<and> managed s' = managed s"
  using release_ok [OF assms(1,2)] assms(3) by auto

lemma release_after_alloc:
  assumes "inv s" "alloc s = Inr (a, s')"
  shows "\<exists>s''. release a s' = Inr s'' \<and> inv s'' \<and> frames s'' = frames s"
proof -
  have "frames s \<noteq> {}" using assms alloc_fail by fastforce
  then obtain b t where b: "alloc s = Inr (b, t)" "b \<in> frames s" "inv t" "frames t = frames s - {b}" "managed t = managed s"
    using alloc_ok assms(1) by blast
  then have "b \<in> managed t" using frames_managed assms(1) by blast
  then show ?thesis using release_ok [OF b(3)] b assms by fastforce
qed

end

definition block_addr :: "nat \<Rightarrow> u64" where
  "block_addr b = push_bit 12 (of_nat b)"

definition managed_frames :: "phys \<Rightarrow> u64 set" where
  "managed_frames p = block_addr ` searched p"

definition free_frames :: "phys \<Rightarrow> u64 set" where
  "free_frames p = block_addr ` (free_blocks p \<inter> searched p)"

lemma block_addr_inj: "inj_on block_addr {b. b < 2 ^ 32}"
  using block_of_address by (intro inj_onI) (metis block_addr_def mem_Collect_eq)

lemma searched_bound: "phys_inv p \<Longrightarrow> searched p \<subseteq> {b. b < 2 ^ 32} \<and> (\<forall>b \<in> searched p. b \<noteq> 0)
    \<and> (\<forall>b \<in> searched p. b div 32 < length (phys_mem_bitmap p))"
  by (auto simp: phys_defs)

interpretation pa: frame_allocator allocate_physical_block free_physical_block phys_inv managed_frames free_frames
proof unfold_locales
  fix p
  assume inv: "phys_inv p"
  have "searched p \<subseteq> {b. b < 2 ^ 32}" using searched_bound [OF inv] by blast
  then show "free_frames p \<subseteq> managed_frames p \<and> finite (managed_frames p)"
    using finite_subset by (auto simp: free_frames_def managed_frames_def)
  have diff: "block_addr ` (free_blocks p \<inter> searched p - {b}) = block_addr ` (free_blocks p \<inter> searched p) - {block_addr b}"
    if "b \<in> searched p" for b
    using inj_on_image_set_diff [OF block_addr_inj, of "free_blocks p \<inter> searched p" "{b}"] that
      searched_bound [OF inv] by auto
  show "\<exists>a p'. allocate_physical_block p = Inr (a, p') \<and> a \<in> free_frames p \<and> phys_inv p'
      \<and> free_frames p' = free_frames p - {a} \<and> managed_frames p' = managed_frames p"
    if "free_frames p \<noteq> {}"
  proof -
    have "free_blocks p \<inter> searched p \<noteq> {}" using that by (auto simp: free_frames_def)
    then obtain b p' where "allocate_physical_block p = Inr (block_addr b, p')" "b \<in> free_blocks p \<inter> searched p"
        "phys_inv p'" "free_blocks p' = free_blocks p - {b}" "searched p' = searched p"
      using allocate_correct [OF inv] unfolding block_addr_def by (metis (no_types, lifting))
    moreover have "(free_blocks p - {b}) \<inter> searched p = free_blocks p \<inter> searched p - {b}" by blast
    ultimately show ?thesis using diff [of b] by (auto simp: free_frames_def managed_frames_def)
  qed
  show "\<exists>e. allocate_physical_block p = Inl e" if "free_frames p = {}"
    using allocate_correct [OF inv] that by (auto simp: free_frames_def)
  show "\<exists>p'. free_physical_block a p = Inr p' \<and> phys_inv p' \<and> free_frames p' = insert a (free_frames p)
      \<and> managed_frames p' = managed_frames p" if a: "a \<in> managed_frames p" for a
  proof -
    obtain b where b: "a = block_addr b" "b \<in> searched p" using a by (auto simp: managed_frames_def)
    then show ?thesis
      using free_correct [OF inv, of b] searched_bound [OF inv]
      by (auto simp: free_frames_def managed_frames_def block_addr_def)
  qed
qed

lemma managed_frame_block:
  assumes "phys_inv p" "a \<in> managed_frames p"
  shows "block_addr (unat (drop_bit 12 a)) = a" "unat (drop_bit 12 a) < 2 ^ 32" "unat (drop_bit 12 a) \<noteq> 0" "a \<noteq> 0"
proof -
  obtain b where b: "a = push_bit 12 (of_nat b)" "b < 2 ^ 32" "b \<noteq> 0"
    using assms(2) searched_bound [OF assms(1)] by (auto simp: managed_frames_def block_addr_def)
  then have "unat (drop_bit 12 a) = b" "unat a = b * 4096" using block_of_address [OF b(2)] by auto
  with b show "block_addr (unat (drop_bit 12 a)) = a" "unat (drop_bit 12 a) < 2 ^ 32" "unat (drop_bit 12 a) \<noteq> 0" "a \<noteq> 0"
    by (auto simp: block_addr_def)
qed

section \<open>Properties\<close>

text \<open>
  C5. Frames are never handed out twice: \<open>n\<close> successive calls of \<open>allocate_physical_block\<close> succeed
  exactly when \<open>n\<close> of the frames the search covers are free, and then return \<open>n\<close> distinct free frames,
  which are no longer free; otherwise one of them panics.
\<close>

theorem allocate_many_distinct:
  assumes "phys_inv p"
  shows "if n \<le> card (free_frames p)
    then \<exists>as p'. alloc_many allocate_physical_block n p = Inr (as, p') \<and> length as = n \<and> distinct as
      \<and> set as \<subseteq> free_frames p \<and> phys_inv p' \<and> free_frames p' = free_frames p - set as
    else \<exists>e. alloc_many allocate_physical_block n p = Inl e"
  using pa.alloc_many_ok [OF assms, of n] pa.alloc_many_fail [OF assms, of n] by auto

lemma allocate_many_distinct_witness:
  "let p = \<lparr>phys_mem_bitmap = [- 1, 0], used_blocks = 32, max_blocks = 64, next_chunk = 0\<rparr>
   in phys_inv p \<and> (\<exists>as p'. alloc_many allocate_physical_block 1 p = Inr (as, p') \<and> length as = 1)"
proof -
  let ?p = "\<lparr>phys_mem_bitmap = [- 1, 0], used_blocks = 32, max_blocks = 64, next_chunk = 0\<rparr>"
  have inv: "phys_inv ?p" by (simp add: phys_inv_def)
  have "(32 :: nat) \<in> free_blocks ?p \<inter> searched ?p" by (simp add: phys_defs)
  then have "block_addr 32 \<in> free_frames ?p" by (auto simp: free_frames_def)
  then have "1 \<le> card (free_frames ?p)"
    using pa.frames_managed [OF inv] by (metis One_nat_def Suc_leI card_gt_0_iff empty_iff finite_subset)
  then show ?thesis using allocate_many_distinct [OF inv, of 1] inv by auto
qed

text \<open>
  C26. Freeing the frame an allocation returned succeeds and gives back the set of free frames there
  was before it.
\<close>

theorem free_after_allocate:
  assumes "phys_inv p" "allocate_physical_block p = Inr (a, p')"
  shows "\<exists>p''. free_physical_block a p' = Inr p'' \<and> phys_inv p'' \<and> free_frames p'' = free_frames p"
  by (rule pa.release_after_alloc [OF assms])

lemma free_after_allocate_witness:
  "let p = \<lparr>phys_mem_bitmap = [- 1, 0], used_blocks = 32, max_blocks = 64, next_chunk = 0\<rparr>
   in \<exists>a p' p''. allocate_physical_block p = Inr (a, p') \<and> free_physical_block a p' = Inr p''
        \<and> free_frames p'' = free_frames p"
proof -
  let ?p = "\<lparr>phys_mem_bitmap = [- 1, 0], used_blocks = 32, max_blocks = 64, next_chunk = 0\<rparr>"
  have inv: "phys_inv ?p" by (simp add: phys_inv_def)
  have "(32 :: nat) \<in> free_blocks ?p \<inter> searched ?p" by (simp add: phys_defs)
  then have "block_addr 32 \<in> free_frames ?p" by (auto simp: free_frames_def)
  then obtain a p' where "allocate_physical_block ?p = Inr (a, p')" using pa.alloc_ok [OF inv] by blast
  then show ?thesis using free_after_allocate [OF inv] by (auto simp: Let_def)
qed

subsection \<open>The states the boot sequence leads to\<close>

inductive phys_reach :: "phys \<Rightarrow> bool" where
  reach_init: "phys_reach (initialize_physical_allocator p)"
| reach_mark: "phys_reach p \<Longrightarrow> mark_memory_region_free base sz p = Inr p' \<Longrightarrow> phys_reach p'"
| reach_reset: "phys_reach p \<Longrightarrow> phys_reach (reset_used_blocks p)"
| reach_alloc: "phys_reach p \<Longrightarrow> allocate_physical_block p = Inr (a, p') \<Longrightarrow> phys_reach p'"
| reach_free: "phys_reach p \<Longrightarrow> free_physical_block a p = Inr p' \<Longrightarrow> phys_reach p'"

lemma clear_blocks_inv:
  "clear_blocks n a p = Inr p' \<Longrightarrow> phys_inv p \<Longrightarrow> phys_inv p' \<and> max_blocks p' = max_blocks p"
proof (induction n arbitrary: a p)
  case (Suc n)
  then obtain bm where "clear_bit a (phys_mem_bitmap p) = Inr bm"
      "clear_blocks n (a + 1) (p\<lparr>phys_mem_bitmap := bm, used_blocks := used_blocks p - 1\<rparr>) = Inr p'"
    by auto
  then show ?case using Suc.IH bitmap_length(1) Suc.prems(2) by fastforce
qed simp

lemma free_physical_block_inv:
  "free_physical_block a p = Inr p' \<Longrightarrow> phys_inv p \<Longrightarrow> phys_inv p' \<and> max_blocks p' = max_blocks p"
  using bitmap_length(1) by (auto simp: free_physical_block_def Let_def phys_inv_def split: if_splits)

lemma allocate_max_blocks:
  assumes "phys_inv p" "allocate_physical_block p = Inr (a, p')"
  shows "phys_inv p' \<and> max_blocks p' = max_blocks p"
proof -
  have ne: "free_blocks p \<inter> searched p \<noteq> {}" using assms allocate_correct [OF assms(1)] by auto
  show ?thesis
    using get_first_free_block_correct [OF assms(1)] assms ne bitmap_length(2)
    by (auto simp: allocate_physical_block_def phys_inv_def split: if_splits)
qed

lemma phys_reach_inv: "phys_reach p \<Longrightarrow> phys_inv p \<and> max_blocks p = PHYS_BITMAP_SIZE_DWORDS"
proof (induction rule: phys_reach.induct)
  case (reach_mark p base sz p')
  then show ?case using clear_blocks_inv by (metis mark_memory_region_free_def)
next
  case (reach_alloc p a p')
  then show ?case using allocate_max_blocks by metis
next
  case (reach_free p a p')
  then show ?case using free_physical_block_inv by metis
qed (auto simp: phys_inv_def initialize_physical_allocator_def PHYS_BITMAP_SIZE_DWORDS_def reset_used_blocks_def)

text \<open>
  In every state the boot sequence and later calls can reach, an allocation returns a page-aligned
  nonzero frame below about 2 GiB.  \<open>initialize_physical_allocator\<close> sets \<open>max_blocks\<close> to the number of bitmap
  words, not of bits, so the search covers a thirty-second of the 64 GiB the bitmap describes.
\<close>

theorem allocate_reach_bounds:
  assumes "phys_reach p" "allocate_physical_block p = Inr (a, p')"
  shows "131072 \<le> unat a \<and> unat a < 524480 * 4096 \<and> unat a mod 4096 = 0"
proof -
  have inv: "phys_inv p" "max_blocks p = 524488"
    using phys_reach_inv [OF assms(1)] by (auto simp: PHYS_BITMAP_SIZE_DWORDS_def)
  have "free_blocks p \<inter> searched p \<noteq> {}" using assms(2) allocate_correct [OF inv(1)] by auto
  then obtain b where b: "a = push_bit 12 (of_nat b)" "b \<in> searched p" "b \<in> free_blocks p"
    using allocate_correct [OF inv(1)] assms(2) by auto
  have "unat a = b * 4096" using block_of_address free_block_bound [OF inv(1) b(3)] b(1) by blast
  moreover have "32 \<le> b" "b < 524480" using b(2) inv(2) by (auto simp: searched_def)
  ultimately show ?thesis by simp
qed

lemma allocate_reach_bounds_witness:
  "\<exists>p a p'. phys_reach p \<and> allocate_physical_block p = Inr (a, p') \<and> unat a < 524480 * 4096"
proof -
  define p0 where "p0 = initialize_physical_allocator
    \<lparr>phys_mem_bitmap = [], used_blocks = 0, max_blocks = 0, next_chunk = 1\<rparr>"
  obtain bm where bm: "clear_bit 32 (phys_mem_bitmap p0) = Inr bm"
    by (simp add: p0_def initialize_physical_allocator_def clear_bit_def PHYS_BITMAP_SIZE_DWORDS_def)
  define p1 where "p1 = p0\<lparr>phys_mem_bitmap := bm, used_blocks := used_blocks p0 - 1\<rparr>"
  have "mark_memory_region_free 131072 4096 p0 = Inr p1"
    using bm by (simp add: mark_memory_region_free_def p1_def)
  then have reach: "phys_reach p1" using reach_init reach_mark by (metis p0_def)
  have "32 \<in> free_blocks p1 \<inter> searched p1"
    using free_blocks_clear_bit [OF bm]
    by (simp add: p1_def searched_def p0_def initialize_physical_allocator_def PHYS_BITMAP_SIZE_DWORDS_def)
  then obtain a p' where "allocate_physical_block p1 = Inr (a, p')"
    using allocate_correct phys_reach_inv [OF reach] by (metis empty_iff)
  then show ?thesis using allocate_reach_bounds [OF reach] reach by blast
qed

end
