(* ===== verification/Locks.thy ===== *)
theory Locks
  imports Prelude
begin

text \<open>
  The kernel's locks: the spin lock macros of \<^verbatim>\<open>Kernel/include/spinlock.h\<close>, the reader-writer lock of
  \<^verbatim>\<open>Kernel/include/lock.h\<close> and the semaphore of \<^verbatim>\<open>Kernel/src/lock.cpp\<close>, as transition systems whose steps
  are the atomic accesses of the source.  A thread is a number with a program counter; a spin that
  does not get its lock is no step.  \<open>_active_readers\<close> is a natural number: it counts threads, far
  fewer than \<open>2 ^ 32\<close>.
\<close>

section \<open>Reader-writer lock\<close>

subsection \<open>Model\<close>

record rw_lock =
  read_lock :: bool
  write_lock :: bool
  active_readers :: nat

text \<open>
  The places inside the methods of \<open>read_write_lock\<close>: \<open>RStart\<close>, \<open>WStart\<close> and \<open>WTry\<close> are the entries of
  \<open>acquire_read\<close>, \<open>acquire_write\<close> and \<open>try_acquire_write\<close>; \<open>RInc\<close>, \<open>RWait\<close> and \<open>RUnlock\<close> follow line by
  line; \<open>Reading\<close> and \<open>Writing\<close> hold the lock, and their step is the first access of \<open>release_read\<close>
  and \<open>release_write\<close>; \<open>RRel\<close> is the rest of \<open>release_read\<close>.
\<close>

datatype rw_pc = Idle | RStart | RInc | RWait | RUnlock | Reading | RRel | WStart | WTry | Writing

fun rw_exec :: "rw_pc \<Rightarrow> rw_lock \<Rightarrow> (rw_pc \<times> rw_lock) option" where
  "rw_exec Idle l = None"
| "rw_exec RStart l = (if read_lock l then None else Some (RInc, l\<lparr>read_lock := True\<rparr>))"
| "rw_exec RInc l =
     (let n = active_readers l + 1
      in Some (if n = 1 then RWait else RUnlock, l\<lparr>active_readers := n\<rparr>))"
| "rw_exec RWait l = (if write_lock l then None else Some (RUnlock, l\<lparr>write_lock := True\<rparr>))"
| "rw_exec RUnlock l = Some (Reading, l\<lparr>read_lock := False\<rparr>)"
| "rw_exec Reading l =
     (let n = active_readers l - 1
      in Some (if n = 0 then RRel else Idle, l\<lparr>active_readers := n\<rparr>))"
| "rw_exec RRel l = Some (Idle, l\<lparr>write_lock := False\<rparr>)"
| "rw_exec WStart l = (if write_lock l then None else Some (Writing, l\<lparr>write_lock := True\<rparr>))"
| "rw_exec WTry l = Some (if write_lock l then Idle else Writing, l\<lparr>write_lock := True\<rparr>)"
| "rw_exec Writing l = Some (Idle, l\<lparr>write_lock := False\<rparr>)"

type_synonym rw_state = "(nat \<Rightarrow> rw_pc) \<times> rw_lock"

definition rw_init :: rw_state where
  "rw_init = ((\<lambda>_. Idle), \<lparr>read_lock = False, write_lock = False, active_readers = 0\<rparr>)"

inductive rw_step :: "rw_state \<Rightarrow> rw_state \<Rightarrow> bool" where
  rw_call: "pc t = Idle \<Longrightarrow> c \<in> {RStart, WStart, WTry} \<Longrightarrow> rw_step (pc, l) (pc(t := c), l)"
| rw_run: "rw_exec (pc t) l = Some (c, l') \<Longrightarrow> rw_step (pc, l) (pc(t := c), l')"

inductive rw_reach :: "rw_state \<Rightarrow> bool" where
  rw_reach_init: "rw_reach rw_init"
| rw_reach_step: "rw_reach s \<Longrightarrow> rw_step s s' \<Longrightarrow> rw_reach s'"

inductive_cases rw_stepE: "rw_step (pc, l) s'"

subsection \<open>Invariant\<close>

text \<open>
  The threads by what they hold: \<open>in_gate\<close> the read lock, \<open>owns\<close> the write lock alone, \<open>shares\<close> the
  write lock with the other readers; \<open>waits\<close> is the first reader waiting for the write lock.
\<close>

definition in_gate :: "rw_pc \<Rightarrow> bool" where
  "in_gate c \<longleftrightarrow> c = RInc \<or> c = RWait \<or> c = RUnlock"

definition waits :: "rw_pc \<Rightarrow> bool" where
  "waits c \<longleftrightarrow> c = RWait"

definition shares :: "rw_pc \<Rightarrow> bool" where
  "shares c \<longleftrightarrow> c = RUnlock \<or> c = Reading"

definition owns :: "rw_pc \<Rightarrow> bool" where
  "owns c \<longleftrightarrow> c = Writing \<or> c = RRel"

lemmas pc_classes = in_gate_def waits_def shares_def owns_def

definition at_pc :: "(rw_pc \<Rightarrow> bool) \<Rightarrow> (nat \<Rightarrow> rw_pc) \<Rightarrow> nat set" where
  "at_pc P pc = {t. P (pc t)}"

lemma at_pc_mem [simp]: "t \<in> at_pc P pc \<longleftrightarrow> P (pc t)"
  by (simp add: at_pc_def)

lemma at_pc_upd:
  "at_pc P (pc(t := c)) = (if P c then insert t (at_pc P pc) else at_pc P pc - {t})"
  by (auto simp: at_pc_def)

definition rw_sets_inv :: "nat set \<Rightarrow> nat set \<Rightarrow> nat set \<Rightarrow> nat set \<Rightarrow> rw_lock \<Rightarrow> bool" where
  "rw_sets_inv G W S B l \<longleftrightarrow>
     finite (W \<union> S) \<and> active_readers l = card (W \<union> S)
     \<and> W \<subseteq> G \<and> (\<forall>t \<in> G. G = {t}) \<and> (read_lock l \<longleftrightarrow> G \<noteq> {})
     \<and> (W = {} \<or> S = {}) \<and> (\<forall>t \<in> B. B = {t}) \<and> (B = {} \<or> S = {})
     \<and> (write_lock l \<longleftrightarrow> B \<noteq> {} \<or> S \<noteq> {})"

definition rw_inv :: "rw_state \<Rightarrow> bool" where
  "rw_inv = (\<lambda>(pc, l). rw_sets_inv (at_pc in_gate pc) (at_pc waits pc) (at_pc shares pc) (at_pc owns pc) l)"

lemma rw_init_inv: "rw_inv rw_init"
  by (simp add: rw_inv_def rw_sets_inv_def rw_init_def at_pc_def pc_classes)

lemma sets_RInc:
  assumes "rw_sets_inv G W S B l" "t \<in> G" "t \<notin> W" "t \<notin> S"
  shows "if active_readers l = 0
    then rw_sets_inv G (insert t W) S B (l\<lparr>active_readers := active_readers l + 1\<rparr>)
    else rw_sets_inv G W (insert t S) B (l\<lparr>active_readers := active_readers l + 1\<rparr>)"
proof -
  have "G = {t}" "W = {}" using assms by (auto simp: rw_sets_inv_def)
  then show ?thesis using assms by (auto simp: rw_sets_inv_def)
qed

lemma sets_Reading:
  assumes "rw_sets_inv G W S B l" "t \<in> S"
  shows "if active_readers l - 1 = 0
    then rw_sets_inv G W (S - {t}) (insert t B) (l\<lparr>active_readers := active_readers l - 1\<rparr>)
    else rw_sets_inv G W (S - {t}) B (l\<lparr>active_readers := active_readers l - 1\<rparr>)"
proof -
  have "W = {}" "B = {}" using assms by (auto simp: rw_sets_inv_def)
  define S' where "S' = S - {t}"
  have "active_readers l - 1 = card S'" "finite S'"
    using assms \<open>W = {}\<close> by (auto simp: rw_sets_inv_def S'_def)
  moreover have "write_lock l" "\<forall>t \<in> G. G = {t}" "read_lock l \<longleftrightarrow> G \<noteq> {}"
    using assms by (auto simp: rw_sets_inv_def)
  ultimately show ?thesis
    using \<open>W = {}\<close> \<open>B = {}\<close> unfolding rw_sets_inv_def S'_def [symmetric] by auto
qed

lemma sets_RUnlock:
  assumes "rw_sets_inv G W S B l" "t \<in> G" "t \<in> S"
  shows "rw_sets_inv (G - {t}) W S B (l\<lparr>read_lock := False\<rparr>)"
proof -
  have "G = {t}" "W = {}" using assms by (auto simp: rw_sets_inv_def)
  then show ?thesis using assms(1) by (auto simp: rw_sets_inv_def)
qed

lemma sets_RWait:
  assumes "rw_sets_inv G W S B l" "t \<in> W" "\<not> write_lock l"
  shows "rw_sets_inv G (W - {t}) (insert t S) B (l\<lparr>write_lock := True\<rparr>)"
proof -
  have "W = {t}" using assms unfolding rw_sets_inv_def by blast
  then show ?thesis using assms(1,3) by (auto simp: rw_sets_inv_def)
qed

lemma rw_exec_inv:
  assumes inv: "rw_inv (pc, l)" and ex: "rw_exec (pc t) l = Some (c, l')"
  shows "rw_inv (pc(t := c), l')"
proof -
  let ?G = "at_pc in_gate pc" and ?W = "at_pc waits pc" and ?S = "at_pc shares pc" and ?B = "at_pc owns pc"
  have I: "rw_sets_inv ?G ?W ?S ?B l" using inv by (simp add: rw_inv_def)
  show ?thesis
  proof (cases "pc t")
    case RInc
    then have m: "t \<in> ?G" "t \<notin> ?W" "t \<notin> ?S" "t \<notin> ?B" by (simp_all add: pc_classes)
    show ?thesis
      using sets_RInc [OF I m(1-3)] ex RInc m
      by (auto simp: rw_inv_def Let_def at_pc_upd pc_classes insert_absorb split: if_splits)
  next
    case Reading
    then have m: "t \<notin> ?G" "t \<notin> ?W" "t \<in> ?S" "t \<notin> ?B" by (simp_all add: pc_classes)
    show ?thesis
      using sets_Reading [OF I m(3)] ex Reading m
      by (auto simp: rw_inv_def Let_def at_pc_upd pc_classes split: if_splits)
  next
    case RStart
    then have m: "t \<notin> ?G" "t \<notin> ?W" "t \<notin> ?S" "t \<notin> ?B" by (simp_all add: pc_classes)
    show ?thesis
      using I ex RStart m by (auto simp: rw_inv_def rw_sets_inv_def at_pc_upd pc_classes split: if_splits)
  next
    case RWait
    then have m: "t \<in> ?G" "t \<in> ?W" "t \<notin> ?S" "t \<notin> ?B" by (simp_all add: pc_classes)
    show ?thesis
      using sets_RWait [OF I m(2)] ex RWait m
      by (auto simp: rw_inv_def at_pc_upd pc_classes insert_absorb split: if_splits)
  next
    case RUnlock
    then have m: "t \<in> ?G" "t \<notin> ?W" "t \<in> ?S" "t \<notin> ?B" by (simp_all add: pc_classes)
    show ?thesis
      using sets_RUnlock [OF I m(1,3)] ex RUnlock m
      by (auto simp: rw_inv_def at_pc_upd pc_classes insert_absorb)
  next
    case RRel
    then have m: "t \<notin> ?G" "t \<notin> ?W" "t \<notin> ?S" "t \<in> ?B" by (simp_all add: pc_classes)
    have "?B = {t}" "?S = {}" using I m by (auto simp: rw_sets_inv_def)
    then show ?thesis
      using I ex RRel m by (auto simp: rw_inv_def rw_sets_inv_def at_pc_upd pc_classes)
  next
    case Writing
    then have m: "t \<notin> ?G" "t \<notin> ?W" "t \<notin> ?S" "t \<in> ?B" by (simp_all add: pc_classes)
    have "?B = {t}" "?S = {}" using I m by (auto simp: rw_sets_inv_def)
    then show ?thesis
      using I ex Writing m by (auto simp: rw_inv_def rw_sets_inv_def at_pc_upd pc_classes)
  next
    case WStart
    then have m: "t \<notin> ?G" "t \<notin> ?W" "t \<notin> ?S" "t \<notin> ?B" by (simp_all add: pc_classes)
    show ?thesis
      using I ex WStart m by (auto simp: rw_inv_def rw_sets_inv_def at_pc_upd pc_classes split: if_splits)
  next
    case WTry
    then have m: "t \<notin> ?G" "t \<notin> ?W" "t \<notin> ?S" "t \<notin> ?B" by (simp_all add: pc_classes)
    show ?thesis
      using I ex WTry m by (auto simp: rw_inv_def rw_sets_inv_def at_pc_upd pc_classes split: if_splits)
  qed (use ex in simp)
qed

lemma rw_call_inv:
  assumes "rw_inv (pc, l)" "pc t = Idle" "c \<in> {RStart, WStart, WTry}"
  shows "rw_inv (pc(t := c), l)"
proof -
  have "\<not> P c \<and> \<not> P (pc t)" if "P \<in> {in_gate, waits, shares, owns}" for P
    using assms(2,3) that by (auto simp: pc_classes)
  then have "at_pc P (pc(t := c)) = at_pc P pc" if "P \<in> {in_gate, waits, shares, owns}" for P
    using that unfolding at_pc_def by (metis (no_types, lifting) fun_upd_apply)
  then show ?thesis using assms(1) by (simp add: rw_inv_def)
qed

lemma rw_reach_inv: "rw_reach s \<Longrightarrow> rw_inv s"
proof (induction rule: rw_reach.induct)
  case (rw_reach_step s s')
  obtain pc l where s: "s = (pc, l)" by (cases s)
  show ?case using rw_reach_step(2) rw_reach_step.IH unfolding s
    by (cases rule: rw_stepE) (auto intro: rw_call_inv rw_exec_inv)
qed (rule rw_init_inv)

subsection \<open>Properties\<close>

text \<open>
  C14. The reader-writer lock excludes: in every state reachable by any interleaving of any number of
  threads, a thread that holds it for writing is the only writer and nobody holds it for reading, and the
  write lock is taken exactly when somebody holds the lock or is about to leave it.
\<close>

theorem rw_mutual_exclusion:
  assumes "rw_reach (pc, l)"
  shows "(pc t = Writing \<and> pc u = Writing \<longrightarrow> t = u) \<and> \<not> (pc t = Writing \<and> pc u = Reading)
    \<and> (pc t = Writing \<or> pc t = Reading \<longrightarrow> write_lock l)"
proof -
  have I: "rw_sets_inv (at_pc in_gate pc) (at_pc waits pc) (at_pc shares pc) (at_pc owns pc) l"
    using rw_reach_inv [OF assms] by (simp add: rw_inv_def)
  have m: "pc v = Writing \<Longrightarrow> v \<in> at_pc owns pc" "pc v = Reading \<Longrightarrow> v \<in> at_pc shares pc" for v
    by (simp_all add: owns_def shares_def)
  show ?thesis using I m unfolding rw_sets_inv_def by (metis emptyE singletonD)
qed

lemma rw_mutual_exclusion_witness:
  "\<exists>pc l. rw_reach (pc, l) \<and> pc 0 = Writing \<and> pc 1 \<noteq> Reading"
proof -
  let ?l = "\<lparr>read_lock = False, write_lock = False, active_readers = 0\<rparr>"
  have "rw_step rw_init ((\<lambda>_. Idle)(0 := WStart), ?l)"
    unfolding rw_init_def by (rule rw_call) simp_all
  moreover have "rw_step ((\<lambda>_. Idle)(0 := WStart), ?l)
      ((\<lambda>_. Idle)(0 := WStart, 0 := Writing), ?l\<lparr>write_lock := True\<rparr>)"
    by (rule rw_run) simp
  ultimately have r: "rw_reach ((\<lambda>_. Idle)(0 := WStart, 0 := Writing), ?l\<lparr>write_lock := True\<rparr>)"
    by (blast intro: rw_reach_init rw_reach_step)
  show ?thesis
    by (rule exI, rule exI, rule conjI, rule r) (use rw_mutual_exclusion [OF r, of 0 1] in simp)
qed

text \<open>
  The reader-writer lock cannot deadlock by itself: in every reachable state, whenever some thread is
  inside one of its methods or holds it, some such thread can take a step.
\<close>

theorem rw_no_deadlock:
  assumes "rw_reach (pc, l)" "pc t \<noteq> Idle"
  shows "\<exists>u c l'. pc u \<noteq> Idle \<and> rw_exec (pc u) l = Some (c, l')"
proof -
  have I: "rw_sets_inv (at_pc in_gate pc) (at_pc waits pc) (at_pc shares pc) (at_pc owns pc) l"
    using rw_reach_inv [OF assms(1)] by (simp add: rw_inv_def)
  have runs: "\<exists>c l'. rw_exec (pc u) l = Some (c, l')" if "pc u \<in> {RInc, RUnlock, Reading, RRel, WTry, Writing}" for u
    using that by (auto simp: Let_def)
  have holder: "\<exists>u. pc u \<in> {RUnlock, Reading, RRel, Writing}" if "write_lock l"
  proof -
    have "at_pc owns pc \<noteq> {} \<or> at_pc shares pc \<noteq> {}" using I that by (simp add: rw_sets_inv_def)
    then obtain u where "owns (pc u) \<or> shares (pc u)" by (metis all_not_in_conv at_pc_mem)
    then show ?thesis by (intro exI [of _ u]) (auto simp: pc_classes)
  qed
  have gate: "\<exists>u. pc u \<in> {RInc, RUnlock, RWait}" if "read_lock l"
  proof -
    have "at_pc in_gate pc \<noteq> {}" using I that by (simp add: rw_sets_inv_def)
    then obtain u where "in_gate (pc u)" by (metis all_not_in_conv at_pc_mem)
    then show ?thesis by (intro exI [of _ u]) (auto simp: in_gate_def)
  qed
  have wr: ?thesis if locked: "write_lock l"
  proof -
    obtain u where "pc u \<in> {RUnlock, Reading, RRel, Writing}" using holder [OF locked] by blast
    then show ?thesis using runs [of u] by (intro exI [of _ u]) auto
  qed
  have free: ?thesis if "\<not> write_lock l" "pc u \<in> {RWait, WStart, RInc, RUnlock}" for u
    using that by (intro exI [of _ u]) (auto simp: Let_def)
  show ?thesis
  proof (cases "write_lock l")
    case False
    show ?thesis
    proof (cases "pc t = RStart")
      case True
      show ?thesis
      proof (cases "read_lock l")
        case rd: True
        then show ?thesis using gate free [OF False] by blast
      next
        case False
        with True show ?thesis by (intro exI [of _ t]) auto
      qed
    next
      case no_start: False
      have "pc t \<in> {RInc, RUnlock, Reading, RRel, WTry, Writing} \<or> pc t \<in> {RWait, WStart, RInc, RUnlock}"
        using assms(2) no_start by (cases "pc t") auto
      then show ?thesis using runs [of t] assms(2) free [OF False, of t] by blast
    qed
  qed (rule wr)
qed

lemma rw_no_deadlock_witness:
  "\<exists>pc l. rw_reach (pc, l) \<and> pc 0 = RStart \<and> (\<exists>u c l'. pc u \<noteq> Idle \<and> rw_exec (pc u) l = Some (c, l'))"
proof -
  let ?l = "\<lparr>read_lock = False, write_lock = False, active_readers = 0\<rparr>"
  have "rw_step rw_init ((\<lambda>_. Idle)(0 := RStart), ?l)"
    unfolding rw_init_def by (rule rw_call) simp_all
  then have r: "rw_reach ((\<lambda>_. Idle)(0 := RStart), ?l)"
    by (blast intro: rw_reach_init rw_reach_step)
  have e: "\<exists>u c l'. ((\<lambda>_. Idle)(0 := RStart)) u \<noteq> Idle \<and> rw_exec (((\<lambda>_. Idle)(0 := RStart)) u) ?l = Some (c, l')"
    using rw_no_deadlock [OF r, of 0] by simp
  show ?thesis by (rule exI, rule exI, rule conjI, rule r, rule conjI, simp, rule e)
qed

section \<open>Semaphore\<close>

subsection \<open>Model\<close>

record sem =
  sem_val :: int
  sem_lock :: bool
  sem_blocked :: "nat list"

text \<open>
  \<open>wait\<close> called by thread \<open>t\<close>: \<open>None\<close> while it spins on the semaphore's lock.  The guard object \<open>l\<close>
  lives until \<open>wait\<close> returns, so a thread that blocks keeps the lock.
\<close>

datatype sem_pc = SIdle | SBlocked | SWoken

definition sem_wait :: "nat \<Rightarrow> sem \<Rightarrow> (sem_pc \<times> sem) option" where
  "sem_wait t s =
     (if sem_lock s then None
      else if sem_val s \<le> 0
      then Some (SBlocked, s\<lparr>sem_lock := True, sem_val := sem_val s - 1, sem_blocked := sem_blocked s @ [t]\<rparr>)
      else Some (SIdle, s\<lparr>sem_val := sem_val s - 1\<rparr>))"

text \<open>\<open>signal\<close>: the woken thread, if any, and the new state.\<close>

definition sem_signal :: "sem \<Rightarrow> (nat option \<times> sem) option" where
  "sem_signal s =
     (if sem_lock s then None
      else let s = s\<lparr>sem_val := sem_val s + 1\<rparr> in
        case sem_blocked s of
          [] \<Rightarrow> Some (None, s)
        | b # bs \<Rightarrow> Some (Some b, s\<lparr>sem_blocked := bs\<rparr>))"

text \<open>\<open>semaphore_blocker::interrupt\<close> of thread \<open>t\<close>, and the return from \<open>wait\<close> after being woken.\<close>

definition sem_interrupt :: "nat \<Rightarrow> sem \<Rightarrow> sem" where
  "sem_interrupt t s = s\<lparr>sem_blocked := remove1 t (sem_blocked s)\<rparr>"

definition sem_resume :: "sem \<Rightarrow> sem" where
  "sem_resume s = s\<lparr>sem_lock := False\<rparr>"

inductive sem_step :: "(nat \<Rightarrow> sem_pc) \<times> sem \<Rightarrow> (nat \<Rightarrow> sem_pc) \<times> sem \<Rightarrow> bool" where
  step_wait: "pc t = SIdle \<Longrightarrow> sem_wait t s = Some (c, s') \<Longrightarrow> sem_step (pc, s) (pc(t := c), s')"
| step_signal: "pc t = SIdle \<Longrightarrow> sem_signal s = Some (None, s') \<Longrightarrow> sem_step (pc, s) (pc, s')"
| step_wake: "pc t = SIdle \<Longrightarrow> sem_signal s = Some (Some b, s') \<Longrightarrow>
    sem_step (pc, s) (if pc b = SBlocked then pc(b := SWoken) else pc, s')"
| step_interrupt: "pc t = SBlocked \<Longrightarrow> sem_step (pc, s) (pc(t := SWoken), sem_interrupt t s)"
| step_timeout: "pc t = SBlocked \<Longrightarrow> sem_step (pc, s) (pc(t := SWoken), s)"
| step_resume: "pc t = SWoken \<Longrightarrow> sem_step (pc, s) (pc(t := SIdle), sem_resume s)"

inductive sem_reach :: "(nat \<Rightarrow> sem_pc) \<times> sem \<Rightarrow> bool" where
  sem_init: "sem_reach ((\<lambda>_. SIdle), \<lparr>sem_val = v, sem_lock = False, sem_blocked = []\<rparr>)"
| sem_next: "sem_reach s \<Longrightarrow> sem_step s s' \<Longrightarrow> sem_reach s'"

subsection \<open>A blocked waiter shuts the semaphore\<close>

definition sem_inv :: "(nat \<Rightarrow> sem_pc) \<times> sem \<Rightarrow> bool" where
  "sem_inv = (\<lambda>(pc, s). (sem_lock s \<longleftrightarrow> (\<exists>t. pc t \<noteq> SIdle)) \<and> (\<forall>t u. pc t \<noteq> SIdle \<longrightarrow> u \<noteq> t \<longrightarrow> pc u = SIdle))"

lemma sem_step_inv:
  assumes "sem_step x y" "sem_inv x"
  shows "sem_inv y"
  using assms
proof (induction rule: sem_step.induct)
  case (step_wait pc t s c s')
  then show ?case by (auto simp: sem_inv_def sem_wait_def split: if_splits)
next
  case (step_signal pc t s s')
  then show ?case by (auto simp: sem_inv_def sem_signal_def Let_def split: if_splits list.splits)
next
  case (step_wake pc t s b s')
  then have "\<not> sem_lock s" by (auto simp: sem_signal_def split: if_splits)
  then have "pc b = SIdle" using step_wake by (auto simp: sem_inv_def)
  then show ?case
    using step_wake by (auto simp: sem_inv_def sem_signal_def Let_def split: if_splits list.splits)
next
  case (step_resume pc t s)
  then have "pc u = SIdle" if "u \<noteq> t" for u
    using that by (auto simp: sem_inv_def)
  then show ?case by (auto simp: sem_inv_def sem_resume_def)
qed (auto simp: sem_inv_def sem_interrupt_def)

lemma sem_reach_inv: "sem_reach s \<Longrightarrow> sem_inv s"
proof (induction rule: sem_reach.induct)
  case (sem_next s s')
  then show ?case using sem_step_inv by blast
qed (simp add: sem_inv_def)

text \<open>
  A thread that blocks in \<open>semaphore::wait\<close> holds the semaphore's own lock, so from then until it
  is interrupted or times out no other thread gets through \<open>signal\<close> or \<open>wait\<close>: both spin for ever, and in
  no reachable state does a \<open>signal\<close> wake anybody.
\<close>

theorem semaphore_signal_never_wakes:
  assumes "sem_reach (pc, s)"
  shows "(pc t = SBlocked \<longrightarrow> sem_signal s = None \<and> sem_wait u s = None)
    \<and> (\<forall>b s'. sem_signal s = Some (Some b, s') \<longrightarrow> pc b \<noteq> SBlocked)"
proof -
  have inv: "sem_inv (pc, s)" by (rule sem_reach_inv [OF assms])
  have "sem_lock s" if "pc b \<noteq> SIdle" for b using inv that by (auto simp: sem_inv_def)
  then show ?thesis by (auto simp: sem_signal_def sem_wait_def split: if_splits) force+
qed

lemma semaphore_signal_never_wakes_witness:
  "\<exists>pc s. sem_reach (pc, s) \<and> pc 3 = SBlocked \<and> sem_signal s = None"
proof -
  let ?s = "\<lparr>sem_val = 0, sem_lock = False, sem_blocked = []\<rparr>"
  let ?s' = "\<lparr>sem_val = - 1, sem_lock = True, sem_blocked = [3]\<rparr>"
  have "sem_step ((\<lambda>_. SIdle), ?s) ((\<lambda>_. SIdle)(3 := SBlocked), ?s')"
    by (rule step_wait) (simp_all add: sem_wait_def)
  then have r: "sem_reach ((\<lambda>_. SIdle)(3 := SBlocked), ?s')"
    by (blast intro: sem_init sem_next)
  show ?thesis
    by (rule exI, rule exI, rule conjI, rule r) (use semaphore_signal_never_wakes [OF r, of 3] in simp)
qed

end
