(* ===== verification/Paging.thy ===== *)
theory Paging
  imports PhysAlloc
begin

unbundle bit_operations_syntax

text \<open>
  The page tables of \<^verbatim>\<open>Kernel/src/arch/x86_64/paging.cpp\<close> and \<^verbatim>\<open>Kernel/include/arch/x86_64/paging.h\<close>: index
  extraction and frame fields, the kernel heap window (one page directory and its 512 tables, held
  statically), and the page map of a process.  Table entries are 64-bit words; a table is a function on
  its index, and an access outside its 512 entries is \<open>Out_of_bounds\<close>.  The TLB flush \<open>invlpg\<close> has no
  effect on the tables.
\<close>

section \<open>Indices and frames\<close>

definition KERNEL_VIRTUAL_BASE :: u64 where "KERNEL_VIRTUAL_BASE = 0xFFFFFFFF80000000"

definition IO_VIRTUAL_BASE :: u64 where "IO_VIRTUAL_BASE = KERNEL_VIRTUAL_BASE - 0x100000000"

definition PML4_GET_INDEX :: "u64 \<Rightarrow> nat" where "PML4_GET_INDEX addr = unat (drop_bit 39 addr AND 0x1FF)"

definition PDPT_GET_INDEX :: "u64 \<Rightarrow> nat" where "PDPT_GET_INDEX addr = unat (drop_bit 30 addr AND 0x1FF)"

definition PDE_GET_INDEX :: "u64 \<Rightarrow> nat" where "PDE_GET_INDEX addr = unat (drop_bit 21 addr AND 0x1FF)"

definition PT_GET_INDEX :: "u64 \<Rightarrow> nat" where "PT_GET_INDEX addr = unat (drop_bit 12 addr AND 0x1FF)"

lemmas index_defs = PML4_GET_INDEX_def PDPT_GET_INDEX_def PDE_GET_INDEX_def PT_GET_INDEX_def

definition TABLE_PRESENT :: u64 where "TABLE_PRESENT = 1"

definition TABLE_WRITEABLE :: u64 where "TABLE_WRITEABLE = 2"

definition PAGE_USER :: u64 where "PAGE_USER = 4"

definition PDE_2M :: u64 where "PDE_2M = 128"

definition PAGE_FRAME :: u64 where "PAGE_FRAME = 0xFFFFFFFFFF000"

definition set_page_frame :: "u64 \<Rightarrow> u64 \<Rightarrow> u64" where
  "set_page_frame page addr = (page AND NOT PAGE_FRAME) OR (addr AND PAGE_FRAME)"

text \<open>\<open>get_page_frame\<close> returns a \<open>uint32_t\<close>.\<close>

definition get_page_frame :: "u64 \<Rightarrow> u32" where
  "get_page_frame p = ucast (drop_bit 12 (p AND PAGE_FRAME))"

definition PAGE_COUNT_4K :: "u64 \<Rightarrow> u32" where
  "PAGE_COUNT_4K sz = ucast (drop_bit 12 (sz + 4096 - 1))"

definition present :: "u64 \<Rightarrow> bool" where
  "present e \<longleftrightarrow> e AND TABLE_PRESENT \<noteq> 0"

lemmas flag_defs = TABLE_PRESENT_def TABLE_WRITEABLE_def PAGE_USER_def PDE_2M_def

lemma index_eq:
  "PML4_GET_INDEX a = unat a div 2 ^ 39 mod 512" "PDPT_GET_INDEX a = unat a div 2 ^ 30 mod 512"
  "PDE_GET_INDEX a = unat a div 2 ^ 21 mod 512" "PT_GET_INDEX a = unat a div 2 ^ 12 mod 512"
proof -
  have "(drop_bit n a AND 0x1FF) = take_bit 9 (drop_bit n a)" for n
    by (simp add: take_bit_eq_mask mask_eq_exp_minus_1)
  then have "unat (drop_bit n a AND 0x1FF) = unat a div 2 ^ n mod 512" for n
    by (simp add: unsigned_take_bit_eq unat_drop_bit_eq) (simp add: drop_bit_eq_div take_bit_eq_mod)
  then show "PML4_GET_INDEX a = unat a div 2 ^ 39 mod 512" "PDPT_GET_INDEX a = unat a div 2 ^ 30 mod 512"
    "PDE_GET_INDEX a = unat a div 2 ^ 21 mod 512" "PT_GET_INDEX a = unat a div 2 ^ 12 mod 512"
    by (simp_all only: index_defs)
qed

lemma index_bound [simp]:
  "PML4_GET_INDEX a < 512" "PDPT_GET_INDEX a < 512" "PDE_GET_INDEX a < 512" "PT_GET_INDEX a < 512"
  by (simp_all add: index_eq)

lemma present_iff: "present e \<longleftrightarrow> bit e 0"
  by (simp add: present_def TABLE_PRESENT_def and_one_eq odd_iff_mod_2_eq_one bit_0)

lemma bit_PAGE_FRAME: "bit PAGE_FRAME n \<longleftrightarrow> 12 \<le> n \<and> n < 52"
proof -
  have "PAGE_FRAME = push_bit 12 (mask 40)" by (simp add: PAGE_FRAME_def mask_eq_exp_minus_1)
  then have "bit PAGE_FRAME n \<longleftrightarrow> bit (push_bit 12 (mask 40) :: u64) n" by (rule arg_cong)
  then show ?thesis by (auto simp: bit_simps)
qed

lemma present_set_page_frame [simp]: "present (set_page_frame e a) \<longleftrightarrow> present e"
  by (simp add: present_iff set_page_frame_def bit_simps bit_PAGE_FRAME)

section \<open>The kernel heap window\<close>

subsection \<open>Model\<close>

record kheap =
  kernel_heap_dir :: "nat \<Rightarrow> u64"
  kernel_heap_dir_tables :: "nat \<Rightarrow> nat \<Rightarrow> u64"

definition set_entry :: "nat \<Rightarrow> nat \<Rightarrow> u64 \<Rightarrow> kheap \<Rightarrow> kheap kres" where
  "set_entry d p e h =
     (if d < 512 \<and> p < 512
      then Inr (h\<lparr>kernel_heap_dir_tables := (kernel_heap_dir_tables h)(d := (kernel_heap_dir_tables h d)(p := e))\<rparr>)
      else Inl Out_of_bounds)"

text \<open>The address of page \<open>offset\<close> of table \<open>page_dir_offset\<close> of the window.\<close>

definition heap_address :: "nat \<Rightarrow> nat \<Rightarrow> u64" where
  "heap_address page_dir_offset offset =
     (0x8000000000 * 511 + 511 * 0x40000000 + of_nat page_dir_offset * 0x200000 + of_nat offset * 0x1000)
       OR 0xFFFF000000000000"

text \<open>The marking loop of the first pass: \<open>while(counter--)\<close>.\<close>

primrec mark_pages :: "nat \<Rightarrow> nat \<Rightarrow> nat \<Rightarrow> kheap \<Rightarrow> kheap kres" where
  "mark_pages 0 d offset h = Inr h"
| "mark_pages (Suc counter) d offset h =
     (let (d, offset) = (if offset \<ge> 512 then (d + 1, 0) else (d, offset))
      in kbind (set_entry d offset (TABLE_WRITEABLE OR TABLE_PRESENT) h)
           (mark_pages counter d (offset + 1)))"

text \<open>
  The first pass over the tables in use.  The state of the search is the start of the current run of
  free pages (\<open>page_dir_offset\<close>, \<open>offset\<close>) and its length \<open>counter\<close>; \<open>Inl\<close> is the run found.
\<close>

type_synonym run = "nat \<times> nat \<times> nat"

function scan_table :: "kheap \<Rightarrow> nat \<Rightarrow> nat \<Rightarrow> nat \<Rightarrow> run \<Rightarrow> run + run" where
  "scan_table h amount i j (d, offset, counter) =
     (if j < 512 then
        if present (kernel_heap_dir_tables h i j) then scan_table h amount i (j + 1) (i, j + 1, 0)
        else if counter + 1 \<ge> amount then Inl (d, offset, counter + 1)
        else scan_table h amount i (j + 1) (d, offset, counter + 1)
      else Inr (d, offset, counter))"
  by pat_completeness auto
termination by (relation "measure (\<lambda>(h, amount, i, j, r). 512 - j)") auto

function scan_dir :: "kheap \<Rightarrow> nat \<Rightarrow> nat \<Rightarrow> run \<Rightarrow> run + run" where
  "scan_dir h amount i r =
     (if i < 512 then
        if present (kernel_heap_dir h i) \<and> kernel_heap_dir h i AND PDE_2M = 0
        then (case scan_table h amount i 0 r of Inl found \<Rightarrow> Inl found | Inr r \<Rightarrow> scan_dir h amount (i + 1) r)
        else scan_dir h amount (i + 1) (i + 1, 0, 0)
      else Inr r)"
  by pat_completeness auto
termination by (relation "measure (\<lambda>(h, amount, i, r). 512 - i)") auto

declare scan_table.simps [simp del] scan_dir.simps [simp del]

text \<open>
  The second pass over unused tables.  \<open>table_phys d\<close> is the physical address of the static table \<open>d\<close>.
\<close>

definition use_table :: "(nat \<Rightarrow> u64) \<Rightarrow> nat \<Rightarrow> kheap \<Rightarrow> kheap kres" where
  "use_table table_phys d h =
     (if d < 512
      then Inr (h\<lparr>kernel_heap_dir := (kernel_heap_dir h)
             (d := set_page_frame (kernel_heap_dir h d) (table_phys d) OR (TABLE_WRITEABLE OR TABLE_PRESENT))\<rparr>)
      else Inl Out_of_bounds)"

primrec mark_new_pages :: "(nat \<Rightarrow> u64) \<Rightarrow> nat \<Rightarrow> nat \<Rightarrow> nat \<Rightarrow> kheap \<Rightarrow> kheap kres" where
  "mark_new_pages tp 0 d offset h = Inr h"
| "mark_new_pages tp (Suc amount) d offset h =
     (if offset \<ge> 512
      then kbind (use_table tp (d + 1) h)
        (\<lambda>h. kbind (set_entry (d + 1) 0 (TABLE_WRITEABLE OR TABLE_PRESENT) h) (mark_new_pages tp amount (d + 1) 1))
      else kbind (set_entry d offset (TABLE_WRITEABLE OR TABLE_PRESENT) h) (mark_new_pages tp amount d (offset + 1)))"

function scan_unused :: "kheap \<Rightarrow> nat \<Rightarrow> nat \<Rightarrow> nat \<Rightarrow> nat \<Rightarrow> nat option" where
  "scan_unused h amount i d counter =
     (if i < 512 then
        if \<not> present (kernel_heap_dir h i)
        then (if counter + 512 \<ge> amount then Some d else scan_unused h amount (i + 1) d (counter + 512))
        else scan_unused h amount (i + 1) (i + 1) 0
      else None)"
  by pat_completeness auto
termination by (relation "measure (\<lambda>(h, amount, i, d, counter). 512 - i)") auto

declare scan_unused.simps [simp del]

definition kernel_allocate_4k_pages :: "(nat \<Rightarrow> u64) \<Rightarrow> nat \<Rightarrow> kheap \<Rightarrow> (u64 \<times> kheap) kres" where
  "kernel_allocate_4k_pages tp amount h =
     (case scan_dir h amount 0 (0, 0, 0) of
        Inl (d, offset, counter) \<Rightarrow>
          kbind (mark_pages counter d offset h) (\<lambda>h. Inr (heap_address d offset, h))
      | Inr _ \<Rightarrow>
          (case scan_unused h amount 0 0 0 of
             Some d \<Rightarrow> kbind (use_table tp d h)
               (\<lambda>h. kbind (mark_new_pages tp amount d 0 h) (\<lambda>h. Inr (heap_address d 0, h)))
           | None \<Rightarrow> Inl Assert_failed))"

primrec kernel_free_4k_pages :: "nat \<Rightarrow> u64 \<Rightarrow> kheap \<Rightarrow> kheap kres" where
  "kernel_free_4k_pages 0 virt h = Inr h"
| "kernel_free_4k_pages (Suc amount) virt h =
     kbind (set_entry (PDE_GET_INDEX virt) (PT_GET_INDEX virt) 0 h)
       (kernel_free_4k_pages amount (virt + 4096))"

primrec kernel_map_virtual_memory_4k :: "nat \<Rightarrow> u64 \<Rightarrow> u64 \<Rightarrow> u64 \<Rightarrow> kheap \<Rightarrow> kheap kres" where
  "kernel_map_virtual_memory_4k 0 phys virt flags h = Inr h"
| "kernel_map_virtual_memory_4k (Suc amount) phys virt flags h =
     kbind (set_entry (PDE_GET_INDEX virt) (PT_GET_INDEX virt) (set_page_frame flags phys) h)
       (kernel_map_virtual_memory_4k amount (phys + 4096) (virt + 4096) flags)"

text \<open>The frame number is shifted as a \<open>uint32_t\<close>.\<close>

definition virtual_to_physical_addr :: "kheap \<Rightarrow> u64 \<Rightarrow> u64" where
  "virtual_to_physical_addr h addr =
     (if PML4_GET_INDEX addr < 511 then 0
      else if kernel_heap_dir h (PDE_GET_INDEX addr) AND PDE_2M \<noteq> 0
      then ucast (push_bit 12 (get_page_frame (kernel_heap_dir h (PDE_GET_INDEX addr))))
      else ucast (push_bit 12 (get_page_frame (kernel_heap_dir_tables h (PDE_GET_INDEX addr) (PT_GET_INDEX addr)))))"

definition get_io_mapping :: "u64 \<Rightarrow> u64" where
  "get_io_mapping addr = (if addr > 0xFFFFFFFF then 0xFFFFFFFF else addr + IO_VIRTUAL_BASE)"

definition check_kernel_pointer :: "(nat \<Rightarrow> u64) \<Rightarrow> (nat \<Rightarrow> u64) \<Rightarrow> kheap \<Rightarrow> u64 \<Rightarrow> u64 \<Rightarrow> bool" where
  "check_kernel_pointer kernel_pdpt kernel_dir h addr len =
     (if PML4_GET_INDEX addr \<noteq> PML4_GET_INDEX KERNEL_VIRTUAL_BASE then False
      else if \<not> present (kernel_pdpt (PDPT_GET_INDEX addr)) then False
      else if PDPT_GET_INDEX addr = 511
      then (if \<not> present (kernel_heap_dir h (PDE_GET_INDEX addr)) then False
            else if kernel_heap_dir h (PDE_GET_INDEX addr) AND PDE_2M = 0
                 \<and> \<not> present (kernel_heap_dir_tables h (PDE_GET_INDEX addr) (PT_GET_INDEX addr)) then False
            else True)
      else if PDPT_GET_INDEX addr = PDPT_GET_INDEX KERNEL_VIRTUAL_BASE
      then present (kernel_dir (PDE_GET_INDEX addr))
      else False)"

subsection \<open>Pages of the window by number\<close>

definition pages :: "kheap \<Rightarrow> nat \<Rightarrow> u64" where
  "pages h n = kernel_heap_dir_tables h (n div 512) (n mod 512)"

definition heap_inv :: "kheap \<Rightarrow> bool" where
  "heap_inv h \<longleftrightarrow> (\<forall>n. \<not> present (kernel_heap_dir h (n div 512)) \<longrightarrow> \<not> present (pages h n))"

definition filled :: "nat \<Rightarrow> nat \<Rightarrow> u64 \<Rightarrow> (nat \<Rightarrow> u64) \<Rightarrow> nat \<Rightarrow> u64" where
  "filled s n e f = (\<lambda>k. if s \<le> k \<and> k < s + n then e else f k)"

lemma filled_0 [simp]: "filled s 0 e f = f"
  by (auto simp: filled_def fun_eq_iff)

lemma filled_Suc: "filled (Suc s) n e (f(s := e)) = filled s (Suc n) e f"
  by (auto simp: filled_def fun_eq_iff)

lemma set_entry_pages:
  assumes "d < 512" "p < 512"
  shows "\<exists>h'. set_entry d p e h = Inr h' \<and> pages h' = (pages h)(512 * d + p := e)
           \<and> kernel_heap_dir h' = kernel_heap_dir h"
proof -
  have "(n div 512 = d \<and> n mod 512 = p) = (n = 512 * d + p)" for n
    using assms by (metis add.commute div_mult_mod_eq div_mult_self4 mod_less mod_mult_self4 div_less
        add_0 mult.commute zero_neq_numeral)
  then show ?thesis using assms by (auto simp: set_entry_def pages_def fun_eq_iff)
qed

lemma mark_pages_correct:
  "offset \<le> 512 \<Longrightarrow> 512 * d + offset + n \<le> 262144 \<Longrightarrow>
   \<exists>h'. mark_pages n d offset h = Inr h' \<and> kernel_heap_dir h' = kernel_heap_dir h
     \<and> pages h' = filled (512 * d + offset) n (TABLE_WRITEABLE OR TABLE_PRESENT) (pages h)"
proof (induction n arbitrary: d offset h)
  case (Suc n)
  define d' o' where "d' = (if offset \<ge> 512 then d + 1 else d)" and "o' = (if offset \<ge> 512 then 0 else offset)"
  have s: "512 * d' + o' = 512 * d + offset" "o' < 512" "d' < 512"
    using Suc.prems by (auto simp: d'_def o'_def)
  have step: "mark_pages (Suc n) d offset h
      = kbind (set_entry d' o' (TABLE_WRITEABLE OR TABLE_PRESENT) h) (mark_pages n d' (o' + 1))"
    by (simp add: d'_def o'_def)
  obtain h1 where h1: "set_entry d' o' (TABLE_WRITEABLE OR TABLE_PRESENT) h = Inr h1"
      "pages h1 = (pages h)(512 * d' + o' := TABLE_WRITEABLE OR TABLE_PRESENT)"
      "kernel_heap_dir h1 = kernel_heap_dir h"
    using set_entry_pages [OF s(3,2)] by blast
  from Suc.IH [of "o' + 1" d' h1] s Suc.prems obtain h' where
      "mark_pages n d' (o' + 1) h1 = Inr h'" "kernel_heap_dir h' = kernel_heap_dir h1"
      "pages h' = filled (Suc (512 * d' + o')) n (TABLE_WRITEABLE OR TABLE_PRESENT) (pages h1)"
    by auto
  then show ?case using step h1 s(1) by (simp add: filled_Suc)
qed simp

subsection \<open>The searches\<close>

text \<open>
  \<open>run_ok h amount r k\<close>: the run \<open>r\<close> ends before page \<open>k\<close>, is shorter than \<open>amount\<close>, and its pages are
  free and belong to tables in use.
\<close>

definition free_run :: "kheap \<Rightarrow> nat \<Rightarrow> nat \<Rightarrow> bool" where
  "free_run h s k \<longleftrightarrow> (\<forall>n. s \<le> n \<and> n < k \<longrightarrow> \<not> present (pages h n) \<and> present (kernel_heap_dir h (n div 512)))"

definition run_ok :: "kheap \<Rightarrow> nat \<Rightarrow> run \<Rightarrow> nat \<Rightarrow> bool" where
  "run_ok h amount r k = (case r of (d, offset, counter) \<Rightarrow>
     offset \<le> 512 \<and> 512 * d + offset + counter = k \<and> counter < amount \<and> free_run h (512 * d + offset) k)"

definition found_ok :: "kheap \<Rightarrow> nat \<Rightarrow> run \<Rightarrow> bool" where
  "found_ok h amount r = (case r of (d, offset, counter) \<Rightarrow>
     offset \<le> 512 \<and> counter = amount \<and> 512 * d + offset + amount \<le> 262144
     \<and> free_run h (512 * d + offset) (512 * d + offset + amount))"

lemma free_run_empty [simp]: "free_run h s s"
  by (auto simp: free_run_def)

lemma free_run_Suc:
  "free_run h s k \<Longrightarrow> \<not> present (pages h k) \<Longrightarrow> present (kernel_heap_dir h (k div 512)) \<Longrightarrow> free_run h s (Suc k)"
  by (auto simp: free_run_def less_Suc_eq)

lemma scan_table_correct:
  assumes "i < 512" "present (kernel_heap_dir h i)" "0 < amount"
  shows "run_ok h amount r (512 * i + j) \<Longrightarrow> j \<le> 512 \<Longrightarrow>
    (case scan_table h amount i j r of
       Inl found \<Rightarrow> found_ok h amount found
     | Inr r' \<Rightarrow> run_ok h amount r' (512 * i + 512))"
proof (induction "512 - j" arbitrary: j r)
  case 0
  then show ?case by (cases r) (simp add: scan_table.simps)
next
  case (Suc m)
  obtain d offset counter where r: "r = (d, offset, counter)" by (cases r)
  have j: "j < 512" using Suc.hyps(2) by simp
  have here: "(512 * i + j) div 512 = i" "(512 * i + j) mod 512 = j" using j by auto
  have m: "m = 512 - (j + 1)" using Suc.hyps(2) by simp
  note ih = Suc.hyps(1) [OF m]
  show ?case
  proof (cases "present (kernel_heap_dir_tables h i j)")
    case True
    then have "scan_table h amount i j r = scan_table h amount i (j + 1) (i, j + 1, 0)"
      using j r scan_table.simps [of h amount i j d offset counter] by simp
    then show ?thesis
      using ih [of "(i, j + 1, 0)"] j assms(3) by (simp add: run_ok_def)
  next
    case False
    then have run: "free_run h (512 * d + offset) (Suc (512 * i + j))"
      using Suc.prems r assms(2) here by (intro free_run_Suc) (auto simp: run_ok_def pages_def)
    have step: "scan_table h amount i j r = (if counter + 1 \<ge> amount then Inl (d, offset, counter + 1)
        else scan_table h amount i (j + 1) (d, offset, counter + 1))"
      using j r False scan_table.simps [of h amount i j d offset counter] by simp
    show ?thesis
    proof (cases "counter + 1 \<ge> amount")
      case True
      moreover have "512 * d + offset + amount = Suc (512 * i + j)"
        using True Suc.prems r by (auto simp: run_ok_def)
      ultimately show ?thesis
        using step run Suc.prems r j assms(1) by (auto simp: run_ok_def found_ok_def)
    next
      case False
      then have "run_ok h amount (d, offset, counter + 1) (512 * i + (j + 1))"
        using run Suc.prems r by (auto simp: run_ok_def)
      then show ?thesis using ih [of "(d, offset, counter + 1)"] step False j by simp
    qed
  qed
qed

lemma scan_dir_correct:
  assumes "0 < amount"
  shows "run_ok h amount r (512 * i) \<Longrightarrow> i \<le> 512 \<Longrightarrow>
    (case scan_dir h amount i r of Inl found \<Rightarrow> found_ok h amount found | Inr _ \<Rightarrow> True)"
proof (induction "512 - i" arbitrary: i r)
  case 0
  then show ?case by (subst scan_dir.simps) simp
next
  case (Suc m)
  then have i: "i < 512" and m: "m = 512 - (i + 1)" by simp_all
  note ih = Suc.hyps(1) [OF m]
  show ?case
  proof (cases "present (kernel_heap_dir h i) \<and> kernel_heap_dir h i AND PDE_2M = 0")
    case True
    have step: "scan_dir h amount i r
        = (case scan_table h amount i 0 r of Inl found \<Rightarrow> Inl found | Inr r \<Rightarrow> scan_dir h amount (i + 1) r)"
      using True i by (subst scan_dir.simps) simp
    show ?thesis
    proof (cases "scan_table h amount i 0 r")
      case (Inl found)
      then show ?thesis using scan_table_correct [OF i _ assms, of h r 0] True Suc.prems step by simp
    next
      case (Inr r')
      then have "run_ok h amount r' (512 * (i + 1))"
        using scan_table_correct [OF i _ assms, of h r 0] True Suc.prems by (simp add: add.commute)
      then show ?thesis using ih [of r'] i step Inr by simp
    qed
  next
    case False
    then have "scan_dir h amount i r = scan_dir h amount (i + 1) (i + 1, 0, 0)"
      using i by (subst scan_dir.simps) auto
    then show ?thesis using ih [of "(i + 1, 0, 0)"] i assms by (simp add: run_ok_def)
  qed
qed

lemma scan_unused_correct:
  "counter = 512 * (i - d) \<Longrightarrow> d \<le> i \<Longrightarrow> i \<le> 512 \<Longrightarrow> \<forall>t. d \<le> t \<and> t < i \<longrightarrow> \<not> present (kernel_heap_dir h t) \<Longrightarrow>
   scan_unused h amount i d counter = Some d' \<Longrightarrow>
   512 * d' + amount \<le> 262144 \<and> d' < 512
     \<and> (\<forall>t. d' \<le> t \<and> 512 * t < 512 * d' + amount \<longrightarrow> \<not> present (kernel_heap_dir h t))"
proof (induction "512 - i" arbitrary: i d counter)
  case 0
  then show ?case by (simp add: scan_unused.simps)
next
  case (Suc m)
  then have i: "i < 512" and m: "m = 512 - (i + 1)" by simp_all
  note ih = Suc.hyps(1) [OF m]
  show ?case
  proof (cases "present (kernel_heap_dir h i)")
    case True
    then have "scan_unused h amount (i + 1) (i + 1) 0 = Some d'"
      using Suc.prems(5) i by (simp add: scan_unused.simps [of h amount i])
    then show ?thesis by (intro ih [of 0 "i + 1"]) (use i in auto)
  next
    case False
    have unused: "\<forall>t. d \<le> t \<and> t < i + 1 \<longrightarrow> \<not> present (kernel_heap_dir h t)"
      using Suc.prems(4) False by (auto simp: less_Suc_eq)
    show ?thesis
    proof (cases "counter + 512 \<ge> amount")
      case True
      then have "d' = d" "amount \<le> 512 * (i + 1 - d)"
        using Suc.prems(1,2,5) i False by (auto simp: scan_unused.simps [of h amount i])
      moreover have "t < i + 1" if "512 * t < 512 * d + amount" for t
        using that \<open>amount \<le> 512 * (i + 1 - d)\<close> Suc.prems(2) by linarith
      ultimately show ?thesis using unused i Suc.prems(2) by auto
    next
      case False
      then have "scan_unused h amount (i + 1) d (counter + 512) = Some d'"
        using Suc.prems(5) i \<open>\<not> present (kernel_heap_dir h i)\<close> by (simp add: scan_unused.simps [of h amount i])
      moreover have "counter + 512 = 512 * (i + 1 - d)" using Suc.prems(1,2) by simp
      ultimately show ?thesis using ih [of "counter + 512" d] Suc.prems(2) i unused by simp
    qed
  qed
qed

lemma scan_unused_Some:
  "\<exists>t<512. i \<le> t \<and> \<not> present (kernel_heap_dir h t) \<Longrightarrow> amount \<le> 512 \<Longrightarrow>
   \<exists>d. scan_unused h amount i d0 counter = Some d"
proof (induction "512 - i" arbitrary: i d0 counter)
  case (Suc m)
  then have i: "i < 512" and m: "m = 512 - (i + 1)" by simp_all
  show ?case
  proof (cases "present (kernel_heap_dir h i)")
    case True
    then have "\<exists>t<512. i + 1 \<le> t \<and> \<not> present (kernel_heap_dir h t)"
      using Suc.prems(1) by (metis Suc_eq_plus1 Suc_leI le_neq_implies_less)
    then show ?thesis
      using Suc.hyps(1) [OF m] Suc.prems(2) True i by (simp add: scan_unused.simps [of h amount i])
  next
    case False
    then show ?thesis using i Suc.prems(2) by (simp add: scan_unused.simps [of h amount i])
  qed
qed auto

lemma present_new_entry: "present (e OR (TABLE_WRITEABLE OR TABLE_PRESENT))" "present (TABLE_WRITEABLE OR TABLE_PRESENT)"
  by (simp_all only: present_iff bit_or_iff) (simp_all add: flag_defs)

lemma mark_new_pages_correct:
  "offset \<le> 512 \<Longrightarrow> 512 * d + offset + n \<le> 262144 \<Longrightarrow> d < 512 \<Longrightarrow> present (kernel_heap_dir h d) \<Longrightarrow>
   \<exists>h'. mark_new_pages tp n d offset h = Inr h'
     \<and> pages h' = filled (512 * d + offset) n (TABLE_WRITEABLE OR TABLE_PRESENT) (pages h)
     \<and> (\<forall>k. 512 * d + offset \<le> k \<and> k < 512 * d + offset + n \<longrightarrow> present (kernel_heap_dir h' (k div 512)))
     \<and> (\<forall>t. t \<le> d \<or> 512 * d + offset + n \<le> 512 * t \<longrightarrow> kernel_heap_dir h' t = kernel_heap_dir h t)
     \<and> (\<forall>t. present (kernel_heap_dir h t) \<longrightarrow> present (kernel_heap_dir h' t))"
proof (induction n arbitrary: d offset h)
  case 0
  then show ?case by auto
next
  case (Suc n)
  define WP where "WP = TABLE_WRITEABLE OR TABLE_PRESENT"
  note ih = Suc.IH [folded WP_def]
  show ?case
  proof (cases "offset = 512")
    case True
    then have d: "d + 1 < 512" using Suc.prems by simp
    obtain h1 where h1: "use_table tp (d + 1) h = Inr h1" "pages h1 = pages h"
        "kernel_heap_dir h1 = (kernel_heap_dir h)(d + 1 := set_page_frame (kernel_heap_dir h (d + 1)) (tp (d + 1)) OR WP)"
      using d by (auto simp: use_table_def pages_def WP_def fun_eq_iff)
    obtain h2 where h2: "set_entry (d + 1) 0 WP h1 = Inr h2"
        "pages h2 = (pages h1)(512 * (d + 1) := WP)" "kernel_heap_dir h2 = kernel_heap_dir h1"
      using set_entry_pages [OF d, of 0 WP h1] by auto
    have "present (kernel_heap_dir h2 (d + 1))" by (simp add: h1(3) h2(3) present_new_entry WP_def)
    then obtain h' where h':
      "mark_new_pages tp n (d + 1) 1 h2 = Inr h'"
      "pages h' = filled (Suc (512 * (d + 1))) n WP (pages h2)"
      "\<forall>k. 512 * (d + 1) + 1 \<le> k \<and> k < 512 * (d + 1) + 1 + n \<longrightarrow> present (kernel_heap_dir h' (k div 512))"
      "\<forall>t. t \<le> d + 1 \<or> 512 * (d + 1) + 1 + n \<le> 512 * t \<longrightarrow> kernel_heap_dir h' t = kernel_heap_dir h2 t"
      "\<forall>t. present (kernel_heap_dir h2 t) \<longrightarrow> present (kernel_heap_dir h' t)"
      using ih [of 1 "d + 1" h2] Suc.prems True d by auto
    have "mark_new_pages tp (Suc n) d offset h = Inr h'" using True h1 h2 h' by (simp add: WP_def)
    moreover have "pages h' = filled (512 * d + offset) (Suc n) WP (pages h)"
      using h'(2) h2(2) h1(2) True filled_Suc [of "512 * (d + 1)" n WP "pages h"] by (simp add: add.commute)
    moreover have "present (kernel_heap_dir h' (k div 512))" if "512 * d + offset \<le> k" "k < 512 * d + offset + Suc n" for k
    proof (cases "k = 512 * (d + 1)")
      case True
      then show ?thesis using h'(5) \<open>present (kernel_heap_dir h2 (d + 1))\<close> by simp
    next
      case False
      then show ?thesis using h'(3) that \<open>offset = 512\<close> by auto
    qed
    moreover have "kernel_heap_dir h' t = kernel_heap_dir h t" if "t \<le> d \<or> 512 * d + offset + Suc n \<le> 512 * t" for t
      using h'(4) that h1(3) h2(3) True by auto
    moreover have "present (kernel_heap_dir h' t)" if "present (kernel_heap_dir h t)" for t
      using h'(5) that by (cases "t = d + 1") (simp_all add: h1(3) h2(3) present_new_entry WP_def)
    ultimately show ?thesis by (auto simp: WP_def)
  next
    case False
    then have o: "offset < 512" using Suc.prems by simp
    obtain h1 where h1: "set_entry d offset WP h = Inr h1"
        "pages h1 = (pages h)(512 * d + offset := WP)" "kernel_heap_dir h1 = kernel_heap_dir h"
      using set_entry_pages [OF Suc.prems(3) o] by blast
    obtain h' where h':
      "mark_new_pages tp n d (offset + 1) h1 = Inr h'"
      "pages h' = filled (Suc (512 * d + offset)) n WP (pages h1)"
      "\<forall>k. 512 * d + (offset + 1) \<le> k \<and> k < 512 * d + (offset + 1) + n \<longrightarrow> present (kernel_heap_dir h' (k div 512))"
      "\<forall>t. t \<le> d \<or> 512 * d + (offset + 1) + n \<le> 512 * t \<longrightarrow> kernel_heap_dir h' t = kernel_heap_dir h t"
      "\<forall>t. present (kernel_heap_dir h t) \<longrightarrow> present (kernel_heap_dir h' t)"
      using ih [of "offset + 1" d h1] Suc.prems o h1(3) by auto
    have "mark_new_pages tp (Suc n) d offset h = Inr h'" using o h1 h' by (simp add: WP_def)
    moreover have "pages h' = filled (512 * d + offset) (Suc n) WP (pages h)"
      using h'(2) h1(2) by (simp add: filled_Suc)
    moreover have "present (kernel_heap_dir h' (k div 512))" if "512 * d + offset \<le> k" "k < 512 * d + offset + Suc n" for k
    proof (cases "k = 512 * d + offset")
      case True
      then have "k div 512 = d" using o by simp
      then show ?thesis using h'(5) Suc.prems(4) by simp
    qed (use h'(3) that in auto)
    ultimately show ?thesis using h'(4,5) by (auto simp: WP_def)
  qed
qed

subsection \<open>Allocation of kernel pages\<close>

lemma page_offset_unat: "s < 262144 \<Longrightarrow> unat (4096 * of_nat s :: u64) = 4096 * s"
  by (subst unat_times_no_wrap) (simp_all add: unat_of_nat_small)

lemma heap_page_unat: "s < 262144 \<Longrightarrow> unat (0xFFFFFFFFC0000000 + 4096 * of_nat s :: u64) = 0xFFFFFFFFC0000000 + 4096 * s"
  using page_offset_unat [of s] by (subst unat_plus_no_wrap) simp_all

lemma heap_page_index:
  assumes "s < 262144"
  shows "PDE_GET_INDEX (0xFFFFFFFFC0000000 + 4096 * of_nat s) = s div 512"
    "PT_GET_INDEX (0xFFFFFFFFC0000000 + 4096 * of_nat s) = s mod 512"
    "PML4_GET_INDEX (0xFFFFFFFFC0000000 + 4096 * of_nat s) = 511"
proof -
  have "(0xFFFFFFFFC0000000 + 4096 * s) div 2 ^ 21 = 0x7FFFFFFFE00 + s div 512"
    "(0xFFFFFFFFC0000000 + 4096 * s) div 2 ^ 12 = 0xFFFFFFFFC0000 + s"
    "(0xFFFFFFFFC0000000 + 4096 * s) div 2 ^ 39 = 0x1FFFFFF"
    using assms by (simp_all add: div_eq_dividend_iff)
  moreover have "(0x7FFFFFFFE00 + s div 512) mod 512 = s div 512" "(0xFFFFFFFFC0000 + s) mod 512 = s mod 512"
    using mod_add_left_eq [of "0x7FFFFFFFE00" 512 "s div 512"] mod_add_left_eq [of "0xFFFFFFFFC0000" 512 s]
      less_mult_imp_div_less [of s 512 512] assms by simp_all
  ultimately show "PDE_GET_INDEX (0xFFFFFFFFC0000000 + 4096 * of_nat s) = s div 512"
    "PT_GET_INDEX (0xFFFFFFFFC0000000 + 4096 * of_nat s) = s mod 512"
    "PML4_GET_INDEX (0xFFFFFFFFC0000000 + 4096 * of_nat s) = 511"
    unfolding index_eq heap_page_unat [OF assms] by simp_all
qed

lemma heap_address_eq:
  assumes "512 * d + offset < 262144"
  shows "heap_address d offset = 0xFFFFFFFFC0000000 + 4096 * of_nat (512 * d + offset)"
proof -
  define x :: u64 where "x = 0xFFFFC0000000 + 4096 * of_nat (512 * d + offset)"
  have "unat x < 2 ^ 48"
    using page_offset_unat [OF assms] assms unfolding x_def by (subst unat_plus_no_wrap) simp_all
  then have "take_bit 48 x = x"
    by (simp add: word_unat_eq_iff unsigned_take_bit_eq take_bit_nat_eq_self)
  then have x: "\<not> bit x n" if "48 \<le> n" for n using that by (metis bit_take_bit_iff not_le)
  have "bit (0xFFFF000000000000 :: u64) n \<longleftrightarrow> 48 \<le> n \<and> n < 64" for n
  proof -
    have "(0xFFFF000000000000 :: u64) = push_bit 48 (mask 16)" by (simp add: mask_eq_exp_minus_1)
    then have "bit (0xFFFF000000000000 :: u64) n \<longleftrightarrow> bit (push_bit 48 (mask 16) :: u64) n" by (rule arg_cong)
    also have "\<dots> \<longleftrightarrow> 48 \<le> n \<and> n < 64" by (auto simp: bit_simps)
    finally show ?thesis .
  qed
  then have "x AND 0xFFFF000000000000 = 0"
    using x unfolding bit_eq_iff bit_and_iff by (metis bit_0_eq bot_apply bot_bool_def)
  then have "x OR 0xFFFF000000000000 = x + 0xFFFF000000000000" by (simp add: disjunctive_add_eq_or)
  then show ?thesis by (simp add: heap_address_def x_def algebra_simps)
qed

definition allocated :: "kheap \<Rightarrow> kheap \<Rightarrow> nat \<Rightarrow> nat \<Rightarrow> bool" where
  "allocated h h' s amount \<longleftrightarrow> s + amount \<le> 262144
     \<and> (\<forall>n. s \<le> n \<and> n < s + amount \<longrightarrow>
          \<not> present (pages h n) \<and> present (pages h' n) \<and> present (kernel_heap_dir h' (n div 512)))
     \<and> (\<forall>n. n < s \<or> s + amount \<le> n \<longrightarrow> pages h' n = pages h n)
     \<and> (\<forall>t. present (kernel_heap_dir h t) \<longrightarrow> present (kernel_heap_dir h' t))"

lemma allocated_inv: "heap_inv h \<Longrightarrow> allocated h h' s amount \<Longrightarrow> heap_inv h'"
  by (auto simp: heap_inv_def allocated_def) (metis not_le)

lemma kernel_allocate_correct:
  assumes inv: "heap_inv h" and amount: "0 < amount"
  shows "kernel_allocate_4k_pages tp amount h = Inl Assert_failed
      \<and> \<not> (amount \<le> 512 \<and> (\<exists>t<512. \<not> present (kernel_heap_dir h t)))
    \<or> (\<exists>s h'. kernel_allocate_4k_pages tp amount h = Inr (0xFFFFFFFFC0000000 + 4096 * of_nat s, h')
         \<and> allocated h h' s amount)"
proof (cases "scan_dir h amount 0 (0, 0, 0)")
  case (Inl found)
  obtain d offset counter where f: "found = (d, offset, counter)" by (cases found)
  have "run_ok h amount (0, 0, 0) (512 * 0)" using amount by (simp add: run_ok_def)
  then have ok: "found_ok h amount found" using scan_dir_correct [OF amount] Inl by force
  let ?s = "512 * d + offset"
  obtain h' where h': "mark_pages amount d offset h = Inr h'" "kernel_heap_dir h' = kernel_heap_dir h"
      "pages h' = filled ?s amount (TABLE_WRITEABLE OR TABLE_PRESENT) (pages h)"
    using mark_pages_correct [of offset d amount h] ok f by (auto simp: found_ok_def)
  have "allocated h h' ?s amount"
    using ok f h'(2,3) by (auto simp: allocated_def found_ok_def free_run_def filled_def present_new_entry)
  moreover have "kernel_allocate_4k_pages tp amount h = Inr (0xFFFFFFFFC0000000 + 4096 * of_nat ?s, h')"
    using Inl f ok h'(1) heap_address_eq [of d offset] amount
    by (auto simp: kernel_allocate_4k_pages_def found_ok_def)
  ultimately show ?thesis by blast
next
  case (Inr r)
  show ?thesis
  proof (cases "scan_unused h amount 0 0 0")
    case None
    then show ?thesis
      using Inr scan_unused_Some [of 0 h amount 0 0] by (auto simp: kernel_allocate_4k_pages_def)
  next
    case (Some d)
    have d: "512 * d + amount \<le> 262144" "d < 512"
        "\<forall>t. d \<le> t \<and> 512 * t < 512 * d + amount \<longrightarrow> \<not> present (kernel_heap_dir h t)"
      using scan_unused_correct [OF _ _ _ _ Some] by auto
    obtain h1 where h1: "use_table tp d h = Inr h1" "pages h1 = pages h"
        "kernel_heap_dir h1 = (kernel_heap_dir h)(d := set_page_frame (kernel_heap_dir h d) (tp d) OR (TABLE_WRITEABLE OR TABLE_PRESENT))"
      using d(2) by (auto simp: use_table_def pages_def fun_eq_iff)
    have "present (kernel_heap_dir h1 d)" by (simp add: h1(3) present_new_entry)
    then obtain h' where h': "mark_new_pages tp amount d 0 h1 = Inr h'"
        "pages h' = filled (512 * d) amount (TABLE_WRITEABLE OR TABLE_PRESENT) (pages h)"
        "\<forall>k. 512 * d \<le> k \<and> k < 512 * d + amount \<longrightarrow> present (kernel_heap_dir h' (k div 512))"
        "\<forall>t. present (kernel_heap_dir h1 t) \<longrightarrow> present (kernel_heap_dir h' t)"
      using mark_new_pages_correct [of 0 d amount h1 tp] d h1(2) by auto
    have "\<not> present (pages h n)" if "512 * d \<le> n" "n < 512 * d + amount" for n
    proof -
      have "d \<le> n div 512" "512 * (n div 512) < 512 * d + amount" using that by auto
      then show ?thesis using d(3) inv unfolding heap_inv_def by blast
    qed
    moreover have "present (kernel_heap_dir h' t)" if "present (kernel_heap_dir h t)" for t
      using h'(4) that by (cases "t = d") (simp_all add: h1(3) present_new_entry)
    ultimately have "allocated h h' (512 * d) amount"
      using d(1) h'(2,3) by (auto simp: allocated_def filled_def present_new_entry)
    moreover have "kernel_allocate_4k_pages tp amount h = Inr (0xFFFFFFFFC0000000 + 4096 * of_nat (512 * d), h')"
      using Inr Some h1(1) h'(1) heap_address_eq [of d 0] d(1) amount
      by (simp add: kernel_allocate_4k_pages_def)
    ultimately show ?thesis by blast
  qed
qed

lemma free_pages_correct:
  "s + n \<le> 262144 \<Longrightarrow>
   \<exists>h'. kernel_free_4k_pages n (0xFFFFFFFFC0000000 + 4096 * of_nat s) h = Inr h'
     \<and> pages h' = filled s n 0 (pages h) \<and> kernel_heap_dir h' = kernel_heap_dir h"
proof (induction n arbitrary: s h)
  case (Suc n)
  then have s: "s < 262144" by simp
  obtain h1 where h1: "set_entry (s div 512) (s mod 512) 0 h = Inr h1" "pages h1 = (pages h)(s := 0)"
      "kernel_heap_dir h1 = kernel_heap_dir h"
    using set_entry_pages [of "s div 512" "s mod 512" 0 h] less_mult_imp_div_less [of s 512 512] s by auto
  have next_page: "0xFFFFFFFFC0000000 + 4096 * of_nat s + 4096 = (0xFFFFFFFFC0000000 + 4096 * of_nat (Suc s) :: u64)"
    by (simp add: algebra_simps)
  obtain h' where "kernel_free_4k_pages n (0xFFFFFFFFC0000000 + 4096 * of_nat (Suc s)) h1 = Inr h'"
      "pages h' = filled (Suc s) n 0 (pages h1)" "kernel_heap_dir h' = kernel_heap_dir h1"
    using Suc.IH [of "Suc s" h1] Suc.prems by auto
  then show ?case
    using h1 unfolding kernel_free_4k_pages.simps heap_page_index [OF s] next_page by (simp add: filled_Suc)
qed simp

text \<open>
  C24. The kernel's page allocator hands out fresh pages: a successful call returns the address, inside the
  heap window, of \<open>amount\<close> consecutive pages none of which was in use, marks exactly these in use, under
  tables that are present, and disturbs no other entry; the invariant that an absent table has no page in use
  survives.  The only other outcome is the failed assertion, which cannot happen while a table is unused and
  the request fits in it.  Freeing the returned range
  afterwards always succeeds and restores which pages are in use.
\<close>

theorem kernel_pages_allocate_free:
  assumes "heap_inv h" "0 < amount"
  shows "kernel_allocate_4k_pages tp amount h = Inl Assert_failed
      \<and> \<not> (amount \<le> 512 \<and> (\<exists>t<512. \<not> present (kernel_heap_dir h t)))
    \<or> (\<exists>s h'. kernel_allocate_4k_pages tp amount h = Inr (0xFFFFFFFFC0000000 + 4096 * of_nat s, h')
         \<and> allocated h h' s amount \<and> heap_inv h'
         \<and> (\<exists>h''. kernel_free_4k_pages amount (0xFFFFFFFFC0000000 + 4096 * of_nat s) h' = Inr h''
                \<and> (\<forall>n. present (pages h'' n) = present (pages h n))))"
  using kernel_allocate_correct [OF assms, of tp]
proof
  assume "\<exists>s h'. kernel_allocate_4k_pages tp amount h = Inr (0xFFFFFFFFC0000000 + 4096 * of_nat s, h')
         \<and> allocated h h' s amount"
  then obtain s h' where h': "kernel_allocate_4k_pages tp amount h = Inr (0xFFFFFFFFC0000000 + 4096 * of_nat s, h')"
      "allocated h h' s amount" by blast
  then obtain h'' where h'': "kernel_free_4k_pages amount (0xFFFFFFFFC0000000 + 4096 * of_nat s) h' = Inr h''"
      "pages h'' = filled s amount 0 (pages h')"
    using free_pages_correct [of s amount h'] by (auto simp: allocated_def)
  have "present (pages h'' n) = present (pages h n)" for n
    using h'(2) unfolding h''(2) by (cases "s \<le> n \<and> n < s + amount") (auto simp: filled_def allocated_def present_def)
  then show ?thesis using h' h''(1) allocated_inv [OF assms(1) h'(2)] by blast
qed blast

lemma kernel_pages_allocate_free_witness:
  "let h = \<lparr>kernel_heap_dir = (\<lambda>_. 0), kernel_heap_dir_tables = (\<lambda>_ _. 0)\<rparr> in
   heap_inv h \<and> (\<exists>s h'. kernel_allocate_4k_pages (\<lambda>_. 0) 3 h = Inr (0xFFFFFFFFC0000000 + 4096 * of_nat s, h'))"
proof -
  let ?h = "\<lparr>kernel_heap_dir = (\<lambda>_. 0), kernel_heap_dir_tables = (\<lambda>_ _. 0)\<rparr>"
  have inv: "heap_inv ?h" by (simp add: heap_inv_def pages_def present_def)
  have "\<not> present (kernel_heap_dir ?h 0)" by (simp add: present_def)
  then have "\<exists>t<512. \<not> present (kernel_heap_dir ?h t)" by (intro exI [of _ 0]) simp
  then show ?thesis using kernel_pages_allocate_free [OF inv, of 3 "\<lambda>_. 0"] inv unfolding Let_def by auto
qed

subsection \<open>Mapping and translation\<close>

lemma translate_frame:
  "ucast (push_bit 12 (get_page_frame (set_page_frame flags phys)) :: u32) = phys AND 0xFFFFF000"
proof (rule bit_word_eqI)
  fix n
  assume n: "n < LENGTH(64)"
  have "(0xFFFFF000 :: u64) = push_bit 12 (mask 20)" by (simp add: mask_eq_exp_minus_1)
  then have "bit (0xFFFFF000 :: u64) n \<longleftrightarrow> bit (push_bit 12 (mask 20) :: u64) n" by (rule arg_cong)
  also have "\<dots> \<longleftrightarrow> 12 \<le> n \<and> n < 32" using n by (auto simp: bit_simps)
  finally have m: "bit (0xFFFFF000 :: u64) n \<longleftrightarrow> 12 \<le> n \<and> n < 32" .
  show "bit (ucast (push_bit 12 (get_page_frame (set_page_frame flags phys)) :: u32) :: u64) n
      = bit (phys AND 0xFFFFF000) n"
    unfolding bit_and_iff m using n
    by (cases "12 \<le> n") (auto simp: get_page_frame_def set_page_frame_def bit_simps bit_PAGE_FRAME)
qed

text \<open>
  A page of the heap window mapped to a physical frame translates back to it only below 4 GiB:
  \<open>virtual_to_physical_addr\<close> returns the low 32 bits of the frame address, because the frame number is kept
  and shifted in 32 bits.  The mapping changes no other page.
\<close>

theorem kernel_map_translate:
  assumes "s < 262144" "kernel_heap_dir h (s div 512) AND PDE_2M = 0"
  shows "\<exists>h'. kernel_map_virtual_memory_4k 1 phys (0xFFFFFFFFC0000000 + 4096 * of_nat s) flags h = Inr h'
    \<and> virtual_to_physical_addr h' (0xFFFFFFFFC0000000 + 4096 * of_nat s) = phys AND 0xFFFFF000
    \<and> (\<forall>n. n \<noteq> s \<longrightarrow> pages h' n = pages h n)"
proof -
  obtain h' where h': "set_entry (s div 512) (s mod 512) (set_page_frame flags phys) h = Inr h'"
      "pages h' = (pages h)(s := set_page_frame flags phys)" "kernel_heap_dir h' = kernel_heap_dir h"
    using set_entry_pages [of "s div 512" "s mod 512" "set_page_frame flags phys" h]
      less_mult_imp_div_less [of s 512 512] assms(1) by auto
  have "kernel_heap_dir_tables h' (s div 512) (s mod 512) = set_page_frame flags phys"
    using fun_cong [OF h'(2), of s] by (simp add: pages_def)
  then have "virtual_to_physical_addr h' (0xFFFFFFFFC0000000 + 4096 * of_nat s) = phys AND 0xFFFFF000"
    using assms by (simp add: virtual_to_physical_addr_def heap_page_index h'(3) translate_frame)
  then show ?thesis using h' by (simp add: heap_page_index [OF assms(1)])
qed

lemma kernel_map_translate_witness:
  "\<exists>h'. kernel_map_virtual_memory_4k 1 0x123456000 (0xFFFFFFFFC0000000 + 4096 * of_nat 5) 3
       \<lparr>kernel_heap_dir = (\<lambda>_. 0), kernel_heap_dir_tables = (\<lambda>_ _. 0)\<rparr> = Inr h'
     \<and> virtual_to_physical_addr h' (0xFFFFFFFFC0000000 + 4096 * of_nat 5) = 0x23456000"
  using kernel_map_translate [of 5 "\<lparr>kernel_heap_dir = (\<lambda>_. 0), kernel_heap_dir_tables = (\<lambda>_ _. 0)\<rparr>" "0x123456000" 3]
  by auto

section \<open>The page map of a process\<close>

subsection \<open>Model\<close>

text \<open>
  A page table is its virtual address in the kernel heap window and its entries; \<open>page_tables\<close> is the
  array of pointers to them, with \<open>None\<close> for null.  \<open>vmm\<close> groups the two allocators the functions use.
\<close>

record page_map =
  page_dirs :: "nat \<Rightarrow> nat \<Rightarrow> u64"
  page_dirs_phys :: "nat \<Rightarrow> u64"
  page_dirs_virt :: "nat \<Rightarrow> u64"
  page_tables :: "nat \<Rightarrow> nat \<Rightarrow> (u64 \<times> (nat \<Rightarrow> u64)) option"
  pm_pdpt :: "nat \<Rightarrow> u64"
  pm_pml4 :: "nat \<Rightarrow> u64"
  pdpt_phys :: u64
  pml4_phys :: u64

record vmm =
  vm_heap :: kheap
  vm_phys :: phys

text \<open>The recurring sequence: take a kernel page and a frame and map one to the other.\<close>

definition allocate_mapped_page :: "(nat \<Rightarrow> u64) \<Rightarrow> vmm \<Rightarrow> (u64 \<times> u64 \<times> vmm) kres" where
  "allocate_mapped_page tp vm =
     kbind (kernel_allocate_4k_pages tp 1 (vm_heap vm)) (\<lambda>(virt, heap).
     kbind (allocate_physical_block (vm_phys vm)) (\<lambda>(phys, p).
     kbind (kernel_map_virtual_memory_4k 1 phys virt (TABLE_PRESENT OR TABLE_WRITEABLE) heap) (\<lambda>heap.
     Inr (virt, phys, \<lparr>vm_heap = heap, vm_phys = p\<rparr>))))"

text \<open>The loop that maps new frames to consecutive kernel pages, for stacks and for the heap.\<close>

primrec map_kernel_pages :: "nat \<Rightarrow> u64 \<Rightarrow> vmm \<Rightarrow> vmm kres" where
  "map_kernel_pages 0 virt vm = Inr vm"
| "map_kernel_pages (Suc n) virt vm =
     kbind (allocate_physical_block (vm_phys vm)) (\<lambda>(phys, p).
     kbind (kernel_map_virtual_memory_4k 1 phys virt (TABLE_PRESENT OR TABLE_WRITEABLE) (vm_heap vm)) (\<lambda>h.
     map_kernel_pages n (virt + 4096) \<lparr>vm_heap = h, vm_phys = p\<rparr>))"

definition allocate_page_table :: "(nat \<Rightarrow> u64) \<Rightarrow> vmm \<Rightarrow> ((u64 \<times> u64 \<times> (nat \<Rightarrow> u64)) \<times> vmm) kres" where
  "allocate_page_table tp vm =
     kbind (allocate_mapped_page tp vm) (\<lambda>(virt, phys, vm). Inr ((phys, virt, (\<lambda>_. 0)), vm))"

definition create_page_table :: "(nat \<Rightarrow> u64) \<Rightarrow> nat \<Rightarrow> nat \<Rightarrow> page_map \<Rightarrow> vmm \<Rightarrow> (page_map \<times> vmm) kres" where
  "create_page_table tp pdpt_index page_dir_index pm vm =
     kbind (allocate_page_table tp vm) (\<lambda>((phys, virt, entries), vm).
       let e = set_page_frame (page_dirs pm pdpt_index page_dir_index) phys
                 OR (TABLE_PRESENT OR TABLE_WRITEABLE OR PAGE_USER)
       in Inr (pm\<lparr>page_dirs := (page_dirs pm)(pdpt_index := (page_dirs pm pdpt_index)(page_dir_index := e)),
                   page_tables := (page_tables pm)
                     (pdpt_index := (page_tables pm pdpt_index)(page_dir_index := Some (virt, entries)))\<rparr>, vm))"

primrec map_virtual_memory_4k ::
  "(nat \<Rightarrow> u64) \<Rightarrow> nat \<Rightarrow> u64 \<Rightarrow> u64 \<Rightarrow> u64 \<Rightarrow> page_map \<Rightarrow> vmm \<Rightarrow> (page_map \<times> vmm) kres" where
  "map_virtual_memory_4k tp 0 phys virt flags pm vm = Inr (pm, vm)"
| "map_virtual_memory_4k tp (Suc amount) phys virt flags pm vm =
     (let pml4_index = PML4_GET_INDEX virt; pdpt_index = PDPT_GET_INDEX virt;
          page_dir_index = PDE_GET_INDEX virt; page_index = PT_GET_INDEX virt in
      if pdpt_index > 511 \<or> pml4_index \<noteq> 0 then Inl (Panic ''Process address space cannot be >512GB'')
      else if page_dirs_virt pm pdpt_index = 0 then Inl Assert_failed
      else kbind (if \<not> present (page_dirs pm pdpt_index page_dir_index)
                  then create_page_table tp pdpt_index page_dir_index pm vm else Inr (pm, vm))
        (\<lambda>(pm, vm). case page_tables pm pdpt_index page_dir_index of
            None \<Rightarrow> Inl Null_deref
          | Some (tv, entries) \<Rightarrow>
              map_virtual_memory_4k tp amount (phys + 4096) (virt + 4096) flags
                (pm\<lparr>page_tables := (page_tables pm)(pdpt_index := (page_tables pm pdpt_index)
                   (page_dir_index := Some (tv, entries(page_index := set_page_frame flags phys))))\<rparr>) vm))"

text \<open>
  \<open>create_page_map\<close>.  Of the pages it takes, the three arrays of pointers have no other representation in
  the record; \<open>malloc\<close> is taken to return.
\<close>

primrec create_dirs :: "(nat \<Rightarrow> u64) \<Rightarrow> nat \<Rightarrow> page_map \<Rightarrow> vmm \<Rightarrow> (page_map \<times> vmm) kres" where
  "create_dirs tp 0 pm vm = Inr (pm, vm)"
| "create_dirs tp (Suc n) pm vm =
     kbind (create_dirs tp n pm vm) (\<lambda>(pm, vm).
     kbind (allocate_mapped_page tp vm) (\<lambda>(virt, phys, vm).
     Inr (pm\<lparr>page_dirs := (page_dirs pm)(n := (\<lambda>_. 0)),
             page_dirs_phys := (page_dirs_phys pm)(n := phys),
             page_dirs_virt := (page_dirs_virt pm)(n := virt),
             page_tables := (page_tables pm)(n := (\<lambda>_. None)),
             pm_pdpt := (pm_pdpt pm)(n := set_page_frame (pm_pdpt pm n) phys OR (TABLE_WRITEABLE OR TABLE_PRESENT OR PAGE_USER))\<rparr>,
          vm)))"

definition create_page_map :: "(nat \<Rightarrow> u64) \<Rightarrow> (nat \<Rightarrow> u64) \<Rightarrow> (nat \<Rightarrow> u64) \<Rightarrow> vmm \<Rightarrow> (page_map \<times> vmm) kres" where
  "create_page_map tp kernel_pml4 pdpt_memory vm =
     kbind (allocate_mapped_page tp vm) (\<lambda>(pdpt, pdpt_phys, vm).
     kbind (allocate_mapped_page tp vm) (\<lambda>(page_dirs, _, vm).
     kbind (allocate_mapped_page tp vm) (\<lambda>(page_dirs_phys, _, vm).
     kbind (allocate_mapped_page tp vm) (\<lambda>(page_tables, _, vm).
     kbind (allocate_mapped_page tp vm) (\<lambda>(pml4, pml4_phys, vm).
     create_dirs tp 512
       \<lparr>page_dirs = (\<lambda>_ _. 0), page_dirs_phys = (\<lambda>_. 0), page_dirs_virt = (\<lambda>_. 0), page_tables = (\<lambda>_ _. None),
        pm_pdpt = pdpt_memory,
        pm_pml4 = kernel_pml4(0 := pdpt_phys OR (TABLE_PRESENT OR TABLE_WRITEABLE OR PAGE_USER)),
        pdpt_phys = pdpt_phys, pml4_phys = pml4_phys\<rparr> vm)))))"

definition vm_free_phys :: "u64 \<Rightarrow> vmm \<Rightarrow> vmm kres" where
  "vm_free_phys addr vm = kbind (free_physical_block addr (vm_phys vm)) (\<lambda>p. Inr (vm\<lparr>vm_phys := p\<rparr>))"

definition vm_free_page :: "u64 \<Rightarrow> vmm \<Rightarrow> vmm kres" where
  "vm_free_page virt vm = kbind (kernel_free_4k_pages 1 virt (vm_heap vm)) (\<lambda>h. Inr (vm\<lparr>vm_heap := h\<rparr>))"

text \<open>The body of the inner loop of \<open>destroy_page_map\<close>; its \<open>continue\<close> leaves the entry in place.\<close>

definition destroy_entry :: "nat \<Rightarrow> nat \<Rightarrow> page_map \<Rightarrow> vmm \<Rightarrow> (page_map \<times> vmm) kres" where
  "destroy_entry i j pm vm =
     (let dir_ent = page_dirs pm i j; phys = ucast (get_page_frame dir_ent) :: u64;
          cleared = pm\<lparr>page_dirs := (page_dirs pm)(i := (page_dirs pm i)(j := 0))\<rparr> in
      if present dir_ent
      then (if phys < 4096 then Inr (pm, vm)
            else kbind (vm_free_phys phys vm) (\<lambda>vm.
                 case page_tables pm i j of
                   None \<Rightarrow> kbind (vm_free_page 0 vm) (\<lambda>vm. Inr (cleared, vm))
                 | Some (virt, _) \<Rightarrow> kbind (vm_free_page virt vm) (\<lambda>vm. Inr (cleared, vm))))
      else Inr (cleared, vm))"

primrec destroy_entries :: "nat \<Rightarrow> nat \<Rightarrow> page_map \<Rightarrow> vmm \<Rightarrow> (page_map \<times> vmm) kres" where
  "destroy_entries i 0 pm vm = Inr (pm, vm)"
| "destroy_entries i (Suc n) pm vm =
     kbind (destroy_entries i n pm vm) (\<lambda>(pm, vm). destroy_entry i n pm vm)"

primrec destroy_dirs :: "nat \<Rightarrow> page_map \<Rightarrow> vmm \<Rightarrow> (page_map \<times> vmm) kres" where
  "destroy_dirs 0 pm vm = Inr (pm, vm)"
| "destroy_dirs (Suc n) pm vm =
     kbind (destroy_dirs n pm vm) (\<lambda>(pm, vm).
       if page_dirs_virt pm n = 0 then Inr (pm, vm)
       else if page_dirs_phys pm n < 4096 then Inr (pm, vm)
       else kbind (destroy_entries n 512 pm vm) (\<lambda>(pm, vm).
            kbind (vm_free_page (page_dirs_virt pm n) vm) (\<lambda>vm.
            kbind (vm_free_phys (page_dirs_phys pm n) vm) (\<lambda>vm.
            Inr (pm\<lparr>pm_pdpt := (pm_pdpt pm)(n := 0)\<rparr>, vm)))))"

definition destroy_page_map :: "page_map \<Rightarrow> vmm \<Rightarrow> vmm kres" where
  "destroy_page_map pm vm =
     kbind (destroy_dirs 512 pm vm) (\<lambda>(pm, vm). vm_free_phys (pdpt_phys pm) vm)"

subsection \<open>What a walk of the tables finds\<close>

definition walk :: "page_map \<Rightarrow> nat \<Rightarrow> u64 option" where
  "walk pm q =
     (let i = q div 262144; j = q div 512 mod 512 in
      if present (page_dirs pm i j)
      then (case page_tables pm i j of Some (_, entries) \<Rightarrow> Some (entries (q mod 512)) | None \<Rightarrow> None)
      else None)"

definition pm_inv :: "page_map \<Rightarrow> bool" where
  "pm_inv pm \<longleftrightarrow> (\<forall>i j. present (page_dirs pm i j) \<longrightarrow> page_tables pm i j \<noteq> None)"

lemma page_number_eq_iff:
  "(q' :: nat) = q \<longleftrightarrow> q' div 262144 = q div 262144 \<and> q' div 512 mod 512 = q div 512 mod 512 \<and> q' mod 512 = q mod 512"
proof -
  have "x = 262144 * (x div 262144) + 512 * (x div 512 mod 512) + x mod 512" for x :: nat
  proof -
    have "x div 512 div 512 = x div 262144" by (simp add: div_mult2_eq [symmetric])
    then have "x div 512 = 512 * (x div 262144) + x div 512 mod 512" using mult_div_mod_eq [of 512 "x div 512"] by simp
    then show ?thesis using mult_div_mod_eq [of 512 x] by linarith
  qed
  then show ?thesis by metis
qed

lemma index_of_page:
  assumes "unat virt < 2 ^ 39"
  shows "PML4_GET_INDEX virt = 0" "PDPT_GET_INDEX virt = unat virt div 4096 div 262144"
    "PDE_GET_INDEX virt = unat virt div 4096 div 512 mod 512" "PT_GET_INDEX virt = unat virt div 4096 mod 512"
proof -
  have "unat virt div 2 ^ 30 < 512" using assms by (simp add: less_mult_imp_div_less)
  then show "PDPT_GET_INDEX virt = unat virt div 4096 div 262144"
    by (simp add: index_eq div_mult2_eq [symmetric])
  show "PML4_GET_INDEX virt = 0" using assms by (simp add: index_eq)
  show "PDE_GET_INDEX virt = unat virt div 4096 div 512 mod 512" by (simp add: index_eq div_mult2_eq [symmetric])
  show "PT_GET_INDEX virt = unat virt div 4096 mod 512" by (simp add: index_eq)
qed

lemma create_page_table_correct:
  assumes "create_page_table tp i j pm vm = Inr (pm', vm')"
  shows "page_dirs pm' = (page_dirs pm)(i := (page_dirs pm i)(j := page_dirs pm' i j))"
    "present (page_dirs pm' i j)"
    "\<exists>tv. page_tables pm' = (page_tables pm)(i := (page_tables pm i)(j := Some (tv, (\<lambda>_. 0))))"
proof -
  obtain phys virt where pm': "pm' = pm\<lparr>page_dirs := (page_dirs pm)(i := (page_dirs pm i)(j :=
        set_page_frame (page_dirs pm i j) phys OR (TABLE_PRESENT OR TABLE_WRITEABLE OR PAGE_USER))),
      page_tables := (page_tables pm)(i := (page_tables pm i)(j := Some (virt, (\<lambda>_. 0))))\<rparr>"
    using assms by (auto simp: create_page_table_def allocate_page_table_def Let_def)
  show "page_dirs pm' = (page_dirs pm)(i := (page_dirs pm i)(j := page_dirs pm' i j))" by (simp add: pm')
  show "present (page_dirs pm' i j)" by (simp only: pm') (simp add: present_iff bit_or_iff flag_defs)
  show "\<exists>tv. page_tables pm' = (page_tables pm)(i := (page_tables pm i)(j := Some (tv, (\<lambda>_. 0))))"
    by (auto simp: pm')
qed

lemma ensure_table_correct:
  assumes inv: "pm_inv pm"
    and e: "(if \<not> present (page_dirs pm i j) then create_page_table tp i j pm vm else Inr (pm, vm)) = Inr (pm0, vm0)"
  shows "pm_inv pm0" "present (page_dirs pm0 i j)"
    "\<forall>i' j'. (i', j') \<noteq> (i, j) \<longrightarrow> page_dirs pm0 i' j' = page_dirs pm i' j' \<and> page_tables pm0 i' j' = page_tables pm i' j'"
    "present (page_dirs pm i j) \<longrightarrow> pm0 = pm"
    "\<not> present (page_dirs pm i j) \<longrightarrow> (\<exists>tv. page_tables pm0 i j = Some (tv, (\<lambda>_. 0)))"
proof -
  have all: "pm_inv pm0 \<and> present (page_dirs pm0 i j)
    \<and> (\<forall>i' j'. (i', j') \<noteq> (i, j) \<longrightarrow> page_dirs pm0 i' j' = page_dirs pm i' j' \<and> page_tables pm0 i' j' = page_tables pm i' j')
    \<and> (present (page_dirs pm i j) \<longrightarrow> pm0 = pm)
    \<and> (\<not> present (page_dirs pm i j) \<longrightarrow> (\<exists>tv. page_tables pm0 i j = Some (tv, (\<lambda>_. 0))))"
  proof (cases "present (page_dirs pm i j)")
    case True
    then show ?thesis using assms by simp
  next
    case False
    then have c: "create_page_table tp i j pm vm = Inr (pm0, vm0)" using e by simp
    obtain tv e' where d: "page_dirs pm0 = (page_dirs pm)(i := (page_dirs pm i)(j := e'))" "present e'"
        "page_tables pm0 = (page_tables pm)(i := (page_tables pm i)(j := Some (tv, (\<lambda>_. 0))))"
      using create_page_table_correct [OF c] by blast
    then show ?thesis using False inv by (auto simp: pm_inv_def)
  qed
  show "pm_inv pm0" "present (page_dirs pm0 i j)"
    "\<forall>i' j'. (i', j') \<noteq> (i, j) \<longrightarrow> page_dirs pm0 i' j' = page_dirs pm i' j' \<and> page_tables pm0 i' j' = page_tables pm i' j'"
    "present (page_dirs pm i j) \<longrightarrow> pm0 = pm"
    "\<not> present (page_dirs pm i j) \<longrightarrow> (\<exists>tv. page_tables pm0 i j = Some (tv, (\<lambda>_. 0)))"
    using all by simp_all
qed

lemma map_one_page:
  assumes inv: "pm_inv pm" and v: "unat virt < 2 ^ 39"
    and m: "map_virtual_memory_4k tp (Suc n) phys virt flags pm vm = Inr (pm', vm')"
  shows "\<exists>pm1 vm1. map_virtual_memory_4k tp n (phys + 4096) (virt + 4096) flags pm1 vm1 = Inr (pm', vm')
    \<and> pm_inv pm1 \<and> walk pm1 (unat virt div 4096) = Some (set_page_frame flags phys)
    \<and> (\<forall>q. q \<noteq> unat virt div 4096 \<longrightarrow> walk pm q \<noteq> None \<longrightarrow> walk pm1 q = walk pm q)
    \<and> (\<forall>q. q \<noteq> unat virt div 4096 \<longrightarrow> walk pm q = None \<longrightarrow> walk pm1 q \<in> {None, Some 0})"
proof -
  let ?q = "unat virt div 4096"
  let ?i = "?q div 262144" and ?j = "?q div 512 mod 512" and ?k = "?q mod 512"
  note ix = index_of_page [OF v]
  obtain pm0 vm0 where pm0: "(if \<not> present (page_dirs pm ?i ?j) then create_page_table tp ?i ?j pm vm else Inr (pm, vm)) = Inr (pm0, vm0)"
    and rest: "(case page_tables pm0 ?i ?j of None \<Rightarrow> Inl Null_deref
          | Some (tv, entries) \<Rightarrow> map_virtual_memory_4k tp n (phys + 4096) (virt + 4096) flags
                (pm0\<lparr>page_tables := (page_tables pm0)(?i := (page_tables pm0 ?i)
                   (?j := Some (tv, entries(?k := set_page_frame flags phys))))\<rparr>) vm0) = Inr (pm', vm')"
    using m by (auto simp: ix Let_def split: if_splits)
  note en = ensure_table_correct [OF inv pm0]
  obtain tv entries where tbl: "page_tables pm0 ?i ?j = Some (tv, entries)"
    using rest by (auto split: option.splits)
  define pm1 where "pm1 = pm0\<lparr>page_tables := (page_tables pm0)(?i := (page_tables pm0 ?i)
                   (?j := Some (tv, entries(?k := set_page_frame flags phys))))\<rparr>"
  have "map_virtual_memory_4k tp n (phys + 4096) (virt + 4096) flags pm1 vm0 = Inr (pm', vm')"
    using rest tbl by (simp add: pm1_def)
  moreover have "pm_inv pm1" using en(1) by (auto simp: pm_inv_def pm1_def)
  moreover have "walk pm1 ?q = Some (set_page_frame flags phys)"
    using en(2) by (simp add: walk_def pm1_def Let_def)
  moreover have "walk pm q \<noteq> None \<longrightarrow> walk pm1 q = walk pm q" "walk pm q = None \<longrightarrow> walk pm1 q \<in> {None, Some 0}"
    if "q \<noteq> ?q" for q
  proof -
    let ?i' = "q div 262144" and ?j' = "q div 512 mod 512"
    have "(walk pm q \<noteq> None \<longrightarrow> walk pm1 q = walk pm q) \<and> (walk pm q = None \<longrightarrow> walk pm1 q \<in> {None, Some 0})"
    proof (cases "(?i', ?j') = (?i, ?j)")
      case True
      then have k: "q mod 512 \<noteq> ?k" using that page_number_eq_iff [of q ?q] by simp
      show ?thesis
      proof (cases "present (page_dirs pm ?i ?j)")
        case p: True
        then show ?thesis using True k en(4) tbl by (simp add: walk_def pm1_def Let_def)
      next
        case p: False
        then show ?thesis using True k en(5) tbl by (auto simp: walk_def pm1_def Let_def)
      qed
    next
      case False
      then have "walk pm1 q = walk pm q" using en(3) by (auto simp: walk_def pm1_def Let_def)
      then show ?thesis by simp
    qed
    then show "walk pm q \<noteq> None \<longrightarrow> walk pm1 q = walk pm q" "walk pm q = None \<longrightarrow> walk pm1 q \<in> {None, Some 0}"
      by simp_all
  qed
  ultimately show ?thesis by blast
qed

lemma map_pages_correct:
  "pm_inv pm \<Longrightarrow> unat virt + 4096 * n \<le> 2 ^ 39 \<Longrightarrow>
   map_virtual_memory_4k tp n phys virt flags pm vm = Inr (pm', vm') \<Longrightarrow>
   pm_inv pm'
   \<and> (\<forall>k<n. walk pm' (unat virt div 4096 + k) = Some (set_page_frame flags (phys + 4096 * of_nat k)))
   \<and> (\<forall>q. (q < unat virt div 4096 \<or> unat virt div 4096 + n \<le> q) \<longrightarrow>
        (walk pm q \<noteq> None \<longrightarrow> walk pm' q = walk pm q) \<and> (walk pm q = None \<longrightarrow> walk pm' q \<in> {None, Some 0}))"
proof (induction n arbitrary: phys virt pm vm)
  case (Suc n)
  have v: "unat virt < 2 ^ 39" using Suc.prems(2) by simp
  let ?q = "unat virt div 4096"
  obtain pm1 vm1 where 1: "map_virtual_memory_4k tp n (phys + 4096) (virt + 4096) flags pm1 vm1 = Inr (pm', vm')"
    "pm_inv pm1" "walk pm1 ?q = Some (set_page_frame flags phys)"
    "\<forall>q. q \<noteq> ?q \<longrightarrow> walk pm q \<noteq> None \<longrightarrow> walk pm1 q = walk pm q"
    "\<forall>q. q \<noteq> ?q \<longrightarrow> walk pm q = None \<longrightarrow> walk pm1 q \<in> {None, Some 0}"
    using map_one_page [OF Suc.prems(1) v Suc.prems(3)] by blast
  have vn: "unat (virt + 4096) = unat virt + 4096"
    using Suc.prems(2) by (subst unat_plus_no_wrap) simp_all
  then have q: "unat (virt + 4096) div 4096 = Suc ?q" by simp
  have "unat (virt + 4096) + 4096 * n \<le> 2 ^ 39" using Suc.prems(2) vn by simp
  note ih = Suc.IH [OF 1(2) this 1(1), unfolded q]
  have "walk pm' (?q + k) = Some (set_page_frame flags (phys + 4096 * of_nat k))" if "k < Suc n" for k
  proof (cases k)
    case 0
    then show ?thesis using ih 1(3) by simp
  next
    case (Suc k')
    then show ?thesis using ih that by (auto simp: algebra_simps)
  qed
  moreover have "(walk pm q \<noteq> None \<longrightarrow> walk pm' q = walk pm q) \<and> (walk pm q = None \<longrightarrow> walk pm' q \<in> {None, Some 0})"
    if "q < ?q \<or> ?q + Suc n \<le> q" for q
  proof -
    have "q \<noteq> ?q" "q < Suc ?q \<or> Suc ?q + n \<le> q" using that by auto
    then have "(walk pm1 q \<noteq> None \<longrightarrow> walk pm' q = walk pm1 q) \<and> (walk pm1 q = None \<longrightarrow> walk pm' q \<in> {None, Some 0})"
      using ih by blast
    then show ?thesis using 1(4,5) \<open>q \<noteq> ?q\<close> by (metis insertE insertI1 insertI2 option.distinct(1) singletonD)
  qed
  ultimately show ?case using ih by blast
qed simp

text \<open>
  What the processor finds.  It follows the frames in the entries from the fourth level on.  The kernel writes a
  directory or a table through the page of the heap window it was created in, so an entry leads to what the kernel
  wrote only if the window maps that page to the frame in the entry.
\<close>

definition frame_bits :: "u64 \<Rightarrow> u64" where "frame_bits e = e AND PAGE_FRAME"

definition window_frame :: "kheap \<Rightarrow> u64 \<Rightarrow> u64" where
  "window_frame h v = frame_bits (pages h ((unat v - 0xFFFFFFFFC0000000) div 4096))"

definition mmu_walk :: "page_map \<Rightarrow> kheap \<Rightarrow> nat \<Rightarrow> u64 option" where
  "mmu_walk pm h q =
     (let i = q div 262144; j = q div 512 mod 512; e4 = pm_pml4 pm 0; e3 = pm_pdpt pm i; e2 = page_dirs pm i j in
      if present e4 \<and> frame_bits e4 = frame_bits (pdpt_phys pm)
         \<and> present e3 \<and> frame_bits e3 = window_frame h (page_dirs_virt pm i) \<and> present e2
      then (case page_tables pm i j of
              Some (tv, entries) \<Rightarrow> if frame_bits e2 = window_frame h tv then Some (entries (q mod 512)) else None
            | None \<Rightarrow> None)
      else None)"

text \<open>The invariant of a page map over the heap window: every level leads to the next.\<close>

definition window_page :: "kheap \<Rightarrow> u64 \<Rightarrow> bool" where
  "window_page h v \<longleftrightarrow> (\<exists>s < 262144. v = 0xFFFFFFFFC0000000 + 4096 * of_nat s \<and> present (pages h s))"

definition pm_linked :: "page_map \<Rightarrow> kheap \<Rightarrow> bool" where
  "pm_linked pm h \<longleftrightarrow> present (pm_pml4 pm 0) \<and> frame_bits (pm_pml4 pm 0) = frame_bits (pdpt_phys pm)
     \<and> (\<forall>i < 512. present (pm_pdpt pm i) \<and> window_page h (page_dirs_virt pm i) \<and> frame_bits (pm_pdpt pm i) = window_frame h (page_dirs_virt pm i))
     \<and> (\<forall>i j. present (page_dirs pm i j) \<longrightarrow>
          (\<exists>tv entries. page_tables pm i j = Some (tv, entries) \<and> window_page h tv \<and> frame_bits (page_dirs pm i j) = window_frame h tv))"

lemma mmu_walk_linked:
  assumes "pm_linked pm h" "q < 2 ^ 27"
  shows "mmu_walk pm h q = walk pm q"
proof -
  let ?i = "q div 262144" and ?j = "q div 512 mod 512"
  have i: "?i < 512" using assms(2) by (simp add: less_mult_imp_div_less)
  then have "present (page_dirs pm ?i ?j) \<longrightarrow>
      (\<exists>tv entries. page_tables pm ?i ?j = Some (tv, entries) \<and> frame_bits (page_dirs pm ?i ?j) = window_frame h tv)"
    using assms(1) unfolding pm_linked_def by blast
  then show ?thesis using assms(1) i by (auto simp: mmu_walk_def walk_def pm_linked_def Let_def)
qed

lemma frame_bits_flags: "frame_bits (a OR 7) = frame_bits a"
proof (rule bit_word_eqI)
  fix n
  have "(7 :: u64) = mask 3" by (simp add: mask_eq_exp_minus_1)
  then have "bit (7 :: u64) n \<Longrightarrow> n < 3" by (metis bit_mask_iff)
  then show "bit (frame_bits (a OR 7)) n = bit (frame_bits a) n" by (auto simp: frame_bits_def bit_or_iff bit_and_iff bit_PAGE_FRAME)
qed

lemma frame_bits_simps [simp]:
  "frame_bits (set_page_frame e a) = frame_bits a"
  "frame_bits (a OR (TABLE_PRESENT OR TABLE_WRITEABLE OR PAGE_USER)) = frame_bits a"
  "frame_bits (a OR (TABLE_WRITEABLE OR TABLE_PRESENT OR PAGE_USER)) = frame_bits a"
proof -
  show "frame_bits (set_page_frame e a) = frame_bits a"
    by (rule bit_word_eqI) (auto simp: frame_bits_def set_page_frame_def bit_simps)
  show "frame_bits (a OR (TABLE_PRESENT OR TABLE_WRITEABLE OR PAGE_USER)) = frame_bits a"
    "frame_bits (a OR (TABLE_WRITEABLE OR TABLE_PRESENT OR PAGE_USER)) = frame_bits a"
    using frame_bits_flags [of a] by (simp_all add: flag_defs)
qed

lemma window_frame_page: "s < 262144 \<Longrightarrow> window_frame h (0xFFFFFFFFC0000000 + 4096 * of_nat s) = frame_bits (pages h s)"
  by (simp add: window_frame_def heap_page_unat)

text \<open>A page taken from the window is a new one, is mapped to the frame taken with it, and disturbs no page in use.\<close>

lemma allocate_mapped_page_correct:
  assumes "heap_inv (vm_heap vm)" "allocate_mapped_page tp vm = Inr (virt, phys, vm')"
  shows "heap_inv (vm_heap vm')" "window_page (vm_heap vm') virt" "window_frame (vm_heap vm') virt = frame_bits phys" "virt \<noteq> 0"
    "\<And>v. window_page (vm_heap vm) v \<Longrightarrow> window_page (vm_heap vm') v \<and> window_frame (vm_heap vm') v = window_frame (vm_heap vm) v"
proof -
  obtain h p h' where a: "kernel_allocate_4k_pages tp 1 (vm_heap vm) = Inr (virt, h)" "allocate_physical_block (vm_phys vm) = Inr (phys, p)"
      "kernel_map_virtual_memory_4k 1 phys virt (TABLE_PRESENT OR TABLE_WRITEABLE) h = Inr h'" "vm' = \<lparr>vm_heap = h', vm_phys = p\<rparr>"
    using assms(2) by (auto simp: allocate_mapped_page_def simp del: kernel_map_virtual_memory_4k.simps)
  obtain s where s: "virt = 0xFFFFFFFFC0000000 + 4096 * of_nat s" "allocated (vm_heap vm) h s 1"
    using kernel_allocate_correct [OF assms(1), of 1 tp] a(1) by auto
  have s1: "s < 262144" using s(2) by (simp add: allocated_def)
  let ?e = "set_page_frame (TABLE_PRESENT OR TABLE_WRITEABLE) phys"
  have h': "pages h' = (pages h)(s := ?e)" "kernel_heap_dir h' = kernel_heap_dir h"
    using a(3) set_entry_pages [of "s div 512" "s mod 512" ?e h] less_mult_imp_div_less [of s 512 512] s1
    by (auto simp: s(1) heap_page_index [OF s1])
  have "present (TABLE_PRESENT OR TABLE_WRITEABLE)" by (simp add: present_def flag_defs)
  then have e: "present ?e" by simp
  have new: "pages h' k = pages (vm_heap vm) k" "k \<noteq> s" if "present (pages (vm_heap vm) k)" for k
  proof -
    show "k \<noteq> s" using that s(2) by (auto simp: allocated_def)
    then have "k < s \<or> s + 1 \<le> k" by auto
    then have "pages h k = pages (vm_heap vm) k" using s(2) unfolding allocated_def by blast
    then show "pages h' k = pages (vm_heap vm) k" using \<open>k \<noteq> s\<close> h'(1) by simp
  qed
  have "heap_inv h" using allocated_inv [OF assms(1) s(2)] .
  moreover have "present (kernel_heap_dir h (s div 512))" using s(2) by (simp add: allocated_def)
  ultimately show "heap_inv (vm_heap vm')" using h' by (auto simp: heap_inv_def a(4))
  show "window_page (vm_heap vm') virt" using s1 s(1) e h'(1) by (auto simp: window_page_def a(4))
  show "window_frame (vm_heap vm') virt = frame_bits phys" using window_frame_page [OF s1] s(1) h'(1) by (simp add: a(4))
  show "virt \<noteq> 0" using heap_page_unat [OF s1] s(1) by (metis add_is_0 unat_0 zero_neq_numeral)
  show "window_page (vm_heap vm') v \<and> window_frame (vm_heap vm') v = window_frame (vm_heap vm) v" if "window_page (vm_heap vm) v" for v
    using that new by (auto simp: window_page_def window_frame_page a(4))
qed

text \<open>A temporary kernel page, taken, mapped and given back, leaves every page in use as it was.\<close>

lemma temporary_page:
  assumes "heap_inv h" "kernel_allocate_4k_pages tp 1 h = Inr (v, h1)"
    "kernel_map_virtual_memory_4k 1 phys v flags h1 = Inr h2" "kernel_free_4k_pages 1 v h2 = Inr h3"
  shows "heap_inv h3" "\<And>v. window_page h v \<Longrightarrow> window_page h3 v \<and> window_frame h3 v = window_frame h v"
proof -
  obtain s where s: "v = 0xFFFFFFFFC0000000 + 4096 * of_nat s" "allocated h h1 s 1"
    using kernel_allocate_correct [OF assms(1), of 1 tp] assms(2) by auto
  have s1: "s < 262144" using s(2) by (simp add: allocated_def)
  have d: "s div 512 < 512" "s mod 512 < 512" using s1 by (simp_all add: less_mult_imp_div_less)
  have "pages h2 = (pages h1)(s := set_page_frame flags phys)" "kernel_heap_dir h2 = kernel_heap_dir h1"
    using assms(3) set_entry_pages [OF d, of "set_page_frame flags phys" h1] by (auto simp: s(1) heap_page_index [OF s1])
  then have h3: "pages h3 = (pages h1)(s := 0)" "kernel_heap_dir h3 = kernel_heap_dir h1"
    using assms(4) set_entry_pages [OF d, of 0 h2] by (auto simp: s(1) heap_page_index [OF s1])
  have "\<not> present 0" by (simp add: present_def)
  then show "heap_inv h3" using allocated_inv [OF assms(1) s(2)] h3 by (auto simp: heap_inv_def)
  have "pages h3 k = pages h k" if "present (pages h k)" for k
  proof -
    have "k \<noteq> s" using that s(2) by (auto simp: allocated_def)
    then have "k < s \<or> s + 1 \<le> k" by auto
    then have "pages h1 k = pages h k" using s(2) unfolding allocated_def by blast
    then show ?thesis using \<open>k \<noteq> s\<close> h3(1) by simp
  qed
  then show "window_page h3 v \<and> window_frame h3 v = window_frame h v" if "window_page h v" for v
    using that by (auto simp: window_page_def window_frame_page)
qed

lemma pm_linked_window:
  assumes "pm_linked pm h" "\<And>v. window_page h v \<Longrightarrow> window_page h' v \<and> window_frame h' v = window_frame h v"
  shows "pm_linked pm h'"
  using assms unfolding pm_linked_def by metis

lemma create_page_table_linked:
  assumes "pm_linked pm (vm_heap vm)" "heap_inv (vm_heap vm)" "create_page_table tp i j pm vm = Inr (pm', vm')"
  shows "pm_linked pm' (vm_heap vm') \<and> heap_inv (vm_heap vm')"
proof -
  obtain virt phys where a: "allocate_mapped_page tp vm = Inr (virt, phys, vm')"
      "pm' = pm\<lparr>page_dirs := (page_dirs pm)(i := (page_dirs pm i)(j :=
          set_page_frame (page_dirs pm i j) phys OR (TABLE_PRESENT OR TABLE_WRITEABLE OR PAGE_USER))),
        page_tables := (page_tables pm)(i := (page_tables pm i)(j := Some (virt, (\<lambda>_. 0))))\<rparr>"
    using assms(3) by (auto simp: create_page_table_def allocate_page_table_def Let_def)
  note A = allocate_mapped_page_correct [OF assms(2) a(1)]
  have "pm_linked pm (vm_heap vm')" using pm_linked_window [OF assms(1) A(5)] .
  then show ?thesis using A(1-3) by (auto simp: pm_linked_def a(2))
qed

lemma pm_linked_entry:
  assumes "pm_linked pm h" "page_tables pm i j = Some (tv, entries)"
  shows "pm_linked (pm\<lparr>page_tables := (page_tables pm)(i := (page_tables pm i)(j := Some (tv, x)))\<rparr>) h"
proof -
  let ?pm = "pm\<lparr>page_tables := (page_tables pm)(i := (page_tables pm i)(j := Some (tv, x)))\<rparr>"
  have "\<exists>tv entries. page_tables ?pm i' j' = Some (tv, entries) \<and> window_page h tv \<and> frame_bits (page_dirs pm i' j') = window_frame h tv"
    if p: "present (page_dirs pm i' j')" for i' j'
  proof -
    obtain tv' e where "page_tables pm i' j' = Some (tv', e)" "window_page h tv'" "frame_bits (page_dirs pm i' j') = window_frame h tv'"
      using assms(1) p unfolding pm_linked_def by blast
    then show ?thesis using assms(2) by (cases "i' = i \<and> j' = j") auto
  qed
  then show ?thesis using assms(1) unfolding pm_linked_def by simp
qed

lemma map_pages_linked:
  "pm_linked pm (vm_heap vm) \<Longrightarrow> heap_inv (vm_heap vm) \<Longrightarrow> map_virtual_memory_4k tp n phys virt flags pm vm = Inr (pm', vm') \<Longrightarrow>
   pm_linked pm' (vm_heap vm') \<and> heap_inv (vm_heap vm')"
proof (induction n arbitrary: phys virt pm vm)
  case (Suc n)
  let ?i = "PDPT_GET_INDEX virt" and ?j = "PDE_GET_INDEX virt"
  obtain pm0 vm0 where pm0: "(if \<not> present (page_dirs pm ?i ?j) then create_page_table tp ?i ?j pm vm else Inr (pm, vm)) = Inr (pm0, vm0)"
    and rest: "(case page_tables pm0 ?i ?j of None \<Rightarrow> Inl Null_deref
          | Some (tv, entries) \<Rightarrow> map_virtual_memory_4k tp n (phys + 4096) (virt + 4096) flags
                (pm0\<lparr>page_tables := (page_tables pm0)(?i := (page_tables pm0 ?i)
                   (?j := Some (tv, entries(PT_GET_INDEX virt := set_page_frame flags phys))))\<rparr>) vm0) = Inr (pm', vm')"
    using Suc.prems(3) by (auto simp: Let_def split: if_splits)
  have 0: "pm_linked pm0 (vm_heap vm0)" "heap_inv (vm_heap vm0)"
    using pm0 Suc.prems(1,2) create_page_table_linked [OF Suc.prems(1,2)] by (auto split: if_splits)
  obtain tv entries where tbl: "page_tables pm0 ?i ?j = Some (tv, entries)" using rest by (auto split: option.splits)
  show ?case using Suc.IH [OF pm_linked_entry [OF 0(1) tbl] 0(2)] rest tbl by auto
qed simp

text \<open>The frames that mapping takes, one for each new page table, come from the free ones; none becomes free.\<close>

lemma create_page_table_frames:
  assumes "phys_inv (vm_phys vm)" "create_page_table tp i j pm vm = Inr (pm', vm')"
  shows "phys_inv (vm_phys vm') \<and> free_frames (vm_phys vm') \<subseteq> free_frames (vm_phys vm)"
proof -
  obtain phys p where "allocate_physical_block (vm_phys vm) = Inr (phys, p)" "vm_phys vm' = p"
    using assms(2) by (auto simp: create_page_table_def allocate_page_table_def allocate_mapped_page_def Let_def
        simp del: kernel_map_virtual_memory_4k.simps)
  then show ?thesis using pa.alloc_Inr [OF assms(1)] by blast
qed

lemma map_pages_frames:
  "phys_inv (vm_phys vm) \<Longrightarrow> map_virtual_memory_4k tp n phys virt flags pm vm = Inr (pm', vm') \<Longrightarrow>
   phys_inv (vm_phys vm') \<and> free_frames (vm_phys vm') \<subseteq> free_frames (vm_phys vm)"
proof (induction n arbitrary: phys virt pm vm)
  case (Suc n)
  let ?i = "PDPT_GET_INDEX virt" and ?j = "PDE_GET_INDEX virt"
  obtain pm0 vm0 pm1 where pm0: "(if \<not> present (page_dirs pm ?i ?j) then create_page_table tp ?i ?j pm vm else Inr (pm, vm)) = Inr (pm0, vm0)"
    and rest: "map_virtual_memory_4k tp n (phys + 4096) (virt + 4096) flags pm1 vm0 = Inr (pm', vm')"
    using Suc.prems(2) by (auto simp: Let_def split: if_splits option.splits)
  have "phys_inv (vm_phys vm0) \<and> free_frames (vm_phys vm0) \<subseteq> free_frames (vm_phys vm)"
    using pm0 Suc.prems(1) create_page_table_frames [OF Suc.prems(1)] by (auto split: if_splits)
  then show ?case using Suc.IH [OF _ rest] by blast
qed simp

text \<open>A page map as \<open>create_page_map\<close> makes it is linked and maps nothing.\<close>

definition dirs_linked :: "nat \<Rightarrow> page_map \<Rightarrow> kheap \<Rightarrow> bool" where
  "dirs_linked n pm h \<longleftrightarrow> (\<forall>i < n. present (pm_pdpt pm i) \<and> window_page h (page_dirs_virt pm i)
     \<and> frame_bits (pm_pdpt pm i) = window_frame h (page_dirs_virt pm i)) \<and> (\<forall>i j. page_dirs pm i j = 0)"

lemma create_dirs_linked:
  "dirs_linked 0 pm (vm_heap vm) \<Longrightarrow> heap_inv (vm_heap vm) \<Longrightarrow> create_dirs tp n pm vm = Inr (pm', vm') \<Longrightarrow>
   dirs_linked n pm' (vm_heap vm') \<and> heap_inv (vm_heap vm') \<and> pm_pml4 pm' = pm_pml4 pm \<and> pdpt_phys pm' = pdpt_phys pm"
proof (induction n arbitrary: pm' vm')
  case (Suc n)
  obtain pm1 vm1 virt phys where 1: "create_dirs tp n pm vm = Inr (pm1, vm1)" "allocate_mapped_page tp vm1 = Inr (virt, phys, vm')"
      "pm' = pm1\<lparr>page_dirs := (page_dirs pm1)(n := (\<lambda>_. 0)), page_dirs_phys := (page_dirs_phys pm1)(n := phys),
        page_dirs_virt := (page_dirs_virt pm1)(n := virt), page_tables := (page_tables pm1)(n := (\<lambda>_. None)),
        pm_pdpt := (pm_pdpt pm1)(n := set_page_frame (pm_pdpt pm1 n) phys OR (TABLE_WRITEABLE OR TABLE_PRESENT OR PAGE_USER))\<rparr>"
    using Suc.prems(3) by auto
  have ih: "dirs_linked n pm1 (vm_heap vm1)" "heap_inv (vm_heap vm1)" "pm_pml4 pm1 = pm_pml4 pm" "pdpt_phys pm1 = pdpt_phys pm"
    using Suc.IH [OF Suc.prems(1,2) 1(1)] by auto
  note A = allocate_mapped_page_correct [OF ih(2) 1(2)]
  have "present (e OR (TABLE_WRITEABLE OR TABLE_PRESENT OR PAGE_USER))" for e by (simp add: present_iff bit_or_iff flag_defs)
  then show ?case using ih A by (auto simp: dirs_linked_def 1(3) less_Suc_eq)
qed (simp add: dirs_linked_def)

lemma create_page_map_linked:
  assumes "heap_inv (vm_heap vm)" "create_page_map tp kpml4 junk vm = Inr (pm, vm')"
  shows "pm_linked pm (vm_heap vm') \<and> heap_inv (vm_heap vm') \<and> (\<forall>q < 2 ^ 27. mmu_walk pm (vm_heap vm') q = None)"
proof -
  define blank where "blank pdpt_p pml4_p = \<lparr>page_dirs = (\<lambda>_ _. 0), page_dirs_phys = (\<lambda>_. 0), page_dirs_virt = (\<lambda>_. 0), page_tables = (\<lambda>_ _. None),
        pm_pdpt = junk, pm_pml4 = kpml4(0 := pdpt_p OR (TABLE_PRESENT OR TABLE_WRITEABLE OR PAGE_USER)),
        pdpt_phys = pdpt_p, pml4_phys = pml4_p\<rparr>" for pdpt_p pml4_p
  obtain v1 v2 v3 v4 v5 p1 p2 p3 p4 p5 m1 m2 m3 m4 m5 where m: "allocate_mapped_page tp vm = Inr (v1, p1, m1)"
      "allocate_mapped_page tp m1 = Inr (v2, p2, m2)" "allocate_mapped_page tp m2 = Inr (v3, p3, m3)"
      "allocate_mapped_page tp m3 = Inr (v4, p4, m4)" "allocate_mapped_page tp m4 = Inr (v5, p5, m5)"
      "create_dirs tp 512 (blank p1 p5) m5 = Inr (pm, vm')"
    using assms(2) by (auto simp: create_page_map_def blank_def)
  have "heap_inv (vm_heap m5)"
    using allocate_mapped_page_correct(1) [OF _ m(5)] allocate_mapped_page_correct(1) [OF _ m(4)] allocate_mapped_page_correct(1) [OF _ m(3)]
      allocate_mapped_page_correct(1) [OF _ m(2)] allocate_mapped_page_correct(1) [OF assms(1) m(1)] by blast
  moreover have "dirs_linked 0 (blank p1 p5) (vm_heap m5)" by (simp add: dirs_linked_def blank_def)
  ultimately have c: "dirs_linked 512 pm (vm_heap vm')" "heap_inv (vm_heap vm')" "pm_pml4 pm = pm_pml4 (blank p1 p5)" "pdpt_phys pm = p1"
    using create_dirs_linked [OF _ _ m(6)] by (auto simp: blank_def)
  have z: "\<not> present 0" by (simp add: present_def)
  have "present (p1 OR (TABLE_PRESENT OR TABLE_WRITEABLE OR PAGE_USER))" by (simp add: present_iff bit_or_iff flag_defs)
  then have l: "pm_linked pm (vm_heap vm')" using c(1,3,4) z by (auto simp: pm_linked_def dirs_linked_def blank_def)
  then show ?thesis using c(1,2) z mmu_walk_linked [OF l] by (auto simp: walk_def dirs_linked_def Let_def)
qed

text \<open>A small linked map: every table is the page at 4096 bytes or the one at 8192 bytes into the window.\<close>

definition demo_window :: kheap where
  "demo_window = \<lparr>kernel_heap_dir = (\<lambda>_. 3), kernel_heap_dir_tables = (\<lambda>_ j. if j = 1 then 0x8003 else if j = 2 then 0x9003 else 0)\<rparr>"

lemma demo_window_linked:
  "pm_linked \<lparr>page_dirs = (\<lambda>_ _. 0x9007), page_dirs_phys = (\<lambda>_. 0x8000), page_dirs_virt = (\<lambda>_. 0xFFFFFFFFC0000000 + 4096 * of_nat 1 :: u64),
     page_tables = (\<lambda>_ _. Some (0xFFFFFFFFC0000000 + 4096 * of_nat 2 :: u64, (\<lambda>_. 0))),
     pm_pdpt = (\<lambda>_. 0x8007), pm_pml4 = (\<lambda>_. 0x7007), pdpt_phys = 0x7000, pml4_phys = cr3\<rparr> demo_window"
  "heap_inv demo_window"
proof -
  have w: "window_page demo_window (0xFFFFFFFFC0000000 + 4096 * of_nat 1)" "window_page demo_window (0xFFFFFFFFC0000000 + 4096 * of_nat 2)"
    unfolding window_page_def demo_window_def by (intro exI [of _ 1] exI [of _ 2]; simp add: pages_def present_def TABLE_PRESENT_def)+
  have f: "window_frame demo_window (0xFFFFFFFFC0000000 + 4096 * of_nat 1) = 0x8000" "window_frame demo_window (0xFFFFFFFFC0000000 + 4096 * of_nat 2) = 0x9000"
    using window_frame_page [of 1 demo_window] window_frame_page [of 2 demo_window]
    by (simp_all add: demo_window_def pages_def frame_bits_def PAGE_FRAME_def)
  show "pm_linked \<lparr>page_dirs = (\<lambda>_ _. 0x9007), page_dirs_phys = (\<lambda>_. 0x8000), page_dirs_virt = (\<lambda>_. 0xFFFFFFFFC0000000 + 4096 * of_nat 1 :: u64),
     page_tables = (\<lambda>_ _. Some (0xFFFFFFFFC0000000 + 4096 * of_nat 2 :: u64, (\<lambda>_. 0))),
     pm_pdpt = (\<lambda>_. 0x8007), pm_pml4 = (\<lambda>_. 0x7007), pdpt_phys = 0x7000, pml4_phys = cr3\<rparr> demo_window"
    using w f by (simp add: pm_linked_def frame_bits_def PAGE_FRAME_def present_def TABLE_PRESENT_def)
  show "heap_inv demo_window" by (simp add: heap_inv_def demo_window_def present_def TABLE_PRESENT_def)
qed

lemma pm_linked_inv: "pm_linked pm h \<Longrightarrow> pm_inv pm"
  unfolding pm_linked_def pm_inv_def by (metis option.distinct(1))

text \<open>
  C6. Mapping \<open>n\<close> pages into a process below 512 GiB makes the processor find, for each of them, the entry with the
  requested flags and the requested frame, through tables whose entries on every level lead to what the kernel wrote;
  every page outside the range keeps its entry (a page that had no table may get an empty one).  The links between
  the levels and the pages of the heap window they are in stay intact.  A range that starts in another 512 GiB slot
  panics, a missing page directory fails the assertion.
\<close>

theorem map_virtual_memory_correct:
  assumes "pm_linked pm (vm_heap vm)" "heap_inv (vm_heap vm)"
  shows "(unat virt + 4096 * n \<le> 2 ^ 39 \<longrightarrow>
      (\<forall>pm' vm'. map_virtual_memory_4k tp n phys virt flags pm vm = Inr (pm', vm') \<longrightarrow>
         pm_linked pm' (vm_heap vm') \<and> heap_inv (vm_heap vm')
         \<and> (\<forall>k<n. mmu_walk pm' (vm_heap vm') (unat virt div 4096 + k) = Some (set_page_frame flags (phys + 4096 * of_nat k)))
         \<and> (\<forall>q < 2 ^ 27. (q < unat virt div 4096 \<or> unat virt div 4096 + n \<le> q) \<longrightarrow>
              (mmu_walk pm (vm_heap vm) q \<noteq> None \<longrightarrow> mmu_walk pm' (vm_heap vm') q = mmu_walk pm (vm_heap vm) q)
              \<and> (mmu_walk pm (vm_heap vm) q = None \<longrightarrow> mmu_walk pm' (vm_heap vm') q \<in> {None, Some 0}))))
    \<and> (PML4_GET_INDEX virt \<noteq> 0 \<longrightarrow>
         map_virtual_memory_4k tp (Suc n) phys virt flags pm vm = Inl (Panic ''Process address space cannot be >512GB''))
    \<and> (PML4_GET_INDEX virt = 0 \<longrightarrow>
         map_virtual_memory_4k tp (Suc n) phys virt flags (pm\<lparr>page_dirs_virt := (\<lambda>_. 0)\<rparr>) vm = Inl Assert_failed)"
proof (intro conjI impI)
  show "\<forall>pm' vm'. map_virtual_memory_4k tp n phys virt flags pm vm = Inr (pm', vm') \<longrightarrow>
         pm_linked pm' (vm_heap vm') \<and> heap_inv (vm_heap vm')
         \<and> (\<forall>k<n. mmu_walk pm' (vm_heap vm') (unat virt div 4096 + k) = Some (set_page_frame flags (phys + 4096 * of_nat k)))
         \<and> (\<forall>q < 2 ^ 27. (q < unat virt div 4096 \<or> unat virt div 4096 + n \<le> q) \<longrightarrow>
              (mmu_walk pm (vm_heap vm) q \<noteq> None \<longrightarrow> mmu_walk pm' (vm_heap vm') q = mmu_walk pm (vm_heap vm) q)
              \<and> (mmu_walk pm (vm_heap vm) q = None \<longrightarrow> mmu_walk pm' (vm_heap vm') q \<in> {None, Some 0}))"
    if r: "unat virt + 4096 * n \<le> 2 ^ 39"
  proof (intro allI impI)
    fix pm' vm'
    assume m: "map_virtual_memory_4k tp n phys virt flags pm vm = Inr (pm', vm')"
    note C = map_pages_correct [OF pm_linked_inv [OF assms(1)] r m] and L = map_pages_linked [OF assms m]
    have "unat virt div 4096 + k < 2 ^ 27" if "k < n" for k using r that by (simp add: div_add_self1 [symmetric] less_mult_imp_div_less)
    then show "pm_linked pm' (vm_heap vm') \<and> heap_inv (vm_heap vm')
         \<and> (\<forall>k<n. mmu_walk pm' (vm_heap vm') (unat virt div 4096 + k) = Some (set_page_frame flags (phys + 4096 * of_nat k)))
         \<and> (\<forall>q < 2 ^ 27. (q < unat virt div 4096 \<or> unat virt div 4096 + n \<le> q) \<longrightarrow>
              (mmu_walk pm (vm_heap vm) q \<noteq> None \<longrightarrow> mmu_walk pm' (vm_heap vm') q = mmu_walk pm (vm_heap vm) q)
              \<and> (mmu_walk pm (vm_heap vm) q = None \<longrightarrow> mmu_walk pm' (vm_heap vm') q \<in> {None, Some 0}))"
      using C L mmu_walk_linked [OF assms(1)] mmu_walk_linked [of pm' "vm_heap vm'"] by simp
  qed
next
  assume "PML4_GET_INDEX virt = 0"
  moreover have "\<not> 511 < PDPT_GET_INDEX virt" using index_bound(2) [of virt] by linarith
  ultimately show "map_virtual_memory_4k tp (Suc n) phys virt flags (pm\<lparr>page_dirs_virt := (\<lambda>_. 0)\<rparr>) vm = Inl Assert_failed"
    by (simp add: Let_def)
qed (simp add: Let_def)

lemma map_virtual_memory_correct_witness:
  "let v = (\<lambda>s. 0xFFFFFFFFC0000000 + 4096 * of_nat s :: u64);
       pm = \<lparr>page_dirs = (\<lambda>_ _. 0x9007), page_dirs_phys = (\<lambda>_. 0x8000), page_dirs_virt = (\<lambda>_. v 1), page_tables = (\<lambda>_ _. Some (v 2, (\<lambda>_. 0))),
         pm_pdpt = (\<lambda>_. 0x8007), pm_pml4 = (\<lambda>_. 0x7007), pdpt_phys = 0x7000, pml4_phys = 0x6000\<rparr>;
       vm = \<lparr>vm_heap = demo_window, vm_phys = \<lparr>phys_mem_bitmap = [], used_blocks = 0, max_blocks = 0, next_chunk = 0\<rparr>\<rparr>
   in pm_linked pm demo_window \<and> heap_inv demo_window \<and> (\<exists>pm' vm'. map_virtual_memory_4k (\<lambda>_. 0) 1 0x7000 0x400000 7 pm vm = Inr (pm', vm')
        \<and> mmu_walk pm' (vm_heap vm') 0x400 = Some 0x7007)"
proof -
  let ?pm = "\<lparr>page_dirs = (\<lambda>_ _. 0x9007), page_dirs_phys = (\<lambda>_. 0x8000), page_dirs_virt = (\<lambda>_. 0xFFFFFFFFC0000000 + 4096 * of_nat 1 :: u64),
         page_tables = (\<lambda>_ _. Some (0xFFFFFFFFC0000000 + 4096 * of_nat 2 :: u64, (\<lambda>_. 0))),
         pm_pdpt = (\<lambda>_. 0x8007), pm_pml4 = (\<lambda>_. 0x7007), pdpt_phys = 0x7000, pml4_phys = 0x6000\<rparr>"
  let ?vm = "\<lparr>vm_heap = demo_window, vm_phys = \<lparr>phys_mem_bitmap = [], used_blocks = 0, max_blocks = 0, next_chunk = 0\<rparr>\<rparr>"
  have inv: "pm_linked ?pm (vm_heap ?vm)" "heap_inv (vm_heap ?vm)" using demo_window_linked(1) [of "0x6000"] demo_window_linked(2) by simp_all
  have "\<exists>pm' vm'. map_virtual_memory_4k (\<lambda>_. 0) 1 0x7000 0x400000 7 ?pm ?vm = Inr (pm', vm')"
    by (simp add: Let_def index_defs present_def TABLE_PRESENT_def)
  moreover have "set_page_frame 7 0x7000 = 0x7007" by (simp add: set_page_frame_def PAGE_FRAME_def)
  ultimately show ?thesis
    using map_virtual_memory_correct [of ?pm ?vm "0x400000" 1 "\<lambda>_. 0" "0x7000" 7] inv unfolding Let_def by auto
qed

text \<open>
  Destroying a page map does not give back the frames of its page tables: for a present directory
  entry with frame number \<open>b\<close>, \<open>destroy_page_map\<close> frees nothing when \<open>b < 4096\<close>, and otherwise passes the frame
  number where a frame address is due, so that block \<open>b div 4096\<close>, a different one, becomes free and \<open>b\<close> stays
  in use.
\<close>

theorem destroy_frees_wrong_block:
  assumes "present (page_dirs pm i j)" "phys_inv (vm_phys vm)"
    "unat (get_page_frame (page_dirs pm i j)) = b" "b \<notin> free_blocks (vm_phys vm)"
    "destroy_entry i j pm vm = Inr (pm', vm')"
  shows "b \<notin> free_blocks (vm_phys vm')
    \<and> free_blocks (vm_phys vm') = (if b < 4096 then free_blocks (vm_phys vm) else insert (b div 4096) (free_blocks (vm_phys vm)))"
proof -
  let ?phys = "ucast (get_page_frame (page_dirs pm i j)) :: u64"
  have b: "unat ?phys = b" using assms(3) by simp
  show ?thesis
  proof (cases "b < 4096")
    case True
    then have "?phys < 4096" using b by (simp add: word_less_nat_alt)
    then have "vm' = vm" using assms(1,5) by (simp add: destroy_entry_def Let_def)
    then show ?thesis using assms(4) True by simp
  next
    case False
    then have big: "\<not> ?phys < 4096" using b by (simp add: word_less_nat_alt)
    obtain p where p: "free_physical_block ?phys (vm_phys vm) = Inr p" "vm_phys vm' = p"
      using assms(1,5) big by (auto simp: destroy_entry_def Let_def vm_free_phys_def vm_free_page_def split: option.splits)
    have ix: "unat (drop_bit 12 ?phys) = b div 4096" using b by (simp add: unat_drop_bit_eq) (simp add: drop_bit_eq_div)
    have "free_blocks p = insert (b div 4096) (free_blocks (vm_phys vm))"
      using p(1) ix free_blocks_clear_bit [of "b div 4096" "vm_phys vm"]
      by (auto simp: free_physical_block_def Let_def split: if_splits)
    moreover have "b \<noteq> b div 4096" using False div_less_dividend [of 4096 b] by simp
    ultimately show ?thesis using False p(2) assms(4) by auto
  qed
qed

lemma destroy_frees_wrong_block_witness:
  "let p = \<lparr>phys_mem_bitmap = replicate 200 (- 1), used_blocks = 0, max_blocks = 6400, next_chunk = 1\<rparr>;
       pm = \<lparr>page_dirs = (\<lambda>_ _. 0x1100007), page_dirs_phys = (\<lambda>_. 0), page_dirs_virt = (\<lambda>_. 0),
         page_tables = (\<lambda>_ _. Some (0xFFFFFFFFC0000000, (\<lambda>_. 0))), pm_pdpt = (\<lambda>_. 0), pm_pml4 = (\<lambda>_. 0), pdpt_phys = 0, pml4_phys = 0\<rparr>;
       vm = \<lparr>vm_heap = \<lparr>kernel_heap_dir = (\<lambda>_. 0), kernel_heap_dir_tables = (\<lambda>_ _. 0)\<rparr>, vm_phys = p\<rparr>
   in \<exists>pm' vm'. destroy_entry 0 0 pm vm = Inr (pm', vm') \<and> 4352 \<notin> free_blocks (vm_phys vm')
        \<and> 1 \<in> free_blocks (vm_phys vm')"
proof -
  define p where "p = \<lparr>phys_mem_bitmap = replicate 200 (- 1), used_blocks = 0, max_blocks = 6400, next_chunk = 1\<rparr>"
  let ?pm = "\<lparr>page_dirs = (\<lambda>_ _. 0x1100007), page_dirs_phys = (\<lambda>_. 0), page_dirs_virt = (\<lambda>_. 0),
         page_tables = (\<lambda>_ _. Some (0xFFFFFFFFC0000000, (\<lambda>_. 0))), pm_pdpt = (\<lambda>_. 0), pm_pml4 = (\<lambda>_. 0), pdpt_phys = 0, pml4_phys = 0\<rparr>"
  let ?vm = "\<lparr>vm_heap = \<lparr>kernel_heap_dir = (\<lambda>_. 0), kernel_heap_dir_tables = (\<lambda>_ _. 0)\<rparr>, vm_phys = p\<rparr>"
  have h: "present (page_dirs ?pm 0 0)" "phys_inv (vm_phys ?vm)" "unat (get_page_frame (page_dirs ?pm 0 0)) = 4352"
      "4352 \<notin> free_blocks (vm_phys ?vm)"
    by (simp_all add: present_def TABLE_PRESENT_def phys_inv_def get_page_frame_def PAGE_FRAME_def free_blocks_def p_def)
  have "\<exists>pm' vm'. destroy_entry 0 0 ?pm ?vm = Inr (pm', vm')"
    using h(1) by (simp add: destroy_entry_def Let_def get_page_frame_def PAGE_FRAME_def vm_free_phys_def vm_free_page_def
        free_physical_block_def clear_bit_def set_entry_def index_defs p_def)
  then show ?thesis
    using destroy_frees_wrong_block [OF h] unfolding Let_def p_def by fastforce
qed

section \<open>The tables set up at boot\<close>

record boot_tables =
  kernel_pml4 :: "nat \<Rightarrow> u64"
  kernel_pdpt :: "nat \<Rightarrow> u64"
  kernel_dir :: "nat \<Rightarrow> u64"
  io_dirs :: "nat \<Rightarrow> nat \<Rightarrow> u64"
  boot_heap :: kheap

text \<open>
  The arguments are the physical addresses of the static tables; the entries written are those of
  \<open>initialize_virtual_memory\<close>, in its order (slots 506 to 509 of the page directory pointer table are the IO
  window, 510 the kernel image, 511 the heap).
\<close>

definition initialize_virtual_memory :: "u64 \<Rightarrow> u64 \<Rightarrow> u64 \<Rightarrow> (nat \<Rightarrow> u64) \<Rightarrow> boot_tables" where
  "initialize_virtual_memory pdpt_p dir_p heap_dir_p io_p =
     (let k = PML4_GET_INDEX KERNEL_VIRTUAL_BASE; d = PDPT_GET_INDEX KERNEL_VIRTUAL_BASE;
          io = PDPT_GET_INDEX IO_VIRTUAL_BASE;
          pml4_entry = set_page_frame 0 pdpt_p OR (TABLE_WRITEABLE OR TABLE_PRESENT);
          pdpt = (\<lambda>_. 0)(d := dir_p OR (TABLE_WRITEABLE OR TABLE_PRESENT),
                           511 := set_page_frame (TABLE_WRITEABLE OR TABLE_PRESENT) heap_dir_p);
          pdpt = (\<lambda>i. if io \<le> i \<and> i < io + 4 then io_p (i - io) OR (TABLE_WRITEABLE OR TABLE_PRESENT) else pdpt i)
      in \<lparr>kernel_pml4 = (\<lambda>_. 0)(k := pml4_entry, 0 := pml4_entry),
          kernel_pdpt = pdpt(0 := pdpt d),
          kernel_dir = (\<lambda>j. 0x200000 * of_nat j OR (PDE_2M OR TABLE_WRITEABLE OR TABLE_PRESENT)),
          io_dirs = (\<lambda>i j. (0x40000000 * of_nat i + 0x200000 * of_nat j)
                       OR (PDE_2M OR TABLE_WRITEABLE OR TABLE_PRESENT OR 16)),
          boot_heap = \<lparr>kernel_heap_dir = (\<lambda>_. 0), kernel_heap_dir_tables = (\<lambda>_ _. 0)\<rparr>\<rparr>)"

text \<open>The physical address of a byte in a 2 MiB page: the page's base from the entry and the low 21 bits.\<close>

definition large_page_address :: "u64 \<Rightarrow> u64 \<Rightarrow> nat" where
  "large_page_address e v = 2 ^ 21 * unat (drop_bit 21 e) + unat v mod 2 ^ 21"

lemma drop_bit_or_flags:
  assumes "unat f < 2 ^ 21"
  shows "drop_bit 21 ((e :: u64) OR f) = drop_bit 21 e"
proof -
  have "drop_bit 21 f = 0"
    using assms by (simp add: word_unat_eq_iff unat_drop_bit_eq) (simp add: drop_bit_eq_div)
  then show ?thesis by (simp add: drop_bit_or)
qed

text \<open>
  Device memory below 4 GiB is reachable where \<open>get_io_mapping\<close> says: the address it returns lies in the
  four directories the boot code maps uncached, and the 2 MiB entry the processor finds there leads back to
  the device address.  Addresses from 4 GiB on are refused with the value \<open>0xFFFFFFFF\<close>.
\<close>

theorem io_mapping_translates:
  "if addr \<le> 0xFFFFFFFF
   then let v = get_io_mapping addr; i = unat addr div 2 ^ 30; b = initialize_virtual_memory pp dp hp io_phys
     in PML4_GET_INDEX v = 511 \<and> PDPT_GET_INDEX v = 506 + i \<and> i < 4
        \<and> kernel_pdpt b (506 + i) = io_phys i OR (TABLE_WRITEABLE OR TABLE_PRESENT)
        \<and> large_page_address (io_dirs b i (PDE_GET_INDEX v)) v = unat addr
   else get_io_mapping addr = 0xFFFFFFFF"
proof (cases "addr \<le> 0xFFFFFFFF")
  case True
  then have a: "unat addr < 2 ^ 32" by (simp add: word_le_nat_alt)
  define n where "n = unat addr"
  let ?v = "get_io_mapping addr" and ?i = "n div 2 ^ 30"
  have v: "unat ?v = 0xFFFFFFFE80000000 + n"
    using True a by (simp add: get_io_mapping_def IO_VIRTUAL_BASE_def KERNEL_VIRTUAL_BASE_def n_def unat_word_ariths)
  have i: "?i < 4" using a by (simp add: n_def less_mult_imp_div_less)
  have "(0xFFFFFFFE80000000 + n) div 2 ^ 39 = 0x1FFFFFF" by (rule div_nat_eqI) (use a in \<open>simp_all add: n_def\<close>)
  moreover have "(0xFFFFFFFE80000000 + n) div 2 ^ 30 = 0x3FFFFFFFA + n div 2 ^ 30"
    using div_mult_self1 [of "2 ^ 30" n "0x3FFFFFFFA"] by (simp add: add.commute)
  moreover have "(0xFFFFFFFE80000000 + n) div 2 ^ 21 = 0x7FFFFFFF400 + n div 2 ^ 21"
    using div_mult_self1 [of "2 ^ 21" n "0x7FFFFFFF400"] by (simp add: add.commute)
  ultimately have ix: "PML4_GET_INDEX ?v = 511" "PDPT_GET_INDEX ?v = 506 + ?i" "PDE_GET_INDEX ?v = n div 2 ^ 21 mod 512"
    unfolding index_eq v using i
      mod_add_left_eq [of "0x7FFFFFFF400" 512 "n div 2 ^ 21"] mod_add_left_eq [of "0x3FFFFFFFA" 512 "n div 2 ^ 30"]
    by simp_all
  have io: "PDPT_GET_INDEX IO_VIRTUAL_BASE = 506" "PDPT_GET_INDEX KERNEL_VIRTUAL_BASE = 510"
    by (simp_all add: IO_VIRTUAL_BASE_def KERNEL_VIRTUAL_BASE_def PDPT_GET_INDEX_def)
  let ?j = "n div 2 ^ 21 mod 512"
  let ?base = "0x40000000 * of_nat ?i + 0x200000 * of_nat ?j :: u64"
  have split: "n div 2 ^ 21 = 512 * ?i + ?j" using mult_div_mod_eq [of 512 "n div 2 ^ 21"] by (simp add: div_mult2_eq [symmetric])
  have "2 ^ 21 * x = 0x40000000 * y + 0x200000 * z" if "x = 512 * y + z" for x y z :: nat
    using that by simp
  from this [OF split] have "2 ^ 21 * (n div 2 ^ 21) = 0x40000000 * ?i + 0x200000 * ?j" .
  moreover have "?base = of_nat (0x40000000 * ?i + 0x200000 * ?j)" by (simp only: of_nat_add of_nat_mult of_nat_numeral)
  ultimately have "?base = of_nat (2 ^ 21 * (n div 2 ^ 21))" by simp
  then have base: "unat ?base = 2 ^ 21 * (n div 2 ^ 21)"
    using a by (simp only:) (rule unat_of_nat_small, simp add: n_def)
  have "unat (drop_bit 21 ?base) = n div 2 ^ 21"
    using base by (simp only: unat_drop_bit_eq) (simp add: drop_bit_eq_div)
  moreover have "unat ?v mod 2 ^ 21 = n mod 2 ^ 21"
    unfolding v using mod_add_left_eq [of "0xFFFFFFFE80000000" "2 ^ 21" n] by simp
  ultimately have "large_page_address (?base OR (PDE_2M OR TABLE_WRITEABLE OR TABLE_PRESENT OR 16)) ?v = n"
    using mult_div_mod_eq [of "2 ^ 21" n]
    by (simp add: large_page_address_def drop_bit_or_flags flag_defs)
  then show ?thesis
    using True i by (simp add: ix io initialize_virtual_memory_def Let_def n_def [symmetric])
next
  case False
  then show ?thesis by (simp only: if_False) (simp add: get_io_mapping_def not_le)
qed

end
