(* ===== verification/VmObject.thy ===== *)
theory VmObject
  imports Paging
begin

unbundle bit_operations_syntax

text \<open>
  The memory objects of \<^verbatim>\<open>Kernel/src/mm/vm_object.cpp\<close>: a physical object is an array of frame numbers, 0 for
  a page not yet backed, with its flags; a process image is one whose pages are all backed and which is mapped
  at a fixed base.  The contents of the frames (the zero fill and the copy in \<open>clone\<close>) are not part of the
  model: the page tables and the two allocators are.  The constructor leaves \<open>_use_count\<close> unset, so its initial
  value is an argument.
\<close>

section \<open>Model\<close>

record vmo =
  vmo_size :: u64
  use_count :: int
  anonymous :: bool
  shared :: bool
  cow :: bool
  physical_blocks :: "u32 list"
  image :: "(u64 \<times> bool) option"

definition block_count :: "vmo \<Rightarrow> nat" where
  "block_count o1 = unat (drop_bit 12 (vmo_size o1))"

definition aligned :: "u64 \<Rightarrow> bool" where
  "aligned x \<longleftrightarrow> x AND (4096 - 1) = 0"

definition block_address :: "u32 \<Rightarrow> u64" where
  "block_address b = push_bit 12 (ucast b)"

primrec back_blocks :: "nat \<Rightarrow> u64 \<Rightarrow> vmm \<Rightarrow> (u32 list \<times> vmm) kres" where
  "back_blocks 0 mapping vm = Inr ([], vm)"
| "back_blocks (Suc n) mapping vm =
     kbind (allocate_physical_block (vm_phys vm)) (\<lambda>(phys, p).
     kbind (kernel_map_virtual_memory_4k 1 phys mapping (TABLE_PRESENT OR TABLE_WRITEABLE) (vm_heap vm)) (\<lambda>h.
     kbind (back_blocks n mapping \<lparr>vm_heap = h, vm_phys = p\<rparr>) (\<lambda>(bs, vm).
     Inr (ucast (drop_bit 12 phys) # bs, vm))))"

definition physical_vm_object ::
  "(nat \<Rightarrow> u64) \<Rightarrow> int \<Rightarrow> u64 \<Rightarrow> bool \<Rightarrow> bool \<Rightarrow> bool \<Rightarrow> vmm \<Rightarrow> (vmo \<times> vmm) kres" where
  "physical_vm_object tp uses sz anon shrd cw vm =
     (if \<not> aligned sz then Inl Assert_failed
      else let n = unat (PAGE_COUNT_4K sz);
               o1 = \<lparr>vmo_size = sz, use_count = uses, anonymous = anon, shared = shrd, cow = cw,
                     physical_blocks = [], image = None\<rparr> in
        if anon then Inr (o1\<lparr>physical_blocks := replicate n 0\<rparr>, vm)
        else kbind (kernel_allocate_4k_pages tp 1 (vm_heap vm)) (\<lambda>(mapping, h).
             kbind (back_blocks n mapping (vm\<lparr>vm_heap := h\<rparr>)) (\<lambda>(bs, vm).
             kbind (vm_free_page mapping vm) (\<lambda>vm.
             Inr (o1\<lparr>physical_blocks := bs\<rparr>, vm)))))"

definition process_image_vm_object ::
  "(nat \<Rightarrow> u64) \<Rightarrow> int \<Rightarrow> u64 \<Rightarrow> u64 \<Rightarrow> bool \<Rightarrow> vmm \<Rightarrow> (vmo \<times> vmm) kres" where
  "process_image_vm_object tp uses base sz write vm =
     kbind (physical_vm_object tp uses sz False False False vm)
       (\<lambda>(o1, vm). Inr (o1\<lparr>image := Some (base, write)\<rparr>, vm))"

text \<open>The flags of the entry of a page, and the frame it gets; a process image asserts that it is backed.\<close>

definition block_entry :: "vmo \<Rightarrow> u32 \<Rightarrow> (u64 \<times> u64) kres" where
  "block_entry o1 b =
     (case image o1 of
        Some (_, write) \<Rightarrow>
          if b = 0 then Inl Assert_failed
          else Inr (block_address b,
                    PAGE_USER OR TABLE_PRESENT OR (if write \<and> \<not> cow o1 then TABLE_WRITEABLE else 0))
      | None \<Rightarrow>
          if b \<noteq> 0
          then Inr (block_address b, PAGE_USER OR TABLE_PRESENT OR (if \<not> cow o1 then TABLE_WRITEABLE else 0))
          else Inr (0, PAGE_USER))"

primrec map_blocks :: "(nat \<Rightarrow> u64) \<Rightarrow> vmo \<Rightarrow> u32 list \<Rightarrow> u64 \<Rightarrow> page_map \<Rightarrow> vmm \<Rightarrow> (page_map \<times> vmm) kres" where
  "map_blocks tp o1 [] virt pm vm = Inr (pm, vm)"
| "map_blocks tp o1 (b # bs) virt pm vm =
     kbind (block_entry o1 b) (\<lambda>(phys, flags).
     kbind (map_virtual_memory_4k tp 1 phys virt flags pm vm) (\<lambda>(pm, vm).
     map_blocks tp o1 bs (virt + 4096) pm vm))"

definition map_allocated_blocks :: "(nat \<Rightarrow> u64) \<Rightarrow> vmo \<Rightarrow> u64 \<Rightarrow> page_map \<Rightarrow> vmm \<Rightarrow> (page_map \<times> vmm) kres" where
  "map_allocated_blocks tp o1 base pm vm =
     (case image o1 of
        Some (ib, _) \<Rightarrow> if base \<noteq> ib then Inl Assert_failed
                        else map_blocks tp o1 (take (block_count o1) (physical_blocks o1)) ib pm vm
      | None \<Rightarrow> map_blocks tp o1 (take (block_count o1) (physical_blocks o1)) base pm vm)"

text \<open>The loop of \<open>clone\<close>: a new frame for every backed page; unbacked pages keep the new object's entry.\<close>

primrec clone_blocks :: "u32 list \<Rightarrow> u32 list \<Rightarrow> u64 \<Rightarrow> vmm \<Rightarrow> (u32 list \<times> vmm) kres" where
  "clone_blocks [] new virt vm = Inr ([], vm)"
| "clone_blocks (b # bs) new virt vm =
     (if b \<noteq> 0
      then kbind (allocate_physical_block (vm_phys vm)) (\<lambda>(phys, p).
           kbind (kernel_map_virtual_memory_4k 1 (block_address b) virt (TABLE_PRESENT OR TABLE_WRITEABLE) (vm_heap vm)) (\<lambda>h.
           kbind (kernel_map_virtual_memory_4k 1 phys (virt + 4096) (TABLE_PRESENT OR TABLE_WRITEABLE) h) (\<lambda>h.
           kbind (clone_blocks bs (tl new) virt \<lparr>vm_heap = h, vm_phys = p\<rparr>) (\<lambda>(cs, vm).
           Inr (ucast (drop_bit 12 phys) # cs, vm)))))
      else kbind (clone_blocks bs (tl new) virt vm) (\<lambda>(cs, vm).
           Inr ((case new of [] \<Rightarrow> 0 | n # _ \<Rightarrow> n) # cs, vm)))"

definition clone :: "(nat \<Rightarrow> u64) \<Rightarrow> int \<Rightarrow> vmo \<Rightarrow> vmm \<Rightarrow> (vmo \<times> vmm) kres" where
  "clone tp uses o1 vm =
     (if shared o1 then Inl Assert_failed
      else kbind (physical_vm_object tp uses (vmo_size o1) (anonymous o1) (shared o1) False vm) (\<lambda>(new, vm).
           kbind (kernel_allocate_4k_pages tp 2 (vm_heap vm)) (\<lambda>(virt, h).
           kbind (clone_blocks (take (block_count o1) (physical_blocks o1)) (physical_blocks new) virt (vm\<lparr>vm_heap := h\<rparr>)) (\<lambda>(bs, vm).
           kbind (kernel_free_4k_pages 2 virt (vm_heap vm)) (\<lambda>h.
           Inr (new\<lparr>physical_blocks := bs, use_count := use_count new + 1\<rparr>, vm\<lparr>vm_heap := h\<rparr>))))))"

definition used_physical_memory :: "vmo \<Rightarrow> u64" where
  "used_physical_memory o1 =
     (if \<not> anonymous o1 then vmo_size o1
      else ucast (push_bit 12 (of_nat (length (filter (\<lambda>b. b \<noteq> 0) (take (block_count o1) (physical_blocks o1)))) :: u32)))"

primrec free_blocks_of :: "u32 list \<Rightarrow> vmm \<Rightarrow> vmm kres" where
  "free_blocks_of [] vm = Inr vm"
| "free_blocks_of (b # bs) vm =
     (if b \<noteq> 0 then kbind (vm_free_phys (block_address b) vm) (free_blocks_of bs) else free_blocks_of bs vm)"

definition destroy_vm_object :: "vmo \<Rightarrow> vmm \<Rightarrow> vmm kres" where
  "destroy_vm_object o1 vm =
     (if use_count o1 > 1 then Inl Assert_failed
      else free_blocks_of (take (block_count o1) (physical_blocks o1)) vm)"

text \<open>
  A page fault on the object.  \<open>cur_cr3\<close> is the table root in use; when it is not the faulting map the zero
  fill goes through a temporary kernel page.  The first result is the status, 0 for success.
\<close>

definition hit :: "(nat \<Rightarrow> u64) \<Rightarrow> u64 \<Rightarrow> vmo \<Rightarrow> u64 \<Rightarrow> u64 \<Rightarrow> page_map \<Rightarrow> vmm \<Rightarrow> (int \<times> vmo \<times> page_map \<times> vmm) kres" where
  "hit tp cur_cr3 o1 base offset pm vm =
     (let block_index = unat (ucast (drop_bit 12 offset) :: u32) in
      if \<not> block_index < block_count o1 then Inl Assert_failed
      else if \<not> block_index < length (physical_blocks o1) then Inl Out_of_bounds
      else let b = physical_blocks o1 ! block_index in
        if b \<noteq> 0
        then kbind (map_virtual_memory_4k tp 1 (block_address b) (base + offset) (TABLE_PRESENT OR TABLE_WRITEABLE OR PAGE_USER) pm vm)
               (\<lambda>(pm, vm). Inr (0, o1, pm, vm))
        else if \<not> anonymous o1 then Inl Assert_failed
        else kbind (allocate_physical_block (vm_phys vm)) (\<lambda>(phys, p).
          if \<not> phys < 0xfffff000 then Inl Assert_failed
          else if phys = 0 then Inr (1, o1, pm, vm\<lparr>vm_phys := p\<rparr>)
          else let o2 = o1\<lparr>physical_blocks := (physical_blocks o1)[block_index := ucast (drop_bit 12 phys)]\<rparr> in
            kbind (map_virtual_memory_4k tp 1 phys (base + offset) (TABLE_PRESENT OR TABLE_WRITEABLE OR PAGE_USER) pm (vm\<lparr>vm_phys := p\<rparr>)) (\<lambda>(pm, vm).
            if cur_cr3 = pml4_phys pm then Inr (0, o2, pm, vm)
            else kbind (kernel_allocate_4k_pages tp 1 (vm_heap vm)) (\<lambda>(mapping, h).
                 kbind (kernel_map_virtual_memory_4k 1 phys mapping (TABLE_PRESENT OR TABLE_WRITEABLE) h) (\<lambda>h.
                 kbind (kernel_free_4k_pages 1 mapping h) (\<lambda>h.
                 Inr (0, o2, pm, vm\<lparr>vm_heap := h\<rparr>)))))))"

section \<open>Frames and blocks\<close>

lemma block_address_of_frame:
  assumes "phys_inv p" "a \<in> managed_frames p"
  shows "block_address (ucast (drop_bit 12 a)) = a" "(ucast (drop_bit 12 a) :: u32) \<noteq> 0"
proof -
  note m = managed_frame_block [OF assms]
  have u: "unat (ucast (drop_bit 12 a) :: u32) = unat (drop_bit 12 a)"
    using m(2) by (simp add: unsigned_ucast_eq take_bit_nat_eq_self)
  then have "(ucast (ucast (drop_bit 12 a) :: u32) :: u64) = drop_bit 12 a"
    by (simp add: word_unat_eq_iff)
  then show "block_address (ucast (drop_bit 12 a)) = a"
    using m(1) by (simp add: block_address_def block_addr_def)
  show "(ucast (drop_bit 12 a) :: u32) \<noteq> 0" using u m(3) by (metis unat_0)
qed

lemma back_blocks_correct:
  "back_blocks n mapping vm = Inr (bs, vm') \<Longrightarrow> phys_inv (vm_phys vm) \<Longrightarrow>
   phys_inv (vm_phys vm') \<and> managed_frames (vm_phys vm') = managed_frames (vm_phys vm) \<and> length bs = n
   \<and> 0 \<notin> set bs \<and> distinct (map block_address bs) \<and> block_address ` set bs \<subseteq> free_frames (vm_phys vm)
   \<and> free_frames (vm_phys vm') = free_frames (vm_phys vm) - block_address ` set bs"
proof (induction n arbitrary: vm bs)
  case (Suc n)
  then obtain phys p h bs' where s: "allocate_physical_block (vm_phys vm) = Inr (phys, p)"
      "back_blocks n mapping \<lparr>vm_heap = h, vm_phys = p\<rparr> = Inr (bs', vm')" "bs = ucast (drop_bit 12 phys) # bs'"
    by auto
  note a = pa.alloc_Inr [OF Suc.prems(2) s(1)]
  then have "phys \<in> managed_frames (vm_phys vm)" by blast
  note b = block_address_of_frame [OF Suc.prems(2) this]
  show ?case using Suc.IH [OF s(2)] a b s(3) by auto
qed auto

lemma free_blocks_of_correct:
  "free_blocks_of bs vm = Inr vm' \<Longrightarrow> phys_inv (vm_phys vm) \<Longrightarrow> block_address ` set bs \<subseteq> managed_frames (vm_phys vm) \<Longrightarrow>
   0 \<notin> set bs \<Longrightarrow>
   phys_inv (vm_phys vm') \<and> managed_frames (vm_phys vm') = managed_frames (vm_phys vm)
   \<and> free_frames (vm_phys vm') = free_frames (vm_phys vm) \<union> block_address ` set bs"
proof (induction bs arbitrary: vm)
  case (Cons b bs)
  then obtain p where p: "free_physical_block (block_address b) (vm_phys vm) = Inr p"
      "free_blocks_of bs (vm\<lparr>vm_phys := p\<rparr>) = Inr vm'"
    by (auto simp: vm_free_phys_def)
  have "phys_inv p \<and> free_frames p = insert (block_address b) (free_frames (vm_phys vm))
      \<and> managed_frames p = managed_frames (vm_phys vm)"
    using pa.release_Inr [OF Cons.prems(2) _ p(1)] Cons.prems(3) by auto
  then show ?case using Cons.IH [OF p(2)] Cons.prems by auto
qed simp

lemma page_count_block_count:
  assumes "aligned sz" "unat sz < 2 ^ 44"
  shows "unat (PAGE_COUNT_4K sz) = unat (drop_bit 12 sz)"
proof -
  have "sz AND mask 12 = 0" using assms(1) by (simp add: aligned_def mask_eq_exp_minus_1)
  then have "take_bit 12 sz = 0" by (simp add: take_bit_eq_mask)
  moreover have "unat (take_bit 12 sz) = unat sz mod 4096"
    by (simp add: unsigned_take_bit_eq) (simp add: take_bit_eq_mod)
  ultimately have m: "unat sz mod 4096 = 0" by simp
  have "unat (sz + 4095) = unat sz + 4095" using assms(2) by (subst unat_plus_no_wrap) simp_all
  then have "unat (drop_bit 12 (sz + 4095)) = (unat sz + 4095) div 4096"
    by (simp add: unat_drop_bit_eq) (simp add: drop_bit_eq_div)
  also have "\<dots> = unat sz div 4096" using m by (auto simp: mod_eq_0_iff_dvd elim!: dvdE)
  finally have d: "unat (drop_bit 12 (sz + 4095)) = unat sz div 4096" .
  moreover have "unat sz div 4096 < 2 ^ 32" using assms(2) by (simp add: less_mult_imp_div_less)
  moreover have "unat (drop_bit 12 sz) = unat sz div 4096" by (simp add: unat_drop_bit_eq) (simp add: drop_bit_eq_div)
  moreover have "sz + 4096 - 1 = sz + 4095" by simp
  ultimately show ?thesis by (simp only: PAGE_COUNT_4K_def unsigned_ucast_eq) (simp add: take_bit_nat_eq_self)
qed

section \<open>Properties\<close>

text \<open>
  C19. No frame is lost: an object created with its pages backed takes distinct free frames, and destroying it
  while it has no other user gives back exactly these, so that the free frames are those there were before.
\<close>

theorem vm_object_create_destroy:
  assumes "phys_inv (vm_phys vm)" "unat sz < 2 ^ 44"
    "physical_vm_object tp uses sz False shrd cw vm = Inr (o1, vm1)"
    "destroy_vm_object o1 vm1 = Inr vm2"
  shows "length (physical_blocks o1) = block_count o1 \<and> distinct (map block_address (physical_blocks o1))
    \<and> free_frames (vm_phys vm1) = free_frames (vm_phys vm) - block_address ` set (physical_blocks o1)
    \<and> free_frames (vm_phys vm2) = free_frames (vm_phys vm)"
proof -
  obtain mapping h bs vm0 where s: "aligned sz"
      "back_blocks (unat (PAGE_COUNT_4K sz)) mapping (vm\<lparr>vm_heap := h\<rparr>) = Inr (bs, vm0)"
      "physical_blocks o1 = bs" "vmo_size o1 = sz" "vm_phys vm1 = vm_phys vm0"
    using assms(3) by (auto simp: physical_vm_object_def Let_def vm_free_page_def split: if_splits)
  note bb = back_blocks_correct [OF s(2)]
  have len: "length bs = block_count o1"
    using bb assms(1) page_count_block_count [OF s(1) assms(2)] s(4) by (simp add: block_count_def)
  then have f: "free_blocks_of bs vm1 = Inr vm2"
    using assms(4) s(3) by (auto simp: destroy_vm_object_def split: if_splits)
  have "block_address ` set bs \<subseteq> managed_frames (vm_phys vm1)"
    using bb assms(1) pa.frames_managed [OF assms(1)] s(5) by auto
  then have "free_frames (vm_phys vm2) = free_frames (vm_phys vm1) \<union> block_address ` set bs"
    using free_blocks_of_correct [OF f] bb assms(1) s(5) by auto
  then show ?thesis using bb assms(1) s(3,5) len by auto
qed

lemma small_allocation:
  "allocate_physical_block \<lparr>phys_mem_bitmap = [- 1, 0], used_blocks = 0, max_blocks = 64, next_chunk = 1\<rparr>
     = Inr (0x20000, \<lparr>phys_mem_bitmap = [- 1, 1], used_blocks = 1, max_blocks = 64, next_chunk = 1\<rparr>)"
  by (simp add: allocate_physical_block_def get_first_free_block_def search_chunks.simps search_chunk_def
      first_clear_bit.simps set_bit_def)

lemma vm_object_create_destroy_witness:
  "let vm = \<lparr>vm_heap = \<lparr>kernel_heap_dir = (\<lambda>_. 3), kernel_heap_dir_tables = (\<lambda>_ _. 0)\<rparr>,
         vm_phys = \<lparr>phys_mem_bitmap = [- 1, 0], used_blocks = 0, max_blocks = 64, next_chunk = 1\<rparr>\<rparr>
   in \<exists>o1 vm1 vm2. physical_vm_object (\<lambda>_. 0) 0 4096 False False False vm = Inr (o1, vm1)
        \<and> destroy_vm_object o1 vm1 = Inr vm2 \<and> free_frames (vm_phys vm2) = free_frames (vm_phys vm)"
proof -
  let ?p = "\<lparr>phys_mem_bitmap = [- 1, 0], used_blocks = 0, max_blocks = 64, next_chunk = 1\<rparr>"
  let ?vm = "\<lparr>vm_heap = \<lparr>kernel_heap_dir = (\<lambda>_. 3), kernel_heap_dir_tables = (\<lambda>_ _. 0)\<rparr>, vm_phys = ?p\<rparr>"
  have "\<exists>h. kernel_allocate_4k_pages (\<lambda>_. 0) 1 (vm_heap ?vm) = Inr (0xFFFFFFFFC0000000, h)"
    by (simp add: kernel_allocate_4k_pages_def scan_dir.simps [of _ _ 0] scan_table.simps [of _ _ 0 0]
        present_def flag_defs set_entry_def heap_address_def)
  then obtain h where h: "kernel_allocate_4k_pages (\<lambda>_. 0) 1 (vm_heap ?vm) = Inr (0xFFFFFFFFC0000000, h)" by blast
  obtain o1 vm1 where c: "physical_vm_object (\<lambda>_. 0) 0 4096 False False False ?vm = Inr (o1, vm1)"
      "vm_phys vm1 = \<lparr>phys_mem_bitmap = [- 1, 1], used_blocks = 1, max_blocks = 64, next_chunk = 1\<rparr>"
      "physical_blocks o1 = [32]" "use_count o1 = 0" "vmo_size o1 = 4096"
    using h by (simp add: physical_vm_object_def aligned_def PAGE_COUNT_4K_def Let_def small_allocation [simplified]
        set_entry_def vm_free_page_def)
  obtain vm2 where d: "destroy_vm_object o1 vm1 = Inr vm2"
    by (simp add: destroy_vm_object_def block_count_def c vm_free_phys_def block_address_def
        free_physical_block_def clear_bit_def Let_def)
  have "phys_inv (vm_phys ?vm)" by (simp add: phys_inv_def)
  from vm_object_create_destroy [OF this _ c(1) d] show ?thesis using c(1) d unfolding Let_def by auto
qed

lemma hit_correct:
  assumes inv: "pm_inv pm" "phys_inv (vm_phys vm)" and range: "unat (base + offset) + 4096 \<le> 2 ^ 39"
    and h: "hit tp cr3 o1 base offset pm vm = Inr (status, o2, pm', vm')"
  shows "let i = unat (ucast (drop_bit 12 offset) :: u32); b = physical_blocks o2 ! i in
    status = 0 \<and> i < block_count o1 \<and> b \<noteq> 0 \<and> pm_inv pm'
    \<and> walk pm' (unat (base + offset) div 4096) = Some (set_page_frame 7 (block_address b))
    \<and> physical_blocks o2 = (physical_blocks o1)[i := b]
    \<and> (physical_blocks o1 ! i \<noteq> 0 \<longrightarrow> b = physical_blocks o1 ! i)
    \<and> phys_inv (vm_phys vm') \<and> free_frames (vm_phys vm') \<subseteq> free_frames (vm_phys vm)
    \<and> (physical_blocks o1 ! i = 0 \<longrightarrow> block_address b \<in> free_frames (vm_phys vm) \<and> block_address b \<notin> free_frames (vm_phys vm'))"
proof -
  define i where "i = unat (ucast (drop_bit 12 offset) :: u32)"
  have i: "i < block_count o1" "i < length (physical_blocks o1)"
    using h by (auto simp: hit_def Let_def i_def split: if_splits)
  have flags: "TABLE_PRESENT OR TABLE_WRITEABLE OR PAGE_USER = 7" by (simp add: flag_defs)
  have mapped: "pm_inv pm2 \<and> walk pm2 (unat (base + offset) div 4096) = Some (set_page_frame 7 phys)
      \<and> (phys_inv (vm_phys vm0) \<longrightarrow> phys_inv (vm_phys vm2) \<and> free_frames (vm_phys vm2) \<subseteq> free_frames (vm_phys vm0))"
    if "map_virtual_memory_4k tp 1 phys (base + offset) 7 pm vm0 = Inr (pm2, vm2)" for phys vm0 pm2 vm2
    using map_pages_correct [OF inv(1) _ that] map_pages_frames [OF _ that] range by simp
  show ?thesis
  proof (cases "physical_blocks o1 ! i = 0")
    case False
    then have "map_virtual_memory_4k tp 1 (block_address (physical_blocks o1 ! i)) (base + offset) 7 pm vm = Inr (pm', vm')"
        "status = 0" "o2 = o1"
      using h i unfolding flags hit_def i_def [symmetric] Let_def by auto
    then show ?thesis using mapped False i inv(2) by (simp add: i_def [symmetric] Let_def)
  next
    case True
    then obtain phys p vm2 where s: "allocate_physical_block (vm_phys vm) = Inr (phys, p)"
        "phys \<noteq> 0 \<Longrightarrow> map_virtual_memory_4k tp 1 phys (base + offset) 7 pm (vm\<lparr>vm_phys := p\<rparr>) = Inr (pm', vm2) \<and> vm_phys vm' = vm_phys vm2"
        "phys \<noteq> 0 \<Longrightarrow> status = 0 \<and> o2 = o1\<lparr>physical_blocks := (physical_blocks o1)[i := ucast (drop_bit 12 phys)]\<rparr>"
      using h i unfolding flags hit_def i_def [symmetric] Let_def
      by (auto split: if_splits simp del: map_virtual_memory_4k.simps kernel_map_virtual_memory_4k.simps kernel_free_4k_pages.simps)
    note a = pa.alloc_Inr [OF inv(2) s(1)]
    then have "phys \<in> managed_frames (vm_phys vm)" by blast
    note b = block_address_of_frame [OF inv(2) this] managed_frame_block(4) [OF inv(2) this]
    have "phys_inv (vm_phys vm') \<and> free_frames (vm_phys vm') \<subseteq> free_frames (vm_phys vm) - {phys}"
      using mapped [OF conjunct1 [OF s(2) [OF b(3)]]] s(2) [OF b(3)] a by simp
    then show ?thesis
      using mapped [OF conjunct1 [OF s(2) [OF b(3)]]] s(3) [OF b(3)] a b i True by (auto simp: i_def [symmetric] Let_def)
  qed
qed

text \<open>The tables stay linked: the zero fill through a temporary kernel page disturbs none of them.\<close>

lemma hit_linked:
  assumes inv: "pm_linked pm (vm_heap vm)" "heap_inv (vm_heap vm)"
    and h: "hit tp cr3 o1 base offset pm vm = Inr (status, o2, pm', vm')"
  shows "pm_linked pm' (vm_heap vm') \<and> heap_inv (vm_heap vm')"
proof -
  consider (same) "pm' = pm" "vm_heap vm' = vm_heap vm"
    | (mapped) phys v flags vm0 where "map_virtual_memory_4k tp 1 phys v flags pm vm0 = Inr (pm', vm')" "vm_heap vm0 = vm_heap vm"
    | (filled) phys v flags flags' vm0 vm2 m h1 h2 where "map_virtual_memory_4k tp 1 phys v flags pm vm0 = Inr (pm', vm2)" "vm_heap vm0 = vm_heap vm"
        "kernel_allocate_4k_pages tp 1 (vm_heap vm2) = Inr (m, h1)" "kernel_map_virtual_memory_4k 1 phys m flags' h1 = Inr h2"
        "kernel_free_4k_pages 1 m h2 = Inr (vm_heap vm')"
    using h unfolding hit_def Let_def
    by (auto split: if_splits simp del: map_virtual_memory_4k.simps kernel_map_virtual_memory_4k.simps kernel_free_4k_pages.simps)
  then show ?thesis
  proof cases
    case same
    then show ?thesis using inv by simp
  next
    case mapped
    then show ?thesis using map_pages_linked [of pm vm0] inv by metis
  next
    case filled
    then have 2: "pm_linked pm' (vm_heap vm2)" "heap_inv (vm_heap vm2)" using map_pages_linked [of pm vm0] inv by metis+
    note t = temporary_page [OF 2(2) filled(3-5)]
    show ?thesis using pm_linked_window [OF 2(1) t(2)] t(1) by blast
  qed
qed

text \<open>
  C18. Demand paging: when \<open>hit\<close> returns on a page below 512 GiB, it reports success, the page is backed, and the
  walk of the hardware, from the frame of the table root through the frames of the entries, finds the present,
  writable user entry of exactly the frame the object records for it.  The frame is the recorded one if there
  was one, otherwise one that was free before and is taken afterwards; no frame becomes free and no other block
  of the object changes.
\<close>

theorem hit_maps_page:
  assumes inv: "pm_linked pm (vm_heap vm)" "heap_inv (vm_heap vm)" "phys_inv (vm_phys vm)"
    and range: "unat (base + offset) + 4096 \<le> 2 ^ 39"
    and h: "hit tp cr3 o1 base offset pm vm = Inr (status, o2, pm', vm')"
  shows "let i = unat (ucast (drop_bit 12 offset) :: u32); b = physical_blocks o2 ! i in
    status = 0 \<and> i < block_count o1 \<and> b \<noteq> 0 \<and> pm_linked pm' (vm_heap vm') \<and> heap_inv (vm_heap vm')
    \<and> mmu_walk pm' (vm_heap vm') (unat (base + offset) div 4096) = Some (set_page_frame 7 (block_address b))
    \<and> physical_blocks o2 = (physical_blocks o1)[i := b]
    \<and> (physical_blocks o1 ! i \<noteq> 0 \<longrightarrow> b = physical_blocks o1 ! i)
    \<and> phys_inv (vm_phys vm') \<and> free_frames (vm_phys vm') \<subseteq> free_frames (vm_phys vm)
    \<and> (physical_blocks o1 ! i = 0 \<longrightarrow> block_address b \<in> free_frames (vm_phys vm) \<and> block_address b \<notin> free_frames (vm_phys vm'))"
proof -
  have "unat (base + offset) div 4096 < 2 ^ 27" using range by (simp add: less_mult_imp_div_less)
  then show ?thesis
    using hit_correct [OF pm_linked_inv [OF inv(1)] inv(3) range h] hit_linked [OF inv(1,2) h] mmu_walk_linked [of pm' "vm_heap vm'"]
    by (simp add: Let_def)
qed

lemma hit_maps_page_witness:
  "let v = (\<lambda>s. 0xFFFFFFFFC0000000 + 4096 * of_nat s :: u64);
       pm = \<lparr>page_dirs = (\<lambda>_ _. 0x9007), page_dirs_phys = (\<lambda>_. 0x8000), page_dirs_virt = (\<lambda>_. v 1), page_tables = (\<lambda>_ _. Some (v 2, (\<lambda>_. 0))),
         pm_pdpt = (\<lambda>_. 0x8007), pm_pml4 = (\<lambda>_. 0x7007), pdpt_phys = 0x7000, pml4_phys = 0\<rparr>;
       vm = \<lparr>vm_heap = demo_window, vm_phys = \<lparr>phys_mem_bitmap = [- 1, 0], used_blocks = 0, max_blocks = 64, next_chunk = 1\<rparr>\<rparr>;
       o1 = \<lparr>vmo_size = 8192, use_count = 1, anonymous = True, shared = False, cow = False, physical_blocks = [0, 0], image = None\<rparr>
   in \<exists>o2 pm' vm'. hit (\<lambda>_. 0) 0 o1 0x400000 4100 pm vm = Inr (0, o2, pm', vm')
        \<and> mmu_walk pm' (vm_heap vm') 0x401 = Some (set_page_frame 7 (block_address (physical_blocks o2 ! 1)))
        \<and> block_address (physical_blocks o2 ! 1) \<in> free_frames (vm_phys vm) - free_frames (vm_phys vm')"
proof -
  let ?pm = "\<lparr>page_dirs = (\<lambda>_ _. 0x9007), page_dirs_phys = (\<lambda>_. 0x8000), page_dirs_virt = (\<lambda>_. 0xFFFFFFFFC0000000 + 4096 * of_nat 1 :: u64),
         page_tables = (\<lambda>_ _. Some (0xFFFFFFFFC0000000 + 4096 * of_nat 2 :: u64, (\<lambda>_. 0))),
         pm_pdpt = (\<lambda>_. 0x8007), pm_pml4 = (\<lambda>_. 0x7007), pdpt_phys = 0x7000, pml4_phys = 0\<rparr>"
  let ?vm = "\<lparr>vm_heap = demo_window, vm_phys = \<lparr>phys_mem_bitmap = [- 1, 0], used_blocks = 0, max_blocks = 64, next_chunk = 1\<rparr>\<rparr>"
  let ?o = "\<lparr>vmo_size = 8192, use_count = 1, anonymous = True, shared = False, cow = False,
             physical_blocks = [0, 0], image = None\<rparr>"
  have inv: "pm_linked ?pm (vm_heap ?vm)" "heap_inv (vm_heap ?vm)" "phys_inv (vm_phys ?vm)"
    using demo_window_linked(1) [of 0] demo_window_linked(2) by (simp_all add: phys_inv_def)
  have "\<exists>o2 pm' vm'. hit (\<lambda>_. 0) 0 ?o 0x400000 4100 ?pm ?vm = Inr (0, o2, pm', vm')"
    by (simp add: hit_def block_count_def small_allocation [simplified] Let_def index_defs present_def TABLE_PRESENT_def)
  then obtain o2 pm' vm' where h: "hit (\<lambda>_. 0) 0 ?o 0x400000 4100 ?pm ?vm = Inr (0, o2, pm', vm')" by blast
  have "mmu_walk pm' (vm_heap vm') 0x401 = Some (set_page_frame 7 (block_address (physical_blocks o2 ! 1)))
      \<and> block_address (physical_blocks o2 ! 1) \<in> free_frames (vm_phys ?vm) - free_frames (vm_phys vm')"
    using hit_maps_page [OF inv _ h] by (simp add: Let_def)
  then show ?thesis using h unfolding Let_def by blast
qed

end
