(* ===== verification/AddressSpace.thy ===== *)
theory AddressSpace
  imports VmObject
begin

unbundle bit_operations_syntax

text \<open>
  The address space of a process, \<^verbatim>\<open>Kernel/src/mm/address_space.cpp\<close>, and the page fault handler of
  \<^verbatim>\<open>Kernel/src/arch/x86_64/paging.cpp\<close> that works on it.  The regions are kept in a \<open>list<mapped_region>\<close>,
  here a list; memory objects are shared by reference, so regions name them by a number into a store.  Ends
  and sizes are 64-bit words and wrap as in the source.  The region lock that \<open>address_to_region\<close> takes is
  released before the handler leaves the region, and is left out.
\<close>

section \<open>Model\<close>

record region =
  r_base :: u64
  r_size :: u64
  r_vmo :: "nat option"

definition r_end :: "region \<Rightarrow> u64" where
  "r_end r = r_base r + r_size r"

definition mapped_region :: "u64 \<Rightarrow> u64 \<Rightarrow> region" where
  "mapped_region base sz = \<lparr>r_base = base, r_size = sz, r_vmo = None\<rparr>"

definition insert_at :: "nat \<Rightarrow> 'a \<Rightarrow> 'a list \<Rightarrow> 'a list" where
  "insert_at i x xs = take i xs @ x # drop i xs"

fun address_to_region :: "u64 \<Rightarrow> region list \<Rightarrow> nat option" where
  "address_to_region address [] = None"
| "address_to_region address (r # rs) =
     (if r_vmo r \<noteq> None \<and> r_base r \<le> address \<and> address < r_end r then Some 0
      else map_option Suc (address_to_region address rs))"

fun range_in_region :: "u64 \<Rightarrow> u64 \<Rightarrow> region list \<Rightarrow> bool" where
  "range_in_region base sz [] = False"
| "range_in_region base sz (r # rs) =
     (if base < r_base r then False
      else let base = (if r_base r \<le> base \<and> base \<le> r_end r then r_end r else base) in
        if base \<ge> r_end r then True else range_in_region base sz rs)"

definition check_usermode_pointer :: "u64 \<Rightarrow> u64 \<Rightarrow> region list \<Rightarrow> bool" where
  "check_usermode_pointer addr len rs = range_in_region addr len rs"

subsection \<open>Placing a region\<close>

datatype slot = Insert_at nat | Refused | Past_end

fun slot_at :: "u64 \<Rightarrow> u64 \<Rightarrow> region list \<Rightarrow> nat \<Rightarrow> slot" where
  "slot_at base e [] i = Past_end"
| "slot_at base e (r # rs) i =
     (if r_end r \<le> base then slot_at base e rs (i + 1)
      else if r_base r \<ge> e then Insert_at i else Refused)"

definition allocate_region_at :: "u64 \<Rightarrow> u64 \<Rightarrow> region list \<Rightarrow> (nat \<times> region list) option" where
  "allocate_region_at base sz rs =
     (case slot_at base (base + sz) rs 0 of
        Insert_at i \<Rightarrow> Some (i, insert_at i (mapped_region base sz) rs)
      | Refused \<Rightarrow> None
      | Past_end \<Rightarrow> if rs = [] \<or> r_end (last rs) \<le> base
                    then Some (length rs, rs @ [mapped_region base sz]) else None)"

text \<open>The three conditional moves of the candidate range past a region.\<close>

definition skip_region :: "u64 \<Rightarrow> region \<Rightarrow> u64 \<times> u64 \<Rightarrow> u64 \<times> u64" where
  "skip_region sz r p =
     (let (base, e) = p;
          (base, e) = (if base \<ge> r_base r \<and> base < r_end r then (r_end r, r_end r + sz) else (base, e));
          (base, e) = (if e > r_base r \<and> e \<le> r_end r then (r_end r, r_end r + sz) else (base, e))
      in if base < r_base r \<and> e > r_end r then (r_end r, r_end r + sz) else (base, e))"

fun available_slot :: "u64 \<Rightarrow> u64 \<times> u64 \<Rightarrow> region list \<Rightarrow> nat \<Rightarrow> (u64 \<times> u64) \<times> nat option" where
  "available_slot sz p [] i = (p, None)"
| "available_slot sz p (r # rs) i =
     (if r_base r \<ge> snd p then (p, Some i) else available_slot sz (skip_region sz r p) rs (i + 1))"

definition find_available_region :: "u64 \<Rightarrow> region list \<Rightarrow> (nat \<times> region list) option" where
  "find_available_region sz rs =
     (case available_slot sz (4096, 4096 + sz) rs 0 of
        ((base, e), Some i) \<Rightarrow> Some (i, insert_at i (mapped_region base sz) rs)
      | ((base, e), None) \<Rightarrow> if e < KERNEL_VIRTUAL_BASE
                            then Some (length rs, rs @ [mapped_region base sz]) else None)"

subsection \<open>Mapping objects\<close>

record mm =
  mm_regions :: "region list"
  mm_vmos :: "nat \<Rightarrow> vmo option"
  mm_pm :: page_map
  mm_vm :: vmm

text \<open>The choice of a region common to \<open>map_vmo\<close> and \<open>allocate_anonymous_vmo\<close>; \<open>Inr None\<close> is the null result.\<close>

definition place_region :: "u64 \<Rightarrow> u64 \<Rightarrow> bool \<Rightarrow> region list \<Rightarrow> (nat \<times> region list) option kres" where
  "place_region sz base fixed rs =
     (let at_base = (if base \<noteq> 0 then allocate_region_at base sz rs else None) in
      if at_base \<noteq> None then Inr at_base
      else if fixed then Inr None
      else case find_available_region sz rs of
             None \<Rightarrow> Inl Assert_failed
           | Some (i, rs') \<Rightarrow> if r_base (rs' ! i) = 0 then Inl Assert_failed else Inr (Some (i, rs')))"

text \<open>\<open>add_use\<close>, \<open>set_vm_object\<close> and \<open>map_allocated_blocks\<close> on the region placed at index \<open>i\<close>.\<close>

definition attach :: "(nat \<Rightarrow> u64) \<Rightarrow> nat \<Rightarrow> vmo \<Rightarrow> nat \<Rightarrow> region list \<Rightarrow> mm \<Rightarrow> (nat option \<times> mm) kres" where
  "attach tp oid o1 i rs s =
     (let o1 = o1\<lparr>use_count := use_count o1 + 1\<rparr> in
      kbind (map_allocated_blocks tp o1 (r_base (rs ! i)) (mm_pm s) (mm_vm s)) (\<lambda>(pm, vm).
      Inr (Some i, s\<lparr>mm_regions := rs[i := (rs ! i)\<lparr>r_vmo := Some oid\<rparr>],
                     mm_vmos := (mm_vmos s)(oid := Some o1), mm_pm := pm, mm_vm := vm\<rparr>)))"

definition map_vmo :: "(nat \<Rightarrow> u64) \<Rightarrow> nat \<Rightarrow> u64 \<Rightarrow> bool \<Rightarrow> mm \<Rightarrow> (nat option \<times> mm) kres" where
  "map_vmo tp oid base fixed s =
     (case mm_vmos s oid of None \<Rightarrow> Inl Null_deref
      | Some o1 \<Rightarrow>
         if \<not> aligned (vmo_size o1) \<or> \<not> aligned base then Inl Assert_failed
         else kbind (place_region (vmo_size o1) base fixed (mm_regions s)) (\<lambda>place.
           case place of None \<Rightarrow> Inr (None, s) | Some (i, rs) \<Rightarrow> attach tp oid o1 i rs s))"

definition allocate_anonymous_vmo :: "(nat \<Rightarrow> u64) \<Rightarrow> nat \<Rightarrow> int \<Rightarrow> u64 \<Rightarrow> u64 \<Rightarrow> bool \<Rightarrow> mm \<Rightarrow> (nat option \<times> mm) kres" where
  "allocate_anonymous_vmo tp oid uses sz base fixed s =
     (if \<not> aligned sz \<or> \<not> aligned base then Inl Assert_failed
      else kbind (place_region sz base fixed (mm_regions s)) (\<lambda>place.
        case place of None \<Rightarrow> Inr (None, s)
        | Some (i, rs) \<Rightarrow>
            kbind (physical_vm_object tp uses sz True False False (mm_vm s)) (\<lambda>(o1, vm).
            attach tp oid o1 i rs (s\<lparr>mm_vm := vm\<rparr>))))"

text \<open>The destructor: every region gives up its use of its object, then the page map goes.\<close>

fun release_regions :: "region list \<Rightarrow> (nat \<Rightarrow> vmo option) \<Rightarrow> nat \<Rightarrow> vmo option" where
  "release_regions [] vmos = vmos"
| "release_regions (r # rs) vmos =
     release_regions rs
       (case r_vmo r of None \<Rightarrow> vmos
        | Some oid \<Rightarrow> vmos(oid := map_option (\<lambda>o1. o1\<lparr>use_count := use_count o1 - 1\<rparr>) (vmos oid)))"

definition destroy_address_space :: "mm \<Rightarrow> mm kres" where
  "destroy_address_space s =
     kbind (destroy_page_map (mm_pm s) (mm_vm s)) (\<lambda>vm.
     Inr (s\<lparr>mm_regions := [], mm_vmos := release_regions (mm_regions s) (mm_vmos s), mm_vm := vm\<rparr>))"

subsection \<open>Page faults\<close>

datatype fault_outcome = Resolved mm | Kill_process mm | Kernel_panic

text \<open>
  \<open>read_only\<close> is bit 1 of the error code, \<open>user\<close> the test \<open>ss & 3\<close>; \<open>new_id\<close> and \<open>uses\<close> name and initialise
  the object \<open>clone\<close> makes.  A fault while no process runs has no address space to look at.
\<close>

definition cow_fault :: "(nat \<Rightarrow> u64) \<Rightarrow> u64 \<Rightarrow> nat \<Rightarrow> int \<Rightarrow> u64 \<Rightarrow> nat \<Rightarrow> nat \<Rightarrow> vmo \<Rightarrow> mm \<Rightarrow> mm kres" where
  "cow_fault tp cr3 new_id uses addr i oid o1 s =
     (let r = mm_regions s ! i; off = addr - r_base r in
      if use_count o1 \<le> 1
      then let o1 = o1\<lparr>cow := False\<rparr> in
           kbind (map_allocated_blocks tp o1 (r_base r) (mm_pm s) (mm_vm s)) (\<lambda>(pm, vm).
           kbind (hit tp cr3 o1 (r_base r) off pm vm) (\<lambda>(status, o2, pm, vm).
           Inr (s\<lparr>mm_vmos := (mm_vmos s)(oid := Some o2), mm_pm := pm, mm_vm := vm\<rparr>)))
      else kbind (clone tp uses o1 (mm_vm s)) (\<lambda>(c, vm).
           kbind (map_allocated_blocks tp c (r_base r) (mm_pm s) vm) (\<lambda>(pm, vm).
           kbind (hit tp cr3 c (r_base r) off pm vm) (\<lambda>(status, c, pm, vm).
           Inr (s\<lparr>mm_regions := (mm_regions s)[i := r\<lparr>r_vmo := Some new_id\<rparr>],
                  mm_vmos := (mm_vmos s)(oid := Some (o1\<lparr>use_count := use_count o1 - 1\<rparr>), new_id := Some c),
                  mm_pm := pm, mm_vm := vm\<rparr>)))))"

definition unresolved :: "bool \<Rightarrow> mm \<Rightarrow> fault_outcome" where
  "unresolved user s = (if user then Kill_process s else Kernel_panic)"

definition process_page_fault ::
  "(nat \<Rightarrow> u64) \<Rightarrow> u64 \<Rightarrow> nat \<Rightarrow> int \<Rightarrow> bool \<Rightarrow> bool \<Rightarrow> u64 \<Rightarrow> mm \<Rightarrow> fault_outcome kres" where
  "process_page_fault tp cr3 new_id uses read_only user addr s =
     (case address_to_region addr (mm_regions s) of
        None \<Rightarrow> Inr (unresolved user s)
      | Some i \<Rightarrow>
          (let r = mm_regions s ! i in
           case r_vmo r of None \<Rightarrow> Inr (unresolved user s)
           | Some oid \<Rightarrow>
             (case mm_vmos s oid of None \<Rightarrow> Inl Null_deref
              | Some o1 \<Rightarrow>
                 if cow o1 \<and> read_only
                 then kbind (cow_fault tp cr3 new_id uses addr i oid o1 s) (\<lambda>s. Inr (Resolved s))
                 else kbind (hit tp cr3 o1 (r_base r) (addr - r_base r) (mm_pm s) (mm_vm s)) (\<lambda>(status, o2, pm, vm).
                   let s = s\<lparr>mm_vmos := (mm_vmos s)(oid := Some o2), mm_pm := pm, mm_vm := vm\<rparr> in
                   Inr (if status = 0 then Resolved s else unresolved user s)))))"

definition page_fault_handler ::
  "(nat \<Rightarrow> u64) \<Rightarrow> u64 \<Rightarrow> nat \<Rightarrow> int \<Rightarrow> bool \<Rightarrow> bool \<Rightarrow> u64 \<Rightarrow> mm option \<Rightarrow> fault_outcome kres" where
  "page_fault_handler tp cr3 new_id uses read_only user addr process =
     (case process of
        Some s \<Rightarrow> process_page_fault tp cr3 new_id uses read_only user addr s
      | None \<Rightarrow> if user then Inl Assert_failed else Inr Kernel_panic)"

section \<open>Pointer checks\<close>

text \<open>
  The check of user pointers does not look at the end of the range and accepts gaps: it is true exactly
  when there is a region and the address is not below the first one.  Every system call that relies on it
  accepts any address from the first region up, whatever the length.
\<close>

theorem range_in_region_only_first:
  "check_usermode_pointer addr len rs \<longleftrightarrow> (case rs of [] \<Rightarrow> False | r # _ \<Rightarrow> r_base r \<le> addr)"
  by (cases rs) (auto simp: check_usermode_pointer_def Let_def)

section \<open>The regions stay sorted and disjoint\<close>

definition r_lo :: "region \<Rightarrow> nat" where "r_lo r = unat (r_base r)"

definition r_hi :: "region \<Rightarrow> nat" where "r_hi r = unat (r_base r) + unat (r_size r)"

definition as_inv :: "region list \<Rightarrow> bool" where
  "as_inv rs \<longleftrightarrow> sorted_wrt (\<lambda>a b. r_hi a \<le> r_lo b) rs \<and> (\<forall>r \<in> set rs. r_hi r < 2 ^ 64)"

lemma r_lo_le_hi [simp]: "r_lo r \<le> r_hi r"
  by (simp add: r_lo_def r_hi_def)

lemma r_end_unat: "r_hi r < 2 ^ 64 \<Longrightarrow> unat (r_end r) = r_hi r"
  by (simp add: r_end_def r_hi_def unat_plus_no_wrap)

lemma mapped_region_bounds [simp]:
  "r_lo (mapped_region b sz) = unat b" "r_hi (mapped_region b sz) = unat b + unat sz"
  by (simp_all add: r_lo_def r_hi_def mapped_region_def)

lemma as_inv_Cons: "as_inv (r # rs) \<longleftrightarrow> r_hi r < 2 ^ 64 \<and> (\<forall>q \<in> set rs. r_hi r \<le> r_lo q) \<and> as_inv rs"
  by (auto simp: as_inv_def)

lemma as_inv_append:
  "as_inv (xs @ ys) \<longleftrightarrow> as_inv xs \<and> as_inv ys \<and> (\<forall>x \<in> set xs. \<forall>y \<in> set ys. r_hi x \<le> r_lo y)"
  by (auto simp: as_inv_def sorted_wrt_append)

text \<open>Inserting at a place that respects the order keeps the invariant.\<close>

lemma as_inv_insert_at:
  assumes "as_inv rs" "r_hi x < 2 ^ 64" "\<forall>r \<in> set (take i rs). r_hi r \<le> r_lo x" "\<forall>r \<in> set (drop i rs). r_hi x \<le> r_lo r"
  shows "as_inv (insert_at i x rs)"
proof -
  have "as_inv (take i rs @ drop i rs)" using assms(1) by simp
  then show ?thesis using assms(2-4) unfolding insert_at_def as_inv_append as_inv_Cons by auto
qed

lemma insert_at_end: "insert_at (length xs) x xs = xs @ [x]"
  by (simp add: insert_at_def)

subsection \<open>A placement as an interface\<close>

text \<open>
  What the mapping calls rely on in the two ways of choosing a region: a placement inserts one new region of the
  requested size, without an object, and keeps the others and the order.
\<close>

locale placement =
  fixes place :: "region list \<Rightarrow> (nat \<times> region list) option"
    and sz :: u64
    and ok :: "region list \<Rightarrow> bool"
  assumes place_correct: "as_inv rs \<Longrightarrow> ok rs \<Longrightarrow> place rs = Some (i, rs') \<Longrightarrow>
    \<exists>b. rs' = insert_at i (mapped_region b sz) rs \<and> i \<le> length rs \<and> as_inv rs'"
begin

lemma placed_region:
  assumes "as_inv rs" "ok rs" "place rs = Some (i, rs')"
  shows "length rs' = Suc (length rs) \<and> set rs' = insert (rs' ! i) (set rs) \<and> r_size (rs' ! i) = sz
    \<and> r_vmo (rs' ! i) = None \<and> as_inv rs'"
proof -
  obtain b where b: "rs' = insert_at i (mapped_region b sz) rs" "i \<le> length rs" "as_inv rs'"
    using place_correct [OF assms] by blast
  then have "rs' ! i = mapped_region b sz" by (simp add: insert_at_def nth_append)
  moreover have "set rs = set (take i rs) \<union> set (drop i rs)" by (metis append_take_drop_id set_append)
  ultimately show ?thesis using b by (auto simp: insert_at_def mapped_region_def)
qed

lemma placed_disjoint:
  assumes "as_inv rs" "ok rs" "place rs = Some (i, rs')" "r \<in> set rs"
  shows "r_hi r \<le> r_lo (rs' ! i) \<or> r_hi (rs' ! i) \<le> r_lo r"
proof -
  obtain b where b: "rs' = insert_at i (mapped_region b sz) rs" "i \<le> length rs" "as_inv rs'"
    using place_correct [OF assms(1-3)] by blast
  then have x: "rs' ! i = mapped_region b sz" by (simp add: insert_at_def nth_append)
  have "r \<in> set (take i rs) \<or> r \<in> set (drop i rs)" using assms(4) by (metis Un_iff append_take_drop_id set_append)
  moreover have "as_inv (take i rs @ [mapped_region b sz] @ drop i rs)" using b by (simp add: insert_at_def)
  ultimately show ?thesis unfolding as_inv_append x by auto
qed

end

subsection \<open>Placement at a fixed base\<close>

lemma slot_at_correct:
  assumes "as_inv rs" "unat base + unat sz < 2 ^ 64"
  shows "case slot_at base (base + sz) rs i of
      Insert_at k \<Rightarrow> i \<le> k \<and> k - i < length rs \<and> (\<forall>r \<in> set (take (k - i) rs). r_hi r \<le> unat base)
        \<and> (\<forall>r \<in> set (drop (k - i) rs). unat base + unat sz \<le> r_lo r)
    | Refused \<Rightarrow> \<exists>r \<in> set rs. unat base < r_hi r \<and> r_lo r < unat base + unat sz
    | Past_end \<Rightarrow> \<forall>r \<in> set rs. r_hi r \<le> unat base"
  using assms(1)
proof (induction rs arbitrary: i)
  case (Cons r rs)
  have inv: "as_inv rs" "r_hi r < 2 ^ 64" "\<forall>q \<in> set rs. r_hi r \<le> r_lo q" using Cons.prems by (auto simp: as_inv_Cons)
  have e: "unat (base + sz) = unat base + unat sz" using assms(2) by (subst unat_plus_no_wrap) simp_all
  show ?case
  proof (cases "r_end r \<le> base")
    case True
    then have h: "r_hi r \<le> unat base" using inv(2) by (simp add: word_le_nat_alt r_end_unat)
    note ih = Cons.IH [OF inv(1), of "i + 1"]
    show ?thesis
    proof (cases "slot_at base (base + sz) rs (i + 1)")
      case (Insert_at k)
      then obtain j where "k = Suc (i + j)" using ih by (auto dest: le_Suc_ex)
      then show ?thesis using ih True h Insert_at by simp
    qed (use ih True h in auto)
  next
    case False
    then have h: "unat base < r_hi r" using inv(2) by (simp add: word_le_nat_alt r_end_unat not_le)
    show ?thesis
      using False h inv(3) by (auto simp: word_le_nat_alt e r_lo_def [symmetric]) (meson le_trans r_lo_le_hi)
  qed
qed simp

definition overlaps :: "nat \<Rightarrow> nat \<Rightarrow> region \<Rightarrow> bool" where
  "overlaps lo hi r \<longleftrightarrow> lo < r_hi r \<and> r_lo r < hi"

lemma in_take_or_drop: "x \<in> set xs \<Longrightarrow> x \<in> set (take k xs) \<or> x \<in> set (drop k xs)"
  by (metis Un_iff append_take_drop_id set_append)

lemma allocate_region_at_correct:
  assumes inv: "as_inv rs" and fits: "unat base + unat sz < 2 ^ 64"
  shows "if \<exists>r \<in> set rs. overlaps (unat base) (unat base + unat sz) r
    then allocate_region_at base sz rs = None
    else \<exists>i \<le> length rs. allocate_region_at base sz rs = Some (i, insert_at i (mapped_region base sz) rs)
      \<and> as_inv (insert_at i (mapped_region base sz) rs)"
proof -
  note s = slot_at_correct [OF assms, of 0]
  show ?thesis
  proof (cases "slot_at base (base + sz) rs 0")
    case (Insert_at k)
    have "\<not> overlaps (unat base) (unat base + unat sz) r" if "r \<in> set rs" for r
      using in_take_or_drop [OF that, of k] s Insert_at by (auto simp: overlaps_def)
    moreover have "as_inv (insert_at k (mapped_region base sz) rs)"
      using s Insert_at fits by (intro as_inv_insert_at [OF inv]) auto
    ultimately show ?thesis using Insert_at s by (auto simp: allocate_region_at_def)
  next
    case Past_end
    have "\<not> overlaps (unat base) (unat base + unat sz) r" if "r \<in> set rs" for r
      using s Past_end that by (auto simp: overlaps_def)
    moreover have "r_end (last rs) \<le> base" if "rs \<noteq> []"
    proof -
      have "r_hi (last rs) < 2 ^ 64" "r_hi (last rs) \<le> unat base"
        using that s Past_end inv by (auto simp: as_inv_def)
      then show ?thesis by (simp add: word_le_nat_alt r_end_unat)
    qed
    moreover have "as_inv (insert_at (length rs) (mapped_region base sz) rs)"
      using s Past_end fits by (intro as_inv_insert_at [OF inv]) auto
    ultimately show ?thesis
      using Past_end by (auto simp: allocate_region_at_def insert_at_end intro!: exI [of _ "length rs"])
  next
    case Refused
    then show ?thesis using s by (auto simp: allocate_region_at_def overlaps_def)
  qed
qed

interpretation at_base: placement "allocate_region_at base sz" sz "\<lambda>_. unat base + unat sz < 2 ^ 64" for base sz
proof
  fix rs i rs'
  assume "as_inv rs" "unat base + unat sz < 2 ^ 64" "allocate_region_at base sz rs = Some (i, rs')"
  then show "\<exists>b. rs' = insert_at i (mapped_region b sz) rs \<and> i \<le> length rs \<and> as_inv rs'"
    using allocate_region_at_correct [of rs base sz] by (auto split: if_splits)
qed

subsection \<open>Placement in the first gap\<close>

lemma skip_region_correct:
  assumes "r_hi r < 2 ^ 64" "r_hi r + unat sz < 2 ^ 64" "unat base + unat sz < 2 ^ 64" "\<not> r_base r \<ge> base + sz"
  shows "\<exists>b. skip_region sz r (base, base + sz) = (b, b + sz) \<and> unat b + unat sz < 2 ^ 64
    \<and> unat base \<le> unat b \<and> r_hi r \<le> unat b"
proof -
  let ?p = "skip_region sz r (base, base + sz)"
  have e: "unat (r_end r) = r_hi r" "unat (r_end r + sz) = r_hi r + unat sz" "unat (base + sz) = unat base + unat sz"
    using assms(1-3) by (simp_all add: r_end_unat unat_plus_no_wrap)
  have "r_lo r \<le> r_hi r" by simp
  then have "?p = (r_end r, r_end r + sz) \<or> ?p = (base, base + sz) \<and> r_hi r \<le> unat base"
    using assms(4) by (auto simp: skip_region_def Let_def word_le_nat_alt word_less_nat_alt e r_lo_def)
  moreover have "unat base \<le> r_hi r \<or> ?p = (base, base + sz)"
    using assms(4) \<open>r_lo r \<le> r_hi r\<close>
    by (auto simp: skip_region_def Let_def word_le_nat_alt word_less_nat_alt e r_lo_def)
  ultimately show ?thesis using assms(2,3) e(1) by auto
qed

definition gap_ok :: "u64 \<Rightarrow> region list \<Rightarrow> nat \<Rightarrow> u64 \<Rightarrow> (u64 \<times> u64) \<times> nat option \<Rightarrow> bool" where
  "gap_ok sz rs i b res = (case res of
      (p, Some k) \<Rightarrow> p = (b, b + sz) \<and> i \<le> k \<and> k - i < length rs
        \<and> (\<forall>r \<in> set (take (k - i) rs). r_hi r \<le> unat b) \<and> (\<forall>r \<in> set (drop (k - i) rs). unat b + unat sz \<le> r_lo r)
    | (p, None) \<Rightarrow> p = (b, b + sz) \<and> (\<forall>r \<in> set rs. r_hi r \<le> unat b))"

lemma gap_ok_Cons:
  assumes "gap_ok sz rs (i + 1) b res" "r_hi r \<le> unat b"
  shows "gap_ok sz (r # rs) i b res"
proof (cases "snd res")
  case None
  then show ?thesis using assms by (cases res) (auto simp: gap_ok_def)
next
  case (Some k)
  then obtain j where "k = Suc (i + j)" using assms by (cases res) (auto simp: gap_ok_def dest: le_Suc_ex)
  then show ?thesis using assms Some by (cases res) (auto simp: gap_ok_def)
qed

lemma available_slot_correct:
  "as_inv rs \<Longrightarrow> \<forall>r \<in> set rs. r_hi r + unat sz < 2 ^ 64 \<Longrightarrow> unat base + unat sz < 2 ^ 64 \<Longrightarrow>
   \<exists>b. unat base \<le> unat b \<and> unat b + unat sz < 2 ^ 64 \<and> gap_ok sz rs i b (available_slot sz (base, base + sz) rs i)"
proof (induction rs arbitrary: i base)
  case Nil
  then show ?case by (intro exI [of _ base]) (simp add: gap_ok_def)
next
  case (Cons r rs)
  have inv: "as_inv rs" "r_hi r < 2 ^ 64" "\<forall>q \<in> set rs. r_hi r \<le> r_lo q" using Cons.prems by (auto simp: as_inv_Cons)
  have e: "unat (base + sz) = unat base + unat sz" using Cons.prems(3) by (subst unat_plus_no_wrap) simp_all
  show ?case
  proof (cases "r_base r \<ge> base + sz")
    case True
    then have "unat base + unat sz \<le> r_lo r" by (simp add: word_le_nat_alt e r_lo_def)
    moreover have "unat base + unat sz \<le> r_lo q" if "q \<in> set rs" for q
      using calculation inv(3) that by (meson le_trans r_lo_le_hi)
    ultimately show ?thesis using True Cons.prems(3) by (intro exI [of _ base]) (auto simp: gap_ok_def)
  next
    case False
    obtain b where b: "skip_region sz r (base, base + sz) = (b, b + sz)"
        "unat b + unat sz < 2 ^ 64" "unat base \<le> unat b" "r_hi r \<le> unat b"
      using skip_region_correct [OF inv(2) _ Cons.prems(3) False] Cons.prems(2) by auto
    have "\<forall>r \<in> set rs. r_hi r + unat sz < 2 ^ 64" using Cons.prems(2) by simp
    from Cons.IH [OF inv(1) this b(2), of "i + 1"] obtain c where c: "unat b \<le> unat c" "unat c + unat sz < 2 ^ 64"
      "gap_ok sz rs (i + 1) c (available_slot sz (b, b + sz) rs (i + 1))" by blast
    then have "gap_ok sz (r # rs) i c (available_slot sz (base, base + sz) (r # rs) i)"
      using gap_ok_Cons [OF c(3), of r] b False by simp
    then show ?thesis using b(3) c(1,2) by (meson le_trans)
  qed
qed

lemma find_available_region_correct:
  assumes inv: "as_inv rs" and fits: "\<forall>r \<in> set rs. r_hi r + unat sz < 2 ^ 64" "4096 + unat sz < 2 ^ 64"
    and f: "find_available_region sz rs = Some (i, rs')"
  shows "\<exists>b. rs' = insert_at i (mapped_region b sz) rs \<and> i \<le> length rs \<and> as_inv rs' \<and> 4096 \<le> unat b"
proof -
  have "unat (4096 :: u64) + unat sz < 2 ^ 64" using fits(2) by simp
  from available_slot_correct [OF inv fits(1) this, of 0] obtain b where
    b: "4096 \<le> unat b" "unat b + unat sz < 2 ^ 64" "gap_ok sz rs 0 b (available_slot sz (4096, 4096 + sz) rs 0)" by auto
  obtain p o1 where res: "available_slot sz (4096, 4096 + sz) rs 0 = (p, o1)" by (cases "available_slot sz (4096, 4096 + sz) rs 0")
  note g = b(3) [unfolded res gap_ok_def]
  show ?thesis
  proof (cases o1)
    case None
    then have "i = length rs" "rs' = insert_at (length rs) (mapped_region b sz) rs"
      using f g res by (auto simp: find_available_region_def insert_at_end split: if_splits)
    moreover have "as_inv (insert_at (length rs) (mapped_region b sz) rs)"
      using b(2) None g by (intro as_inv_insert_at [OF inv]) auto
    ultimately show ?thesis using b(1) by auto
  next
    case (Some k)
    then have "i = k" "rs' = insert_at k (mapped_region b sz) rs" "k < length rs"
      using f g res by (auto simp: find_available_region_def)
    moreover have "as_inv (insert_at k (mapped_region b sz) rs)"
      using b(2) Some g by (intro as_inv_insert_at [OF inv]) auto
    ultimately show ?thesis using b(1) by auto
  qed
qed

interpretation first_gap: placement "find_available_region sz" sz
  "\<lambda>rs. (\<forall>r \<in> set rs. r_hi r + unat sz < 2 ^ 64) \<and> 4096 + unat sz < 2 ^ 64" for sz
  using find_available_region_correct by unfold_locales blast

lemma as_inv_bounds:
  "as_inv rs \<longleftrightarrow> sorted_wrt (\<lambda>a b. snd a \<le> fst b) (map (\<lambda>r. (r_lo r, r_hi r)) rs)
     \<and> (\<forall>p \<in> set (map (\<lambda>r. (r_lo r, r_hi r)) rs). snd p < 2 ^ 64)"
  by (simp add: as_inv_def sorted_wrt_map)

lemma as_inv_set_vmo: "as_inv (rs[i := (rs ! i)\<lparr>r_vmo := v\<rparr>]) = as_inv rs"
proof (cases "i < length rs")
  case True
  have "map (\<lambda>r. (r_lo r, r_hi r)) (rs[i := (rs ! i)\<lparr>r_vmo := v\<rparr>]) = map (\<lambda>r. (r_lo r, r_hi r)) rs"
    using True by (intro nth_equalityI) (auto simp: nth_list_update r_lo_def r_hi_def)
  then show ?thesis unfolding as_inv_bounds by simp
qed (simp add: list_update_beyond)

text \<open>No computation of an end of a region wraps for this request.\<close>

definition request_fits :: "u64 \<Rightarrow> u64 \<Rightarrow> region list \<Rightarrow> bool" where
  "request_fits sz base rs \<longleftrightarrow> unat base + unat sz < 2 ^ 64 \<and> 4096 + unat sz < 2 ^ 64
     \<and> (\<forall>r \<in> set rs. r_hi r + unat sz < 2 ^ 64)"

definition placed :: "u64 \<Rightarrow> region list \<Rightarrow> nat \<Rightarrow> region list \<Rightarrow> bool" where
  "placed sz rs i rs' \<longleftrightarrow> as_inv rs' \<and> i < length rs' \<and> length rs' = Suc (length rs) \<and> r_size (rs' ! i) = sz
     \<and> (\<forall>r \<in> set rs. r \<in> set rs' \<and> (r_hi r \<le> r_lo (rs' ! i) \<or> r_hi (rs' ! i) \<le> r_lo r))"

lemma place_region_correct:
  assumes inv: "as_inv rs" and fits: "request_fits sz base rs"
    and p: "place_region sz base fixed rs = Inr (Some (i, rs'))"
  shows "placed sz rs i rs' \<and> (fixed \<longrightarrow> r_base (rs' ! i) = base) \<and> i \<le> length rs \<and> r_vmo (rs' ! i) = None"
proof (cases "base \<noteq> 0 \<and> allocate_region_at base sz rs = Some (i, rs')")
  case True
  have ok: "unat base + unat sz < 2 ^ 64" using fits by (simp add: request_fits_def)
  have "i \<le> length rs" "r_base (rs' ! i) = base"
    using allocate_region_at_correct [OF inv ok] True
    by (auto simp: insert_at_def nth_append mapped_region_def split: if_splits)
  then show ?thesis
    using at_base.placed_region [OF inv ok, of i rs'] at_base.placed_disjoint [OF inv ok, of i rs'] True
    by (auto simp: placed_def)
next
  case False
  then have f: "find_available_region sz rs = Some (i, rs')" "\<not> fixed"
    using p by (auto simp: place_region_def Let_def split: if_splits option.splits)
  have ok: "(\<forall>r \<in> set rs. r_hi r + unat sz < 2 ^ 64) \<and> 4096 + unat sz < 2 ^ 64" using fits by (simp add: request_fits_def)
  show ?thesis
    using first_gap.placed_region [OF inv ok f(1)] first_gap.placed_disjoint [OF inv ok f(1)]
      first_gap.place_correct [OF inv ok f(1)] f(2) by (auto simp: placed_def)
qed

lemma placed_set_vmo:
  assumes "placed sz rs i rs'" "r_vmo (rs' ! i) = None" "\<forall>r \<in> set rs. r_vmo r \<noteq> None"
  shows "placed sz rs i (rs'[i := (rs' ! i)\<lparr>r_vmo := Some oid\<rparr>])"
proof -
  have "r \<in> set (rs'[i := (rs' ! i)\<lparr>r_vmo := Some oid\<rparr>])" if "r \<in> set rs" for r
  proof -
    have "r \<in> set rs'" using assms(1) that by (simp add: placed_def)
    then obtain j where "j < length rs'" "rs' ! j = r" by (auto simp: in_set_conv_nth)
    moreover have "j \<noteq> i" using assms(2,3) that calculation by auto
    ultimately show ?thesis by (metis length_list_update nth_list_update_neq nth_mem)
  qed
  then show ?thesis using assms(1) by (auto simp: placed_def as_inv_set_vmo r_lo_def r_hi_def)
qed

lemma anonymous_map_correct:
  assumes "as_inv (mm_regions s)" "request_fits sz base (mm_regions s)" "\<forall>r \<in> set (mm_regions s). r_vmo r \<noteq> None"
    "allocate_anonymous_vmo tp oid uses sz base fixed s = Inr (res, s')"
  shows "case res of
      None \<Rightarrow> s' = s \<and> fixed
    | Some i \<Rightarrow> placed sz (mm_regions s) i (mm_regions s') \<and> (fixed \<longrightarrow> r_base (mm_regions s' ! i) = base)
        \<and> r_vmo (mm_regions s' ! i) = Some oid"
proof -
  obtain place where place: "place_region sz base fixed (mm_regions s) = Inr place"
    using assms(4) by (auto simp: allocate_anonymous_vmo_def split: if_splits)
  show ?thesis
  proof (cases place)
    case None
    then have "fixed" using place by (auto simp: place_region_def Let_def split: if_splits option.splits)
    then show ?thesis
      using place None assms(4) by (auto simp: allocate_anonymous_vmo_def split: if_splits)
  next
    case (Some q)
    obtain i rs where q: "q = (i, rs)" by (cases q)
    note pr = place_region_correct [OF assms(1,2) place [unfolded Some q]]
    have s': "res = Some i" "mm_regions s' = rs[i := (rs ! i)\<lparr>r_vmo := Some oid\<rparr>]"
      using place Some q assms(4)
      by (auto simp: allocate_anonymous_vmo_def attach_def Let_def split: if_splits)
    have "placed sz (mm_regions s) i (mm_regions s')" unfolding s'(2) using pr assms(3) by (intro placed_set_vmo) auto
    then show ?thesis using pr s' by (auto simp: placed_def)
  qed
qed

text \<open>
  C13. Mapping memory keeps the address space well formed.  When \<open>allocate_anonymous_vmo\<close> returns for a request
  whose ends do not wrap, either the state is unchanged (a fixed request whose range was taken), or exactly one
  region of the requested size has been added, at the requested base if that was fixed, disjoint from every
  other region; all other regions are still there and the list is still sorted.
\<close>

theorem anonymous_map_keeps_regions:
  assumes "as_inv (mm_regions s)" "request_fits sz base (mm_regions s)" "\<forall>r \<in> set (mm_regions s). r_vmo r \<noteq> None"
    "allocate_anonymous_vmo tp oid uses sz base fixed s = Inr (res, s')"
  shows "case res of
      None \<Rightarrow> s' = s \<and> fixed
    | Some i \<Rightarrow> placed sz (mm_regions s) i (mm_regions s') \<and> (fixed \<longrightarrow> r_base (mm_regions s' ! i) = base)
        \<and> r_vmo (mm_regions s' ! i) = Some oid"
  by (rule anonymous_map_correct [OF assms])

lemma anonymous_map_keeps_regions_witness:
  "let r = \<lparr>r_base = 0x400000, r_size = 0x1000, r_vmo = Some 0\<rparr>;
       pm = \<lparr>page_dirs = (\<lambda>_ _. 7), page_dirs_phys = (\<lambda>_. 0), page_dirs_virt = (\<lambda>_. 4096),
         page_tables = (\<lambda>_ _. Some (0, (\<lambda>_. 0))), pm_pdpt = (\<lambda>_. 0), pm_pml4 = (\<lambda>_. 0), pdpt_phys = 0, pml4_phys = 0\<rparr>;
       vm = \<lparr>vm_heap = \<lparr>kernel_heap_dir = (\<lambda>_. 3), kernel_heap_dir_tables = (\<lambda>_ _. 0)\<rparr>,
         vm_phys = \<lparr>phys_mem_bitmap = [], used_blocks = 0, max_blocks = 0, next_chunk = 1\<rparr>\<rparr>;
       s = \<lparr>mm_regions = [r], mm_vmos = (\<lambda>_. None), mm_pm = pm, mm_vm = vm\<rparr>
   in \<exists>s'. allocate_anonymous_vmo (\<lambda>_. 0) 7 0 0x1000 0x800000 True s = Inr (Some 1, s')
        \<and> placed 0x1000 [r] 1 (mm_regions s')"
proof -
  let ?r = "\<lparr>r_base = 0x400000, r_size = 0x1000, r_vmo = Some 0\<rparr>"
  let ?pm = "\<lparr>page_dirs = (\<lambda>_ _. 7), page_dirs_phys = (\<lambda>_. 0), page_dirs_virt = (\<lambda>_. 4096),
         page_tables = (\<lambda>_ _. Some (0, (\<lambda>_. 0))), pm_pdpt = (\<lambda>_. 0), pm_pml4 = (\<lambda>_. 0), pdpt_phys = 0, pml4_phys = 0\<rparr>"
  let ?vm = "\<lparr>vm_heap = \<lparr>kernel_heap_dir = (\<lambda>_. 3), kernel_heap_dir_tables = (\<lambda>_ _. 0)\<rparr>,
         vm_phys = \<lparr>phys_mem_bitmap = [], used_blocks = 0, max_blocks = 0, next_chunk = 1\<rparr>\<rparr>"
  let ?s = "\<lparr>mm_regions = [?r], mm_vmos = (\<lambda>_. None), mm_pm = ?pm, mm_vm = ?vm\<rparr>"
  have "\<exists>s'. allocate_anonymous_vmo (\<lambda>_. 0) 7 0 0x1000 0x800000 True ?s = Inr (Some 1, s')"
    by (simp add: allocate_anonymous_vmo_def aligned_def place_region_def allocate_region_at_def r_end_def
        physical_vm_object_def PAGE_COUNT_4K_def attach_def map_allocated_blocks_def block_count_def block_entry_def
        index_defs present_def TABLE_PRESENT_def Let_def mapped_region_def)
  then obtain s' where s': "allocate_anonymous_vmo (\<lambda>_. 0) 7 0 0x1000 0x800000 True ?s = Inr (Some 1, s')" by blast
  have "as_inv (mm_regions ?s)" "request_fits 0x1000 0x800000 (mm_regions ?s)"
    by (simp_all add: as_inv_def request_fits_def r_lo_def r_hi_def)
  from anonymous_map_keeps_regions [OF this _ s'] s' show ?thesis unfolding Let_def by auto
qed

section \<open>Page faults\<close>

lemma map_virtual_memory_invs:
  "map_virtual_memory_4k tp n phys virt flags pm vm = Inr (pm', vm') \<Longrightarrow> pm_inv pm \<Longrightarrow> phys_inv (vm_phys vm) \<Longrightarrow>
   pm_inv pm' \<and> phys_inv (vm_phys vm')"
proof (induction n arbitrary: phys virt pm vm)
  case (Suc n)
  let ?i = "PDPT_GET_INDEX virt" and ?j = "PDE_GET_INDEX virt"
  obtain pm0 vm0 where pm0: "(if \<not> present (page_dirs pm ?i ?j) then create_page_table tp ?i ?j pm vm else Inr (pm, vm)) = Inr (pm0, vm0)"
    and rest: "(case page_tables pm0 ?i ?j of None \<Rightarrow> Inl Null_deref
          | Some (tv, entries) \<Rightarrow> map_virtual_memory_4k tp n (phys + 4096) (virt + 4096) flags
                (pm0\<lparr>page_tables := (page_tables pm0)(?i := (page_tables pm0 ?i)
                   (?j := Some (tv, entries(PT_GET_INDEX virt := set_page_frame flags phys))))\<rparr>) vm0) = Inr (pm', vm')"
    using Suc.prems(1) by (auto simp: Let_def split: if_splits)
  have "phys_inv (vm_phys vm0)"
  proof (cases "present (page_dirs pm ?i ?j)")
    case False
    then obtain a p where "allocate_physical_block (vm_phys vm) = Inr (a, p)" "vm_phys vm0 = p"
      using pm0 by (auto simp: create_page_table_def allocate_page_table_def allocate_mapped_page_def Let_def)
    then show ?thesis using pa.alloc_Inr [OF Suc.prems(3)] by blast
  qed (use pm0 Suc.prems(3) in auto)
  moreover have "pm_inv (pm0\<lparr>page_tables := (page_tables pm0)(?i := (page_tables pm0 ?i)(?j := Some x))\<rparr>)" for x
    using ensure_table_correct(1) [OF Suc.prems(2) pm0] by (auto simp: pm_inv_def)
  ultimately show ?case using rest Suc.IH by (auto split: option.splits)
qed simp

lemma map_blocks_invs:
  "map_blocks tp o1 bs virt pm vm = Inr (pm', vm') \<Longrightarrow> pm_inv pm \<Longrightarrow> phys_inv (vm_phys vm) \<Longrightarrow>
   pm_inv pm' \<and> phys_inv (vm_phys vm')"
proof (induction bs arbitrary: virt pm vm)
  case (Cons b bs)
  then obtain phys flags pm1 vm1 where "map_virtual_memory_4k tp 1 phys virt flags pm vm = Inr (pm1, vm1)"
      "map_blocks tp o1 bs (virt + 4096) pm1 vm1 = Inr (pm', vm')" by auto
  then show ?case using Cons.IH map_virtual_memory_invs Cons.prems(2,3) by blast
qed simp

lemma map_allocated_blocks_invs:
  "map_allocated_blocks tp o1 base pm vm = Inr (pm', vm') \<Longrightarrow> pm_inv pm \<Longrightarrow> phys_inv (vm_phys vm) \<Longrightarrow>
   pm_inv pm' \<and> phys_inv (vm_phys vm')"
  using map_blocks_invs by (auto simp: map_allocated_blocks_def split: option.splits if_splits)

lemma clone_blocks_invs:
  "clone_blocks bs new virt vm = Inr (cs, vm') \<Longrightarrow> phys_inv (vm_phys vm) \<Longrightarrow> phys_inv (vm_phys vm')"
proof (induction bs arbitrary: new vm cs)
  case (Cons b bs)
  show ?case
  proof (cases "b = 0")
    case True
    then show ?thesis using Cons by auto
  next
    case False
    then obtain phys p h cs' where "allocate_physical_block (vm_phys vm) = Inr (phys, p)"
        "clone_blocks bs (tl new) virt \<lparr>vm_heap = h, vm_phys = p\<rparr> = Inr (cs', vm')"
      using Cons.prems(1) by auto
    then show ?thesis using Cons.IH pa.alloc_Inr [OF Cons.prems(2)] by (metis vmm.select_convs(2))
  qed
qed simp

lemma clone_invs: "clone tp uses o1 vm = Inr (c, vm') \<Longrightarrow> phys_inv (vm_phys vm) \<Longrightarrow> phys_inv (vm_phys vm')"
  using back_blocks_correct clone_blocks_invs
  by (auto simp: clone_def physical_vm_object_def Let_def vm_free_page_def split: if_splits)

lemma address_to_region_Some:
  "address_to_region a rs = Some i \<Longrightarrow>
   i < length rs \<and> r_vmo (rs ! i) \<noteq> None \<and> r_base (rs ! i) \<le> a \<and> a < r_end (rs ! i)"
  by (induction rs arbitrary: i) (auto split: if_splits)

lemma address_to_region_None:
  "address_to_region a rs = None \<longleftrightarrow> (\<forall>r \<in> set rs. \<not> (r_vmo r \<noteq> None \<and> r_base r \<le> a \<and> a < r_end r))"
  by (induction rs) auto

definition page_backed :: "u64 \<Rightarrow> page_map \<Rightarrow> bool" where
  "page_backed addr pm \<longleftrightarrow> pm_inv pm
     \<and> (\<exists>b. b \<noteq> 0 \<and> walk pm (unat addr div 4096) = Some (set_page_frame 7 (block_address b)))"

lemma hit_page_backed:
  assumes "pm_inv pm" "phys_inv (vm_phys vm)" "unat addr + 4096 \<le> 2 ^ 39"
    "hit tp cr3 o1 base (addr - base) pm vm = Inr (status, o2, pm', vm')"
  shows "status = 0 \<and> page_backed addr pm'"
  using hit_correct [OF assms(1,2) _ assms(4)] assms(3) by (auto simp: Let_def page_backed_def)

lemma cow_fault_page_backed:
  assumes "pm_inv (mm_pm s)" "phys_inv (vm_phys (mm_vm s))" "unat addr + 4096 \<le> 2 ^ 39"
    "cow_fault tp cr3 new_id uses addr i oid o1 s = Inr s'"
  shows "page_backed addr (mm_pm s')"
proof -
  let ?b = "r_base (mm_regions s ! i)"
  obtain o2 vm1 pm2 vm2 status o3 vm3 where "phys_inv (vm_phys vm1)"
      "map_allocated_blocks tp o2 ?b (mm_pm s) vm1 = Inr (pm2, vm2)"
      "hit tp cr3 o2 ?b (addr - ?b) pm2 vm2 = Inr (status, o3, mm_pm s', vm3)"
  proof (cases "use_count o1 \<le> 1")
    case True
    then show ?thesis using that [of "mm_vm s" "o1\<lparr>cow := False\<rparr>"] assms(2,4) by (auto simp: cow_fault_def Let_def)
  next
    case False
    then obtain c vm0 where "clone tp uses o1 (mm_vm s) = Inr (c, vm0)"
        "kbind (map_allocated_blocks tp c ?b (mm_pm s) vm0) (\<lambda>(pm, vm).
           kbind (hit tp cr3 c ?b (addr - ?b) pm vm) (\<lambda>(status, c, pm, vm).
           Inr (s\<lparr>mm_regions := (mm_regions s)[i := (mm_regions s ! i)\<lparr>r_vmo := Some new_id\<rparr>],
                  mm_vmos := (mm_vmos s)(oid := Some (o1\<lparr>use_count := use_count o1 - 1\<rparr>), new_id := Some c),
                  mm_pm := pm, mm_vm := vm\<rparr>))) = Inr s'"
      using assms(4) by (auto simp: cow_fault_def Let_def)
    then show ?thesis using that [of vm0 c] clone_invs assms(2) by auto
  qed
  then show ?thesis using map_allocated_blocks_invs hit_page_backed assms(1,3) by blast
qed

text \<open>
  C1. The page fault handler leaves the faulting page usable or does not touch the process.  For an address
  below 512 GiB: if it reports the fault resolved, by demand paging or by either copy-on-write path, a walk of
  the tables finds the faulting page present, writable and backed; it gives up (killing a user process, halting
  on a kernel fault) exactly when no region with an object covers the address, and then the state is unchanged.
\<close>

theorem page_fault_resolves:
  assumes "pm_inv (mm_pm s)" "phys_inv (vm_phys (mm_vm s))" "unat addr + 4096 \<le> 2 ^ 39"
    "page_fault_handler tp cr3 new_id uses read_only user addr (Some s) = Inr outcome"
  shows "(case outcome of
      Resolved s' \<Rightarrow> page_backed addr (mm_pm s')
    | Kill_process s' \<Rightarrow> user \<and> s' = s
    | Kernel_panic \<Rightarrow> \<not> user)
    \<and> ((\<exists>s'. outcome = Resolved s') \<longleftrightarrow>
         (\<exists>r \<in> set (mm_regions s). r_vmo r \<noteq> None \<and> r_base r \<le> addr \<and> addr < r_end r))"
proof (cases "address_to_region addr (mm_regions s)")
  case None
  then show ?thesis
    using assms(4) address_to_region_None [of addr "mm_regions s"]
    by (auto simp: page_fault_handler_def process_page_fault_def unresolved_def split: if_splits)
next
  case (Some i)
  note r = address_to_region_Some [OF Some]
  let ?r = "mm_regions s ! i"
  have covered: "\<exists>r \<in> set (mm_regions s). r_vmo r \<noteq> None \<and> r_base r \<le> addr \<and> addr < r_end r"
    using r nth_mem by blast
  obtain oid o1 where o: "r_vmo ?r = Some oid" "mm_vmos s oid = Some o1"
    using assms(4) r Some by (auto simp: page_fault_handler_def process_page_fault_def Let_def split: option.splits)
  have "\<exists>s'. outcome = Resolved s' \<and> page_backed addr (mm_pm s')"
  proof (cases "cow o1 \<and> read_only")
    case True
    then obtain s' where "cow_fault tp cr3 new_id uses addr i oid o1 s = Inr s'" "outcome = Resolved s'"
      using assms(4) Some o by (auto simp: page_fault_handler_def process_page_fault_def Let_def)
    then show ?thesis using cow_fault_page_backed [OF assms(1-3)] by blast
  next
    case False
    then obtain status o2 pm vm where h: "hit tp cr3 o1 (r_base ?r) (addr - r_base ?r) (mm_pm s) (mm_vm s) = Inr (status, o2, pm, vm)"
        and out: "outcome = (let s = s\<lparr>mm_vmos := (mm_vmos s)(oid := Some o2), mm_pm := pm, mm_vm := vm\<rparr>
            in if status = 0 then Resolved s else unresolved user s)"
      using assms(4) Some o by (auto simp: page_fault_handler_def process_page_fault_def Let_def)
    from hit_page_backed [OF assms(1-3) h] show ?thesis using out by (auto simp: Let_def)
  qed
  then show ?thesis using covered by auto
qed

lemma page_fault_resolves_witness:
  "let r = \<lparr>r_base = 0x400000, r_size = 0x2000, r_vmo = Some 3\<rparr>;
       pm = \<lparr>page_dirs = (\<lambda>_ _. 7), page_dirs_phys = (\<lambda>_. 0), page_dirs_virt = (\<lambda>_. 4096),
         page_tables = (\<lambda>_ _. Some (0, (\<lambda>_. 0))), pm_pdpt = (\<lambda>_. 0), pm_pml4 = (\<lambda>_. 0), pdpt_phys = 0, pml4_phys = 0\<rparr>;
       vm = \<lparr>vm_heap = \<lparr>kernel_heap_dir = (\<lambda>_. 3), kernel_heap_dir_tables = (\<lambda>_ _. 0)\<rparr>,
         vm_phys = \<lparr>phys_mem_bitmap = [- 1, 0], used_blocks = 0, max_blocks = 64, next_chunk = 1\<rparr>\<rparr>;
       o1 = \<lparr>vmo_size = 8192, use_count = 1, anonymous = True, shared = False, cow = False,
             physical_blocks = [0, 0], image = None\<rparr>;
       s = \<lparr>mm_regions = [r], mm_vmos = (\<lambda>_. None)(3 := Some o1), mm_pm = pm, mm_vm = vm\<rparr>
   in \<exists>s'. page_fault_handler (\<lambda>_. 0) 0 9 0 False True 0x401004 (Some s) = Inr (Resolved s')
        \<and> page_backed 0x401004 (mm_pm s')"
proof -
  let ?r = "\<lparr>r_base = 0x400000, r_size = 0x2000, r_vmo = Some 3\<rparr>"
  let ?pm = "\<lparr>page_dirs = (\<lambda>_ _. 7), page_dirs_phys = (\<lambda>_. 0), page_dirs_virt = (\<lambda>_. 4096),
         page_tables = (\<lambda>_ _. Some (0, (\<lambda>_. 0))), pm_pdpt = (\<lambda>_. 0), pm_pml4 = (\<lambda>_. 0), pdpt_phys = 0, pml4_phys = 0\<rparr>"
  let ?vm = "\<lparr>vm_heap = \<lparr>kernel_heap_dir = (\<lambda>_. 3), kernel_heap_dir_tables = (\<lambda>_ _. 0)\<rparr>,
         vm_phys = \<lparr>phys_mem_bitmap = [- 1, 0], used_blocks = 0, max_blocks = 64, next_chunk = 1\<rparr>\<rparr>"
  let ?o = "\<lparr>vmo_size = 8192, use_count = 1, anonymous = True, shared = False, cow = False,
             physical_blocks = [0, 0], image = None\<rparr>"
  let ?s = "\<lparr>mm_regions = [?r], mm_vmos = (\<lambda>_. None)(3 := Some ?o), mm_pm = ?pm, mm_vm = ?vm\<rparr>"
  have "\<exists>s'. page_fault_handler (\<lambda>_. 0) 0 9 0 False True 0x401004 (Some ?s) = Inr (Resolved s')"
    by (simp add: page_fault_handler_def process_page_fault_def r_end_def hit_def block_count_def small_allocation [simplified] Let_def
        index_defs present_def TABLE_PRESENT_def)
  then obtain s' where s': "page_fault_handler (\<lambda>_. 0) 0 9 0 False True 0x401004 (Some ?s) = Inr (Resolved s')" by blast
  have "pm_inv (mm_pm ?s)" "phys_inv (vm_phys (mm_vm ?s))" by (simp_all add: pm_inv_def phys_inv_def)
  from page_fault_resolves [OF this _ s'] s' show ?thesis unfolding Let_def by auto
qed

end
