(* ===== verification/Streams.thy ===== *)
theory Streams
  imports KString
begin

text \<open>
  The byte buffers of the kernel: \<^verbatim>\<open>Kernel/src/stream.cpp\<close> (\<open>data_stream\<close>, \<open>packet_stream\<close>),
  \<^verbatim>\<open>Kernel/src/char_buffer.cpp\<close> and the pipe of \<^verbatim>\<open>Kernel/src/fs/pipe.cpp\<close>.  A heap block is a list whose
  length is what was allocated; \<open>junk\<close> is what fresh memory holds.  Each operation runs under the lock of its
  object, so it is one step.  The two buffers are shown to be first-in first-out queues through the interface
  \<open>byte_fifo\<close>; the pipe is a transition system over its two ends.
\<close>

section \<open>Data streams\<close>

record data_stream =
  ds_size :: u64
  ds_pos :: u64
  ds_buf :: "u8 list"

definition data_stream_new :: "(nat \<Rightarrow> u8) \<Rightarrow> u64 \<Rightarrow> data_stream" where
  "data_stream_new junk buf_size = \<lparr>ds_size = buf_size, ds_pos = 0, ds_buf = map junk [0..<unat buf_size]\<rparr>"

definition ds_read :: "u64 \<Rightarrow> data_stream \<Rightarrow> u8 list \<times> data_stream" where
  "ds_read len s =
     (let len = min len (ds_pos s) in
      if len = 0 then ([], s)
      else (take (unat len) (ds_buf s),
            s\<lparr>ds_buf := splice_out (ds_buf s) (unat len) (unat (ds_pos s)), ds_pos := ds_pos s - len\<rparr>))"

text \<open>
  The doubling loop.  After 64 doublings the size is 0 and stays 0, so 65 rounds decide whether it ends.
\<close>

fun double_size :: "nat \<Rightarrow> u64 \<Rightarrow> u64 \<Rightarrow> u64 option" where
  "double_size 0 need sz = None"
| "double_size (Suc fuel) need sz = (if need \<ge> sz then double_size fuel need (sz * 2) else Some sz)"

definition ds_grow :: "(nat \<Rightarrow> u8) \<Rightarrow> u64 \<Rightarrow> data_stream \<Rightarrow> data_stream kres" where
  "ds_grow junk need s =
     (if need \<ge> ds_size s
      then (case double_size 65 need (ds_size s) of
              None \<Rightarrow> Inl Loops
            | Some n \<Rightarrow> Inr (s\<lparr>ds_size := n, ds_buf := realloc_bytes junk (unat n) (ds_buf s)\<rparr>))
      else Inr s)"

definition ds_write :: "(nat \<Rightarrow> u8) \<Rightarrow> u8 list \<Rightarrow> data_stream \<Rightarrow> (u64 \<times> data_stream) kres" where
  "ds_write junk data s =
     (let len = of_nat (length data) in
      kbind (ds_grow junk (ds_pos s + len) s) (\<lambda>s.
      if unat (ds_pos s) + length data \<le> length (ds_buf s)
      then Inr (len, s\<lparr>ds_buf := overwrite (ds_buf s) (unat (ds_pos s)) data, ds_pos := ds_pos s + len\<rparr>)
      else Inl Out_of_bounds))"

definition ds_empty :: "data_stream \<Rightarrow> bool" where
  "ds_empty s \<longleftrightarrow> ds_pos s = 0"

text \<open>Packets keep their boundaries; reading less than a packet holds drops the rest of it.\<close>

fun pkt_read :: "nat \<Rightarrow> u8 list list \<Rightarrow> u8 list \<times> u8 list list" where
  "pkt_read len [] = ([], [])"
| "pkt_read len (p # ps) = (take len p, ps)"

definition pkt_write :: "u8 list \<Rightarrow> u8 list list \<Rightarrow> nat \<times> u8 list list" where
  "pkt_write data ps = (length data, ps @ [data])"

section \<open>Character buffers\<close>

record char_buffer =
  cb_pos :: u64
  cb_size :: u64
  cb_max :: u64
  cb_lines :: int
  cb_buf :: "u8 list"
  cb_ignore_bs :: bool

text \<open>
  The constructor sets neither the position nor the number of lines, so both are arguments here.
\<close>

definition char_buffer_new :: "(nat \<Rightarrow> u8) \<Rightarrow> u64 \<Rightarrow> int \<Rightarrow> char_buffer" where
  "char_buffer_new junk p0 l0 =
     \<lparr>cb_pos = p0, cb_size = 1024, cb_max = 0x200000, cb_lines = l0, cb_buf = map junk [0..<1024], cb_ignore_bs = False\<rparr>"

definition set_ignore_backspace :: "bool \<Rightarrow> char_buffer \<Rightarrow> char_buffer" where
  "set_ignore_backspace b c = c\<lparr>cb_ignore_bs := b\<rparr>"

definition has_lines :: "char_buffer \<Rightarrow> bool" where
  "has_lines c \<longleftrightarrow> cb_lines c > 0"

definition has_data :: "char_buffer \<Rightarrow> bool" where
  "has_data c \<longleftrightarrow> cb_pos c > 0"

definition cb_put_char :: "u8 \<Rightarrow> char_buffer \<Rightarrow> (int \<times> char_buffer) kres" where
  "cb_put_char x c =
     (if x = 8 \<and> \<not> cb_ignore_bs c
      then Inr (if cb_pos c > 0 then (1, c\<lparr>cb_pos := cb_pos c - 1\<rparr>) else (0, c))
      else if unat (cb_pos c) < length (cb_buf c)
      then Inr (1, c\<lparr>cb_buf := (cb_buf c)[unat (cb_pos c) := x], cb_pos := cb_pos c + 1,
                     cb_lines := cb_lines c + (if x = 0 \<or> x = 10 then 1 else 0)\<rparr>)
      else Inl Out_of_bounds)"

text \<open>The loop over the bytes of \<open>b\<close> from index \<open>i\<close> on, \<open>n\<close> rounds left; \<open>w\<close> counts what was written.\<close>

primrec cb_put_loop :: "u8 list \<Rightarrow> nat \<Rightarrow> nat \<Rightarrow> int \<Rightarrow> char_buffer \<Rightarrow> (int \<times> char_buffer) kres" where
  "cb_put_loop b 0 i w c = Inr (w, c)"
| "cb_put_loop b (Suc n) i w c =
     (if i < length b then kbind (cb_put_char (b ! i) c) (\<lambda>(k, c). cb_put_loop b n (i + 1) (w + k) c)
      else Inl Out_of_bounds)"

definition cb_write :: "(nat \<Rightarrow> u8) \<Rightarrow> u8 list \<Rightarrow> u64 \<Rightarrow> char_buffer \<Rightarrow> (int \<times> char_buffer) kres" where
  "cb_write junk b sz c =
     (let sz = (if cb_pos c + cb_size c > cb_max c then cb_max c - cb_pos c else sz) in
      if sz = 0 then Inr (0, c)
      else let c = (if cb_pos c + sz > cb_size c
                    then c\<lparr>cb_buf := realloc_bytes junk (unat (cb_pos c + cb_size c + 128)) (cb_buf c)\<rparr> else c)
        in cb_put_loop b (unat sz) 0 0 c)"

text \<open>The copying loop of \<open>read\<close>: a null byte is consumed, but nothing is stored in its place.\<close>

primrec cb_get_loop :: "nat \<Rightarrow> nat \<Rightarrow> u8 list \<Rightarrow> char_buffer \<Rightarrow> (u8 list \<times> char_buffer) kres" where
  "cb_get_loop 0 i b c = Inr (b, c)"
| "cb_get_loop (Suc n) i b c =
     (if \<not> i < length (cb_buf c) then Inl Out_of_bounds
      else let x = cb_buf c ! i in
        if x = 0 then cb_get_loop n (i + 1) b (c\<lparr>cb_lines := cb_lines c - 1\<rparr>)
        else if i < length b
        then cb_get_loop n (i + 1) (b[i := x]) (c\<lparr>cb_lines := cb_lines c - (if x = 10 then 1 else 0)\<rparr>)
        else Inl Out_of_bounds)"

text \<open>
  The shifting loop moves \<open>_size - size\<close> bytes, an unsigned difference; every access past the block is out of
  bounds.  The moves go upwards, each byte being read before it can be overwritten.
\<close>

definition cb_shift :: "u64 \<Rightarrow> char_buffer \<Rightarrow> char_buffer kres" where
  "cb_shift sz c =
     (let n = unat (cb_size c - sz) in
      if n = 0 then Inr c
      else if unat sz + n \<le> length (cb_buf c)
      then Inr (c\<lparr>cb_buf := overwrite (cb_buf c) 0 (take n (drop (unat sz) (cb_buf c)))\<rparr>)
      else Inl Out_of_bounds)"

definition cb_read :: "u8 list \<Rightarrow> u64 \<Rightarrow> char_buffer \<Rightarrow> (u64 \<times> u8 list \<times> char_buffer) kres" where
  "cb_read b sz c =
     (let sz = (if sz > cb_pos c then cb_pos c else sz) in
      if sz = 0 then Inr (0, b, c)
      else kbind (cb_get_loop (unat sz) 0 b c) (\<lambda>(b, c).
           kbind (cb_shift sz c) (\<lambda>c.
           Inr (sz, b, c\<lparr>cb_pos := cb_pos c - sz\<rparr>))))"

definition cb_flush :: "char_buffer \<Rightarrow> char_buffer" where
  "cb_flush c = c\<lparr>cb_pos := 0, cb_lines := 0\<rparr>"

section \<open>Pipes\<close>

text \<open>
  The two ends are heap objects that point at each other; an end that has been deleted is absent from
  \<open>p_ends\<close>, so that an access through a stale pointer is a fault.  A read that has to wait sleeps with its
  thread in the node's list of blockers; \<open>pipe_wake\<close> is the rest of the call.
\<close>

datatype pipe_kind = InvalidPipe | ReadEnd | WriteEnd

record unix_pipe =
  p_end :: pipe_kind
  p_widowed :: bool
  p_other :: "nat option"
  p_handles :: u32
  p_blocked :: "nat list"
  p_watching :: "nat list"

record pipes =
  p_ends :: "nat \<Rightarrow> unix_pipe option"
  p_stream :: data_stream

definition unix_pipe_new :: "pipe_kind \<Rightarrow> nat \<Rightarrow> unix_pipe" where
  "unix_pipe_new k other =
     \<lparr>p_end = k, p_widowed = False, p_other = Some other, p_handles = 0, p_blocked = [], p_watching = []\<rparr>"

definition create_pipe :: "(nat \<Rightarrow> u8) \<Rightarrow> nat \<Rightarrow> nat \<Rightarrow> pipes" where
  "create_pipe junk r w =
     \<lparr>p_ends = (\<lambda>_. None)(r := Some (unix_pipe_new ReadEnd w), w := Some (unix_pipe_new WriteEnd r)),
      p_stream = data_stream_new junk 1024\<rparr>"

definition set_end :: "nat \<Rightarrow> unix_pipe \<Rightarrow> pipes \<Rightarrow> pipes" where
  "set_end a e p = p\<lparr>p_ends := (p_ends p)(a := Some e)\<rparr>"

definition pipe_open :: "nat \<Rightarrow> pipes \<Rightarrow> pipes kres" where
  "pipe_open a p =
     (case p_ends p a of None \<Rightarrow> Inl Use_after_free
      | Some e \<Rightarrow> Inr (set_end a (e\<lparr>p_handles := p_handles e + 1\<rparr>) p))"

datatype pipe_io = Done "u8 list sysret" | Sleep

definition pipe_take :: "u64 \<Rightarrow> pipes \<Rightarrow> pipe_io \<times> pipes" where
  "pipe_take sz p =
     (let (d, st) = ds_read (min sz (ds_pos (p_stream p))) (p_stream p) in (Done (Inr d), p\<lparr>p_stream := st\<rparr>))"

definition pipe_read :: "nat \<Rightarrow> nat \<Rightarrow> u64 \<Rightarrow> pipes \<Rightarrow> (pipe_io \<times> pipes) kres" where
  "pipe_read t a sz p =
     (case p_ends p a of None \<Rightarrow> Inl Use_after_free
      | Some e \<Rightarrow>
          if p_end e \<noteq> ReadEnd then Inr (Done (Inl ESPIPE), p)
          else if \<not> p_widowed e \<and> ds_empty (p_stream p)
          then Inr (Sleep, set_end a (e\<lparr>p_blocked := p_blocked e @ [t]\<rparr>) p)
          else Inr (pipe_take sz p))"

definition pipe_wake :: "nat \<Rightarrow> nat \<Rightarrow> u64 \<Rightarrow> bool \<Rightarrow> pipes \<Rightarrow> (pipe_io \<times> pipes) kres" where
  "pipe_wake t a sz interrupted p =
     (case p_ends p a of None \<Rightarrow> Inl Use_after_free
      | Some e \<Rightarrow>
          let p = set_end a (e\<lparr>p_blocked := remove1 t (p_blocked e)\<rparr>) p in
          Inr (if interrupted then (Done (Inl EINTR), p) else pipe_take sz p))"

text \<open>A write returns the number of bytes and the watchers it signals.\<close>

definition pipe_write :: "(nat \<Rightarrow> u8) \<Rightarrow> nat \<Rightarrow> u8 list \<Rightarrow> pipes \<Rightarrow> (u64 sysret \<times> nat list \<times> pipes) kres" where
  "pipe_write junk a data p =
     (case p_ends p a of None \<Rightarrow> Inl Use_after_free
      | Some e \<Rightarrow>
          if p_end e \<noteq> WriteEnd then Inr (Inl ESPIPE, [], p)
          else if p_widowed e then Inr (Inl EPIPE, [], p)
          else kbind (ds_write junk data (p_stream p)) (\<lambda>(n, st).
            case p_other e of None \<Rightarrow> Inl Null_deref
            | Some b \<Rightarrow>
                (case p_ends p b of None \<Rightarrow> Inl Use_after_free
                 | Some f \<Rightarrow> Inr (Inr n, p_watching f, set_end b (f\<lparr>p_watching := []\<rparr>) (p\<lparr>p_stream := st\<rparr>)))))"

definition pipe_close :: "nat \<Rightarrow> pipes \<Rightarrow> pipes kres" where
  "pipe_close a p =
     (case p_ends p a of None \<Rightarrow> Inl Use_after_free
      | Some e \<Rightarrow>
          let e = e\<lparr>p_handles := p_handles e - 1\<rparr>; p = set_end a e p in
          if p_handles e \<noteq> 0 then Inr p
          else kbind (case p_other e of None \<Rightarrow> Inr p
                      | Some b \<Rightarrow> (case p_ends p b of None \<Rightarrow> Inl Use_after_free
                                   | Some f \<Rightarrow> Inr (set_end b (f\<lparr>p_widowed := True\<rparr>) p)))
                 (\<lambda>p. Inr (p\<lparr>p_ends := (p_ends p)(a := None)\<rparr>)))"

text \<open>One call by any thread, apart from waking the reader \<open>t\<close> that sleeps on \<open>a\<close>.\<close>

inductive pipe_step :: "nat \<Rightarrow> nat \<Rightarrow> pipes \<Rightarrow> pipes \<Rightarrow> bool" for t a where
  step_open: "pipe_open b p = Inr p' \<Longrightarrow> pipe_step t a p p'"
| step_read: "pipe_read u b sz p = Inr (io, p') \<Longrightarrow> pipe_step t a p p'"
| step_wake: "pipe_wake u b sz i p = Inr (io, p') \<Longrightarrow> u \<noteq> t \<or> b \<noteq> a \<Longrightarrow> pipe_step t a p p'"
| step_write: "pipe_write junk b data p = Inr (n, ws, p') \<Longrightarrow> pipe_step t a p p'"
| step_close: "pipe_close b p = Inr p' \<Longrightarrow> pipe_step t a p p'"

section \<open>First in, first out\<close>

text \<open>
  A run of writes and reads on a buffer; the result is everything read.  \<open>byte_fifo\<close> states what a client of
  a buffer relies on: below the capacity a write appends, and a read takes from the front.
\<close>

datatype fifo_op = Put "u8 list" | Get nat

fun fifo_run :: "(u8 list \<Rightarrow> 's \<Rightarrow> 's kres) \<Rightarrow> (nat \<Rightarrow> 's \<Rightarrow> (u8 list \<times> 's) kres) \<Rightarrow> fifo_op list \<Rightarrow> 's \<Rightarrow> (u8 list \<times> 's) kres" where
  "fifo_run put get [] s = Inr ([], s)"
| "fifo_run put get (Put d # ops) s = kbind (put d s) (fifo_run put get ops)"
| "fifo_run put get (Get n # ops) s =
     kbind (get n s) (\<lambda>(out, s). kbind (fifo_run put get ops s) (\<lambda>(outs, s). Inr (out @ outs, s)))"

fun written :: "fifo_op list \<Rightarrow> u8 list" where
  "written [] = []"
| "written (Put d # ops) = d @ written ops"
| "written (Get n # ops) = written ops"

locale byte_fifo =
  fixes inv :: "'s \<Rightarrow> bool"
    and contents :: "'s \<Rightarrow> u8 list"
    and put :: "u8 list \<Rightarrow> 's \<Rightarrow> 's kres"
    and get :: "nat \<Rightarrow> 's \<Rightarrow> (u8 list \<times> 's) kres"
    and cap :: nat
  assumes put_appends: "inv s \<Longrightarrow> length (contents s) + length d < cap \<Longrightarrow>
      \<exists>s'. put d s = Inr s' \<and> inv s' \<and> contents s' = contents s @ d"
    and get_takes: "inv s \<Longrightarrow> length (contents s) < cap \<Longrightarrow>
      \<exists>s'. get n s = Inr (take n (contents s), s') \<and> inv s' \<and> contents s' = drop n (contents s)"
begin

lemma run_is_fifo:
  "inv s \<Longrightarrow> length (contents s) + length (written ops) < cap \<Longrightarrow>
   \<exists>out s'. fifo_run put get ops s = Inr (out, s') \<and> inv s' \<and> contents s @ written ops = out @ contents s'"
proof (induction ops arbitrary: s)
  case (Cons op ops)
  show ?case
  proof (cases op)
    case (Put d)
    then obtain s1 where "put d s = Inr s1" "inv s1" "contents s1 = contents s @ d"
      using put_appends [of s d] Cons.prems by fastforce
    then show ?thesis using Cons.IH [of s1] Cons.prems(2) Put by auto
  next
    case (Get n)
    obtain s1 where s1: "get n s = Inr (take n (contents s), s1)" "inv s1" "contents s1 = drop n (contents s)"
      using get_takes [of s n] Cons.prems by fastforce
    then obtain out s2 where "fifo_run put get ops s1 = Inr (out, s2)" "inv s2" "contents s1 @ written ops = out @ contents s2"
      using Cons.IH [of s1] Cons.prems(2) Get by fastforce
    then have "contents s @ written ops = (take n (contents s) @ out) @ contents s2"
      using s1(3) by (metis append.assoc append_take_drop_id)
    then show ?thesis using s1(1) \<open>inv s2\<close> \<open>fifo_run put get ops s1 = Inr (out, s2)\<close> Get by auto
  qed
qed simp

lemma run_append:
  assumes "inv s" "length (contents s) + length (written (ops @ ops')) < cap" "fifo_run put get ops s = Inr (out, s1)"
  shows "inv s1 \<and> length (contents s1) + length (written ops') < cap"
proof -
  have w: "written (xs @ ys) = written xs @ written ys" for xs ys
    by (induction xs rule: written.induct) auto
  have "length (contents s) + length (written ops) < cap" using assms(2) w by simp
  from run_is_fifo [OF assms(1) this] assms(3)
  have "inv s1" "contents s @ written ops = out @ contents s1" by auto
  then have "length (contents s) + length (written ops) = length out + length (contents s1)"
    by (metis length_append)
  then show ?thesis using assms(2) w \<open>inv s1\<close> by simp
qed

end

subsection \<open>Data streams are queues\<close>

definition ds_inv :: "data_stream \<Rightarrow> bool" where
  "ds_inv s \<longleftrightarrow> 0 < ds_size s \<and> ds_pos s \<le> ds_size s \<and> length (ds_buf s) = unat (ds_size s)"

definition ds_contents :: "data_stream \<Rightarrow> u8 list" where
  "ds_contents s = take (unat (ds_pos s)) (ds_buf s)"

lemma double_size_ends:
  "0 < sz \<Longrightarrow> need < 2 ^ 63 \<Longrightarrow> 2 ^ 63 < unat sz * 2 ^ fuel \<Longrightarrow>
   \<exists>n. double_size (Suc fuel) need sz = Some n \<and> need < n \<and> (sz \<le> need \<longrightarrow> sz < n)"
proof (induction fuel arbitrary: sz)
  case 0
  then have "need < sz" by (simp add: word_less_nat_alt)
  then show ?case by (auto simp: not_le)
next
  case (Suc fuel)
  show ?case
  proof (cases "need < sz")
    case False
    then have small: "unat sz < 2 ^ 63" using Suc.prems(2) by (simp add: word_less_nat_alt)
    then have two: "unat (sz * 2) = unat sz * 2" by (subst unat_times_no_wrap) simp_all
    have pos: "0 < unat sz" using Suc.prems(1) by (simp add: word_less_nat_alt)
    then have "0 < sz * 2" by (simp add: word_less_nat_alt two)
    moreover have "2 ^ 63 < unat (sz * 2) * 2 ^ fuel" using Suc.prems(3) two by (simp add: mult.assoc)
    ultimately obtain n where n: "double_size (Suc fuel) need (sz * 2) = Some n" "need < n" "sz * 2 \<le> need \<longrightarrow> sz * 2 < n"
      using Suc.IH [of "sz * 2"] Suc.prems(2) by blast
    moreover have "sz < n" using False n(2) by auto
    ultimately show ?thesis using False by (auto simp: not_less)
  qed (auto simp: not_le)
qed

lemma ds_grow_correct:
  assumes "ds_inv s" "unat (ds_pos s) + len < 2 ^ 63"
  shows "\<exists>s'. ds_grow junk (ds_pos s + of_nat len) s = Inr s' \<and> ds_inv s' \<and> ds_pos s' = ds_pos s
    \<and> ds_contents s' = ds_contents s \<and> unat (ds_pos s) + len < length (ds_buf s')"
proof -
  let ?need = "ds_pos s + of_nat len :: u64"
  have l: "unat (of_nat len :: u64) = len" using assms(2) by (intro unat_of_nat_small) simp
  then have need: "unat ?need = unat (ds_pos s) + len" using assms(2) by (subst unat_plus_no_wrap) simp_all
  have inv: "0 < ds_size s" "unat (ds_pos s) \<le> unat (ds_size s)" "length (ds_buf s) = unat (ds_size s)"
    using assms(1) by (simp_all add: ds_inv_def word_le_nat_alt)
  show ?thesis
  proof (cases "?need \<ge> ds_size s")
    case True
    have "?need < 2 ^ 63" using need assms(2) by (simp add: word_less_nat_alt)
    moreover have "2 ^ 63 < unat (ds_size s) * 2 ^ 64" using inv(1) by (simp add: word_less_nat_alt)
    ultimately obtain n where n: "double_size (Suc 64) ?need (ds_size s) = Some n" "?need < n" "ds_size s < n"
      using double_size_ends [OF inv(1)] True by blast
    then have le: "unat (ds_pos s) \<le> unat n" "unat (ds_pos s) + len < unat n"
      using need by (simp_all add: word_less_nat_alt)
    have "ds_grow junk ?need s = Inr (s\<lparr>ds_size := n, ds_buf := realloc_bytes junk (unat n) (ds_buf s)\<rparr>)"
      using True n(1) by (simp add: ds_grow_def del: double_size.simps)
    then show ?thesis using n le inv(2,3) need
      by (auto simp: ds_inv_def ds_contents_def take_realloc_bytes word_less_nat_alt word_le_nat_alt)
  next
    case False
    then show ?thesis using assms(1) need inv(3) by (simp add: ds_grow_def word_le_nat_alt)
  qed
qed

lemma ds_write_appends:
  assumes "ds_inv s" "length (ds_contents s) + length d < 2 ^ 63"
  shows "\<exists>s'. ds_write junk d s = Inr (of_nat (length d), s') \<and> ds_inv s' \<and> ds_contents s' = ds_contents s @ d"
proof -
  have pos: "unat (ds_pos s) \<le> length (ds_buf s)" using assms(1) by (simp add: ds_inv_def word_le_nat_alt)
  then have sum: "unat (ds_pos s) + length d < 2 ^ 63" using assms(2) by (simp add: ds_contents_def)
  then have l: "unat (of_nat (length d) :: u64) = length d" by (intro unat_of_nat_small) simp
  then have need: "unat (ds_pos s + of_nat (length d)) = unat (ds_pos s) + length d"
    using sum by (subst unat_plus_no_wrap) simp_all
  obtain s1 where s1: "ds_grow junk (ds_pos s + of_nat (length d)) s = Inr s1" "ds_inv s1" "ds_pos s1 = ds_pos s"
      "ds_contents s1 = ds_contents s" "unat (ds_pos s) + length d < length (ds_buf s1)"
    using ds_grow_correct [OF assms(1) sum] by blast
  let ?s = "s1\<lparr>ds_buf := overwrite (ds_buf s1) (unat (ds_pos s)) d, ds_pos := ds_pos s + of_nat (length d)\<rparr>"
  have "ds_write junk d s = Inr (of_nat (length d), ?s)" using s1 by (simp add: ds_write_def Let_def)
  moreover have "ds_inv ?s" using s1(2,5) need by (simp add: ds_inv_def word_le_nat_alt)
  moreover have "ds_contents ?s = ds_contents s @ d"
    using s1(3-5) need take_overwrite_upto [of "unat (ds_pos s)" "ds_buf s1" d] by (simp add: ds_contents_def)
  ultimately show ?thesis by blast
qed

lemma ds_read_takes:
  assumes "ds_inv s" "unat len = n"
  shows "fst (ds_read len s) = take n (ds_contents s) \<and> ds_inv (snd (ds_read len s))
    \<and> ds_contents (snd (ds_read len s)) = drop n (ds_contents s)"
proof -
  let ?l = "min len (ds_pos s)"
  have pos: "unat (ds_pos s) \<le> length (ds_buf s)" using assms(1) by (simp add: ds_inv_def word_le_nat_alt)
  have l: "unat ?l = min n (unat (ds_pos s))" using assms(2) by (simp add: min_def word_le_nat_alt)
  have sub: "unat (ds_pos s - ?l) = unat (ds_pos s) - unat ?l" by (rule unat_minus_no_wrap) simp
  have sp: "take (unat (ds_pos s) - unat ?l) (splice_out (ds_buf s) (unat ?l) (unat (ds_pos s)))
      = drop (unat ?l) (ds_contents s)"
    using pos l by (simp add: ds_contents_def take_splice_out)
  have t: "take (unat ?l) (ds_buf s) = take n (ds_contents s)"
    using l by (simp add: ds_contents_def min.commute)
  have d: "drop (unat ?l) (ds_contents s) = drop n (ds_contents s)"
    using l pos by (simp add: ds_contents_def min_def)
  show ?thesis
  proof (cases "?l = 0")
    case True
    then have "take n (ds_contents s) = []" "drop n (ds_contents s) = ds_contents s"
      using t d by (simp_all only: True unsigned_0 take0 drop0)
    then show ?thesis using True assms(1) by (simp add: ds_read_def)
  next
    case False
    have "ds_pos s - ?l \<le> ds_size s"
      using assms(1) sub by (auto simp: ds_inv_def word_le_nat_alt intro: le_trans [OF diff_le_self])
    moreover have "length (splice_out (ds_buf s) (unat ?l) (unat (ds_pos s))) = length (ds_buf s)" using pos by simp
    ultimately show ?thesis
      using False assms(1) sp t d sub by (simp add: ds_read_def Let_def ds_inv_def) (simp add: ds_contents_def)
  qed
qed

definition ds_put :: "(nat \<Rightarrow> u8) \<Rightarrow> u8 list \<Rightarrow> data_stream \<Rightarrow> data_stream kres" where
  "ds_put junk d s = kbind (ds_write junk d s) (\<lambda>(n, s). Inr s)"

definition ds_get :: "nat \<Rightarrow> data_stream \<Rightarrow> (u8 list \<times> data_stream) kres" where
  "ds_get n s = Inr (ds_read (of_nat (min n (2 ^ 63))) s)"

interpretation ds: byte_fifo ds_inv ds_contents "ds_put junk" ds_get "2 ^ 63" for junk
proof
  fix s :: data_stream and n :: nat
  assume s: "ds_inv s" "length (ds_contents s) < 2 ^ 63"
  have u: "unat (of_nat (min n (2 ^ 63)) :: u64) = min n (2 ^ 63)" by (intro unat_of_nat_small) simp
  have "take (min n (2 ^ 63)) (ds_contents s) = take n (ds_contents s)"
    "drop (min n (2 ^ 63)) (ds_contents s) = drop n (ds_contents s)"
    using s(2) by (simp_all add: min_def)
  then show "\<exists>s'. ds_get n s = Inr (take n (ds_contents s), s') \<and> ds_inv s' \<and> ds_contents s' = drop n (ds_contents s)"
    using ds_read_takes [OF s(1) u] unfolding ds_get_def by (metis prod.collapse)
qed (use ds_write_appends in \<open>fastforce simp: ds_put_def\<close>)

subsection \<open>Character buffers are queues\<close>

definition line_ends :: "u8 list \<Rightarrow> int" where
  "line_ends xs = int (length (filter (\<lambda>x. x = 0 \<or> x = 10) xs))"

lemma line_ends_simps [simp]:
  "line_ends [] = 0" "line_ends (xs @ ys) = line_ends xs + line_ends ys"
  "line_ends (x # xs) = (if x = 0 \<or> x = 10 then 1 else 0) + line_ends xs"
  by (auto simp: line_ends_def)

definition cb_contents :: "char_buffer \<Rightarrow> u8 list" where
  "cb_contents c = take (unat (cb_pos c)) (cb_buf c)"

text \<open>The shape every reachable buffer has while it stays within its initial block.\<close>

definition cb_shape :: "char_buffer \<Rightarrow> bool" where
  "cb_shape c \<longleftrightarrow> cb_size c = 1024 \<and> cb_max c = 0x200000 \<and> cb_pos c \<le> 1024 \<and> 1024 \<le> length (cb_buf c)"

definition cb_inv :: "char_buffer \<Rightarrow> bool" where
  "cb_inv c \<longleftrightarrow> cb_shape c \<and> cb_ignore_bs c \<and> cb_lines c = line_ends (cb_contents c)"

lemma cb_shape_pos: "cb_shape c \<Longrightarrow> unat (cb_pos c) \<le> 1024 \<and> length (cb_contents c) = unat (cb_pos c)"
  by (simp add: cb_shape_def cb_contents_def word_le_nat_alt)

text \<open>The effect of one byte on the contents: a backspace erases unless it is ignored.\<close>

definition edit_char :: "bool \<Rightarrow> u8 list \<Rightarrow> u8 \<Rightarrow> u8 list" where
  "edit_char raw acc x = (if x = 8 \<and> \<not> raw then butlast acc else acc @ [x])"

lemma length_edit_char: "length (edit_char raw acc x) \<le> length acc + 1"
  by (auto simp: edit_char_def)

text \<open>The bytes a write counts: all but the backspaces that find nothing to erase.\<close>

primrec accepted :: "bool \<Rightarrow> u8 list \<Rightarrow> u8 list \<Rightarrow> nat" where
  "accepted raw acc [] = 0"
| "accepted raw acc (x # d) = (if x = 8 \<and> \<not> raw \<and> acc = [] then 0 else 1) + accepted raw (edit_char raw acc x) d"

lemma accepted_0: "accepted raw acc d = 0 \<longleftrightarrow> d = [] \<or> \<not> raw \<and> acc = [] \<and> set d \<subseteq> {8}"
  by (induction d arbitrary: acc) (auto simp: edit_char_def)

lemma accepted_raw [simp]: "accepted True acc d = length d"
  by (induction d arbitrary: acc) simp_all

lemma cb_put_char_edits:
  assumes "cb_shape c" "length (cb_contents c) < 1024"
  shows "\<exists>k c'. cb_put_char x c = Inr (k, c') \<and> cb_shape c' \<and> cb_ignore_bs c' = cb_ignore_bs c
    \<and> cb_contents c' = edit_char (cb_ignore_bs c) (cb_contents c) x
    \<and> k = int (accepted (cb_ignore_bs c) (cb_contents c) [x]) \<and> cb_lines c' = cb_lines c + line_ends [x]"
proof (cases "x = 8 \<and> \<not> cb_ignore_bs c")
  case True
  show ?thesis
  proof (cases "cb_pos c = 0")
    case False
    then have p: "unat (cb_pos c - 1) = unat (cb_pos c) - 1" by (simp add: unat_minus_one)
    then have "cb_contents (c\<lparr>cb_pos := cb_pos c - 1\<rparr>) = butlast (cb_contents c)"
      using cb_shape_pos [OF assms(1)] assms(1) by (simp add: cb_contents_def butlast_take cb_shape_def)
    moreover have "cb_pos c - 1 \<le> 1024"
      using p cb_shape_pos [OF assms(1)] by (auto simp: word_le_nat_alt intro: le_trans [OF diff_le_self])
    moreover have "cb_contents c \<noteq> []" using cb_shape_pos [OF assms(1)] False by (auto simp: unat_eq_zero)
    ultimately show ?thesis using True assms(1) False
      by (auto simp: cb_put_char_def cb_shape_def edit_char_def word_neq_0_conv)
  qed (use True assms(1) in \<open>auto simp: cb_put_char_def edit_char_def cb_contents_def\<close>)
next
  case False
  have pos: "unat (cb_pos c) < 1024" using assms cb_shape_pos by simp
  then have lt: "unat (cb_pos c) < length (cb_buf c)" using assms(1) by (simp add: cb_shape_def)
  have p: "unat (cb_pos c + 1) = Suc (unat (cb_pos c))" using pos by (subst unat_plus_no_wrap) simp_all
  have "cb_put_char x c = Inr (1, c\<lparr>cb_buf := (cb_buf c)[unat (cb_pos c) := x], cb_pos := cb_pos c + 1,
                     cb_lines := cb_lines c + (if x = 0 \<or> x = 10 then 1 else 0)\<rparr>)"
    using False lt by (auto simp: cb_put_char_def)
  moreover have "cb_pos c + 1 \<le> 1024" using p pos by (simp add: word_le_nat_alt)
  ultimately show ?thesis
    using False lt p assms(1) by (auto simp: cb_shape_def cb_contents_def edit_char_def take_list_update_Suc)
qed

lemma cb_put_loop_edits:
  "cb_shape c \<Longrightarrow> length (cb_contents c) + n \<le> 1024 \<Longrightarrow> i + n \<le> length b \<Longrightarrow>
   \<exists>k c'. cb_put_loop b n i w c = Inr (k, c') \<and> cb_shape c' \<and> cb_ignore_bs c' = cb_ignore_bs c
     \<and> cb_contents c' = foldl (edit_char (cb_ignore_bs c)) (cb_contents c) (take n (drop i b))
     \<and> k = w + int (accepted (cb_ignore_bs c) (cb_contents c) (take n (drop i b))) \<and> cb_lines c' = cb_lines c + line_ends (take n (drop i b))"
proof (induction n arbitrary: i w c)
  case (Suc n)
  have len: "length (cb_contents c) < 1024" using Suc.prems(2) by simp
  obtain k c1 where c1: "cb_put_char (b ! i) c = Inr (k, c1)" "cb_shape c1" "cb_ignore_bs c1 = cb_ignore_bs c"
      "cb_contents c1 = edit_char (cb_ignore_bs c) (cb_contents c) (b ! i)"
      "k = int (accepted (cb_ignore_bs c) (cb_contents c) [b ! i])" "cb_lines c1 = cb_lines c + line_ends [b ! i]"
    using cb_put_char_edits [OF Suc.prems(1) len, of "b ! i"] by blast
  have t: "take (Suc n) (drop i b) = b ! i # take n (drop (Suc i) b)"
    using Suc.prems(3) by (simp add: Cons_nth_drop_Suc [symmetric])
  have "length (cb_contents c1) + n \<le> 1024" using c1(4) length_edit_char [of "cb_ignore_bs c" "cb_contents c" "b ! i"] Suc.prems(2) by simp
  moreover have "Suc i + n \<le> length b" using Suc.prems(3) by simp
  ultimately obtain k2 c2 where "cb_put_loop b n (Suc i) (w + k) c1 = Inr (k2, c2)" "cb_shape c2" "cb_ignore_bs c2 = cb_ignore_bs c1"
      "cb_contents c2 = foldl (edit_char (cb_ignore_bs c1)) (cb_contents c1) (take n (drop (Suc i) b))"
      "k2 = w + k + int (accepted (cb_ignore_bs c1) (cb_contents c1) (take n (drop (Suc i) b)))" "cb_lines c2 = cb_lines c1 + line_ends (take n (drop (Suc i) b))"
    using Suc.IH [OF c1(2), of "Suc i" "w + k"] by blast
  then show ?case using c1 t Suc.prems(3) by auto
qed simp

lemma cb_write_edits:
  assumes "cb_shape c" "length (cb_contents c) + length d \<le> 1024"
  shows "\<exists>k c'. cb_write junk d (of_nat (length d)) c = Inr (k, c') \<and> cb_shape c' \<and> cb_ignore_bs c' = cb_ignore_bs c
    \<and> cb_contents c' = foldl (edit_char (cb_ignore_bs c)) (cb_contents c) d
    \<and> k = int (accepted (cb_ignore_bs c) (cb_contents c) d) \<and> cb_lines c' = cb_lines c + line_ends d"
proof -
  have pos: "unat (cb_pos c) + length d \<le> 1024" using assms cb_shape_pos by simp
  then have l: "unat (of_nat (length d) :: u64) = length d" by (intro unat_of_nat_small) simp
  have "unat (cb_pos c + 1024) = unat (cb_pos c) + 1024" using pos by (subst unat_plus_no_wrap) simp_all
  then have max: "\<not> cb_pos c + cb_size c > cb_max c" using assms(1) pos by (simp add: cb_shape_def word_less_nat_alt)
  have "unat (cb_pos c + of_nat (length d)) = unat (cb_pos c) + length d"
    using pos l by (subst unat_plus_no_wrap) simp_all
  then have fit: "\<not> cb_pos c + of_nat (length d) > cb_size c" using assms(1) pos by (simp add: cb_shape_def word_less_nat_alt)
  show ?thesis
  proof (cases "d = []")
    case True
    then show ?thesis using assms(1) max by (simp add: cb_write_def)
  next
    case False
    then have "(of_nat (length d) :: u64) \<noteq> 0" using l by (metis length_0_conv unat_0)
    then have "cb_write junk d (of_nat (length d)) c = cb_put_loop d (length d) 0 0 c"
      using max fit l by (simp add: cb_write_def Let_def)
    then show ?thesis using cb_put_loop_edits [OF assms, of 0 d 0] by simp
  qed
qed

lemma foldl_edit_raw: "foldl (edit_char True) acc d = acc @ d"
  by (induction d arbitrary: acc) (simp_all add: edit_char_def)

lemma cb_get_loop_reads:
  "i + n \<le> length (cb_buf c) \<Longrightarrow> i + n \<le> length b \<Longrightarrow>
   cb_get_loop n i b c
     = Inr (map (\<lambda>j. if i \<le> j \<and> j < i + n \<and> cb_buf c ! j \<noteq> 0 then cb_buf c ! j else b ! j) [0..<length b],
            c\<lparr>cb_lines := cb_lines c - line_ends (take n (drop i (cb_buf c)))\<rparr>)"
proof (induction n arbitrary: i b c)
  case 0
  have "map (\<lambda>j. if i \<le> j \<and> j < i + 0 \<and> cb_buf c ! j \<noteq> 0 then cb_buf c ! j else b ! j) [0..<length b] = map ((!) b) [0..<length b]"
    by (rule map_cong) auto
  then show ?case by (simp add: map_nth)
next
  case (Suc n)
  let ?x = "cb_buf c ! i"
  have t: "take (Suc n) (drop i (cb_buf c)) = ?x # take n (drop (Suc i) (cb_buf c))"
    using Suc.prems(1) by (simp add: Cons_nth_drop_Suc [symmetric])
  define b1 where "b1 = (if ?x = 0 then b else b[i := ?x])"
  define c1 where "c1 = c\<lparr>cb_lines := cb_lines c - line_ends [?x]\<rparr>"
  have b1: "length b1 = length b" and c1: "cb_buf c1 = cb_buf c" by (simp_all add: b1_def c1_def)
  have step: "cb_get_loop (Suc n) i b c = cb_get_loop n (Suc i) b1 c1"
    using Suc.prems by (simp add: Let_def b1_def c1_def)
  have IH: "cb_get_loop n (Suc i) b1 c1
     = Inr (map (\<lambda>j. if Suc i \<le> j \<and> j < Suc i + n \<and> cb_buf c1 ! j \<noteq> 0 then cb_buf c1 ! j else b1 ! j) [0..<length b1],
            c1\<lparr>cb_lines := cb_lines c1 - line_ends (take n (drop (Suc i) (cb_buf c1)))\<rparr>)"
    by (rule Suc.IH) (use Suc.prems b1 c1 in simp_all)
  have "map (\<lambda>j. if Suc i \<le> j \<and> j < Suc i + n \<and> cb_buf c ! j \<noteq> 0 then cb_buf c ! j else b1 ! j) [0..<length b]
      = map (\<lambda>j. if i \<le> j \<and> j < i + Suc n \<and> cb_buf c ! j \<noteq> 0 then cb_buf c ! j else b ! j) [0..<length b]"
    using Suc.prems(2) by (auto simp: b1_def nth_list_update not_less_eq_eq dest: le_antisym)
  moreover have "c1\<lparr>cb_lines := cb_lines c1 - line_ends (take n (drop (Suc i) (cb_buf c)))\<rparr>
      = c\<lparr>cb_lines := cb_lines c - line_ends (take (Suc n) (drop i (cb_buf c)))\<rparr>"
    unfolding t by (simp add: c1_def)
  ultimately show ?case unfolding step IH b1 c1 by (simp only:)
qed

lemma cb_get_loop_zeros:
  assumes "n \<le> m" "n \<le> length (cb_buf c)"
  shows "\<exists>b. cb_get_loop n 0 (replicate m 0) c = Inr (b, c\<lparr>cb_lines := cb_lines c - line_ends (take n (cb_buf c))\<rparr>)
    \<and> take n b = take n (cb_buf c)"
proof -
  let ?b = "map (\<lambda>j. if j < n \<and> cb_buf c ! j \<noteq> 0 then cb_buf c ! j else replicate m 0 ! j) [0..<m]"
  have "take n ?b = take n (cb_buf c)"
    by (rule nth_equalityI) (use assms in auto)
  moreover have "cb_get_loop n 0 (replicate m 0) c = Inr (?b, c\<lparr>cb_lines := cb_lines c - line_ends (take n (cb_buf c))\<rparr>)"
    using cb_get_loop_reads [of 0 n c "replicate m 0"] assms by simp
  ultimately show ?thesis by blast
qed

lemma cb_shift_drops:
  assumes "cb_shape c" "len \<le> cb_pos c"
  shows "\<exists>c'. cb_shift len c = Inr c' \<and> c' = c\<lparr>cb_buf := cb_buf c'\<rparr> \<and> length (cb_buf c') = length (cb_buf c)
    \<and> take (unat (cb_pos c) - unat len) (cb_buf c') = drop (unat len) (cb_contents c)"
proof -
  have len: "unat len \<le> unat (cb_pos c)" "unat (cb_pos c) \<le> 1024" "1024 \<le> length (cb_buf c)" "cb_size c = 1024"
    using assms cb_shape_pos by (auto simp: word_le_nat_alt cb_shape_def)
  have n: "unat (cb_size c - len) = 1024 - unat len"
    using len by (subst unat_minus_no_wrap) (simp_all add: word_le_nat_alt)
  show ?thesis
  proof (cases "unat len = 1024")
    case True
    then show ?thesis using len n by (simp add: cb_shift_def cb_contents_def)
  next
    case False
    let ?ys = "take (1024 - unat len) (drop (unat len) (cb_buf c))"
    have ys: "length ?ys = 1024 - unat len" using len by simp
    have "take (unat (cb_pos c) - unat len) (overwrite (cb_buf c) 0 ?ys) = take (unat (cb_pos c) - unat len) ?ys"
      using len ys by (simp add: overwrite_def)
    also have "\<dots> = drop (unat len) (cb_contents c)"
      using len by (simp add: cb_contents_def drop_take min_def)
    moreover have "length (overwrite (cb_buf c) 0 ?ys) = length (cb_buf c)" using len ys by (intro length_overwrite) simp
    ultimately show ?thesis using False len n by (simp add: cb_shift_def Let_def)
  qed
qed

lemma cb_read_takes:
  assumes inv: "cb_inv c" and len: "unat len = n"
  shows "\<exists>b c'. cb_read (replicate n 0) len c = Inr (of_nat (min n (length (cb_contents c))), b, c')
    \<and> take (min n (length (cb_contents c))) b = take n (cb_contents c)
    \<and> cb_inv c' \<and> cb_contents c' = drop n (cb_contents c)"
proof -
  have sh: "cb_shape c" using inv by (simp add: cb_inv_def)
  note pos = cb_shape_pos [OF sh]
  define l where "l = (if len > cb_pos c then cb_pos c else len)"
  have l12: "unat l = min n (length (cb_contents c))" "l \<le> cb_pos c"
    using pos len by (auto simp: l_def word_less_nat_alt word_le_nat_alt min_def not_less)
  moreover have "of_nat (unat l) = l" by simp
  ultimately have l: "unat l = min n (length (cb_contents c))" "l \<le> cb_pos c" "of_nat (min n (length (cb_contents c))) = l"
    by (simp_all only:)
  show ?thesis
  proof (cases "l = 0")
    case True
    then have "min n (length (cb_contents c)) = 0" using l(1) by simp
    then have "n = 0 \<or> cb_contents c = []" by (auto simp: min_def split: if_splits)
    then show ?thesis using True inv by (auto simp: cb_read_def l_def [symmetric])
  next
    case False
    have le: "unat l \<le> n" "unat l \<le> length (cb_buf c)" using l(1) pos sh by (auto simp: cb_shape_def)
    let ?c = "c\<lparr>cb_lines := cb_lines c - line_ends (take (unat l) (cb_buf c))\<rparr>"
    obtain b where b: "cb_get_loop (unat l) 0 (replicate n 0) c = Inr (b, ?c)" "take (unat l) b = take (unat l) (cb_buf c)"
      using cb_get_loop_zeros [OF le] by blast
    have "cb_shape ?c" using sh by (simp add: cb_shape_def)
    from cb_shift_drops [OF this, of l] obtain c' where c': "cb_shift l ?c = Inr c'" "c' = ?c\<lparr>cb_buf := cb_buf c'\<rparr>"
        "length (cb_buf c') = length (cb_buf c)"
        "take (unat (cb_pos c) - unat l) (cb_buf c') = drop (unat l) (cb_contents c)"
      using l(2) by (auto simp: cb_contents_def)
    let ?r = "c'\<lparr>cb_pos := cb_pos c' - l\<rparr>"
    have read: "cb_read (replicate n 0) len c = Inr (l, b, ?r)"
      using False b c'(1) by (simp add: cb_read_def l_def [symmetric] Let_def)
    have p: "cb_pos c' = cb_pos c" "unat (cb_pos c - l) = unat (cb_pos c) - unat l"
      using arg_cong [OF c'(2), of cb_pos] l(2) by (simp_all add: unat_minus_no_wrap)
    have cont: "cb_contents ?r = drop (unat l) (cb_contents c)"
      using c'(4) p by (simp add: cb_contents_def)
    have pre: "take (unat l) (cb_buf c) = take (unat l) (cb_contents c)" using l(2) by (simp add: cb_contents_def word_le_nat_alt min_def)
    have "line_ends (cb_contents c) = line_ends (take (unat l) (cb_contents c)) + line_ends (drop (unat l) (cb_contents c))"
      by (metis append_take_drop_id line_ends_simps(2))
    then have "cb_lines c' = line_ends (drop (unat l) (cb_contents c))"
      using inv pre arg_cong [OF c'(2), of cb_lines] by (simp add: cb_inv_def)
    moreover have "cb_shape ?r"
      using sh c'(3) p pos arg_cong [OF c'(2), of cb_size] arg_cong [OF c'(2), of cb_max]
      by (auto simp: cb_shape_def word_le_nat_alt intro: le_trans [OF diff_le_self])
    ultimately have "cb_inv ?r" using inv cont arg_cong [OF c'(2), of cb_ignore_bs] by (simp add: cb_inv_def)
    moreover have "take (unat l) (cb_contents c) = take n (cb_contents c)" "drop (unat l) (cb_contents c) = drop n (cb_contents c)"
      using l(1) by (simp_all add: min_def)
    ultimately show ?thesis using read b(2) pre cont l by auto
  qed
qed

definition cb_put :: "(nat \<Rightarrow> u8) \<Rightarrow> u8 list \<Rightarrow> char_buffer \<Rightarrow> char_buffer kres" where
  "cb_put junk d c = kbind (cb_write junk d (of_nat (length d)) c) (\<lambda>(k, c). Inr c)"

definition cb_get :: "nat \<Rightarrow> char_buffer \<Rightarrow> (u8 list \<times> char_buffer) kres" where
  "cb_get n c = kbind (cb_read (replicate (min n (2 ^ 63)) 0) (of_nat (min n (2 ^ 63))) c) (\<lambda>(k, b, c). Inr (take (unat k) b, c))"

interpretation cb: byte_fifo cb_inv cb_contents "cb_put junk" cb_get 1025 for junk
proof
  fix c :: char_buffer and d :: "u8 list"
  assume "cb_inv c" "length (cb_contents c) + length d < 1025"
  then show "\<exists>c'. cb_put junk d c = Inr c' \<and> cb_inv c' \<and> cb_contents c' = cb_contents c @ d"
    using cb_write_edits [of c d junk] by (auto simp: cb_put_def cb_inv_def foldl_edit_raw)
next
  fix c :: char_buffer and n :: nat
  assume c: "cb_inv c" "length (cb_contents c) < 1025"
  define m where "m = min n (2 ^ 63)"
  have u: "unat (of_nat m :: u64) = m" unfolding m_def by (intro unat_of_nat_small) simp
  obtain b c' where r: "cb_read (replicate m 0) (of_nat m) c = Inr (of_nat (min m (length (cb_contents c))), b, c')"
      "take (min m (length (cb_contents c))) b = take m (cb_contents c)" "cb_inv c'" "cb_contents c' = drop m (cb_contents c)"
    using cb_read_takes [OF c(1) u] by blast
  moreover have "unat (of_nat (min m (length (cb_contents c))) :: u64) = min m (length (cb_contents c))"
    using c(2) by (intro unat_of_nat_small) simp
  moreover have "take m (cb_contents c) = take n (cb_contents c)" "drop m (cb_contents c) = drop n (cb_contents c)"
    using c(2) by (simp_all add: m_def min_def)
  ultimately show "\<exists>c'. cb_get n c = Inr (take n (cb_contents c), c') \<and> cb_inv c' \<and> cb_contents c' = drop n (cb_contents c)"
    unfolding cb_get_def m_def [symmetric] by auto
qed

lemma cb_put_loop_raw:
  "cb_ignore_bs c \<Longrightarrow> unat (cb_pos c) \<le> length (cb_buf c) \<Longrightarrow> length (cb_buf c) < 2 ^ 64 \<Longrightarrow> i + n \<le> length b \<Longrightarrow>
   cb_put_loop b n i w c = Inl Out_of_bounds \<or> (\<exists>r. cb_put_loop b n i w c = Inr r)"
  "cb_ignore_bs c \<Longrightarrow> unat (cb_pos c) \<le> length (cb_buf c) \<Longrightarrow> length (cb_buf c) < 2 ^ 64 \<Longrightarrow> i + n \<le> length b \<Longrightarrow>
   (\<exists>r. cb_put_loop b n i w c = Inr r) \<longleftrightarrow> unat (cb_pos c) + n \<le> length (cb_buf c)"
proof (induction n arbitrary: i w c)
  case (Suc n)
  {
    case 1
    then show ?case
      using Suc.IH(1) by (auto simp: cb_put_char_def unat_plus_no_wrap)
  next
    case 2
    show ?case
    proof (cases "unat (cb_pos c) < length (cb_buf c)")
      case True
      then have p: "unat (cb_pos c + 1) = Suc (unat (cb_pos c))" using 2(3) by (subst unat_plus_no_wrap) simp_all
      let ?c = "c\<lparr>cb_buf := (cb_buf c)[unat (cb_pos c) := b ! i], cb_pos := cb_pos c + 1,
                  cb_lines := cb_lines c + (if b ! i = 0 \<or> b ! i = 10 then 1 else 0)\<rparr>"
      have "cb_put_loop b (Suc n) i w c = cb_put_loop b n (i + 1) (w + 1) ?c"
        using True 2(1,4) by (simp add: cb_put_char_def)
      moreover have "(\<exists>r. cb_put_loop b n (i + 1) (w + 1) ?c = Inr r) \<longleftrightarrow> unat (cb_pos ?c) + n \<le> length (cb_buf ?c)"
        by (rule Suc.IH(2)) (use 2 True p in simp_all)
      ultimately show ?thesis using p by simp
    next
      case False
      then show ?thesis using 2 by (simp add: cb_put_char_def)
    qed
  }
qed simp_all

section \<open>Pipes as queues\<close>

text \<open>
  A history of a pipe is a sequence of calls, by any threads and on any ends, with what each returned.  A read
  that goes to sleep has returned nothing; the rest of it is the later \<open>Wake_call\<close> of its thread.
\<close>

datatype pipe_call = Open_call nat | Read_call nat nat u64 | Wake_call nat nat u64 bool | Write_call nat "u8 list" | Close_call nat

datatype pipe_ret = Opened | Closed | Read_ret pipe_io | Write_ret "u64 sysret"

fun run_call :: "(nat \<Rightarrow> u8) \<Rightarrow> pipe_call \<Rightarrow> pipes \<Rightarrow> (pipe_ret \<times> pipes) kres" where
  "run_call junk (Open_call a) p = kbind (pipe_open a p) (\<lambda>p. Inr (Opened, p))"
| "run_call junk (Read_call t a sz) p = kbind (pipe_read t a sz p) (\<lambda>(io, p). Inr (Read_ret io, p))"
| "run_call junk (Wake_call t a sz i) p = kbind (pipe_wake t a sz i p) (\<lambda>(io, p). Inr (Read_ret io, p))"
| "run_call junk (Write_call a d) p = kbind (pipe_write junk a d p) (\<lambda>(n, ws, p). Inr (Write_ret n, p))"
| "run_call junk (Close_call a) p = kbind (pipe_close a p) (\<lambda>p. Inr (Closed, p))"

primrec run_calls :: "(nat \<Rightarrow> u8) \<Rightarrow> pipe_call list \<Rightarrow> pipes \<Rightarrow> (pipe_ret list \<times> pipes) kres" where
  "run_calls junk [] p = Inr ([], p)"
| "run_calls junk (c # cs) p =
     kbind (run_call junk c p) (\<lambda>(ret, p). kbind (run_calls junk cs p) (\<lambda>(rets, p). Inr (ret # rets, p)))"

text \<open>The bytes a read returned, the bytes a write offers, and those of them it reported as written.\<close>

fun delivered :: "pipe_ret \<Rightarrow> u8 list" where
  "delivered (Read_ret (Done (Inr d))) = d"
| "delivered _ = []"

fun offered :: "pipe_call \<Rightarrow> u8 list" where
  "offered (Write_call a d) = d"
| "offered _ = []"

fun stored :: "pipe_call \<Rightarrow> pipe_ret \<Rightarrow> u8 list" where
  "stored (Write_call a d) (Write_ret (Inr n)) = take (unat n) d"
| "stored _ _ = []"

fun on_ends :: "nat \<Rightarrow> nat \<Rightarrow> pipe_call \<Rightarrow> bool" where
  "on_ends r w (Open_call a) = (a \<in> {r, w})"
| "on_ends r w (Read_call t a sz) = (a \<in> {r, w})"
| "on_ends r w (Wake_call t a sz i) = (a \<in> {r, w})"
| "on_ends r w (Write_call a d) = (a \<in> {r, w})"
| "on_ends r w (Close_call a) = False"

definition pipe_inv :: "nat \<Rightarrow> nat \<Rightarrow> pipes \<Rightarrow> bool" where
  "pipe_inv r w p \<longleftrightarrow> ds_inv (p_stream p) \<and> (\<forall>e. p_ends p r = Some e \<longrightarrow> p_end e = ReadEnd) \<and> (\<forall>e. p_ends p w = Some e \<longrightarrow> p_end e = WriteEnd)"

definition pipe_live :: "nat \<Rightarrow> nat \<Rightarrow> pipes \<Rightarrow> bool" where
  "pipe_live r w p \<longleftrightarrow> (\<exists>e f. p_ends p r = Some e \<and> p_ends p w = Some f \<and> p_end e = ReadEnd \<and> p_other f = Some r)"

definition pipe_contents :: "pipes \<Rightarrow> u8 list" where
  "pipe_contents p = ds_contents (p_stream p)"

lemma pipe_contents_set_end [simp]: "pipe_contents (set_end a e p) = pipe_contents p"
  by (simp add: pipe_contents_def set_end_def)

lemma pipe_inv_set_end: "pipe_inv r w p \<Longrightarrow> p_ends p a = Some e \<Longrightarrow> p_end e' = p_end e \<Longrightarrow> pipe_inv r w (set_end a e' p)"
  by (simp add: pipe_inv_def set_end_def)

lemma pipe_live_set_end:
  "pipe_live r w p \<Longrightarrow> p_ends p a = Some e \<Longrightarrow> p_end e' = p_end e \<Longrightarrow> p_other e' = p_other e \<Longrightarrow> pipe_live r w (set_end a e' p)"
  by (auto simp: pipe_live_def set_end_def)

lemma pipe_live_stream [simp]: "pipe_live r w (p\<lparr>p_stream := st\<rparr>) = pipe_live r w p"
  by (simp add: pipe_live_def)

lemma pipe_take_correct:
  assumes "pipe_inv r w p" "pipe_take sz p = (io, p')"
  shows "io = Done (Inr (take (unat sz) (pipe_contents p)))" "pipe_inv r w p'"
    "pipe_contents p' = drop (unat sz) (pipe_contents p)" "\<exists>st. p' = p\<lparr>p_stream := st\<rparr>"
proof -
  let ?st = "p_stream p"
  have inv: "ds_inv ?st" using assms(1) by (simp add: pipe_inv_def)
  have pos: "length (ds_contents ?st) = unat (ds_pos ?st)" using inv by (simp add: ds_inv_def ds_contents_def word_le_nat_alt)
  have m: "unat (min sz (ds_pos ?st)) = min (unat sz) (length (ds_contents ?st))" using pos by (auto simp: min_def word_le_nat_alt)
  obtain d st where r: "ds_read (min sz (ds_pos ?st)) ?st = (d, st)" by (cases "ds_read (min sz (ds_pos ?st)) ?st")
  have d: "d = take (unat sz) (ds_contents ?st)" "ds_inv st" "ds_contents st = drop (unat sz) (ds_contents ?st)"
    using ds_read_takes [OF inv m] r by (simp_all add: min_def split: if_splits)
  have "io = Done (Inr d)" "p' = p\<lparr>p_stream := st\<rparr>" using assms(2) r by (simp_all add: pipe_take_def)
  then show "io = Done (Inr (take (unat sz) (pipe_contents p)))" "pipe_inv r w p'"
    "pipe_contents p' = drop (unat sz) (pipe_contents p)" "\<exists>st. p' = p\<lparr>p_stream := st\<rparr>"
    using d assms(1) by (auto simp: pipe_contents_def pipe_inv_def)
qed

text \<open>What a read of the read end does: it sleeps exactly when the pipe is empty and its writer is there.\<close>

lemma pipe_read_correct:
  assumes "pipe_inv r w p" "p_ends p r = Some e"
  shows "\<exists>p'. pipe_read t r sz p
    = Inr (if pipe_contents p = [] \<and> \<not> p_widowed e then Sleep else Done (Inr (take (unat sz) (pipe_contents p))), p')"
proof -
  have "length (pipe_contents p) = unat (ds_pos (p_stream p))"
    using assms(1) by (simp add: pipe_inv_def ds_inv_def ds_contents_def pipe_contents_def word_le_nat_alt)
  then have em: "pipe_contents p = [] \<longleftrightarrow> ds_empty (p_stream p)" by (simp add: ds_empty_def unat_eq_zero flip: length_0_conv)
  obtain io p' where t: "pipe_take sz p = (io, p')" by (cases "pipe_take sz p")
  show ?thesis using assms em t pipe_take_correct(1) [OF assms(1) t] by (auto simp: pipe_read_def pipe_inv_def)
qed

lemma pipe_write_correct:
  assumes "pipe_inv r w p" "length (pipe_contents p) + length d < 2 ^ 63" "pipe_write junk a d p = Inr (n, ws, p')"
  shows "pipe_inv r w p' \<and> pipe_contents p' = pipe_contents p @ (case n of Inl e \<Rightarrow> [] | Inr m \<Rightarrow> d)
    \<and> (\<forall>m. n = Inr m \<longrightarrow> unat m = length d)"
proof -
  obtain st where st: "ds_write junk d (p_stream p) = Inr (of_nat (length d), st)" "ds_inv st"
      "ds_contents st = ds_contents (p_stream p) @ d"
    using ds_write_appends assms(1,2) by (fastforce simp: pipe_inv_def pipe_contents_def)
  have l: "unat (of_nat (length d) :: u64) = length d" using assms(2) by (intro unat_of_nat_small) simp
  obtain e where e: "p_ends p a = Some e" using assms(3) by (auto simp: pipe_write_def split: option.splits)
  show ?thesis
  proof (cases "p_end e \<noteq> WriteEnd \<or> p_widowed e")
    case True
    then show ?thesis using assms(1,3) e by (auto simp: pipe_write_def split: if_splits)
  next
    case False
    then obtain b f where b: "p_ends p b = Some f" "n = Inr (of_nat (length d))" "p' = set_end b (f\<lparr>p_watching := []\<rparr>) (p\<lparr>p_stream := st\<rparr>)"
      using assms(3) e st(1) by (auto simp: pipe_write_def option_Inr_iff split: option.splits)
    have "pipe_inv r w (p\<lparr>p_stream := st\<rparr>)" using assms(1) st(2) by (simp add: pipe_inv_def)
    then have "pipe_inv r w p'" using b(1) unfolding b(3) by (intro pipe_inv_set_end) auto
    then show ?thesis using b l st(3) by (simp add: pipe_contents_def set_end_def)
  qed
qed

lemma pipe_close_correct:
  assumes "pipe_inv r w p" "pipe_close a p = Inr p'"
  shows "pipe_inv r w p' \<and> pipe_contents p' = pipe_contents p"
proof -
  obtain e where e: "p_ends p a = Some e" using assms(2) by (auto simp: pipe_close_def split: option.splits)
  show ?thesis using assms e
    by (auto simp: pipe_close_def Let_def pipe_inv_def pipe_contents_def set_end_def split: option.splits if_splits)
qed

lemma run_call_correct:
  assumes inv: "pipe_inv r w p" and len: "length (pipe_contents p) + length (offered c) < 2 ^ 63"
    and run: "run_call junk c p = Inr (ret, p')"
  shows "pipe_inv r w p' \<and> pipe_contents p @ stored c ret = delivered ret @ pipe_contents p' \<and> length (stored c ret) \<le> length (offered c)"
proof (cases c)
  case (Open_call a)
  then show ?thesis using run inv by (auto simp: pipe_open_def split: option.splits intro!: pipe_inv_set_end)
next
  case (Read_call t a sz)
  obtain io q where t: "pipe_take sz p = (io, q)" by (cases "pipe_take sz p")
  show ?thesis using run inv pipe_take_correct [OF inv t]
    by (auto simp: Read_call pipe_read_def t split: option.splits if_splits intro!: pipe_inv_set_end)
next
  case (Wake_call t a sz i)
  obtain e where e: "p_ends p a = Some e" using run by (auto simp: Wake_call pipe_wake_def split: option.splits)
  let ?p = "set_end a (e\<lparr>p_blocked := remove1 t (p_blocked e)\<rparr>) p"
  have 1: "pipe_inv r w ?p" using inv e by (intro pipe_inv_set_end) auto
  obtain io q where t: "pipe_take sz ?p = (io, q)" by (cases "pipe_take sz ?p")
  show ?thesis using run 1 e pipe_take_correct [OF 1 t] by (cases i) (auto simp: Wake_call pipe_wake_def t Let_def)
next
  case (Write_call a d)
  then obtain n ws where w: "pipe_write junk a d p = Inr (n, ws, p')" "ret = Write_ret n" using run by auto
  show ?thesis using pipe_write_correct [OF inv _ w(1)] len w(2) Write_call by (cases n) auto
next
  case (Close_call a)
  then show ?thesis using run pipe_close_correct [OF inv] by auto
qed

lemma run_calls_correct:
  "pipe_inv r w p \<Longrightarrow> length (pipe_contents p) + length (concat (map offered cs)) < 2 ^ 63 \<Longrightarrow> run_calls junk cs p = Inr (rets, p') \<Longrightarrow>
   pipe_inv r w p' \<and> length rets = length cs
   \<and> pipe_contents p @ concat (map2 stored cs rets) = concat (map delivered rets) @ pipe_contents p'"
proof (induction cs arbitrary: p rets)
  case (Cons c cs)
  then obtain ret p1 rets1 where 1: "run_call junk c p = Inr (ret, p1)" "run_calls junk cs p1 = Inr (rets1, p')" "rets = ret # rets1"
    by (auto simp del: run_call.simps)
  have "length (pipe_contents p) + length (offered c) < 2 ^ 63" using Cons.prems(2) by simp
  note A = run_call_correct [OF Cons.prems(1) this 1(1)]
  have "length (pipe_contents p) + length (stored c ret) = length (delivered ret) + length (pipe_contents p1)"
    using arg_cong [OF conjunct1 [OF conjunct2 [OF A]], of length] by simp
  then have "length (pipe_contents p1) \<le> length (pipe_contents p) + length (offered c)" using A by linarith
  then have "length (pipe_contents p1) + length (concat (map offered cs)) < 2 ^ 63" using Cons.prems(2) by simp
  note B = Cons.IH [OF conjunct1 [OF A] this 1(2)]
  have "pipe_contents p @ stored c ret @ concat (map2 stored cs rets1) = (delivered ret @ pipe_contents p1) @ concat (map2 stored cs rets1)"
    using A by (metis append.assoc)
  also have "\<dots> = delivered ret @ concat (map delivered rets1) @ pipe_contents p'" using B by simp
  finally show ?case using B 1(3) by simp
qed simp

text \<open>While no end is closed, every call on the ends returns.\<close>

lemma run_call_live:
  assumes "pipe_live r w p" "pipe_inv r w p" "on_ends r w c" "length (pipe_contents p) + length (offered c) < 2 ^ 63"
  shows "\<exists>ret p'. run_call junk c p = Inr (ret, p') \<and> pipe_live r w p'"
proof -
  obtain e f where e: "p_ends p r = Some e" "p_ends p w = Some f" "p_end e = ReadEnd" "p_other f = Some r"
    using assms(1) by (auto simp: pipe_live_def)
  have a: "\<exists>g. p_ends p a = Some g" if "a \<in> {r, w}" for a using that e by auto
  have take: "pipe_live r w q'" if "pipe_live r w q" "pipe_inv r w q" "pipe_take sz q = (io, q')" for q q' sz io
    using pipe_take_correct(4) [OF that(2,3)] that(1) by auto
  show ?thesis
  proof (cases c)
    case (Open_call b)
    then show ?thesis using a [of b] assms(1,3) by (auto simp: pipe_open_def intro!: pipe_live_set_end)
  next
    case (Read_call t b sz)
    then obtain g where "p_ends p b = Some g" using a [of b] assms(3) by auto
    then show ?thesis using assms(1) take [OF assms(1,2), of sz] unfolding Read_call
      by (cases "pipe_take sz p") (auto simp: pipe_read_def intro!: pipe_live_set_end)
  next
    case (Wake_call t b sz i)
    then obtain g where g: "p_ends p b = Some g" using a [of b] assms(3) by auto
    let ?p = "set_end b (g\<lparr>p_blocked := remove1 t (p_blocked g)\<rparr>) p"
    have 1: "pipe_live r w ?p" "pipe_inv r w ?p" using assms(1,2) g by (auto intro!: pipe_live_set_end pipe_inv_set_end)
    then show ?thesis using g take [OF 1, of sz] unfolding Wake_call
      by (cases "pipe_take sz ?p") (auto simp: pipe_wake_def Let_def)
  next
    case (Write_call b d)
    obtain st where st: "ds_write junk d (p_stream p) = Inr (of_nat (length d), st)"
      using ds_write_appends assms(2,4) Write_call by (fastforce simp: pipe_inv_def pipe_contents_def)
    have b: "b = r \<or> b = w" using assms(3) Write_call by auto
    have "pipe_live r w (set_end r (e\<lparr>p_watching := []\<rparr>) (p\<lparr>p_stream := st\<rparr>))"
      using assms(1) e(1) by (intro pipe_live_set_end) auto
    then show ?thesis using b e st assms(1) unfolding Write_call by (auto simp: pipe_write_def)
  next
    case (Close_call b)
    then show ?thesis using assms(3) by simp
  qed
qed

lemma run_calls_live:
  "pipe_live r w p \<Longrightarrow> pipe_inv r w p \<Longrightarrow> list_all (on_ends r w) cs \<Longrightarrow>
   length (pipe_contents p) + length (concat (map offered cs)) < 2 ^ 63 \<Longrightarrow> \<exists>rets p'. run_calls junk cs p = Inr (rets, p')"
proof (induction cs arbitrary: p)
  case (Cons c cs)
  have l: "length (pipe_contents p) + length (offered c) < 2 ^ 63" using Cons.prems(4) by simp
  obtain ret p1 where 1: "run_call junk c p = Inr (ret, p1)" "pipe_live r w p1"
    using run_call_live [OF Cons.prems(1,2) _ l, of junk] Cons.prems(3) by auto
  note A = run_call_correct [OF Cons.prems(2) l 1(1)]
  have "length (pipe_contents p) + length (stored c ret) = length (delivered ret) + length (pipe_contents p1)"
    using arg_cong [OF conjunct1 [OF conjunct2 [OF A]], of length] by simp
  then have "length (pipe_contents p1) \<le> length (pipe_contents p) + length (offered c)" using A by linarith
  then show ?case using Cons.IH [OF 1(2) conjunct1 [OF A]] Cons.prems(3,4) 1(1) by (auto simp del: run_call.simps)
qed simp

lemma create_pipe_inv:
  "r \<noteq> w \<Longrightarrow> pipe_inv r w (create_pipe junk r w) \<and> pipe_live r w (create_pipe junk r w) \<and> pipe_contents (create_pipe junk r w) = []"
  by (simp add: pipe_inv_def pipe_live_def create_pipe_def unix_pipe_new_def data_stream_new_def ds_inv_def pipe_contents_def ds_contents_def)

text \<open>The sleeping reader of an end that has not been deleted.\<close>

definition sleeps :: "nat \<Rightarrow> nat \<Rightarrow> pipes \<Rightarrow> bool" where
  "sleeps t a p \<longleftrightarrow> (case p_ends p a of None \<Rightarrow> True | Some e \<Rightarrow> t \<in> set (p_blocked e))"

lemma sleeps_set_end:
  "sleeps t a p \<Longrightarrow> (b = a \<Longrightarrow> t \<in> set (p_blocked e)) \<Longrightarrow> sleeps t a (set_end b e p)"
  by (simp add: sleeps_def set_end_def)

lemma sleeps_stream [simp]: "sleeps t a (p\<lparr>p_stream := st\<rparr>) = sleeps t a p"
  by (simp add: sleeps_def)

lemma sleeps_end: "sleeps t a p \<Longrightarrow> p_ends p a = Some e \<Longrightarrow> t \<in> set (p_blocked e)"
  by (simp add: sleeps_def)

lemma sleeps_take [simp]: "sleeps t a (snd (pipe_take sz p)) = sleeps t a p"
  by (simp add: pipe_take_def split: prod.splits)

lemma sleeps_taken: "pipe_take sz p = (io, p') \<Longrightarrow> sleeps t a p' = sleeps t a p"
  using sleeps_take [of t a sz p] by simp

lemma pipe_step_sleeps:
  assumes "pipe_step t a p p'" "sleeps t a p"
  shows "sleeps t a p'"
  using assms(1)
proof cases
  case (step_open b)
  then show ?thesis using assms(2) by (auto simp: pipe_open_def split: option.splits intro!: sleeps_set_end dest: sleeps_end)
next
  case (step_read u b sz io)
  then show ?thesis using assms(2)
    by (auto simp: pipe_read_def sleeps_taken split: option.splits if_splits intro!: sleeps_set_end dest: sleeps_end)
next
  case (step_wake u b sz i io)
  then obtain e where e: "p_ends p b = Some e" by (auto simp: pipe_wake_def split: option.splits)
  have "t \<in> set (remove1 u (p_blocked e))" if "b = a"
    using sleeps_end [OF assms(2)] e that step_wake(2) by (cases "u = t") auto
  then have "sleeps t a (set_end b (e\<lparr>p_blocked := remove1 u (p_blocked e)\<rparr>) p)"
    using assms(2) by (intro sleeps_set_end) auto
  then show ?thesis using step_wake(1) e
    by (auto simp: pipe_wake_def Let_def sleeps_taken split: if_splits)
next
  case (step_write junk b data n ws)
  then show ?thesis using assms(2)
    by (auto simp: pipe_write_def option_Inr_iff split: if_split_asm intro!: sleeps_set_end dest: sleeps_end)
next
  case (step_close b)
  have del: "sleeps t a q \<Longrightarrow> sleeps t a (q\<lparr>p_ends := (p_ends q)(b := None)\<rparr>)" for q
    by (simp add: sleeps_def)
  obtain e where e: "p_ends p b = Some e" using step_close by (auto simp: pipe_close_def split: option.splits)
  have se: "sleeps t a (set_end b (e\<lparr>p_handles := p_handles e - 1\<rparr>) p)" (is "sleeps t a ?q")
    using assms(2) e by (intro sleeps_set_end) (auto dest: sleeps_end)
  have "sleeps t a (set_end c (f\<lparr>p_widowed := True\<rparr>) ?q)" if "p_ends ?q c = Some f" for c f
    by (rule sleeps_set_end [OF se]) (use sleeps_end [OF se] that in simp)
  then show ?thesis using step_close e se del
    by (auto simp: pipe_close_def Let_def split: option.splits if_splits)
qed

section \<open>Properties\<close>

text \<open>
  C20. A pipe delivers bytes in order.  Take any sequence of opens, reads, wake-ups of sleeping readers, writes
  and closes, by any threads, on a fresh pipe, with fewer than \<open>2 ^ 63\<close> bytes offered in all.  The calls all
  return when they go to the two ends and none is a close; and whenever they all return, the bytes the writes
  reported as written are, in order, the bytes the reads returned followed by what the pipe still holds.  A read
  of the read end then sleeps exactly if the pipe is empty and its write end has not been closed, and otherwise
  returns the next bytes, as many as it asked for and the pipe has.
\<close>

theorem pipe_fifo:
  assumes "r \<noteq> w" "length (concat (map offered cs)) < 2 ^ 63"
  shows "(list_all (on_ends r w) cs \<longrightarrow> (\<exists>rets p. run_calls junk cs (create_pipe junk r w) = Inr (rets, p)))
    \<and> (\<forall>rets p. run_calls junk cs (create_pipe junk r w) = Inr (rets, p) \<longrightarrow>
         concat (map2 stored cs rets) = concat (map delivered rets) @ ds_contents (p_stream p)
         \<and> (\<forall>t sz e. p_ends p r = Some e \<longrightarrow> (\<exists>p'. pipe_read t r sz p
              = Inr (if ds_contents (p_stream p) = [] \<and> \<not> p_widowed e then Sleep
                     else Done (Inr (take (unat sz) (ds_contents (p_stream p)))), p'))))"
proof (intro conjI impI allI)
  note c = create_pipe_inv [OF assms(1), of junk]
  show "\<exists>rets p. run_calls junk cs (create_pipe junk r w) = Inr (rets, p)" if "list_all (on_ends r w) cs"
    using run_calls_live [of r w "create_pipe junk r w" cs junk] that c assms(2) by simp
  fix rets p
  assume "run_calls junk cs (create_pipe junk r w) = Inr (rets, p)"
  then have *: "pipe_inv r w p" "concat (map2 stored cs rets) = concat (map delivered rets) @ pipe_contents p"
    using run_calls_correct [of r w "create_pipe junk r w" cs junk rets p] c assms(2) by simp_all
  show "concat (map2 stored cs rets) = concat (map delivered rets) @ ds_contents (p_stream p)"
    using *(2) by (simp add: pipe_contents_def)
  show "\<exists>p'. pipe_read t r sz p = Inr (if ds_contents (p_stream p) = [] \<and> \<not> p_widowed e then Sleep
          else Done (Inr (take (unat sz) (ds_contents (p_stream p)))), p')" if "p_ends p r = Some e" for t sz e
    using pipe_read_correct [OF *(1) that, of t sz] unfolding pipe_contents_def .
qed

lemma pipe_fifo_witness:
  "let cs = [Read_call 7 1 2, Write_call 2 [1, 2, 3], Read_call 8 1 2, Wake_call 7 1 2 False, Write_call 2 [4]] in
   \<exists>rets p. run_calls (\<lambda>_. 0) cs (create_pipe (\<lambda>_. 0) 1 2) = Inr (rets, p)
     \<and> concat (map2 stored cs rets) = concat (map delivered rets) @ ds_contents (p_stream p)"
proof -
  let ?cs = "[Read_call 7 1 2, Write_call 2 [1, 2, 3], Read_call 8 1 2, Wake_call 7 1 2 False, Write_call 2 [4]] :: pipe_call list"
  have p: "(1 :: nat) \<noteq> 2" "length (concat (map offered ?cs)) < 2 ^ 63" "list_all (on_ends 1 2) ?cs" by simp_all
  note T = pipe_fifo [OF p(1,2), of "\<lambda>_. 0"]
  from T p(3) obtain rets q where r: "run_calls (\<lambda>_. 0) ?cs (create_pipe (\<lambda>_. 0) 1 2) = Inr (rets, q)" by blast
  moreover from T r have "concat (map2 stored ?cs rets) = concat (map delivered rets) @ ds_contents (p_stream q)" by blast
  ultimately show ?thesis unfolding Let_def by blast
qed

text \<open>
  A reader that sleeps on a pipe is woken by nothing that happens to the pipe: whatever opens, reads, writes
  and closes other threads perform, it stays in the list of blockers of its end for as long as that end exists.
  Only a signal ends its sleep: \<open>write\<close> signals watchers, and nobody ever becomes one.
\<close>

theorem pipe_reader_sleeps_on:
  assumes "p_ends p a = Some e" "t \<in> set (p_blocked e)" "(pipe_step t a)\<^sup>*\<^sup>* p p'"
  shows "case p_ends p' a of None \<Rightarrow> True | Some e' \<Rightarrow> t \<in> set (p_blocked e')"
proof -
  have "sleeps t a p" using assms(1,2) by (simp add: sleeps_def)
  with assms(3) have "sleeps t a p'" by (induction rule: rtranclp_induct) (auto intro: pipe_step_sleeps)
  then show ?thesis by (simp add: sleeps_def)
qed

lemma pipe_reader_sleeps_on_witness:
  "let e = (unix_pipe_new ReadEnd 2)\<lparr>p_blocked := [7]\<rparr>; p = set_end 1 e (create_pipe (\<lambda>_. 0) 1 2);
       q = snd (snd (projr (pipe_write (\<lambda>_. 0) 2 [65] p)))
   in p_ends q 1 \<noteq> None \<and> (case p_ends q 1 of None \<Rightarrow> True | Some e' \<Rightarrow> 7 \<in> set (p_blocked e'))"
proof -
  let ?e = "(unix_pipe_new ReadEnd 2)\<lparr>p_blocked := [7]\<rparr>"
  let ?p = "set_end 1 ?e (create_pipe (\<lambda>_. 0) 1 2)"
  have p: "pipe_inv 1 2 ?p" "pipe_live 1 2 ?p" "pipe_contents ?p = []"
    by (simp_all add: pipe_inv_def pipe_live_def pipe_contents_def set_end_def create_pipe_def unix_pipe_new_def data_stream_new_def ds_inv_def ds_contents_def)
  obtain n ws q where q: "pipe_write (\<lambda>_. 0) 2 [65] ?p = Inr (n, ws, q)"
    using run_call_live [OF p(2,1), of "Write_call 2 [65]" "\<lambda>_. 0"] p(3) by auto
  then have alive: "p_ends q 1 \<noteq> None"
    by (auto simp: pipe_write_def set_end_def create_pipe_def unix_pipe_new_def)
  have "(pipe_step 7 1)\<^sup>*\<^sup>* ?p q" using q by (blast intro: pipe_step.intros)
  from pipe_reader_sleeps_on [OF _ _ this, of ?e] show ?thesis using q alive by (simp add: Let_def set_end_def)
qed

text \<open>
  Closing both ends of a pipe touches freed memory: once one end has been closed for the last time it is
  deleted, the other end still points to it, and closing that one for the last time writes through the pointer.
\<close>

theorem pipe_close_both_faults:
  assumes "a = r \<and> b = w \<or> a = w \<and> b = r" "r \<noteq> w"
    "pipe_open a (create_pipe junk r w) = Inr p1" "pipe_open b p1 = Inr p2" "pipe_close a p2 = Inr p3"
  shows "pipe_close b p3 = Inl Use_after_free"
  using assms
  by (auto simp: pipe_open_def pipe_close_def create_pipe_def unix_pipe_new_def set_end_def Let_def)

lemma pipe_close_both_faults_witness:
  "kbind (kbind (kbind (kbind (pipe_open 1 (create_pipe (\<lambda>_. 0) 1 2)) (pipe_open 2)) (pipe_close 1)) (\<lambda>p. Inr p)) (pipe_close 2)
     = Inl Use_after_free"
proof -
  obtain p1 p2 p3 where p: "pipe_open 1 (create_pipe (\<lambda>_. 0) 1 2) = Inr p1" "pipe_open 2 p1 = Inr p2" "pipe_close 1 p2 = Inr p3"
    by (simp add: pipe_open_def pipe_close_def create_pipe_def unix_pipe_new_def set_end_def)
  then show ?thesis using pipe_close_both_faults [of 1 1 2 2 "\<lambda>_. 0" p1 p2 p3] by simp
qed

text \<open>
  A character buffer in raw mode is a first-in first-out queue of up to 1024 bytes, and its line counter is
  the number of line ends it holds: starting empty, any sequence of writes of at most 1024 bytes in all and of
  reads succeeds, and what was read followed by what is left is what was written.
\<close>

theorem char_buffer_fifo:
  assumes "length (written ops) \<le> 1024"
  shows "\<exists>out c. fifo_run (cb_put junk) cb_get ops (set_ignore_backspace True (char_buffer_new junk 0 0)) = Inr (out, c)
    \<and> written ops = out @ cb_contents c \<and> cb_lines c = line_ends (cb_contents c)"
proof -
  let ?c = "set_ignore_backspace True (char_buffer_new junk 0 0)"
  have "cb_inv ?c" "cb_contents ?c = []"
    by (simp_all add: cb_inv_def cb_shape_def cb_contents_def set_ignore_backspace_def char_buffer_new_def)
  with cb.run_is_fifo [of ?c ops junk] assms show ?thesis by (auto simp: cb_inv_def)
qed

lemma char_buffer_fifo_witness:
  "\<exists>out c. fifo_run (cb_put (\<lambda>_. 0)) cb_get [Put [104, 105, 10], Get 2] (set_ignore_backspace True (char_buffer_new (\<lambda>_. 0) 0 0)) = Inr (out, c)
    \<and> [104, 105, 10] = out @ cb_contents c \<and> cb_lines c = line_ends (cb_contents c)"
  using char_buffer_fifo [of "[Put [104, 105, 10], Get 2]" "\<lambda>_. 0"] by simp

text \<open>
  A character buffer does not hold what its limit of 2 MiB promises: a write to an empty raw buffer runs
  past the block exactly when it has more than 1152 bytes, because \<open>realloc\<close> is asked for the initial size plus
  128 whatever the size of the write.
\<close>

theorem char_buffer_overflow:
  assumes "cb_shape c" "cb_ignore_bs c" "cb_pos c = 0" "length (cb_buf c) = 1024" "length d < 2 ^ 63"
  shows "cb_write junk d (of_nat (length d)) c = Inl Out_of_bounds \<longleftrightarrow> 1152 < length d"
proof (cases "d = []")
  case False
  have l: "unat (of_nat (length d) :: u64) = length d" using assms(5) by (intro unat_of_nat_small) simp
  then have nz: "(of_nat (length d) :: u64) \<noteq> 0" using False by (metis length_0_conv unat_0)
  have sh: "cb_size c = 1024" "cb_max c = 0x200000" using assms(1) by (simp_all add: cb_shape_def)
  define c1 where "c1 = (if (of_nat (length d) :: u64) > 1024 then c\<lparr>cb_buf := realloc_bytes junk 1152 (cb_buf c)\<rparr> else c)"
  have w: "cb_write junk d (of_nat (length d)) c = cb_put_loop d (length d) 0 0 c1"
    using assms(3) sh nz l by (simp add: cb_write_def c1_def Let_def)
  have c1: "cb_ignore_bs c1" "cb_pos c1 = 0" "length (cb_buf c1) = (if 1024 < length d then 1152 else 1024)"
    using assms(2-4) l by (simp_all add: c1_def word_less_nat_alt)
  then have "(\<exists>r. cb_put_loop d (length d) 0 0 c1 = Inr r) \<longleftrightarrow> length d \<le> length (cb_buf c1)"
    using cb_put_loop_raw(2) [of c1 0 "length d" d 0] by simp
  moreover have "cb_put_loop d (length d) 0 0 c1 = Inl Out_of_bounds \<or> (\<exists>r. cb_put_loop d (length d) 0 0 c1 = Inr r)"
    using cb_put_loop_raw(1) [of c1 0 "length d" d 0] c1 by simp
  ultimately show ?thesis using w c1(3) by (auto split: if_splits)
qed (use assms in \<open>simp add: cb_write_def cb_shape_def\<close>)

lemma char_buffer_overflow_witness:
  "cb_write (\<lambda>_. 0) (replicate 2000 65) 2000 (set_ignore_backspace True (char_buffer_new (\<lambda>_. 0) 0 0)) = Inl Out_of_bounds"
proof -
  let ?c = "set_ignore_backspace True (char_buffer_new (\<lambda>_. 0) 0 0)"
  have "cb_shape ?c" "cb_ignore_bs ?c" "cb_pos ?c = 0" "length (cb_buf ?c) = 1024"
    by (simp_all add: cb_shape_def set_ignore_backspace_def char_buffer_new_def)
  from char_buffer_overflow [OF this, of "replicate 2000 65" "\<lambda>_. 0"] show ?thesis by simp
qed

end
