(* ===== verification/Keyboard.thy ===== *)
theory Keyboard
  imports Streams
begin

unbundle bit_operations_syntax

text \<open>
  The PS/2 keyboard device of \<^verbatim>\<open>Kernel/src/arch/x86_64/keyboard.cpp\<close>: a ring of 256 bytes whose three indices
  are bytes, so that their increments wrap at the size of the ring.  The device ports are arguments: the status
  port is the sequence of values it will show.  The commands sent by \<open>ps2_initialize\<close> are not modelled.
\<close>

section \<open>Model\<close>

record kbd =
  k_start :: u8
  k_end :: u8
  k_count :: u8
  k_buffer :: "u8 \<Rightarrow> u8"

definition keyboard_device :: "(u8 \<Rightarrow> u8) \<Rightarrow> kbd" where
  "keyboard_device junk = \<lparr>k_start = 0, k_end = 0, k_count = 0, k_buffer = junk\<rparr>"

definition read_key :: "kbd \<Rightarrow> u8 option \<times> kbd" where
  "read_key k =
     (if k_count k = 0 then (None, k)
      else (Some (k_buffer k (k_start k)), k\<lparr>k_count := k_count k - 1, k_start := k_start k + 1\<rparr>))"

text \<open>The loop of \<open>read\<close> while \<open>i < size\<close>; \<open>rounds\<close> is how often it can still run.\<close>

primrec kbd_read_loop :: "nat \<Rightarrow> u8 list \<Rightarrow> kbd \<Rightarrow> u8 list \<times> kbd" where
  "kbd_read_loop 0 acc k = (acc, k)"
| "kbd_read_loop (Suc rounds) acc k =
     (case read_key k of (None, k) \<Rightarrow> (acc, k) | (Some x, k) \<Rightarrow> kbd_read_loop rounds (acc @ [x]) k)"

text \<open>
  The counter of the loop is not initialised; \<open>i0\<close> is the value it happens to have.  The result is the number
  returned and the keys stored in the caller's buffer.
\<close>

definition kbd_read :: "u8 \<Rightarrow> u64 \<Rightarrow> kbd \<Rightarrow> nat \<times> u8 list \<times> kbd" where
  "kbd_read i0 sz k =
     (let sz = min sz (ucast (k_count k)) in
      if sz = 0 then (0, [], k)
      else let (keys, k) = kbd_read_loop (unat sz - unat i0) [] k in (unat i0 + length keys, keys, k))"

primrec kbd_write_loop :: "u8 list \<Rightarrow> kbd \<Rightarrow> kbd" where
  "kbd_write_loop [] k = k"
| "kbd_write_loop (x # xs) k =
     kbd_write_loop xs (k\<lparr>k_buffer := (k_buffer k)(k_end k := x), k_end := k_end k + 1, k_count := k_count k + 1\<rparr>)"

text \<open>The loop counter is a byte: 256 rounds are never counted to the end.\<close>

definition kbd_write :: "u8 list \<Rightarrow> kbd \<Rightarrow> (nat \<times> kbd) kres" where
  "kbd_write data k =
     (let n = min (length data) (256 - unat (k_count k)) in
      if n = 0 then Inr (0, k)
      else if n = 256 then Inl Loops
      else Inr (n, kbd_write_loop (take n data) k))"

text \<open>Waiting for the controller: up to 10000 looks at the status port.\<close>

fun kbd_poll :: "nat \<Rightarrow> u8 list \<Rightarrow> u8 \<Rightarrow> (u8 \<times> u8 list) kres" where
  "kbd_poll 0 status data = Inl (Panic ''PS/2 read failure'')"
| "kbd_poll (Suc n) [] data = Inl (Panic ''PS/2 read failure'')"
| "kbd_poll (Suc n) (s # status) data = (if s AND 1 \<noteq> 0 then Inr (data, status) else kbd_poll n status data)"

definition ps2_kbd_handler :: "u8 list \<Rightarrow> u8 \<Rightarrow> kbd \<Rightarrow> kbd kres" where
  "ps2_kbd_handler status data k =
     kbind (kbd_poll 10000 status data) (\<lambda>(sc, rest). kbind (kbd_write [sc] k) (\<lambda>(n, k). Inr k))"

section \<open>The ring is a queue\<close>

definition kbd_contents :: "kbd \<Rightarrow> u8 list" where
  "kbd_contents k = map (\<lambda>j. k_buffer k (k_start k + of_nat j)) [0..<unat (k_count k)]"

definition kbd_inv :: "kbd \<Rightarrow> bool" where
  "kbd_inv k \<longleftrightarrow> k_end k = k_start k + k_count k"

lemma length_kbd_contents [simp]: "length (kbd_contents k) = unat (k_count k)"
  by (simp add: kbd_contents_def)

lemma unat_u8_less: "unat (x :: u8) < 256"
  using unsigned_less [of x] by simp

lemma kbd_write_loop_appends:
  "kbd_inv k \<Longrightarrow> unat (k_count k) + length xs < 256 \<Longrightarrow>
   kbd_inv (kbd_write_loop xs k) \<and> kbd_contents (kbd_write_loop xs k) = kbd_contents k @ xs"
proof (induction xs arbitrary: k)
  case (Cons x xs)
  let ?k = "k\<lparr>k_buffer := (k_buffer k)(k_end k := x), k_end := k_end k + 1, k_count := k_count k + 1\<rparr>"
  have c: "unat (k_count k + 1) = Suc (unat (k_count k))" using Cons.prems(2) by (subst unat_plus_no_wrap) simp_all
  have e: "k_end k = k_start k + of_nat (unat (k_count k))" using Cons.prems(1) by (simp add: kbd_inv_def)
  have neq: "k_start k + of_nat j \<noteq> k_end k" if "j < unat (k_count k)" for j
  proof
    assume "k_start k + of_nat j = k_end k"
    then have "(of_nat j :: u8) = of_nat (unat (k_count k))" using e by (simp del: of_nat_unat)
    then have "unat (of_nat j :: u8) = unat (k_count k)" by simp
    moreover have "unat (of_nat j :: u8) = j" using that unat_u8_less [of "k_count k"] by (intro unat_of_nat_small) simp
    ultimately show False using that by simp
  qed
  have "kbd_inv ?k" using Cons.prems(1) by (simp add: kbd_inv_def)
  moreover have "kbd_contents ?k = kbd_contents k @ [x]"
    using neq e by (simp add: kbd_contents_def c)
  moreover have "unat (k_count ?k) + length xs < 256" using Cons.prems(2) c by simp
  ultimately show ?case using Cons.IH [of ?k] by simp
qed simp

lemma kbd_read_loop_takes:
  "kbd_inv k \<Longrightarrow> n \<le> unat (k_count k) \<Longrightarrow>
   \<exists>k'. kbd_read_loop n acc k = (acc @ take n (kbd_contents k), k') \<and> kbd_inv k' \<and> kbd_contents k' = drop n (kbd_contents k)"
proof (induction n arbitrary: acc k)
  case (Suc n)
  let ?k = "k\<lparr>k_count := k_count k - 1, k_start := k_start k + 1\<rparr>"
  have nz: "k_count k \<noteq> 0" using Suc.prems(2) by auto
  then have c: "unat (k_count k) = Suc (unat (k_count k - 1))" using Suc.prems(2) by (simp add: unat_minus_one)
  have cont: "kbd_contents k = k_buffer k (k_start k) # kbd_contents ?k"
    by (simp add: kbd_contents_def c upt_conv_Cons del: upt_Suc)
       (simp add: map_Suc_upt [symmetric] comp_def algebra_simps del: upt_Suc)
  moreover have "kbd_inv ?k" using Suc.prems(1) by (simp add: kbd_inv_def algebra_simps)
  moreover have "n \<le> unat (k_count ?k)" using Suc.prems(2) c by simp
  moreover have "kbd_read_loop (Suc n) acc k = kbd_read_loop n (acc @ [k_buffer k (k_start k)]) ?k"
    using nz by (simp add: read_key_def)
  ultimately show ?case using Suc.IH [of ?k "acc @ [k_buffer k (k_start k)]"] by auto
qed simp

definition kbd_put :: "u8 list \<Rightarrow> kbd \<Rightarrow> kbd kres" where
  "kbd_put d k = kbind (kbd_write d k) (\<lambda>(n, k). Inr k)"

definition kbd_get :: "nat \<Rightarrow> kbd \<Rightarrow> (u8 list \<times> kbd) kres" where
  "kbd_get n k = (let (m, keys, k) = kbd_read 0 (of_nat (min n 256)) k in Inr (keys, k))"

lemma kbd_read_takes:
  assumes "kbd_inv k"
  shows "\<exists>k'. kbd_read 0 (of_nat (min n 256)) k = (min n (length (kbd_contents k)), take n (kbd_contents k), k')
    \<and> kbd_inv k' \<and> kbd_contents k' = drop n (kbd_contents k)"
proof -
  define m where "m = min n 256"
  have "unat (of_nat m :: u64) = m" unfolding m_def by (intro unat_of_nat_small) simp
  moreover have uc: "unat (ucast (k_count k) :: u64) = unat (k_count k)"
    using unat_u8_less [of "k_count k"] by (simp add: unsigned_ucast_eq take_bit_nat_eq_self)
  ultimately have l: "unat (min (of_nat m) (ucast (k_count k)) :: u64) = min n (unat (k_count k))"
    using unat_u8_less [of "k_count k"] by (auto simp: min_def word_le_nat_alt m_def)
  show ?thesis
  proof (cases "min n (unat (k_count k)) = 0")
    case True
    then have "min (of_nat m) (ucast (k_count k)) = (0 :: u64)" using l by (metis unat_eq_zero)
    moreover have "n = 0 \<or> kbd_contents k = []" using True by (auto simp: min_def kbd_contents_def split: if_splits)
    ultimately show ?thesis using assms True unfolding kbd_read_def m_def [symmetric] by auto
  next
    case False
    then have nz: "min (of_nat m) (ucast (k_count k)) \<noteq> (0 :: u64)" using l by (metis unat_0)
    have "min n (unat (k_count k)) \<le> unat (k_count k)" by simp
    from kbd_read_loop_takes [OF assms this, of "[]"] obtain k' where
      "kbd_read_loop (min n (unat (k_count k))) [] k = (take (min n (unat (k_count k))) (kbd_contents k), k')" "kbd_inv k'"
      "kbd_contents k' = drop (min n (unat (k_count k))) (kbd_contents k)" by auto
    moreover have "take (min n (unat (k_count k))) (kbd_contents k) = take n (kbd_contents k)"
      "drop (min n (unat (k_count k))) (kbd_contents k) = drop n (kbd_contents k)"
      by (simp_all add: min_def)
    ultimately show ?thesis using nz l unfolding kbd_read_def m_def [symmetric] by (simp add: Let_def min.commute)
  qed
qed

interpretation kb: byte_fifo kbd_inv kbd_contents kbd_put kbd_get 256
proof
  fix k :: kbd and d :: "u8 list"
  assume k: "kbd_inv k" "length (kbd_contents k) + length d < 256"
  then have "kbd_put d k = Inr (kbd_write_loop d k)"
    by (auto simp: kbd_put_def kbd_write_def Let_def)
  then show "\<exists>k'. kbd_put d k = Inr k' \<and> kbd_inv k' \<and> kbd_contents k' = kbd_contents k @ d"
    using kbd_write_loop_appends [OF k(1)] k(2) by simp
next
  fix k :: kbd and n :: nat
  assume k: "kbd_inv k"
  show "\<exists>k'. kbd_get n k = Inr (take n (kbd_contents k), k') \<and> kbd_inv k' \<and> kbd_contents k' = drop n (kbd_contents k)"
    using kbd_read_takes [OF k, of n] by (auto simp: kbd_get_def)
qed

section \<open>Properties\<close>

text \<open>
  The keyboard delivers scan codes in order as long as fewer than 256 are pending: starting empty, any
  sequence of writes of at most 255 keys in all and of reads whose counter starts at 0 succeeds, and what was
  read followed by what is pending is what was written.
\<close>

theorem keyboard_fifo:
  assumes "length (written ops) < 256"
  shows "\<exists>out k. fifo_run kbd_put kbd_get ops (keyboard_device junk) = Inr (out, k) \<and> written ops = out @ kbd_contents k"
proof -
  have "kbd_inv (keyboard_device junk)" "kbd_contents (keyboard_device junk) = []"
    by (simp_all add: kbd_inv_def keyboard_device_def kbd_contents_def)
  with kb.run_is_fifo [of "keyboard_device junk" ops] assms show ?thesis by auto
qed

lemma keyboard_fifo_witness:
  "\<exists>out k. fifo_run kbd_put kbd_get [Put [30, 158], Get 1, Put [48], Get 9] (keyboard_device (\<lambda>_. 0)) = Inr (out, k)
     \<and> [30, 158, 48] = out @ kbd_contents k"
  using keyboard_fifo [of "[Put [30, 158], Get 1, Put [48], Get 9]" "\<lambda>_. 0"] by simp

text \<open>
  The interrupt that stores the 256th pending key loses all of them: the count, a byte, wraps to 0, and the
  device reports that nothing is there to read.
\<close>

theorem keyboard_overrun_loses_all:
  assumes "k_count k = 255" "ps2_kbd_handler status sc k = Inr k'"
  shows "kbd_contents k' = [] \<and> kbd_read i0 sz k' = (0, [], k')"
proof -
  have "k_count k' = 0"
    using assms by (auto simp: ps2_kbd_handler_def kbd_write_def Let_def)
  then show ?thesis by (simp add: kbd_contents_def kbd_read_def)
qed

lemma keyboard_overrun_loses_all_witness:
  "\<exists>k'. ps2_kbd_handler [1] 30 \<lparr>k_start = 0, k_end = 255, k_count = 255, k_buffer = \<lambda>_. 7\<rparr> = Inr k'
     \<and> kbd_read 0 10 k' = (0, [], k')"
proof -
  let ?k = "\<lparr>k_start = 0, k_end = 255, k_count = 255, k_buffer = \<lambda>_. 7\<rparr> :: kbd"
  have "\<exists>k'. ps2_kbd_handler [1] 30 ?k = Inr k'"
    using kbd_poll.simps(3) [of 9999 1 "[]" 30] by (simp add: ps2_kbd_handler_def kbd_write_def Let_def)
  then obtain k' where "ps2_kbd_handler [1] 30 ?k = Inr k'" by blast
  then show ?thesis using keyboard_overrun_loses_all [of ?k "[1]" 30 k' 0 10] by simp
qed

end
