(* ===== verification/Pty.thy ===== *)
theory Pty
  imports Streams
begin

unbundle bit_operations_syntax

text \<open>
  The pseudo terminals of \<^verbatim>\<open>Kernel/src/pty.cpp\<close>.  A terminal has two character buffers: what is written to the
  controller side goes to the worker buffer and is echoed into the controller buffer, what the worker writes
  goes to the controller buffer.  Sleeping readers are lists of thread numbers, watchers lists of watcher
  numbers; the calls that wake or signal them return them.  The device numbers and names, and the size of the
  window beyond storing it, play no role here.
\<close>

section \<open>Model\<close>

record termios =
  c_ifflag :: u32
  c_offlag :: u32
  c_cflag :: u32
  c_lflag :: u32
  c_cc :: "u32 list"
  ibaud :: u32
  obaud :: u32

record winsz =
  row_count :: u16
  col_count :: u16
  width :: u16
  height :: u16

datatype device_type = Worker | Controller

record pty =
  tios :: termios
  winsize :: winsz
  worker :: char_buffer
  controller :: char_buffer
  worker_blocked :: "nat list"
  controller_blocked :: "nat list"
  watching_worker :: "nat list"
  watching_controller :: "nat list"

definition c_cc_default :: "u32 list" where
  "c_cc_default = [4, 10, 8, 0, 0, 0, 0, 0, 0, 0, 0]"

text \<open>The members the constructor leaves alone are arguments.\<close>

definition pty_new :: "termios \<Rightarrow> winsz \<Rightarrow> char_buffer \<Rightarrow> char_buffer \<Rightarrow> pty" where
  "pty_new t0 w0 wb cb =
     \<lparr>tios = t0\<lparr>c_lflag := 0x0001 OR 0x0010, c_cc := c_cc_default\<rparr>, winsize = w0,
      worker = set_ignore_backspace False wb, controller = set_ignore_backspace True cb,
      worker_blocked = [], controller_blocked = [], watching_worker = [], watching_controller = []\<rparr>"

definition echo :: "pty \<Rightarrow> bool" where
  "echo p \<longleftrightarrow> c_lflag (tios p) AND 0x0001 \<noteq> 0"

definition is_canonical :: "pty \<Rightarrow> bool" where
  "is_canonical p \<longleftrightarrow> c_lflag (tios p) AND 0x0010 \<noteq> 0"

text \<open>The loops that unblock the first sleeper, or signal the first watcher, while there is one.\<close>

fun wake_all :: "bool \<Rightarrow> nat list \<Rightarrow> nat list \<times> nat list" where
  "wake_all ready [] = ([], [])"
| "wake_all ready (t # ts) =
     (if ready then (let (woken, rest) = wake_all ready ts in (t # woken, rest)) else ([], t # ts))"

definition worker_ready :: "pty \<Rightarrow> bool" where
  "worker_ready p = (if is_canonical p then has_lines (worker p) else has_data (worker p))"

primrec echo_loop :: "(nat \<Rightarrow> u8) \<Rightarrow> u8 list \<Rightarrow> char_buffer \<Rightarrow> char_buffer kres" where
  "echo_loop junk [] c = Inr c"
| "echo_loop junk (x # xs) c =
     kbind (if x = 27 then cb_write junk [94, 91] 2 c else cb_write junk [x] 1 c) (\<lambda>(k, c). echo_loop junk xs c)"

text \<open>A write returns the number of bytes, the threads it woke and the watchers it signalled.\<close>

definition controller_write :: "(nat \<Rightarrow> u8) \<Rightarrow> u8 list \<Rightarrow> u64 \<Rightarrow> pty \<Rightarrow> (int \<times> nat list \<times> nat list \<times> pty) kres" where
  "controller_write junk b sz p =
     kbind (cb_write junk b sz (worker p)) (\<lambda>(ret, wb).
     let p = p\<lparr>worker := wb\<rparr>; (woken, rest) = wake_all (worker_ready p) (worker_blocked p); p = p\<lparr>worker_blocked := rest\<rparr> in
     kbind (if echo p \<and> ret \<noteq> 0
            then if unat sz \<le> length b then echo_loop junk (take (unat sz) b) (controller p) else Inl Out_of_bounds
            else Inr (controller p)) (\<lambda>cb.
     let p = p\<lparr>controller := cb\<rparr>; (sig, ws) = wake_all (worker_ready p) (watching_worker p) in
     Inr (ret, woken, sig, p\<lparr>watching_worker := ws\<rparr>)))"

definition worker_write :: "(nat \<Rightarrow> u8) \<Rightarrow> u8 list \<Rightarrow> u64 \<Rightarrow> pty \<Rightarrow> (int \<times> nat list \<times> nat list \<times> pty) kres" where
  "worker_write junk b sz p =
     kbind (cb_write junk b sz (controller p)) (\<lambda>(ret, cb).
     let (woken, rest) = wake_all (has_data cb) (controller_blocked p); (sig, ws) = wake_all (has_data cb) (watching_controller p) in
     Inr (ret, woken, sig, p\<lparr>controller := cb, controller_blocked := rest, watching_controller := ws\<rparr>))"

definition controller_read :: "u8 list \<Rightarrow> u64 \<Rightarrow> pty \<Rightarrow> (u64 \<times> u8 list \<times> pty) kres" where
  "controller_read b sz p = kbind (cb_read b sz (controller p)) (\<lambda>(n, b, cb). Inr (n, b, p\<lparr>controller := cb\<rparr>))"

text \<open>
  The two waiting loops of \<open>worker_read\<close>; the call sleeps in one of them with its thread in the list of blockers,
  and goes on from there when it is woken.
\<close>

datatype read_pc = Canonical_loop | Raw_loop

datatype pty_io = Read_done "(u64 \<times> u8 list) sysret" | Read_sleeps read_pc

definition worker_take :: "u8 list \<Rightarrow> u64 \<Rightarrow> pty \<Rightarrow> (pty_io \<times> pty) kres" where
  "worker_take b sz p =
     kbind (cb_read b sz (worker p)) (\<lambda>(n, b, wb). Inr (Read_done (Inr (n, b)), p\<lparr>worker := wb\<rparr>))"

definition raw_loop :: "nat \<Rightarrow> u8 list \<Rightarrow> u64 \<Rightarrow> pty \<Rightarrow> (pty_io \<times> pty) kres" where
  "raw_loop t b sz p =
     (if \<not> is_canonical p \<and> has_data (worker p)
      then Inr (Read_sleeps Raw_loop, p\<lparr>worker_blocked := worker_blocked p @ [t]\<rparr>)
      else worker_take b sz p)"

fun worker_read_at :: "read_pc \<Rightarrow> nat \<Rightarrow> u8 list \<Rightarrow> u64 \<Rightarrow> pty \<Rightarrow> (pty_io \<times> pty) kres" where
  "worker_read_at Raw_loop t b sz p = raw_loop t b sz p"
| "worker_read_at Canonical_loop t b sz p =
     (if is_canonical p \<and> has_lines (worker p)
      then Inr (Read_sleeps Canonical_loop, p\<lparr>worker_blocked := worker_blocked p @ [t]\<rparr>)
      else raw_loop t b sz p)"

definition worker_read :: "nat \<Rightarrow> u8 list \<Rightarrow> u64 \<Rightarrow> pty \<Rightarrow> (pty_io \<times> pty) kres" where
  "worker_read = worker_read_at Canonical_loop"

definition worker_wake :: "read_pc \<Rightarrow> bool \<Rightarrow> nat \<Rightarrow> u8 list \<Rightarrow> u64 \<Rightarrow> pty \<Rightarrow> (pty_io \<times> pty) kres" where
  "worker_wake pc interrupted t b sz p =
     (let p = p\<lparr>worker_blocked := remove1 t (worker_blocked p)\<rparr> in
      if interrupted then Inr (Read_done (Inl EINTR), p) else worker_read_at pc t b sz p)"

subsection \<open>The device nodes\<close>

definition pty_can_read :: "device_type \<Rightarrow> pty \<Rightarrow> bool" where
  "pty_can_read d p = (case d of Controller \<Rightarrow> has_data (controller p) | Worker \<Rightarrow> worker_ready p)"

definition watch_pty :: "device_type \<Rightarrow> nat \<Rightarrow> u32 \<Rightarrow> pty \<Rightarrow> bool \<times> pty" where
  "watch_pty d w events p =
     (if events AND 0x01 = 0 \<or> pty_can_read d p then (True, p)
      else (False, case d of Controller \<Rightarrow> p\<lparr>watching_controller := watching_controller p @ [w]\<rparr>
                           | Worker \<Rightarrow> p\<lparr>watching_worker := watching_worker p @ [w]\<rparr>))"

definition unwatch_pty :: "device_type \<Rightarrow> nat \<Rightarrow> pty \<Rightarrow> pty" where
  "unwatch_pty d w p =
     (case d of Controller \<Rightarrow> p\<lparr>watching_controller := remove1 w (watching_controller p)\<rparr>
              | Worker \<Rightarrow> p\<lparr>watching_worker := remove1 w (watching_worker p)\<rparr>)"

text \<open>Both \<open>watch\<close> and \<open>unwatch\<close> of the device fall through to the assertion that the type is invalid.\<close>

definition device_watch :: "device_type \<Rightarrow> nat \<Rightarrow> u32 \<Rightarrow> pty \<Rightarrow> (bool \<times> pty) kres" where
  "device_watch d w events p = kbind (Inr (watch_pty d w events p)) (\<lambda>_. Inl Assert_failed)"

definition device_unwatch :: "device_type \<Rightarrow> nat \<Rightarrow> pty \<Rightarrow> pty kres" where
  "device_unwatch d w p = kbind (Inr (unwatch_pty d w p)) (\<lambda>_. Inl Assert_failed)"

definition write_func :: "device_type \<Rightarrow> (nat \<Rightarrow> u8) \<Rightarrow> u8 list \<Rightarrow> u64 \<Rightarrow> pty \<Rightarrow> (int \<times> nat list \<times> nat list \<times> pty) kres" where
  "write_func d = (case d of Worker \<Rightarrow> worker_write | Controller \<Rightarrow> controller_write)"

text \<open>
  The retry loop of the device's \<open>write\<close>.  It passes the whole size again with the advanced buffer.  \<open>None\<close> is a
  call that has not returned after \<open>fuel\<close> rounds.
\<close>

fun write_retry :: "nat \<Rightarrow> device_type \<Rightarrow> (nat \<Rightarrow> u8) \<Rightarrow> u8 list \<Rightarrow> u64 \<Rightarrow> int \<Rightarrow> pty \<Rightarrow> (int \<times> pty) kres option" where
  "write_retry 0 d junk b sz wr p = None"
| "write_retry (Suc fuel) d junk b sz wr p =
     (if wr < int (unat sz)
      then (case write_func d junk b sz p of
              Inl e \<Rightarrow> Some (Inl e)
            | Inr (ret, _, _, p) \<Rightarrow>
                if ret < 0 then Some (Inr (wr, p))
                else write_retry fuel d junk (drop (nat ret) b) sz (wr + ret) p)
      else Some (Inr (wr, p)))"

definition device_write :: "nat \<Rightarrow> device_type \<Rightarrow> (nat \<Rightarrow> u8) \<Rightarrow> u8 list \<Rightarrow> u64 \<Rightarrow> pty \<Rightarrow> (int \<times> pty) kres option" where
  "device_write fuel d junk b sz p =
     (case write_func d junk b sz p of
        Inl e \<Rightarrow> Some (Inl e)
      | Inr (wr, _, _, p) \<Rightarrow>
          if wr < 0 \<or> wr = int (unat sz) then Some (Inr (wr, p))
          else write_retry fuel d junk (drop (nat wr) b) sz wr p)"

definition device_read :: "device_type \<Rightarrow> nat \<Rightarrow> u8 list \<Rightarrow> u64 \<Rightarrow> pty \<Rightarrow> (pty_io \<times> pty) kres" where
  "device_read d t b sz p =
     (case d of Worker \<Rightarrow> worker_read t b sz p
      | Controller \<Rightarrow> kbind (controller_read b sz p) (\<lambda>(n, b, p). Inr (Read_done (Inr (n, b)), p)))"

datatype ioctl_cmd = TIOCGWINSZ | TIOCSWINSZ winsz | TIOCGATTR | TIOCSATTR termios | TIOCFLUSH u64 | Other_cmd

definition flush_pty :: "device_type \<Rightarrow> pty \<Rightarrow> pty" where
  "flush_pty d p = (case d of Worker \<Rightarrow> p\<lparr>worker := cb_flush (worker p)\<rparr> | Controller \<Rightarrow> p\<lparr>controller := cb_flush (controller p)\<rparr>)"

text \<open>The answers to the two read commands are the fields of the state itself.\<close>

definition device_ioctl :: "ioctl_cmd \<Rightarrow> pty \<Rightarrow> pty" where
  "device_ioctl cmd p =
     (case cmd of
        TIOCSWINSZ w \<Rightarrow> p\<lparr>winsize := w\<rparr>
      | TIOCSATTR t \<Rightarrow> (let p = p\<lparr>tios := t\<rparr> in p\<lparr>worker := set_ignore_backspace (\<not> is_canonical p) (worker p)\<rparr>)
      | TIOCFLUSH a \<Rightarrow>
          (let p = (if a = 1 \<or> a = 2 then flush_pty Worker p else p) in
           if a = 3 \<or> a = 2 then flush_pty Controller p else p)
      | _ \<Rightarrow> p)"

section \<open>Echo\<close>

definition echo_of :: "u8 \<Rightarrow> u8 list" where
  "echo_of x = (if x = 27 then [94, 91] else [x])"

lemma cb_write_raw:
  assumes "cb_inv c" "length (cb_contents c) + length d \<le> 1024"
  shows "\<exists>c'. cb_write junk d (of_nat (length d)) c = Inr (int (length d), c') \<and> cb_inv c' \<and> cb_contents c' = cb_contents c @ d"
  using cb_write_edits [of c d junk] assms by (auto simp: cb_inv_def foldl_edit_raw)

lemma echo_loop_appends:
  "cb_inv c \<Longrightarrow> length (cb_contents c) + length (concat (map echo_of xs)) \<le> 1024 \<Longrightarrow>
   \<exists>c'. echo_loop junk xs c = Inr c' \<and> cb_inv c' \<and> cb_contents c' = cb_contents c @ concat (map echo_of xs)"
proof (induction xs arbitrary: c)
  case (Cons x xs)
  have len: "length (cb_contents c) + length (echo_of x) \<le> 1024" using Cons.prems(2) by simp
  obtain c1 where c1: "cb_write junk (echo_of x) (of_nat (length (echo_of x))) c = Inr (int (length (echo_of x)), c1)"
      "cb_inv c1" "cb_contents c1 = cb_contents c @ echo_of x"
    using cb_write_raw [OF Cons.prems(1) len] by blast
  then have "echo_loop junk (x # xs) c = echo_loop junk xs c1"
    by (auto simp: echo_of_def split: if_splits)
  then show ?case using Cons.IH [OF c1(2)] Cons.prems(2) c1(3) by auto
qed simp

lemma wake_all_eq: "wake_all ready ts = (if ready then (ts, []) else ([], ts))"
  by (induction ts) auto

lemma flags_update [simp]:
  "echo (p\<lparr>worker := b\<rparr>) = echo p" "is_canonical (p\<lparr>worker := b\<rparr>) = is_canonical p"
  "echo (p\<lparr>worker_blocked := ts\<rparr>) = echo p" "is_canonical (p\<lparr>worker_blocked := ts\<rparr>) = is_canonical p"
  "is_canonical (p\<lparr>controller := b\<rparr>) = is_canonical p"
  by (simp_all add: echo_def is_canonical_def)

lemma controller_write_correct:
  assumes "is_canonical p" "echo p" "cb_shape (worker p)" "\<not> cb_ignore_bs (worker p)" "cb_inv (controller p)"
    "length (cb_contents (worker p)) + length d \<le> 1024"
    "length (cb_contents (controller p)) + length (concat (map echo_of d)) \<le> 1024"
  shows "\<exists>p'. let n = accepted False (cb_contents (worker p)) d; line = 0 < cb_lines (worker p) + line_ends d in
    controller_write junk d (of_nat (length d)) p
      = Inr (int n, if line then worker_blocked p else [], if line then watching_worker p else [], p')
    \<and> cb_contents (worker p') = foldl (edit_char False) (cb_contents (worker p)) d
    \<and> cb_lines (worker p') = cb_lines (worker p) + line_ends d
    \<and> cb_contents (controller p') = cb_contents (controller p) @ (if n = 0 then [] else concat (map echo_of d))
    \<and> (n = 0 \<longleftrightarrow> d = [] \<or> cb_contents (worker p) = [] \<and> set d \<subseteq> {8})
    \<and> worker_blocked p' = (if line then [] else worker_blocked p) \<and> watching_worker p' = (if line then [] else watching_worker p)"
proof -
  let ?n = "accepted False (cb_contents (worker p)) d"
  obtain wb where w: "cb_write junk d (of_nat (length d)) (worker p) = Inr (int ?n, wb)"
      "cb_contents wb = foldl (edit_char False) (cb_contents (worker p)) d" "cb_lines wb = cb_lines (worker p) + line_ends d"
    using cb_write_edits [OF assms(3,6), of junk] assms(4) by auto
  obtain cb where c: "echo_loop junk d (controller p) = Inr cb" "cb_contents cb = cb_contents (controller p) @ concat (map echo_of d)"
    using echo_loop_appends [OF assms(5,7)] by blast
  have l: "unat (of_nat (length d) :: u64) = length d" using assms(6) by (intro unat_of_nat_small) simp
  have wl: "has_lines wb \<longleftrightarrow> 0 < cb_lines (worker p) + line_ends d" using w(3) by (simp add: has_lines_def)
  let ?cb = "if ?n = 0 then controller p else cb" and ?line = "0 < cb_lines (worker p) + line_ends d"
  let ?p = "p\<lparr>worker := wb, controller := ?cb, worker_blocked := if ?line then [] else worker_blocked p,
              watching_worker := if ?line then [] else watching_worker p\<rparr>"
  let ?q = "p\<lparr>worker := wb, worker_blocked := if ?line then [] else worker_blocked p\<rparr>"
  have q: "?p = ?q\<lparr>controller := ?cb, watching_worker := if ?line then [] else watching_worker p\<rparr>" by simp
  have "controller_write junk d (of_nat (length d)) p
      = Inr (int ?n, if ?line then worker_blocked p else [], if ?line then watching_worker p else [], ?p)"
    unfolding q controller_write_def w(1) l wake_all_eq worker_ready_def kbind_simps using assms(1,2) c(1)
    by (cases ?line) (simp_all add: wl Let_def del: kbind_Inr_iff)
  moreover have "(?n = 0) = (d = [] \<or> cb_contents (worker p) = [] \<and> set d \<subseteq> {8})" by (simp add: accepted_0)
  ultimately show ?thesis using w(2,3) c(2) by (intro exI [of _ ?p]) (simp add: Let_def)
qed

text \<open>A terminal with nothing in it.\<close>

definition blank_pty :: pty where
  "blank_pty = pty_new \<lparr>c_ifflag = 0, c_offlag = 0, c_cflag = 0, c_lflag = 0, c_cc = [], ibaud = 0, obaud = 0\<rparr>
     \<lparr>row_count = 25, col_count = 80, width = 0, height = 0\<rparr> (char_buffer_new (\<lambda>_. 0) 0 0) (char_buffer_new (\<lambda>_. 0) 0 0)"

lemma blank_pty:
  "is_canonical blank_pty" "echo blank_pty" "cb_shape (worker blank_pty)" "\<not> cb_ignore_bs (worker blank_pty)"
  "cb_inv (controller blank_pty)" "cb_contents (worker blank_pty) = []" "cb_contents (controller blank_pty) = []"
  "cb_lines (worker blank_pty) = 0" "cb_pos (worker blank_pty) = 0"
  by (simp_all add: blank_pty_def pty_new_def is_canonical_def echo_def cb_inv_def cb_shape_def cb_contents_def
      set_ignore_backspace_def char_buffer_new_def)

section \<open>Properties\<close>



text \<open>
  The worker's read waits for the wrong thing: in canonical mode, once a write has completed a line, a read
  goes to sleep, and every time it is woken it goes to sleep again; as long as no line is complete it returns at
  once with whatever is there.
\<close>

theorem worker_read_waits_while_ready:
  assumes "is_canonical p" "cb_shape (worker p)" "0 \<le> cb_lines (worker p)"
    "length (cb_contents (worker p)) + length d \<le> 1024"
    "controller_write junk d (of_nat (length d)) p = Inr (ret, woken, sig, p')"
  shows "if cb_lines (worker p) = 0 \<and> 0 \<notin> set d \<and> 10 \<notin> set d then worker_read t b sz p' = worker_take b sz p'
    else \<exists>q. worker_read t b sz p' = Inr (Read_sleeps Canonical_loop, q)
           \<and> (\<exists>q'. worker_wake Canonical_loop False t b sz q = Inr (Read_sleeps Canonical_loop, q'))"
proof -
  obtain k wb where w: "cb_write junk d (of_nat (length d)) (worker p) = Inr (k, wb)"
      "cb_lines wb = cb_lines (worker p) + line_ends d"
    using cb_write_edits [OF assms(2,4), of junk] by blast
  then have p': "worker p' = wb" "tios p' = tios p"
    using assms(5) by (auto simp: controller_write_def Let_def case_prod_beta)
  then have canon: "is_canonical p'" using assms(1) by (simp add: is_canonical_def)
  have "line_ends d = 0 \<longleftrightarrow> 0 \<notin> set d \<and> 10 \<notin> set d" "0 \<le> line_ends d"
    by (auto simp: line_ends_def filter_empty_conv)
  then have "has_lines (worker p') \<longleftrightarrow> \<not> (cb_lines (worker p) = 0 \<and> 0 \<notin> set d \<and> 10 \<notin> set d)"
    using w(2) p'(1) assms(3) by (auto simp: has_lines_def)
  then show ?thesis using canon
    by (auto simp: worker_read_def worker_wake_def raw_loop_def is_canonical_def)
qed

lemma worker_read_waits_while_ready_witness:
  "\<exists>ret woken sig p' q. controller_write (\<lambda>_. 0) [108, 115, 10] 3 blank_pty = Inr (ret, woken, sig, p')
     \<and> worker_read 7 [0, 0, 0] 3 p' = Inr (Read_sleeps Canonical_loop, q)"
proof -
  obtain ret woken sig p' where c: "controller_write (\<lambda>_. 0) [108, 115, 10] 3 blank_pty = Inr (ret, woken, sig, p')"
    using controller_write_correct [of blank_pty "[108, 115, 10]" "\<lambda>_. 0"] blank_pty by (auto simp: echo_of_def Let_def)
  with worker_read_waits_while_ready [of blank_pty "[108, 115, 10]" "\<lambda>_. 0" ret woken sig p' 7 "[0, 0, 0]" 3] blank_pty
  show ?thesis by auto
qed

lemma controller_write_backspace:
  assumes "cb_shape (worker p)" "cb_pos (worker p) = 0" "\<not> cb_ignore_bs (worker p)"
  shows "\<exists>woken sig p'. controller_write junk [8] 1 p = Inr (0, woken, sig, p') \<and> worker p' = worker p"
  using assms by (simp add: controller_write_def cb_write_def cb_put_char_def cb_shape_def wake_all_eq Let_def)

lemma write_retry_backspace:
  "cb_shape (worker p) \<Longrightarrow> cb_pos (worker p) = 0 \<Longrightarrow> \<not> cb_ignore_bs (worker p) \<Longrightarrow>
   write_retry fuel Controller junk [8] 1 0 p = None"
proof (induction fuel arbitrary: p)
  case (Suc fuel)
  obtain woken sig p' where "controller_write junk [8] 1 p = Inr (0, woken, sig, p')" "worker p' = worker p"
    using controller_write_backspace [OF Suc.prems] by blast
  then show ?case using Suc by (simp add: write_func_def)
qed simp

text \<open>
  Writing a backspace to the controller side of a terminal whose pending line is empty never returns: the
  buffer accepts nothing, and the retry loop of \<open>pty_device::write\<close> goes round for ever without changing it.
\<close>

theorem backspace_write_never_returns:
  assumes "cb_shape (worker p)" "cb_pos (worker p) = 0" "\<not> cb_ignore_bs (worker p)"
  shows "device_write fuel Controller junk [8] 1 p = None"
proof -
  obtain woken sig p' where "controller_write junk [8] 1 p = Inr (0, woken, sig, p')" "worker p' = worker p"
    using controller_write_backspace [OF assms] by blast
  then show ?thesis using write_retry_backspace [of p' fuel junk] assms by (simp add: device_write_def write_func_def)
qed

lemma backspace_write_never_returns_witness:
  "device_write 1000 Controller (\<lambda>_. 0) [8] 1 blank_pty = None"
  by (rule backspace_write_never_returns) (simp_all add: blank_pty)

end
