(* ===== verification/LruCache.thy ===== *)
theory LruCache
  imports Prelude "HOL-Library.AList"
begin

text \<open>
  The cache template of \<^verbatim>\<open>Kernel/include/lru_cache.hpp\<close>, used by the ext2 driver for blocks and inodes.  The
  intrusive list is a list, front first; the hash map of the frg library is used through find, insert, remove
  and size only and is an association list with distinct keys.  Both operations hold the cache's lock for
  their whole length, so each is one step.  A write returns the values it hands to the destructor.
\<close>

section \<open>Model\<close>

record ('k, 'v) lru_cache =
  lru_list :: "('k \<times> 'v) list"
  hash_map :: "('k \<times> 'v) list"
  capacity :: nat

definition lru_new :: "nat \<Rightarrow> ('k, 'v) lru_cache" where
  "lru_new cap = \<lparr>lru_list = [], hash_map = [], capacity = cap\<rparr>"

definition lru_get :: "'k \<Rightarrow> ('k, 'v) lru_cache \<Rightarrow> 'v option" where
  "lru_get key c = map_of (hash_map c) key"

text \<open>The eviction loop; an empty list yields the null node whose key is then read.\<close>

function lru_evict :: "('k, 'v) lru_cache \<Rightarrow> ('v list \<times> ('k, 'v) lru_cache) kres" where
  "lru_evict c =
     (if length (hash_map c) \<ge> capacity c
      then if lru_list c = [] then Inl Null_deref
           else let (k, v) = last (lru_list c) in
             kbind (lru_evict (c\<lparr>lru_list := butlast (lru_list c), hash_map := AList.delete k (hash_map c)\<rparr>))
               (\<lambda>(vs, c). Inr (v # vs, c))
      else Inr ([], c))"
  by pat_completeness auto
termination
  by (relation "measure (\<lambda>c. length (lru_list c))") auto

declare lru_evict.simps [simp del]

definition lru_set :: "'k \<Rightarrow> 'v \<Rightarrow> ('k, 'v) lru_cache \<Rightarrow> ('v list \<times> ('k, 'v) lru_cache) kres" where
  "lru_set key val c =
     (if map_of (hash_map c) key \<noteq> None
      then Inr ([], c\<lparr>hash_map := AList.update key val (hash_map c)\<rparr>)
      else kbind (lru_evict c) (\<lambda>(vs, c).
        Inr (vs, c\<lparr>lru_list := (key, val) # lru_list c, hash_map := (key, val) # hash_map c\<rparr>)))"

section \<open>Invariant\<close>

definition lru_inv :: "('k, 'v) lru_cache \<Rightarrow> bool" where
  "lru_inv c \<longleftrightarrow> distinct (map fst (lru_list c)) \<and> distinct (map fst (hash_map c))
     \<and> fst ` set (lru_list c) = fst ` set (hash_map c) \<and> length (hash_map c) \<le> capacity c \<and> 0 < capacity c"

lemma lru_inv_length: "lru_inv c \<Longrightarrow> length (lru_list c) = length (hash_map c)"
  by (metis distinct_card image_set length_map lru_inv_def)

lemma lru_list_key: "lru_inv c \<Longrightarrow> k \<in> fst ` set (lru_list c) \<longleftrightarrow> lru_get k c \<noteq> None"
  by (auto simp: lru_inv_def lru_get_def map_of_eq_None_iff)

lemma length_delete_key:
  "distinct (map fst xs) \<Longrightarrow> k \<in> fst ` set xs \<Longrightarrow> Suc (length (AList.delete k xs)) = length xs"
proof (induction xs)
  case (Cons x xs)
  show ?case
  proof (cases "fst x = k")
    case True
    then have "k \<notin> fst ` set xs" using Cons.prems(1) by auto
    then have "AList.delete k xs = xs" by (auto simp: delete_id)
    then show ?thesis using True by (cases x) simp
  next
    case False
    then show ?thesis using Cons by (cases x) auto
  qed
qed simp

lemma lru_evict_not_full: "length (hash_map c) < capacity c \<Longrightarrow> lru_evict c = Inr ([], c)"
  by (subst lru_evict.simps) simp

lemma lru_evict_full:
  assumes inv: "lru_inv c" and full: "length (hash_map c) = capacity c" and l: "lru_list c = xs @ [(k0, v0)]"
  shows "lru_evict c = Inr ([v0], c\<lparr>lru_list := xs, hash_map := AList.delete k0 (hash_map c)\<rparr>)"
proof -
  let ?c = "c\<lparr>lru_list := xs, hash_map := AList.delete k0 (hash_map c)\<rparr>"
  have "k0 \<in> fst ` set (hash_map c)" using inv l by (auto simp: lru_inv_def)
  then have "length (hash_map ?c) < capacity ?c"
    using length_delete_key [of "hash_map c" k0] inv full by (simp add: lru_inv_def)
  then have "lru_evict ?c = Inr ([], ?c)" by (rule lru_evict_not_full)
  moreover have "lru_evict c = kbind (lru_evict ?c) (\<lambda>(vs, c). Inr (v0 # vs, c))"
    using full l by (subst lru_evict.simps) simp
  ultimately show ?thesis by simp
qed

lemma lru_inv_delete:
  assumes "lru_inv c" "lru_list c = xs @ [(k0, v0)]"
  shows "lru_inv (c\<lparr>lru_list := xs, hash_map := AList.delete k0 (hash_map c)\<rparr>)"
proof -
  have "k0 \<notin> fst ` set xs" using assms by (auto simp: lru_inv_def)
  moreover have "fst ` set (hash_map c) = insert k0 (fst ` set xs)" using assms by (auto simp: lru_inv_def)
  ultimately have "fst ` set (AList.delete k0 (hash_map c)) = fst ` set xs"
    by (metis Diff_insert_absorb delete_keys image_set set_removeAll)
  moreover have "length (AList.delete k0 (hash_map c)) \<le> capacity c"
    using assms(1) length_delete_le [of k0 "hash_map c"] by (simp add: lru_inv_def)
  ultimately show ?thesis using assms by (simp add: lru_inv_def distinct_delete)
qed

lemma lru_inv_insert:
  assumes "lru_inv c" "lru_get k c = None" "length (hash_map c) < capacity c"
  shows "lru_inv (c\<lparr>lru_list := (k, v) # lru_list c, hash_map := (k, v) # hash_map c\<rparr>)"
proof -
  have "k \<notin> fst ` set (lru_list c)" "k \<notin> fst ` set (hash_map c)"
    using assms(1,2) lru_list_key [OF assms(1), of k] by (auto simp: lru_inv_def)
  then show ?thesis using assms by (auto simp: lru_inv_def)
qed

lemma lru_get_delete: "lru_get k (c\<lparr>lru_list := xs, hash_map := AList.delete k0 (hash_map c)\<rparr>) = (if k = k0 then None else lru_get k c)"
  by (simp add: lru_get_def delete_conv)

lemma lru_set_spec:
  assumes inv: "lru_inv c"
  shows "\<exists>vs c'. lru_set k v c = Inr (vs, c') \<and> lru_inv c' \<and> lru_get k c' = Some v
    \<and> (if lru_get k c = None \<and> length (hash_map c) = capacity c
       then (\<exists>k0 v0. last (lru_list c) = (k0, v0) \<and> vs = [v0]
              \<and> (\<forall>q. q \<noteq> k \<longrightarrow> lru_get q c' = (if q = k0 then None else lru_get q c)))
       else vs = [] \<and> (\<forall>q. q \<noteq> k \<longrightarrow> lru_get q c' = lru_get q c))"
proof (cases "lru_get k c = None")
  case False
  then have keys: "map fst (AList.update k v (hash_map c)) = map fst (hash_map c)"
    by (simp add: AList.update_keys lru_get_def map_of_eq_None_iff)
  have "lru_inv (c\<lparr>hash_map := AList.update k v (hash_map c)\<rparr>)"
    using inv keys map_eq_imp_length_eq [OF keys] by (simp add: lru_inv_def) (metis image_set keys)
  then show ?thesis using False by (auto simp: lru_set_def lru_get_def update_conv)
next
  case True
  show ?thesis
  proof (cases "length (hash_map c) = capacity c")
    case full: True
    then have "lru_list c \<noteq> []" using inv lru_inv_length [OF inv] by (auto simp: lru_inv_def)
    then obtain xs k0 v0 where l: "lru_list c = xs @ [(k0, v0)]" by (metis rev_exhaust surj_pair)
    let ?c = "c\<lparr>lru_list := xs, hash_map := AList.delete k0 (hash_map c)\<rparr>"
    have inv': "lru_inv ?c" by (rule lru_inv_delete [OF inv l])
    have "k0 \<in> fst ` set (hash_map c)" using inv l by (auto simp: lru_inv_def)
    then have lt: "length (hash_map ?c) < capacity ?c"
      using length_delete_key [of "hash_map c" k0] inv full by (simp add: lru_inv_def)
    have k: "lru_get k ?c = None" using True by (simp add: lru_get_delete)
    have "lru_set k v c = Inr ([v0], ?c\<lparr>lru_list := (k, v) # xs, hash_map := (k, v) # hash_map ?c\<rparr>)"
      using True lru_evict_full [OF inv full l] by (simp add: lru_set_def lru_get_def)
    moreover have "lru_inv (?c\<lparr>lru_list := (k, v) # xs, hash_map := (k, v) # hash_map ?c\<rparr>)"
      using lru_inv_insert [OF inv' k lt, of v] by simp
    ultimately show ?thesis using l full True by (auto simp: lru_get_def delete_conv)
  next
    case False
    then have lt: "length (hash_map c) < capacity c" using inv by (simp add: lru_inv_def)
    then show ?thesis using True False lru_inv_insert [OF inv True lt, of v] lru_evict_not_full [OF lt]
      by (auto simp: lru_set_def lru_get_def)
  qed
qed

lemma lru_set_cases:
  assumes "lru_inv c"
  shows "\<exists>vs c'. lru_set k v c = Inr (vs, c') \<and> lru_inv c' \<and> lru_get k c' = Some v
    \<and> (\<forall>q. q \<noteq> k \<longrightarrow> lru_get q c' = None \<or> lru_get q c' = lru_get q c)"
  using lru_set_spec [OF assms, of k v] by (auto split: if_splits)

section \<open>Property\<close>

text \<open>
  A cache keeps its invariant and its capacity, a write is seen by the next read of the same key and leaves
  other keys alone, except that a new key in a full cache pushes out exactly one other: the one inserted
  longest ago, whatever has been read or overwritten since, and its destructor gets the value that was inserted
  with it.  A cache whose capacity is not zero never fails.
\<close>

theorem lru_set_correct:
  assumes inv: "lru_inv c"
  shows "\<exists>vs c'. lru_set k v c = Inr (vs, c') \<and> lru_inv c' \<and> lru_get k c' = Some v
    \<and> (if lru_get k c = None \<and> length (hash_map c) = capacity c
       then (\<exists>k0 v0. last (lru_list c) = (k0, v0) \<and> vs = [v0]
              \<and> (\<forall>q. q \<noteq> k \<longrightarrow> lru_get q c' = (if q = k0 then None else lru_get q c)))
       else vs = [] \<and> (\<forall>q. q \<noteq> k \<longrightarrow> lru_get q c' = lru_get q c))"
  by (rule lru_set_spec [OF inv])

lemma lru_set_correct_witness:
  "\<exists>c'. lru_set 3 (30 :: nat) \<lparr>lru_list = [(2, 20), (1, 10)], hash_map = [(1 :: nat, 11), (2, 20)], capacity = 2\<rparr> = Inr ([10], c')
     \<and> lru_get 3 c' = Some 30 \<and> lru_get 1 c' = None"
proof -
  let ?c = "\<lparr>lru_list = [(2, 20), (1, 10)], hash_map = [(1 :: nat, 11 :: nat), (2, 20)], capacity = 2\<rparr>"
  have "lru_inv ?c" by (auto simp: lru_inv_def)
  from lru_set_correct [OF this, of 3 30] show ?thesis by (auto simp: lru_get_def split: if_splits)
qed

end
