(* ===== verification/RefCounted.thy ===== *)
theory RefCounted
  imports Prelude
begin

text \<open>
  The shared pointer of \<^verbatim>\<open>Kernel/include/ref_counted.hpp\<close> as a transition system.  A handle is a variable of
  type \<open>ref_counted<T>\<close>, named by a number; it holds the pointer to the object and the pointer to the counter.
  A handle that is not constructed yet, or has been destroyed, is a null handle.  Objects and counters are
  heap cells: a deleted one is absent, and using it is a fault.  The counter is 32 bits wide and changes
  atomically.
\<close>

section \<open>Model\<close>

record rc =
  handles :: "nat \<Rightarrow> nat option \<times> nat option"
  counters :: "nat \<Rightarrow> u32 option"
  objects :: "nat set"

definition rc_init :: rc where
  "rc_init = \<lparr>handles = (\<lambda>_. (None, None)), counters = (\<lambda>_. None), objects = {}\<rparr>"

definition set_handle :: "nat \<Rightarrow> nat option \<times> nat option \<Rightarrow> rc \<Rightarrow> rc" where
  "set_handle h p s = s\<lparr>handles := (handles s)(h := p)\<rparr>"

definition retain :: "nat \<Rightarrow> rc \<Rightarrow> rc kres" where
  "retain h s =
     (case snd (handles s h) of None \<Rightarrow> Inr s
      | Some c \<Rightarrow> (case counters s c of None \<Rightarrow> Inl Use_after_free
                  | Some n \<Rightarrow> Inr (s\<lparr>counters := (counters s)(c := Some (n + 1))\<rparr>)))"

definition delete_object :: "nat option \<Rightarrow> rc \<Rightarrow> rc kres" where
  "delete_object ob s =
     (case ob of None \<Rightarrow> Inr s
      | Some x \<Rightarrow> if x \<in> objects s then Inr (s\<lparr>objects := objects s - {x}\<rparr>) else Inl Use_after_free)"

definition release :: "nat \<Rightarrow> rc \<Rightarrow> rc kres" where
  "release h s =
     (case snd (handles s h) of None \<Rightarrow> Inr s
      | Some c \<Rightarrow> (case counters s c of None \<Rightarrow> Inl Use_after_free
                  | Some n \<Rightarrow>
                      if n = 1
                      then kbind (delete_object (fst (handles s h)) s) (\<lambda>s.
                             Inr (set_handle h (None, None) (s\<lparr>counters := (counters s)(c := None)\<rparr>)))
                      else Inr (s\<lparr>counters := (counters s)(c := Some (n - 1))\<rparr>)))"

text \<open>\<open>h = ref_counted<T>(new T)\<close>: a new object and a new counter, moved into the handle.\<close>

definition assign_new :: "nat \<Rightarrow> nat \<Rightarrow> nat \<Rightarrow> rc \<Rightarrow> rc kres" where
  "assign_new h x c s =
     kbind (release h (s\<lparr>objects := insert x (objects s), counters := (counters s)(c := Some 1)\<rparr>))
       (\<lambda>s. Inr (set_handle h (Some x, Some c) s))"

definition assign_copy :: "nat \<Rightarrow> nat \<Rightarrow> rc \<Rightarrow> rc kres" where
  "assign_copy h g s = kbind (release h s) (\<lambda>s. retain h (set_handle h (handles s g) s))"

definition assign_move :: "nat \<Rightarrow> nat \<Rightarrow> rc \<Rightarrow> rc kres" where
  "assign_move h g s =
     kbind (release h s) (\<lambda>s. Inr (set_handle g (None, None) (set_handle h (handles s g) s)))"

definition assign_null :: "nat \<Rightarrow> rc \<Rightarrow> rc kres" where
  "assign_null h s = release h s"

definition destroy_handle :: "nat \<Rightarrow> rc \<Rightarrow> rc kres" where
  "destroy_handle h s = kbind (release h s) (\<lambda>s. Inr (set_handle h (None, None) s))"

text \<open>One operation on the handles below \<open>K\<close>, other than the assignment of \<open>nullptr\<close>.\<close>

inductive rc_step :: "nat \<Rightarrow> rc \<Rightarrow> rc kres \<Rightarrow> bool" for K where
  step_new: "h < K \<Longrightarrow> x \<notin> objects s \<Longrightarrow> counters s c = None \<Longrightarrow> rc_step K s (assign_new h x c s)"
| step_copy: "h < K \<Longrightarrow> g < K \<Longrightarrow> rc_step K s (assign_copy h g s)"
| step_move: "h < K \<Longrightarrow> g < K \<Longrightarrow> rc_step K s (assign_move h g s)"
| step_destroy: "h < K \<Longrightarrow> rc_step K s (destroy_handle h s)"

inductive rc_reach :: "nat \<Rightarrow> rc \<Rightarrow> bool" for K where
  rc_reach_init: "rc_reach K rc_init"
| rc_reach_step: "rc_reach K s \<Longrightarrow> rc_step K s (Inr s') \<Longrightarrow> rc_reach K s'"

section \<open>Invariant\<close>

text \<open>
  \<open>users s c\<close> are the handles that share counter \<open>c\<close>.  In the invariant \<open>ow\<close> gives for each counter in use the
  object it guards: every handle on the counter points to that object, distinct counters guard distinct objects,
  and the guarded objects are exactly the live ones.
\<close>

definition users :: "rc \<Rightarrow> nat \<Rightarrow> nat set" where
  "users s c = {h. snd (handles s h) = Some c}"

definition rc_inv :: "nat \<Rightarrow> (nat \<Rightarrow> nat) \<Rightarrow> rc \<Rightarrow> bool" where
  "rc_inv K ow s \<longleftrightarrow>
     (\<forall>c. counters s c = None \<longrightarrow> users s c = {})
     \<and> (\<forall>c n. counters s c = Some n \<longrightarrow> users s c \<noteq> {} \<and> unat n = card (users s c))
     \<and> (\<forall>h c. snd (handles s h) = Some c \<longrightarrow> fst (handles s h) = Some (ow c))
     \<and> (\<forall>h. snd (handles s h) = None \<longrightarrow> fst (handles s h) = None)
     \<and> (\<forall>h \<ge> K. handles s h = (None, None))
     \<and> objects s = ow ` dom (counters s) \<and> inj_on ow (dom (counters s))"

lemma users_set_handle:
  "users (set_handle h p s) c = (if snd p = Some c then insert h (users s c) else users s c - {h})"
  by (auto simp: users_def set_handle_def)

lemma users_other [simp]:
  "users (s\<lparr>counters := cs\<rparr>) c = users s c" "users (s\<lparr>objects := os\<rparr>) c = users s c"
  by (simp_all add: users_def)

lemma set_handle_sels [simp]:
  "handles (set_handle h p s) = (handles s)(h := p)" "counters (set_handle h p s) = counters s"
  "objects (set_handle h p s) = objects s"
  by (simp_all add: set_handle_def)

lemma set_handle_same: "handles s h = p \<Longrightarrow> set_handle h p s = s"
  by (simp add: set_handle_def fun_upd_idem)

lemma set_handle_twice [simp]: "set_handle h q (set_handle h p s) = set_handle h q s"
  by (simp add: set_handle_def)

lemma rc_inv_users_finite: "rc_inv K ow s \<Longrightarrow> finite (users s c) \<and> card (users s c) \<le> K"
proof -
  assume "rc_inv K ow s"
  then have "users s c \<subseteq> {..<K}" by (force simp: rc_inv_def users_def not_le [symmetric])
  then show ?thesis by (metis card_lessThan card_mono finite_lessThan finite_subset)
qed

lemma rc_inv_counter:
  assumes "rc_inv K ow s" "snd (handles s h) = Some c"
  obtains n where "counters s c = Some n" "unat n = card (users s c)" "h \<in> users s c" "handles s h = (Some (ow c), Some c)"
proof -
  have u: "h \<in> users s c" using assms(2) by (simp add: users_def)
  then obtain n where "counters s c = Some n" "unat n = card (users s c)"
    using assms(1) by (cases "counters s c") (auto simp: rc_inv_def)
  moreover have "handles s h = (Some (ow c), Some c)" using assms by (auto simp: rc_inv_def prod_eq_iff)
  ultimately show thesis using that u by blast
qed

lemma users_other_counter: "snd (handles s h) = Some c \<Longrightarrow> c' \<noteq> c \<Longrightarrow> h \<notin> users s c'"
  by (simp add: users_def)

subsection \<open>Destroying a handle\<close>

lemma rc_inv_drop_shared:
  assumes inv: "rc_inv K ow s" and h: "snd (handles s h) = Some c" and n: "counters s c = Some n" "n \<noteq> 1"
  shows "rc_inv K ow (set_handle h (None, None) (s\<lparr>counters := (counters s)(c := Some (n - 1))\<rparr>))"
proof -
  obtain m where m: "counters s c = Some m" "unat m = card (users s c)" "h \<in> users s c"
    using rc_inv_counter [OF inv h] by metis
  have fin: "finite (users s c)" using rc_inv_users_finite [OF inv] by blast
  then have "0 < card (users s c)" using m(3) by (auto simp: card_gt_0_iff)
  then have n1: "unat (n - 1) = card (users s c) - 1" using m n(1) by (metis option.inject unat_0 unat_minus_one less_numeral_extra(3))
  then have c: "unat (n - 1) = card (users s c - {h})" using m(3) fin by simp
  have "card (users s c) \<noteq> 1" using m n by (metis One_nat_def option.inject unat_1 word_unat_eq_iff)
  then have ne: "users s c - {h} \<noteq> {}" using fin m(3) by (metis card_1_singleton_iff One_nat_def Diff_eq_empty_iff insertE subset_antisym subset_insertI singletonI subset_singletonD empty_iff)
  have d: "dom ((counters s)(c := Some (n - 1))) = dom (counters s)" using n(1) by auto
  have "h \<notin> users s c' \<and> users s c' \<noteq> {h}" if "c' \<noteq> c" for c' using users_other_counter [OF h that] by blast
  then show ?thesis using inv c ne d by (auto simp: rc_inv_def users_set_handle dest!: subset_singletonD)
qed

lemma rc_inv_drop_last:
  assumes inv: "rc_inv K ow s" and h: "snd (handles s h) = Some c" and n: "counters s c = Some 1"
  shows "rc_inv K ow (set_handle h (None, None) (s\<lparr>objects := objects s - {ow c}, counters := (counters s)(c := None)\<rparr>))"
proof -
  have "users s c = {h}"
    using rc_inv_counter [OF inv h] n by (metis One_nat_def card_1_singleton_iff option.inject singletonD unat_1)
  moreover have "h \<notin> users s c' \<and> users s c' \<noteq> {h}" if "c' \<noteq> c" for c' using users_other_counter [OF h that] by blast
  moreover have "ow ` dom (counters s) - {ow c} = ow ` (dom (counters s) - {c})"
    using inv n by (auto simp: rc_inv_def inj_on_def) (metis domI)
  moreover have "inj_on ow (dom (counters s) - {c})" using inv by (auto simp: rc_inv_def intro: inj_on_diff)
  ultimately show ?thesis using inv by (auto simp: rc_inv_def users_set_handle dom_fun_upd dest!: subset_singletonD)
qed

lemma destroy_handle_correct:
  assumes inv: "rc_inv K ow s"
  shows "\<exists>s'. destroy_handle h s = Inr s' \<and> rc_inv K ow s' \<and> handles s' = (handles s)(h := (None, None))
    \<and> objects s' \<subseteq> objects s \<and> dom (counters s') \<subseteq> dom (counters s)"
proof (cases "snd (handles s h)")
  case None
  then have "handles s h = (None, None)" using inv by (auto simp: rc_inv_def prod_eq_iff)
  then show ?thesis using None inv by (simp add: destroy_handle_def release_def set_handle_same fun_upd_idem)
next
  case (Some c)
  obtain n where n: "counters s c = Some n" "handles s h = (Some (ow c), Some c)"
    using rc_inv_counter [OF inv Some] by metis
  show ?thesis
  proof (cases "n = 1")
    case True
    have "ow c \<in> objects s" using inv n(1) by (auto simp: rc_inv_def)
    then have "destroy_handle h s
        = Inr (set_handle h (None, None) (s\<lparr>objects := objects s - {ow c}, counters := (counters s)(c := None)\<rparr>))"
      using n True by (simp add: destroy_handle_def release_def delete_object_def)
    then show ?thesis using rc_inv_drop_last [OF inv Some] n(1) True by auto
  next
    case False
    then have "destroy_handle h s = Inr (set_handle h (None, None) (s\<lparr>counters := (counters s)(c := Some (n - 1))\<rparr>))"
      using n by (simp add: destroy_handle_def release_def)
    then show ?thesis using rc_inv_drop_shared [OF inv Some n(1) False] n(1) by auto
  qed
qed

subsection \<open>Filling a null handle\<close>

lemma copy_into_null:
  assumes inv: "rc_inv K ow s" and h: "handles s h = (None, None)" "h < K" and K: "K < 2 ^ 32"
  shows "\<exists>s'. retain h (set_handle h (handles s g) s) = Inr s' \<and> rc_inv K ow s'"
proof (cases "snd (handles s g)")
  case None
  then have "handles s g = (None, None)" using inv by (auto simp: rc_inv_def prod_eq_iff)
  then show ?thesis using h(1) inv by (simp add: set_handle_same retain_def)
next
  case (Some c)
  obtain n where n: "counters s c = Some n" "unat n = card (users s c)" "handles s g = (Some (ow c), Some c)"
    using rc_inv_counter [OF inv Some] by metis
  let ?s = "(set_handle h (handles s g) s)\<lparr>counters := (counters s)(c := Some (n + 1))\<rparr>"
  have h': "h \<notin> users s c" using h(1) by (simp add: users_def)
  have fin: "finite (users s c)" using rc_inv_users_finite [OF inv] by blast
  have "insert h (users s c) \<subseteq> {..<K}" using inv h(2) by (force simp: rc_inv_def users_def not_le [symmetric])
  then have "card (insert h (users s c)) \<le> K" by (metis card_lessThan card_mono finite_lessThan)
  then have "unat n + 1 < 2 ^ 32" using n(2) h' fin K by simp
  then have "unat (n + 1) = card (insert h (users s c))" using n(2) h' fin by (subst unat_plus_no_wrap) simp_all
  moreover have "h \<notin> users s c'" for c' using h(1) by (auto simp: users_def)
  moreover have "dom ((counters s)(c := Some (n + 1))) = dom (counters s)" using n(1) by auto
  ultimately have "rc_inv K ow ?s"
    using inv n h(2) by (auto simp: rc_inv_def users_set_handle)
  then show ?thesis using n by (simp add: retain_def)
qed

lemma new_into_null:
  assumes inv: "rc_inv K ow s" and h: "handles s h = (None, None)" "h < K" and x: "x \<notin> objects s" "counters s c = None"
  shows "rc_inv K (ow(c := x)) (set_handle h (Some x, Some c)
    (s\<lparr>objects := insert x (objects s), counters := (counters s)(c := Some 1)\<rparr>))"
proof -
  have u: "users s c = {}" using inv x(2) by (auto simp: rc_inv_def)
  then have nc: "snd (handles s g) \<noteq> Some c" for g by (auto simp: users_def)
  have "h \<notin> users s c'" for c' using h(1) by (auto simp: users_def)
  moreover have "(ow(c := x)) ` dom (counters s) = ow ` dom (counters s)" using x(2) by (intro image_cong) auto
  moreover have "inj_on (ow(c := x)) (insert c (dom (counters s)))"
    using inv x by (auto simp: rc_inv_def inj_on_def dom_def)
  ultimately show ?thesis using inv u nc h(2) x(2) by (auto simp: rc_inv_def users_set_handle)
qed

lemma move_into_null:
  assumes inv: "rc_inv K ow s" and h: "handles s h = (None, None)" "h < K" and "g \<noteq> h"
  shows "rc_inv K ow (set_handle g (None, None) (set_handle h (handles s g) s))"
proof -
  let ?s = "set_handle g (None, None) (set_handle h (handles s g) s)"
  have u: "users ?s c = (if g \<in> users s c then insert h (users s c - {g}) else users s c)" for c
    using h(1) assms(4) by (auto simp: users_def)
  have "h \<notin> users s c" for c using h(1) by (simp add: users_def)
  then have "card (users ?s c) = card (users s c)" for c
    using rc_inv_users_finite [OF inv, of c] by (simp add: u card_Diff_singleton_if card_gt_0_iff Suc_diff_Suc)
       (metis Suc_pred card_gt_0_iff empty_iff)
  moreover have "users ?s c = {} \<longleftrightarrow> users s c = {}" for c by (auto simp: u)
  ultimately show ?thesis using inv h(2) by (auto simp: rc_inv_def simp del: users_set_handle)
qed

subsection \<open>The assignments\<close>

text \<open>Every assignment first does to its target what the destructor does.\<close>

lemma release_handles: "release h s = Inr s' \<Longrightarrow> g \<noteq> h \<Longrightarrow> handles s' g = handles s g"
  by (auto simp: release_def delete_object_def split: option.splits if_splits)

lemma assign_copy_eq:
  "g \<noteq> h \<Longrightarrow> assign_copy h g s = kbind (destroy_handle h s) (\<lambda>s. retain h (set_handle h (handles s g) s))"
  by (cases "release h s") (simp_all add: assign_copy_def destroy_handle_def)

lemma assign_move_eq:
  "g \<noteq> h \<Longrightarrow> assign_move h g s = kbind (destroy_handle h s) (\<lambda>s. Inr (set_handle g (None, None) (set_handle h (handles s g) s)))"
  by (cases "release h s") (simp_all add: assign_move_def destroy_handle_def)

lemma assign_new_eq:
  assumes "snd (handles s h) \<noteq> Some c" "fst (handles s h) \<noteq> Some x"
  shows "assign_new h x c s = kbind (destroy_handle h s) (\<lambda>s. Inr (set_handle h (Some x, Some c)
    (s\<lparr>objects := insert x (objects s), counters := (counters s)(c := Some 1)\<rparr>)))"
proof -
  have upd: "(f(c := p))(c' := q) = (f(c' := q))(c := p)" if "c' \<noteq> c" for f :: "nat \<Rightarrow> u32 option" and c' p q
    using that by (rule fun_upd_twist [symmetric])
  have ins: "insert x A - {y} = insert x (A - {y})" if "y \<noteq> x" for A and y :: nat using that by auto
  show ?thesis using assms
    by (auto simp: assign_new_def destroy_handle_def release_def delete_object_def set_handle_def upd ins
        split: option.splits)
qed

lemma assign_self: "rc_inv K ow s \<Longrightarrow> \<exists>s'. assign_copy h h s = Inr s' \<and> rc_inv K ow s'"
proof (cases "snd (handles s h)")
  case (Some c)
  assume inv: "rc_inv K ow s"
  obtain n where n: "counters s c = Some n" "handles s h = (Some (ow c), Some c)"
    using rc_inv_counter [OF inv Some] by metis
  show ?thesis
  proof (cases "n = 1")
    case True
    have "ow c \<in> objects s" using inv n(1) by (auto simp: rc_inv_def)
    then obtain s' where s': "release h s = Inr s'" "handles s' h = (None, None)"
      using True n by (simp add: release_def delete_object_def)
    then have "assign_copy h h s = Inr s'" "destroy_handle h s = Inr s'"
      by (simp_all add: assign_copy_def destroy_handle_def set_handle_same retain_def)
    then show ?thesis using destroy_handle_correct [OF inv, of h] by auto
  next
    case False
    then have "assign_copy h h s = Inr s"
      using n by (simp add: assign_copy_def release_def retain_def set_handle_def fun_upd_idem)
    then show ?thesis using inv by blast
  qed
qed (simp add: assign_copy_def release_def retain_def set_handle_same)

lemma rc_step_correct:
  assumes inv: "rc_inv K ow s" and K: "K < 2 ^ 32" and step: "rc_step K s r"
  shows "\<exists>ow' s'. r = Inr s' \<and> rc_inv K ow' s'"
  using step
proof cases
  case (step_new h x c)
  have u: "users s c = {}" "x \<notin> ow ` dom (counters s)" using inv step_new by (auto simp: rc_inv_def)
  then have neq: "snd (handles s h) \<noteq> Some c" by (auto simp: users_def)
  have "fst (handles s h) \<noteq> Some x"
  proof (cases "snd (handles s h)")
    case None
    then show ?thesis using inv by (simp add: rc_inv_def)
  next
    case (Some c')
    then show ?thesis using rc_inv_counter [OF inv Some] u(2) by (metis domI fst_conv image_eqI option.inject)
  qed
  with neq have eq: "r = kbind (destroy_handle h s) (\<lambda>s. Inr (set_handle h (Some x, Some c)
      (s\<lparr>objects := insert x (objects s), counters := (counters s)(c := Some 1)\<rparr>)))"
    using assign_new_eq step_new(1) by simp
  obtain s1 where s1: "destroy_handle h s = Inr s1" "rc_inv K ow s1" "handles s1 = (handles s)(h := (None, None))"
      "objects s1 \<subseteq> objects s" "dom (counters s1) \<subseteq> dom (counters s)"
    using destroy_handle_correct [OF inv] by blast
  have "x \<notin> objects s1" "counters s1 c = None" using s1(4,5) step_new by auto
  then show ?thesis using new_into_null [OF s1(2), of h x c] s1 step_new(2) eq by auto
next
  case (step_copy h g)
  show ?thesis
  proof (cases "g = h")
    case True
    then show ?thesis using assign_self [OF inv] step_copy by blast
  next
    case False
    obtain s1 where "destroy_handle h s = Inr s1" "rc_inv K ow s1" "handles s1 = (handles s)(h := (None, None))"
      using destroy_handle_correct [OF inv] by blast
    then show ?thesis using copy_into_null [of K ow s1 h g] K step_copy assign_copy_eq [OF False] by auto
  qed
next
  case (step_move h g)
  obtain s1 where s1: "destroy_handle h s = Inr s1" "rc_inv K ow s1" "handles s1 = (handles s)(h := (None, None))"
    using destroy_handle_correct [OF inv] by blast
  show ?thesis
  proof (cases "g = h")
    case True
    then have "r = destroy_handle h s" using step_move by (simp add: assign_move_def destroy_handle_def)
    then show ?thesis using s1 by blast
  next
    case False
    then show ?thesis using move_into_null [OF s1(2), of h g] s1 step_move assign_move_eq [OF False] by auto
  qed
next
  case (step_destroy h)
  then show ?thesis using destroy_handle_correct [OF inv] by blast
qed

lemma rc_reach_inv: "rc_reach K s \<Longrightarrow> K < 2 ^ 32 \<Longrightarrow> \<exists>ow. rc_inv K ow s"
proof (induction rule: rc_reach.induct)
  case rc_reach_init
  show ?case by (auto simp: rc_init_def rc_inv_def users_def)
next
  case (rc_reach_step s s')
  then show ?case using rc_step_correct by blast
qed

section \<open>Properties\<close>

text \<open>
  C34. Shared pointers that are only constructed, copied, moved and destroyed are safe: in every state reachable
  with fewer than \<open>2 ^ 32\<close> handles, every handle's object is alive, every live object has a handle, two handles
  on one object share its counter, and every further such operation, self-assignment included, succeeds.
\<close>

theorem ref_counted_safe:
  assumes "rc_reach K s" "K < 2 ^ 32"
  shows "(\<forall>h x. fst (handles s h) = Some x \<longrightarrow> x \<in> objects s)
    \<and> (\<forall>x \<in> objects s. \<exists>h. fst (handles s h) = Some x)
    \<and> (\<forall>h g x. fst (handles s h) = Some x \<and> fst (handles s g) = Some x \<longrightarrow> snd (handles s h) = snd (handles s g))
    \<and> (\<forall>r. rc_step K s r \<longrightarrow> (\<exists>s'. r = Inr s'))"
proof -
  obtain ow where inv: "rc_inv K ow s" using rc_reach_inv [OF assms] by blast
  have obj: "\<exists>c. snd (handles s h) = Some c \<and> c \<in> dom (counters s) \<and> x = ow c" if hx: "fst (handles s h) = Some x" for h x
  proof -
    obtain c where c: "snd (handles s h) = Some c" using inv hx by (cases "snd (handles s h)") (auto simp: rc_inv_def)
    from rc_inv_counter [OF inv c] show ?thesis using hx c by (metis domI fst_conv option.inject)
  qed
  have 1: "x \<in> objects s" if "fst (handles s h) = Some x" for h x
    using obj [OF that] inv by (auto simp: rc_inv_def)
  have 2: "\<exists>h. fst (handles s h) = Some x" if "x \<in> objects s" for x
  proof -
    obtain c n where c: "x = ow c" "counters s c = Some n" using inv \<open>x \<in> objects s\<close> by (auto simp: rc_inv_def)
    then obtain h where "snd (handles s h) = Some c" using inv by (fastforce simp: rc_inv_def users_def)
    then show ?thesis using inv c(1) unfolding rc_inv_def by blast
  qed
  have 3: "snd (handles s h) = snd (handles s g)" if "fst (handles s h) = Some x" "fst (handles s g) = Some x" for h g x
    using obj [OF that(1)] obj [OF that(2)] inv unfolding rc_inv_def inj_on_def by metis
  show ?thesis using 1 2 3 rc_step_correct [OF inv assms(2)] by blast
qed

lemma ref_counted_safe_witness:
  "\<exists>s. rc_reach 2 s \<and> fst (handles s 1) = Some 5 \<and> 5 \<in> objects s"
proof -
  obtain s1 where s1: "assign_new 0 5 9 rc_init = Inr s1" "handles s1 0 = (Some 5, Some 9)" "counters s1 9 = Some 1"
      "handles s1 1 = (None, None)"
    by (simp add: assign_new_def rc_init_def release_def)
  have "rc_step 2 rc_init (assign_new 0 5 9 rc_init)" by (rule step_new) (simp_all add: rc_init_def)
  then have r1: "rc_reach 2 s1" using s1(1) rc_reach_init rc_reach_step by metis
  obtain s2 where s2: "assign_copy 1 0 s1 = Inr s2" "fst (handles s2 1) = Some 5"
    using s1 by (simp add: assign_copy_def release_def retain_def)
  have "rc_step 2 s1 (assign_copy 1 0 s1)" by (rule step_copy) simp_all
  then have r2: "rc_reach 2 s2" using s2(1) r1 rc_reach_step by metis
  then show ?thesis using ref_counted_safe [OF r2] s2(2) by auto
qed

text \<open>
  Assigning \<open>nullptr\<close> to a handle that shares its object counts it out but leaves it pointing there, so that its
  destruction counts it out again: with two handles on an object, after \<open>h = nullptr\<close> and the end of \<open>h\<close> the object
  is gone although \<open>g\<close> still points to it, and the end of \<open>g\<close> is a second release of a freed counter.
\<close>

theorem null_assignment_frees_early:
  assumes "handles s h = (Some x, Some c)" "handles s g = (Some x, Some c)" "h \<noteq> g" "counters s c = Some 2" "x \<in> objects s"
  shows "\<exists>s1 s2. assign_null h s = Inr s1 \<and> handles s1 h = (Some x, Some c) \<and> destroy_handle h s1 = Inr s2
    \<and> handles s2 g = (Some x, Some c) \<and> x \<notin> objects s2 \<and> destroy_handle g s2 = Inl Use_after_free"
  using assms by (simp add: assign_null_def destroy_handle_def release_def delete_object_def set_handle_def)

lemma null_assignment_frees_early_witness:
  "let s = \<lparr>handles = (\<lambda>_. (None, None))(0 := (Some 5, Some 9), 1 := (Some 5, Some 9)), counters = (\<lambda>_. None)(9 := Some 2), objects = {5}\<rparr>
   in \<exists>s1 s2. assign_null 0 s = Inr s1 \<and> destroy_handle 0 s1 = Inr s2 \<and> destroy_handle 1 s2 = Inl Use_after_free"
proof -
  let ?s = "\<lparr>handles = (\<lambda>_. (None, None))(0 := (Some 5, Some 9), 1 := (Some 5, Some 9)), counters = (\<lambda>_. None)(9 := Some 2), objects = {5}\<rparr> :: rc"
  show ?thesis using null_assignment_frees_early [of ?s 0 5 9 1] unfolding Let_def by auto
qed

end
