(* ===== verification/Timer.thy ===== *)
theory Timer
  imports Prelude
begin

text \<open>
  The timer of \<^verbatim>\<open>Kernel/src/arch/x86_64/timer.cpp\<close> and its sleep queue.  The queue holds event numbers with
  their \<open>_ticks\<close>, each counted from the event before.  Counters of type \<open>long\<close> are integers: they cannot reach
  the limit, and signed overflow would be undefined anyway.  The callbacks are not run in the model: the
  operations return the events they dispatch.  Events that have been deleted are remembered, so that touching
  one is a fault.  The spin of \<open>wait\<close> and the programming of the device are not modelled.
\<close>

section \<open>Model\<close>

record timer =
  frequency :: int
  t_ticks :: int
  pending_ticks :: int
  uptime :: int
  sleeping :: "(nat \<times> int) list"
  freed :: "nat set"

definition timer_init :: "int \<Rightarrow> timer" where
  "timer_init freq = \<lparr>frequency = freq, t_ticks = 0, pending_ticks = 0, uptime = 0, sleeping = [], freed = {}\<rparr>"

text \<open>Division of C: towards zero.\<close>

definition c_div :: "int \<Rightarrow> int \<Rightarrow> int" where
  "c_div a b = sgn a * sgn b * (\<bar>a\<bar> div \<bar>b\<bar>)"

definition us_to_ticks :: "timer \<Rightarrow> int \<Rightarrow> int" where
  "us_to_ticks s us = c_div (us * frequency s) 1000000"

definition get_system_uptime :: "timer \<Rightarrow> int \<times> int" where
  "get_system_uptime s = (uptime s, c_div (t_ticks s * 1000000) (frequency s))"

definition time_difference :: "int \<times> int \<Rightarrow> int \<times> int \<Rightarrow> int" where
  "time_difference old new = (fst new - fst old) * 1000000 + (snd new - snd old)"

text \<open>The inner loop of the handler: dispatch while the first event is due.\<close>

fun expire :: "nat set \<Rightarrow> (nat \<times> int) list \<Rightarrow> (nat list \<times> (nat \<times> int) list) kres" where
  "expire fr [] = Inr ([], [])"
| "expire fr ((i, d) # q) =
     (if i \<in> fr then Inl Use_after_free
      else if d \<le> 0 then kbind (expire fr q) (\<lambda>(out, q). Inr (i # out, q))
      else Inr ([], (i, d) # q))"

fun tick_front :: "nat set \<Rightarrow> (nat \<times> int) list \<Rightarrow> (nat list \<times> (nat \<times> int) list) kres" where
  "tick_front fr [] = Inr ([], [])"
| "tick_front fr ((i, d) # q) = (if i \<in> fr then Inl Use_after_free else expire fr ((i, d - 1) # q))"

text \<open>The outer loop, for the ticks that have accumulated.\<close>

fun drain :: "nat set \<Rightarrow> nat \<Rightarrow> (nat \<times> int) list \<Rightarrow> (nat list \<times> (nat \<times> int) list) kres" where
  "drain fr 0 q = Inr ([], q)"
| "drain fr (Suc n) q =
     (if q = [] then Inr ([], q)
      else kbind (tick_front fr q) (\<lambda>(out, q). kbind (drain fr n q) (\<lambda>(outs, q). Inr (out @ outs, q))))"

definition count_tick :: "timer \<Rightarrow> timer" where
  "count_tick s =
     (let s = s\<lparr>t_ticks := t_ticks s + 1, pending_ticks := pending_ticks s + 1\<rparr> in
      if t_ticks s \<ge> frequency s then s\<lparr>uptime := uptime s + 1, t_ticks := t_ticks s - frequency s\<rparr> else s)"

text \<open>\<open>got_lock\<close> is whether the lock of the queue was free; otherwise the tick stays pending.\<close>

definition timer_handler :: "bool \<Rightarrow> timer \<Rightarrow> (nat list \<times> timer) kres" where
  "timer_handler got_lock s =
     (let s = count_tick s in
      if got_lock
      then kbind (drain (freed s) (nat (pending_ticks s)) (sleeping s)) (\<lambda>(out, q).
             Inr (out, s\<lparr>sleeping := q, pending_ticks := 0\<rparr>))
      else Inr ([], s))"

text \<open>The search of the constructor; the event before which it inserts gives up the ticks of the new one.\<close>

fun insert_event :: "nat \<Rightarrow> int \<Rightarrow> (nat \<times> int) list \<Rightarrow> (nat \<times> int) list" where
  "insert_event i t [] = [(i, t)]"
| "insert_event i t ((j, d) # q) =
     (if d \<ge> t then (i, t) # (j, d - t) # q else (j, d) # insert_event i (t - d) q)"

text \<open>The test at the start looks at the global tick counter.  The result is the events called back at once.\<close>

definition timer_event_new :: "nat \<Rightarrow> int \<Rightarrow> timer \<Rightarrow> nat list \<times> timer" where
  "timer_event_new i us s =
     (if t_ticks s \<le> 0 then ([i], s)
      else ([], s\<lparr>sleeping := insert_event i (us_to_ticks s us) (sleeping s)\<rparr>))"

text \<open>
  The destructor: an event still queued hands its ticks to the next one and leaves the queue, if there is a
  next one.
\<close>

fun unlink_event :: "nat \<Rightarrow> (nat \<times> int) list \<Rightarrow> (nat \<times> int) list" where
  "unlink_event i [] = []"
| "unlink_event i [p] = [p]"
| "unlink_event i ((j, d) # (k, e) # q) =
     (if j = i then (k, if d \<ge> 0 then e + d else e) # q else (j, d) # unlink_event i ((k, e) # q))"

definition timer_event_destroy :: "nat \<Rightarrow> timer \<Rightarrow> timer" where
  "timer_event_destroy i s = s\<lparr>sleeping := unlink_event i (sleeping s), freed := insert i (freed s)\<rparr>"

section \<open>Absolute times\<close>

text \<open>The ticks each queued event still has to wait, from now.\<close>

fun due :: "int \<Rightarrow> (nat \<times> int) list \<Rightarrow> (nat \<times> int) list" where
  "due a [] = []"
| "due a ((i, d) # q) = (i, a + d) # due (a + d) q"

definition queue_ok :: "(nat \<times> int) list \<Rightarrow> bool" where
  "queue_ok q \<longleftrightarrow> (\<forall>p \<in> set q. 0 \<le> snd p) \<and> (q \<noteq> [] \<longrightarrow> 0 < snd (hd q))"

lemma due_shift: "due (a + b) q = map (\<lambda>(i, t). (i, t + b)) (due a q)"
  by (induction q arbitrary: a) (auto simp: algebra_simps, metis add.commute add.left_commute)

lemma due_bound: "\<forall>p \<in> set q. 0 \<le> snd p \<Longrightarrow> p \<in> set (due a q) \<Longrightarrow> a \<le> snd p"
proof (induction q arbitrary: a)
  case (Cons x q)
  obtain i d where x: "x = (i, d)" by (cases x)
  show ?case using Cons.IH [of "a + d"] Cons.prems x by fastforce
qed simp

lemma due_append_mid:
  "due a (insert_event i t q) =
     (let (early, late) = (takeWhile (\<lambda>p. snd p < a + t) (due a q), dropWhile (\<lambda>p. snd p < a + t) (due a q))
      in early @ (i, a + t) # late)"
proof (induction q arbitrary: a t)
  case (Cons x q)
  obtain j d where x: "x = (j, d)" by (cases x)
  show ?case
  proof (cases "d \<ge> t")
    case False
    then show ?thesis using Cons.IH [of "a + d" "t - d"] x by (simp add: Let_def)
  qed (use x in simp)
qed simp

lemma takeWhile_dropWhile_stages:
  assumes "\<And>x. P x \<Longrightarrow> Q x"
  shows "takeWhile Q xs = takeWhile P xs @ takeWhile Q (dropWhile P xs)" "dropWhile Q xs = dropWhile Q (dropWhile P xs)"
  using assms by (induction xs) auto

lemma sorted_due: "\<forall>p \<in> set q. 0 \<le> snd p \<Longrightarrow> sorted (map snd (due a q))"
proof (induction q arbitrary: a)
  case (Cons x q)
  obtain i d where x: "x = (i, d)" by (cases x)
  show ?case using Cons.IH [of "a + d"] due_bound [of q _ "a + d"] Cons.prems x by auto
qed simp

lemma set_takeWhile_sorted:
  "sorted (map snd xs) \<Longrightarrow> set (takeWhile (\<lambda>p. snd p \<le> n) xs) = {p \<in> set xs. snd p \<le> n}"
proof (induction xs)
  case (Cons x xs)
  then show ?case by (cases "snd x \<le> n") fastforce+
qed simp

subsection \<open>Ticks\<close>

lemma expire_due:
  "fst ` set q \<inter> fr = {} \<Longrightarrow> \<forall>p \<in> set q. 0 \<le> snd p \<Longrightarrow>
   \<exists>q'. expire fr q = Inr (map fst (takeWhile (\<lambda>p. snd p \<le> 0) (due 0 q)), q')
      \<and> due 0 q' = dropWhile (\<lambda>p. snd p \<le> 0) (due 0 q) \<and> queue_ok q' \<and> set q' \<subseteq> set q"
proof (induction q)
  case (Cons x q)
  obtain i d where x: "x = (i, d)" by (cases x)
  show ?case
  proof (cases "d \<le> 0")
    case True
    then have "d = 0" using Cons.prems(2) x by simp
    then show ?thesis using Cons x by auto
  next
    case False
    then show ?thesis using Cons.prems x by (auto simp: queue_ok_def)
  qed
qed (simp add: queue_ok_def)

lemma tick_front_due:
  assumes "fst ` set q \<inter> fr = {}" "queue_ok q"
  shows "\<exists>q'. tick_front fr q = Inr (map fst (takeWhile (\<lambda>p. snd p \<le> 1) (due 0 q)), q')
    \<and> due 0 q' = map (\<lambda>(i, t). (i, t - 1)) (dropWhile (\<lambda>p. snd p \<le> 1) (due 0 q)) \<and> queue_ok q' \<and> fst ` set q' \<subseteq> fst ` set q"
proof (cases q)
  case (Cons x q1)
  obtain i d where x: "x = (i, d)" by (cases x)
  let ?q = "(i, d - 1) # q1"
  have "0 < d" "\<forall>p \<in> set q1. 0 \<le> snd p" using assms(2) Cons x by (auto simp: queue_ok_def)
  then obtain q' where q': "expire fr ?q = Inr (map fst (takeWhile (\<lambda>p. snd p \<le> 0) (due 0 ?q)), q')"
      "due 0 q' = dropWhile (\<lambda>p. snd p \<le> 0) (due 0 ?q)" "queue_ok q'" "set q' \<subseteq> set ?q"
    using expire_due [of ?q fr] assms(1) Cons x by auto
  have "due 0 ?q = map (\<lambda>(i, t). (i, t - 1)) (due 0 q)"
    using due_shift [of d "- 1" q1] Cons x by (simp add: case_prod_beta')
  moreover have "(\<lambda>p :: nat \<times> int. snd p \<le> 0) \<circ> (\<lambda>(i, t). (i, t - 1)) = (\<lambda>p. snd p \<le> 1)" by (auto simp: fun_eq_iff)
  ultimately have "map fst (takeWhile (\<lambda>p. snd p \<le> 0) (due 0 ?q)) = map fst (takeWhile (\<lambda>p. snd p \<le> 1) (due 0 q))"
      "dropWhile (\<lambda>p. snd p \<le> 0) (due 0 ?q) = map (\<lambda>(i, t). (i, t - 1)) (dropWhile (\<lambda>p. snd p \<le> 1) (due 0 q))"
    by (simp_all add: takeWhile_map dropWhile_map case_prod_beta' comp_def)
  moreover have "fst ` set q' \<subseteq> fst ` set q" using q'(4) Cons x by auto
  ultimately show ?thesis using q' Cons x assms(1) by auto
qed (simp add: queue_ok_def)

lemma drain_due:
  "fst ` set q \<inter> fr = {} \<Longrightarrow> queue_ok q \<Longrightarrow>
   \<exists>q'. drain fr n q = Inr (map fst (takeWhile (\<lambda>p. snd p \<le> int n) (due 0 q)), q')
     \<and> due 0 q' = map (\<lambda>(i, t). (i, t - int n)) (dropWhile (\<lambda>p. snd p \<le> int n) (due 0 q)) \<and> queue_ok q' \<and> fst ` set q' \<subseteq> fst ` set q"
proof (induction n arbitrary: q)
  case 0
  have "\<not> snd p \<le> 0" if "due 0 q = p # ps" for p ps
    using that 0(2) by (cases q) (auto simp: queue_ok_def)
  then have "takeWhile (\<lambda>p. snd p \<le> 0) (due 0 q) = []" "dropWhile (\<lambda>p. snd p \<le> 0) (due 0 q) = due 0 q"
    by (cases "due 0 q"; simp)+
  then show ?case using 0 by (simp add: case_prod_beta')
next
  case (Suc n)
  show ?case
  proof (cases "q = []")
    case False
    let ?f = "\<lambda>(i, t). (i, t - 1 :: int)"
    obtain q1 where q1: "tick_front fr q = Inr (map fst (takeWhile (\<lambda>p. snd p \<le> 1) (due 0 q)), q1)"
        "due 0 q1 = map ?f (dropWhile (\<lambda>p. snd p \<le> 1) (due 0 q))" "queue_ok q1" "fst ` set q1 \<subseteq> fst ` set q"
      using tick_front_due [OF Suc.prems] by blast
    obtain q2 where q2: "drain fr n q1 = Inr (map fst (takeWhile (\<lambda>p. snd p \<le> int n) (due 0 q1)), q2)"
        "due 0 q2 = map (\<lambda>(i, t). (i, t - int n)) (dropWhile (\<lambda>p. snd p \<le> int n) (due 0 q1))" "queue_ok q2" "fst ` set q2 \<subseteq> fst ` set q1"
      using Suc.IH [of q1] q1(3,4) Suc.prems(1) by blast
    have c: "(\<lambda>p :: nat \<times> int. snd p \<le> int n) \<circ> ?f = (\<lambda>p. snd p \<le> int (Suc n))" by (auto simp: fun_eq_iff)
    have le: "snd p \<le> int (Suc n)" if "snd p \<le> 1" for p :: "nat \<times> int" using that by simp
    note st = takeWhile_dropWhile_stages [of "\<lambda>p. snd p \<le> 1" "\<lambda>p. snd p \<le> int (Suc n)" "due 0 q", OF le]
    have "map fst (takeWhile (\<lambda>p. snd p \<le> 1) (due 0 q)) @ map fst (takeWhile (\<lambda>p. snd p \<le> int n) (due 0 q1))
        = map fst (takeWhile (\<lambda>p. snd p \<le> int (Suc n)) (due 0 q))"
      unfolding q1(2) takeWhile_map c by (simp add: st(1) case_prod_beta' comp_def del: of_nat_Suc)
    moreover have "due 0 q2 = map (\<lambda>(i, t). (i, t - int (Suc n))) (dropWhile (\<lambda>p. snd p \<le> int (Suc n)) (due 0 q))"
    proof -
      have sub: "t - int (Suc n) = t - 1 - int n" for t by simp
      show ?thesis unfolding q2(2) q1(2) dropWhile_map c by (simp only: st(2) sub map_map comp_def case_prod_beta' fst_conv snd_conv)
    qed
    moreover have "fst ` set q2 \<subseteq> fst ` set q" using q1(4) q2(4) by blast
    ultimately show ?thesis using False q1(1) q2 by simp
  qed (simp add: queue_ok_def)
qed

subsection \<open>Runs of the handler\<close>

primrec timer_run :: "nat \<Rightarrow> timer \<Rightarrow> (nat list \<times> timer) kres" where
  "timer_run 0 s = Inr ([], s)"
| "timer_run (Suc n) s =
     kbind (timer_handler True s) (\<lambda>(out, s). kbind (timer_run n s) (\<lambda>(outs, s). Inr (out @ outs, s)))"

lemma count_tick_sels [simp]:
  "sleeping (count_tick s) = sleeping s" "freed (count_tick s) = freed s" "pending_ticks (count_tick s) = pending_ticks s + 1"
  by (simp_all add: count_tick_def Let_def)

lemma timer_run_drain:
  "pending_ticks s = 0 \<Longrightarrow> drain (freed s) n (sleeping s) = Inr (out, q) \<Longrightarrow>
   \<exists>s'. timer_run n s = Inr (out, s') \<and> sleeping s' = q \<and> freed s' = freed s \<and> pending_ticks s' = 0"
proof (induction n arbitrary: s out)
  case (Suc n)
  show ?case
  proof (cases "sleeping s = []")
    case True
    let ?s = "(count_tick s)\<lparr>sleeping := [], pending_ticks := 0\<rparr>"
    have "timer_handler True s = Inr ([], ?s)" using True Suc.prems(1) by (simp add: timer_handler_def Let_def)
    moreover have "drain (freed ?s) n (sleeping ?s) = Inr ([], [])" by (cases n) simp_all
    ultimately show ?thesis using Suc.IH [of ?s] Suc.prems True by auto
  next
    case False
    then obtain o1 q1 o2 where t: "tick_front (freed s) (sleeping s) = Inr (o1, q1)" "drain (freed s) n q1 = Inr (o2, q)" "out = o1 @ o2"
      using Suc.prems(2) by auto
    let ?s = "(count_tick s)\<lparr>sleeping := q1, pending_ticks := 0\<rparr>"
    have "timer_handler True s = Inr (o1, ?s)" using False Suc.prems(1) t(1) by (simp add: timer_handler_def Let_def)
    moreover have "\<exists>s'. timer_run n ?s = Inr (o2, s') \<and> sleeping s' = q \<and> freed s' = freed ?s \<and> pending_ticks s' = 0"
      using Suc.IH [of ?s o2] t(2) by simp
    ultimately show ?thesis using t(3) by auto
  qed
qed simp

lemma insert_event_ok:
  assumes "queue_ok q" "0 < t"
  shows "queue_ok (insert_event i t q)"
proof -
  have "\<forall>p \<in> set q. 0 \<le> snd p \<Longrightarrow> 0 \<le> t \<Longrightarrow> \<forall>p \<in> set (insert_event i t q). 0 \<le> snd p"
    by (induction i t q rule: insert_event.induct) auto
  moreover have "0 < snd (hd (insert_event i t q)) \<and> insert_event i t q \<noteq> []"
  proof (cases q)
    case (Cons x q1)
    obtain j d where "x = (j, d)" by (cases x)
    then show ?thesis using assms Cons by (simp add: queue_ok_def)
  qed (use assms in simp)
  ultimately show ?thesis using assms by (auto simp: queue_ok_def)
qed

lemma insert_event_fst: "fst ` set (insert_event i t q) = insert i (fst ` set q)"
  by (induction i t q rule: insert_event.induct) auto

section \<open>Properties\<close>

text \<open>
  C35. The sleep queue keeps time: once an event of \<open>t\<close> ticks has been queued, after any number \<open>n\<close> of timer
  interrupts the events dispatched are exactly this one if \<open>t \<le> n\<close> and those that were due within \<open>n\<close> ticks
  before, each once; queueing it moves no other event.
\<close>

theorem timer_event_fires_on_time:
  assumes "queue_ok (sleeping s)" "fst ` set (sleeping s) \<inter> freed s = {}" "pending_ticks s = 0" "0 < t_ticks s"
    "0 < us_to_ticks s us" "i \<notin> fst ` set (sleeping s)" "i \<notin> freed s" "distinct (map fst (sleeping s))"
  shows "\<exists>out s'. timer_run n (snd (timer_event_new i us s)) = Inr (out, s') \<and> distinct out
    \<and> (\<forall>j. j \<in> set out \<longleftrightarrow> (if j = i then us_to_ticks s us \<le> int n else \<exists>t. (j, t) \<in> set (due 0 (sleeping s)) \<and> t \<le> int n))"
proof -
  let ?t = "us_to_ticks s us" and ?q = "insert_event i (us_to_ticks s us) (sleeping s)"
  let ?s = "s\<lparr>sleeping := ?q\<rparr>" and ?D = "due 0 (sleeping s)"
  have ok: "queue_ok ?q" by (rule insert_event_ok [OF assms(1,5)])
  have fr: "fst ` set ?q \<inter> freed s = {}" using assms(2,7) by (simp add: insert_event_fst)
  obtain q' where d: "drain (freed s) n ?q = Inr (map fst (takeWhile (\<lambda>p. snd p \<le> int n) (due 0 ?q)), q')"
    using drain_due [OF fr ok] by blast
  have fsts: "map fst (due a q) = map fst q" for a q by (induction a q rule: due.induct) auto
  have D: "due 0 ?q = takeWhile (\<lambda>p. snd p < ?t) ?D @ (i, ?t) # dropWhile (\<lambda>p. snd p < ?t) ?D"
    using due_append_mid [of 0 i ?t "sleeping s"] by simp
  then have set_D: "set (due 0 ?q) = insert (i, ?t) (set ?D)"
    by simp (metis set_append takeWhile_dropWhile_id)
  have "distinct (map fst (due 0 ?q))"
  proof -
    have "distinct (map fst (takeWhile (\<lambda>p. snd p < ?t) ?D) @ map fst (dropWhile (\<lambda>p. snd p < ?t) ?D))"
      using assms(8) fsts [of 0 "sleeping s"] by (metis map_append takeWhile_dropWhile_id)
    moreover have "i \<notin> fst ` set ?D" using assms(6) fsts [of 0 "sleeping s"] by (metis image_set)
    moreover have "fst ` set ?D = set (map fst (takeWhile (\<lambda>p. snd p < ?t) ?D)) \<union> set (map fst (dropWhile (\<lambda>p. snd p < ?t) ?D))"
      by (metis image_Un image_set set_append takeWhile_dropWhile_id)
    ultimately show ?thesis unfolding D by auto
  qed
  then have dist: "distinct (map fst (takeWhile (\<lambda>p. snd p \<le> int n) (due 0 ?q)))"
    by (metis distinct_append map_append takeWhile_dropWhile_id)
  have "\<forall>p \<in> set ?q. 0 \<le> snd p" using ok by (auto simp: queue_ok_def)
  then have "set (takeWhile (\<lambda>p. snd p \<le> int n) (due 0 ?q)) = {p \<in> insert (i, ?t) (set ?D). snd p \<le> int n}"
    using set_takeWhile_sorted [OF sorted_due] set_D by simp
  moreover have "i \<notin> fst ` set ?D" using assms(6) fsts [of 0 "sleeping s"] by (metis image_set)
  ultimately have "\<forall>j. j \<in> set (map fst (takeWhile (\<lambda>p. snd p \<le> int n) (due 0 ?q)))
      \<longleftrightarrow> (if j = i then ?t \<le> int n else \<exists>t. (j, t) \<in> set ?D \<and> t \<le> int n)"
    by (force simp: image_iff)
  then show ?thesis
    using timer_run_drain [of ?s n "map fst (takeWhile (\<lambda>p. snd p \<le> int n) (due 0 ?q))" q'] d dist assms(3,4)
    by (auto simp: timer_event_new_def simp del: set_map)
qed

lemma timer_event_fires_on_time_witness:
  "\<exists>out s'. timer_run 50 (snd (timer_event_new 7 50000
      \<lparr>frequency = 1000, t_ticks = 3, pending_ticks = 0, uptime = 0, sleeping = [(4, 60)], freed = {}\<rparr>)) = Inr (out, s') \<and> 7 \<in> set out \<and> 4 \<notin> set out"
  using timer_event_fires_on_time [of "\<lparr>frequency = 1000, t_ticks = 3, pending_ticks = 0, uptime = 0, sleeping = [(4, 60)], freed = {}\<rparr>" 50000 7 50]
  by (auto simp: queue_ok_def us_to_ticks_def c_div_def)

text \<open>
  Deleting the last queued event leaves it in the queue: the destructor unlinks an event only if another
  one follows, so after the event that is alone in the queue has been deleted, as \<open>thread::block\<close> does with the
  one on its stack, the next timer interrupt works on freed memory.
\<close>

theorem destroyed_last_event_dangles:
  assumes "sleeping s = [(i, d)]" "0 \<le> pending_ticks s"
  shows "timer_handler True (timer_event_destroy i s) = Inl Use_after_free"
proof -
  obtain n where "nat (pending_ticks s + 1) = Suc n" using assms(2) by (metis Suc_nat_eq_nat_zadd1 add.commute)
  then show ?thesis using assms(1) by (simp add: timer_handler_def timer_event_destroy_def Let_def)
qed

lemma destroyed_last_event_dangles_witness:
  "timer_handler True (timer_event_destroy 7
     \<lparr>frequency = 1000, t_ticks = 3, pending_ticks = 0, uptime = 0, sleeping = [(7, 50)], freed = {}\<rparr>) = Inl Use_after_free"
  by (rule destroyed_last_event_dangles [where d = 50]) simp_all

end
