(* ===== verification/Process.thy ===== *)
theory Process
  imports Prelude
begin

text \<open>
  The table of open files of a process, \<^verbatim>\<open>Kernel/include/arch/x86_64/scheduler.h\<close> (\<open>struct proc\<close>), and the file
  system calls it makes.  Descriptors are the 32-bit numbers the code passes; the comparison with the size of
  the list converts them to \<open>size_t\<close>, which makes negative ones huge.  Closing a node is a virtual call: the
  function \<open>close\<close> on an abstract world \<open>'w\<close>, an argument of the operations.  The table's lock is held for the
  whole of each operation.
\<close>

section \<open>Model\<close>

record file_desc =
  fd_node :: "nat option"
  fd_pos :: u64
  fd_mode :: u32

type_synonym fd_table = "file_desc option list"

definition fd_index :: "u32 \<Rightarrow> nat" where
  "fd_index fd = unat (scast fd :: u64)"

text \<open>\<open>fs::close\<close> of a descriptor.\<close>

definition fs_close :: "(nat \<Rightarrow> 'w \<Rightarrow> 'w kres) \<Rightarrow> file_desc \<Rightarrow> 'w \<Rightarrow> 'w kres" where
  "fs_close close f w = (case fd_node f of None \<Rightarrow> Inl Assert_failed | Some n \<Rightarrow> close n w)"

text \<open>The search of \<open>allocate_file_desc\<close>: the first empty slot above the three standard ones.\<close>

fun free_slot :: "nat \<Rightarrow> fd_table \<Rightarrow> nat option" where
  "free_slot i [] = None"
| "free_slot i (f # fs) = (if f = None \<and> i > 2 then Some i else free_slot (i + 1) fs)"

definition allocate_file_desc :: "file_desc option \<Rightarrow> fd_table \<Rightarrow> nat \<times> fd_table" where
  "allocate_file_desc f t =
     (case free_slot 0 t of Some i \<Rightarrow> (i, t[i := f]) | None \<Rightarrow> (length t, t @ [f]))"

text \<open>The first component is the result, 0 for success.\<close>

definition replace_file_desc ::
  "(nat \<Rightarrow> 'w \<Rightarrow> 'w kres) \<Rightarrow> u32 \<Rightarrow> file_desc option \<Rightarrow> fd_table \<Rightarrow> 'w \<Rightarrow> (int \<times> fd_table \<times> 'w) kres" where
  "replace_file_desc close fd f t w =
     (let i = fd_index fd in
      if i > length t then Inr (1, t, w)
      else if i = length t then Inr (0, t @ [f], w)
      else kbind (case t ! i of None \<Rightarrow> Inr w | Some g \<Rightarrow> fs_close close g w) (\<lambda>w. Inr (0, t[i := f], w)))"

definition destroy_file_desc ::
  "(nat \<Rightarrow> 'w \<Rightarrow> 'w kres) \<Rightarrow> u32 \<Rightarrow> fd_table \<Rightarrow> 'w \<Rightarrow> (int \<times> fd_table \<times> 'w) kres" where
  "destroy_file_desc close fd t w =
     (let i = fd_index fd in
      if i > length t then Inr (1, t, w)
      else if i \<ge> length t then Inl (Panic ''Out of bounds list access'')
      else (case t ! i of None \<Rightarrow> Inr (1, t, w)
            | Some f \<Rightarrow> kbind (fs_close close f w) (\<lambda>w. Inr (0, t[i := None], w))))"

definition get_file_desc :: "u32 \<Rightarrow> fd_table \<Rightarrow> file_desc option" where
  "get_file_desc fd t = (if fd_index fd < length t then t ! fd_index fd else None)"

fun destroy_all_files :: "(nat \<Rightarrow> 'w \<Rightarrow> 'w kres) \<Rightarrow> fd_table \<Rightarrow> 'w \<Rightarrow> (fd_table \<times> 'w) kres" where
  "destroy_all_files close [] w = Inr ([], w)"
| "destroy_all_files close (f # fs) w =
     kbind (case f of None \<Rightarrow> Inr w
            | Some g \<Rightarrow> (case fd_node g of None \<Rightarrow> Inr w | Some n \<Rightarrow> close n w)) (destroy_all_files close fs)"

text \<open>The destructor of \<open>proc\<close>, unlike \<open>destroy_all_files\<close>, tests neither the descriptor nor its node.\<close>

fun proc_destructor :: "(nat \<Rightarrow> 'w \<Rightarrow> 'w kres) \<Rightarrow> fd_table \<Rightarrow> 'w \<Rightarrow> 'w kres" where
  "proc_destructor close [] w = Inr w"
| "proc_destructor close (f # fs) w =
     (case f of None \<Rightarrow> Inl Null_deref
      | Some g \<Rightarrow> (case fd_node g of None \<Rightarrow> Inl Null_deref | Some n \<Rightarrow> kbind (close n w) (proc_destructor close fs)))"

section \<open>Descriptors and slots\<close>

lemma fd_index_of_nat: "i < 2 ^ 31 \<Longrightarrow> fd_index (of_nat i) = i"
proof -
  assume i: "i < 2 ^ 31"
  then have "sint (of_nat i :: u32) = int i"
    by (simp add: sint_uint signed_take_bit_eq_if_positive bit_iff_odd drop_bit_eq_div take_bit_int_eq_self uint_nat unat_of_nat_small)
  then have "(scast (of_nat i :: u32) :: u64) = of_nat i" by (metis of_int_of_nat_eq of_int_sint)
  then show ?thesis using i by (simp add: fd_index_def unat_of_nat_small)
qed

lemma free_slot_Some:
  "free_slot k t = Some i \<Longrightarrow> k \<le> i \<and> i < k + length t \<and> 2 < i \<and> t ! (i - k) = None
     \<and> (\<forall>j. k \<le> j \<and> j < i \<and> 2 < j \<longrightarrow> t ! (j - k) \<noteq> None)"
proof (induction k t rule: free_slot.induct)
  case (2 k f t)
  show ?case
  proof (cases "f = None \<and> k > 2")
    case False
    then have s: "free_slot (k + 1) t = Some i" using "2.prems" by auto
    note IH = "2.IH" [OF False s]
    have lo: "(f # t) ! (j - k) \<noteq> None" if "k \<le> j" "j < i" "2 < j" for j
    proof (cases "j = k")
      case True
      then show ?thesis using False that by auto
    next
      case neq: False
      then have "t ! (j - (k + 1)) \<noteq> None" using IH that by auto
      then show ?thesis using that neq by (auto simp: nth_Cons')
    qed
    have "k \<le> i \<and> i < k + length (f # t) \<and> 2 < i" "(f # t) ! (i - k) = None" using IH by (simp_all add: nth_Cons')
    with lo show ?thesis by blast
  qed (use 2 in auto)
qed simp

lemma free_slot_None: "free_slot k t = None \<Longrightarrow> j < length t \<Longrightarrow> 2 < k + j \<Longrightarrow> t ! j \<noteq> None"
proof (induction k t arbitrary: j rule: free_slot.induct)
  case (2 k f t)
  then show ?case by (cases j) (auto split: if_splits)
qed simp

lemma allocate_file_desc_spec:
  assumes "allocate_file_desc f t = (i, t')"
  shows "i \<le> length t \<and> t' ! i = f \<and> (i < length t \<longrightarrow> 2 < i \<and> t ! i = None \<and> length t' = length t)
    \<and> (i = length t \<longrightarrow> length t' = Suc (length t)) \<and> (\<forall>j < length t. j \<noteq> i \<longrightarrow> t' ! j = t ! j)
    \<and> (\<forall>j < i. 2 < j \<longrightarrow> t ! j \<noteq> None)"
proof (cases "free_slot 0 t")
  case None
  then show ?thesis using assms free_slot_None [of 0 t] by (auto simp: allocate_file_desc_def nth_append)
next
  case (Some k)
  then show ?thesis using assms free_slot_Some [OF Some] by (auto simp: allocate_file_desc_def)
qed

section \<open>Properties\<close>

text \<open>
  C36. The table of open files works: opening a file into a table of fewer than \<open>2 ^ 31\<close> entries returns the
  lowest number above 2 whose slot is free, or the one past the end, in either case a number under which no file
  was open; the descriptor is then found under that number and no other entry changes, so no open descriptor is
  overwritten; closing it calls the node's \<open>close\<close> exactly once and frees this number and no other, and the
  next file opened gets it again when it is above 2.
\<close>

theorem file_table_open_close:
  assumes "allocate_file_desc (Some f) t = (i, t')" "length t < 2 ^ 31" "fd_node f = Some n" "close n w = Inr w'"
  shows "get_file_desc (of_nat i) t = None \<and> (2 < i \<and> i < length t \<or> i = length t) \<and> length t' = max (length t) (Suc i)
    \<and> get_file_desc (of_nat i) t' = Some f
    \<and> (\<forall>j < length t. j \<noteq> i \<longrightarrow> get_file_desc (of_nat j) t' = get_file_desc (of_nat j) t)
    \<and> (\<forall>j < i. 2 < j \<longrightarrow> get_file_desc (of_nat j) t \<noteq> None)
    \<and> (\<exists>t2. destroy_file_desc close (of_nat i) t' w = Inr (0, t2, w') \<and> t2 = t'[i := None] \<and> get_file_desc (of_nat i) t2 = None
        \<and> (2 < i \<longrightarrow> fst (allocate_file_desc g t2) = i))"
proof -
  note spec = allocate_file_desc_spec [OF assms(1)]
  have i: "fd_index (of_nat i) = i" and len: "i < length t'" using spec assms(2) by (auto intro!: fd_index_of_nat)
  have j: "fd_index (of_nat j) = j" if "j < length t" for j using that assms(2) by (intro fd_index_of_nat) simp
  have get: "get_file_desc (of_nat j) t = t ! j" if "j < length t" for j using j that by (simp add: get_file_desc_def)
  have 0: "get_file_desc (of_nat i) t = None \<and> (2 < i \<and> i < length t \<or> i = length t) \<and> length t' = max (length t) (Suc i)"
    using spec i by (cases "i = length t") (auto simp: get_file_desc_def)
  have 1: "get_file_desc (of_nat i) t' = Some f" using spec i len by (simp add: get_file_desc_def)
  have 2: "get_file_desc (of_nat j) t' = get_file_desc (of_nat j) t" if "j < length t" "j \<noteq> i" for j
    using spec that j get by (auto simp: get_file_desc_def)
  have 3: "get_file_desc (of_nat j) t \<noteq> None" if "j < i" "2 < j" for j using spec that get by auto
  let ?t = "t'[i := None]"
  have d: "destroy_file_desc close (of_nat i) t' w = Inr (0, ?t, w')"
    using i len spec assms(3,4) by (simp add: destroy_file_desc_def fs_close_def)
  have "fst (allocate_file_desc g ?t) = i" if "2 < i"
  proof -
    obtain k t3 where k: "allocate_file_desc g ?t = (k, t3)" by (cases "allocate_file_desc g ?t")
    note s = allocate_file_desc_spec [OF k]
    have "\<not> i < k" using s len that by auto
    moreover have "\<not> k < i"
    proof
      assume "k < i"
      then have "2 < k" "?t ! k = None" using s len by auto
      then show False using spec \<open>k < i\<close> len by (metis nat_neq_iff nth_list_update_neq order_less_le_trans)
    qed
    ultimately show ?thesis using k by simp
  qed
  moreover have "get_file_desc (of_nat i) ?t = None" using i len by (simp add: get_file_desc_def)
  ultimately show ?thesis using 0 1 2 3 d by blast
qed

lemma file_table_open_close_witness:
  "let f = \<lparr>fd_node = Some 9, fd_pos = 0, fd_mode = 0\<rparr>; t = [None, None, None, Some f, None] in
   \<exists>t' t2. allocate_file_desc (Some f) t = (4, t') \<and> get_file_desc 3 t' = Some f
     \<and> destroy_file_desc (\<lambda>n w. Inr (w @ [n])) 4 t' [] = Inr (0, t2, [9])"
proof -
  let ?f = "\<lparr>fd_node = Some 9, fd_pos = 0, fd_mode = 0\<rparr>"
  have a: "allocate_file_desc (Some ?f) [None, None, None, Some ?f, None] = (4, [None, None, None, Some ?f, Some ?f])"
    by (simp add: allocate_file_desc_def)
  have n: "(of_nat 4 :: u32) = 4" by simp
  have g: "get_file_desc 3 [None, None, None, Some ?f, Some ?f] = Some ?f"
    using fd_index_of_nat [of 3] by (simp add: get_file_desc_def)
  from file_table_open_close [OF a, of 9 "\<lambda>n w. Inr (w @ [n])" "[]" "[9]"] a g show ?thesis unfolding Let_def n by auto
qed

text \<open>
  Closing the descriptor number one past the end of the table takes the kernel down instead of returning
  \<open>EBADF\<close>: the guard of \<open>destroy_file_desc\<close> lets the size itself through, and the list access panics.
\<close>

theorem close_past_end_panics:
  assumes "length t < 2 ^ 31"
  shows "destroy_file_desc close (of_nat (length t)) t w = Inl (Panic ''Out of bounds list access'')
    \<and> (\<forall>i. length t < i \<and> i < 2 ^ 31 \<longrightarrow> destroy_file_desc close (of_nat i) t w = Inr (1, t, w))"
  using fd_index_of_nat assms by (auto simp: destroy_file_desc_def)

lemma close_past_end_panics_witness:
  "destroy_file_desc (\<lambda>n w. Inr w) 3 [None, None, None] () = Inl (Panic ''Out of bounds list access'')"
  using close_past_end_panics [of "[None, None, None]" "\<lambda>n w. Inr w" "()"] by simp

end
