(* ===== verification/Syscalls.thy ===== *)
theory Syscalls
  imports Process AddressSpace
begin

unbundle bit_operations_syntax

text \<open>
  The system calls of \<^verbatim>\<open>Kernel/src/arch/x86_64/syscalls.cpp\<close>.  The constants of the ABI (flag bits, seek modes)
  come from a header outside the repository and are an argument.  So are the virtual methods of the file
  system nodes and the path resolution, on an abstract world \<open>'w\<close>: they are what the device and file system
  theories provide.  Results are \<open>Inl e\<close> for \<open>-e\<close> and \<open>Inr v\<close> for the value \<open>v\<close>; a call that stops the kernel
  is a \<open>kfault\<close>.  What the calls log is not modelled.
\<close>

section \<open>Interfaces\<close>

record abi =
  O_NOFOLLOW :: u64
  O_CREAT :: u64
  O_DIRECTORY :: u64
  O_TRUNC :: u64
  O_ACCMODE :: u64
  O_RDWR :: u64
  O_WRONLY :: u64
  O_APPEND :: u64
  O_CLOEXEC :: u64
  O_NONBLOCK :: u64
  AT_SYMLINK_NOFOLLOW :: u64
  SEEK_SET :: u64
  SEEK_CUR :: u64
  SEEK_END :: u64
  MAP_PRIVATE :: u64
  MAP_ANONYMOUS :: u64
  MAP_FIXED :: u64
  FIOCLEX :: u64

record node_info =
  ni_inode :: u64
  ni_uid :: u32
  ni_size :: u64
  ni_flags :: u32

text \<open>
  \<open>v_read\<close> returns the bytes it stored for the requested size, \<open>v_open\<close> the descriptor, \<open>v_add_handle\<close> and
  \<open>v_close\<close> count references, \<open>v_new_pipe\<close> is \<open>create_pipe\<close>, returning the nodes of the two ends.
\<close>

record 'w vfs =
  v_root :: nat
  v_info :: "nat \<Rightarrow> 'w \<Rightarrow> node_info"
  v_read :: "nat \<Rightarrow> u64 \<Rightarrow> u64 \<Rightarrow> 'w \<Rightarrow> (u8 list sysret \<times> 'w) kres"
  v_write :: "nat \<Rightarrow> u64 \<Rightarrow> u8 list \<Rightarrow> 'w \<Rightarrow> (u64 sysret \<times> 'w) kres"
  v_open :: "nat \<Rightarrow> u64 \<Rightarrow> 'w \<Rightarrow> (file_desc option \<times> 'w) kres"
  v_close :: "nat \<Rightarrow> 'w \<Rightarrow> 'w kres"
  v_add_handle :: "nat \<Rightarrow> 'w \<Rightarrow> 'w"
  v_ioctl :: "nat \<Rightarrow> u64 \<Rightarrow> u64 \<Rightarrow> 'w \<Rightarrow> (u32 sysret \<times> 'w) kres"
  v_resolve :: "u8 list \<Rightarrow> u8 list \<Rightarrow> bool \<Rightarrow> 'w \<Rightarrow> nat option"
  v_new_pipe :: "'w \<Rightarrow> nat \<times> nat \<times> 'w"

record 'w sys =
  s_uid :: u32
  s_gid :: u32
  s_euid :: u32
  s_egid :: u32
  s_pid :: u32
  s_parent :: "u32 option"
  s_fds :: fd_table
  s_cwd :: "u8 list"
  s_mm :: mm
  s_fs_base :: u64
  s_world :: 'w

type_synonym ('w, 'a) call = "('a sysret \<times> 'w sys) kres"

section \<open>Files\<close>

definition set_fd :: "u32 \<Rightarrow> file_desc \<Rightarrow> 'w sys \<Rightarrow> 'w sys" where
  "set_fd fd f s = s\<lparr>s_fds := (s_fds s)[fd_index fd := Some f]\<rparr>"

text \<open>\<open>fs::read\<close> and \<open>fs::write\<close> on a descriptor advance its position by a positive result.\<close>

definition sys_read :: "'w vfs \<Rightarrow> u64 \<Rightarrow> u64 \<Rightarrow> u64 \<Rightarrow> 'w sys \<Rightarrow> ('w, u8 list) call" where
  "sys_read v fd buffer len s =
     (case get_file_desc (ucast fd) (s_fds s) of None \<Rightarrow> Inr (Inl EBADF, s)
      | Some h \<Rightarrow>
          if \<not> check_usermode_pointer buffer len (mm_regions (s_mm s)) then Inr (Inl EFAULT, s)
          else (case fd_node h of None \<Rightarrow> Inl Assert_failed
            | Some n \<Rightarrow>
                kbind (v_read v n (fd_pos h) len (s_world s)) (\<lambda>(r, w).
                let s = s\<lparr>s_world := w\<rparr> in
                case r of Inl e \<Rightarrow> Inr (Inl e, s)
                | Inr bs \<Rightarrow> Inr (Inr bs, set_fd (ucast fd) (h\<lparr>fd_pos := fd_pos h + of_nat (length bs)\<rparr>) s))))"

definition sys_write :: "'w vfs \<Rightarrow> u64 \<Rightarrow> u64 \<Rightarrow> u8 list \<Rightarrow> 'w sys \<Rightarrow> ('w, u64) call" where
  "sys_write v fd buffer bytes s =
     (case get_file_desc (ucast fd) (s_fds s) of None \<Rightarrow> Inr (Inl EBADF, s)
      | Some h \<Rightarrow>
          if \<not> check_usermode_pointer buffer (of_nat (length bytes)) (mm_regions (s_mm s)) then Inr (Inl EFAULT, s)
          else (case fd_node h of None \<Rightarrow> Inl Assert_failed
            | Some n \<Rightarrow>
                kbind (v_write v n (fd_pos h) bytes (s_world s)) (\<lambda>(r, w).
                let s = s\<lparr>s_world := w\<rparr> in
                case r of Inl e \<Rightarrow> Inr (Inl e, s)
                | Inr k \<Rightarrow> Inr (Inr k, set_fd (ucast fd) (h\<lparr>fd_pos := fd_pos h + k\<rparr>) s))))"

definition open_node :: "'w vfs \<Rightarrow> nat \<Rightarrow> u64 \<Rightarrow> bool \<Rightarrow> 'w sys \<Rightarrow> ('w, nat) call" where
  "open_node v n flags at_end s =
     kbind (v_open v n flags (s_world s)) (\<lambda>(f, w).
     let s = s\<lparr>s_world := w\<rparr> in
     case f of None \<Rightarrow> Inr (Inl ENOENT, s)
     | Some f \<Rightarrow>
         kbind (if \<not> at_end then Inr f
                else (case fd_node f of None \<Rightarrow> Inl Null_deref | Some m \<Rightarrow> Inr (f\<lparr>fd_pos := ni_size (v_info v m w)\<rparr>))) (\<lambda>f.
         let (i, t) = allocate_file_desc (Some f) (s_fds s) in Inr (Inr i, s\<lparr>s_fds := t\<rparr>)))"

definition open_root :: "'w vfs \<Rightarrow> 'w sys \<Rightarrow> ('w, nat) call" where
  "open_root v s =
     kbind (v_open v (v_root v) 0 (s_world s)) (\<lambda>(f, w).
     let (i, t) = allocate_file_desc f (s_fds s) in Inr (Inr i, s\<lparr>s_world := w, s_fds := t\<rparr>))"

text \<open>\<open>path\<close> is the string without its null byte.\<close>

definition sys_open :: "abi \<Rightarrow> 'w vfs \<Rightarrow> u8 list \<Rightarrow> u64 \<Rightarrow> 'w sys \<Rightarrow> ('w, nat) call" where
  "sys_open c v path flags s =
     (if path = [47] then open_root v s
      else case v_resolve v path (s_cwd s) (flags AND O_NOFOLLOW c = 0) (s_world s) of
        None \<Rightarrow> Inr (Inl (if flags AND O_CREAT c \<noteq> 0 then EROFS else ENOENT), s)
      | Some n \<Rightarrow>
          if flags AND O_DIRECTORY c \<noteq> 0 \<and> ni_flags (v_info v n (s_world s)) AND 0xF000 \<noteq> 0x4000 then Inr (Inl ENOTDIR, s)
          else if flags AND O_TRUNC c \<noteq> 0 \<and> (flags AND O_ACCMODE c = O_RDWR c \<or> flags AND O_ACCMODE c = O_WRONLY c)
          then Inr (Inl EROFS, s)
          else open_node v n flags (flags AND O_APPEND c \<noteq> 0) s)"

definition sys_close :: "'w vfs \<Rightarrow> u64 \<Rightarrow> 'w sys \<Rightarrow> ('w, u64) call" where
  "sys_close v fd s =
     kbind (destroy_file_desc (v_close v) (ucast fd) (s_fds s) (s_world s)) (\<lambda>(err, t, w).
     let s = s\<lparr>s_fds := t, s_world := w\<rparr> in Inr (if err \<noteq> 0 then Inl EBADF else Inr 0, s))"

text \<open>Offsets, sizes and positions are compared as unsigned 64-bit numbers.\<close>

definition sys_seek :: "abi \<Rightarrow> 'w vfs \<Rightarrow> u64 \<Rightarrow> u64 \<Rightarrow> u64 \<Rightarrow> 'w sys \<Rightarrow> ('w, u64) call" where
  "sys_seek c v fd off whence s =
     (case get_file_desc (ucast fd) (s_fds s) of None \<Rightarrow> Inr (Inl EBADF, s)
      | Some h \<Rightarrow>
         (case fd_node h of None \<Rightarrow> Inl Null_deref
          | Some n \<Rightarrow>
              let sz = ni_size (v_info v n (s_world s));
                  move = (\<lambda>p. Inr (Inr p, set_fd (ucast fd) (h\<lparr>fd_pos := p\<rparr>) s)) in
              if whence = SEEK_SET c then (if off > sz then Inr (Inl EINVAL, s) else move off)
              else if whence = SEEK_CUR c then (if off + fd_pos h > sz then Inr (Inl EINVAL, s) else move (fd_pos h + off))
              else if whence = SEEK_END c then (if off > 0 then Inr (Inl EINVAL, s) else move (sz + off))
              else Inr (Inl EINVAL, s)))"

definition sys_dup :: "abi \<Rightarrow> 'w vfs \<Rightarrow> u64 \<Rightarrow> u64 \<Rightarrow> u64 \<Rightarrow> 'w sys \<Rightarrow> ('w, u32) call" where
  "sys_dup c v fd flags requested s =
     (let fd = ucast fd :: u32; requested = ucast requested :: u32 in
      if fd = requested then Inr (Inl EINVAL, s)
      else case get_file_desc fd (s_fds s) of None \<Rightarrow> Inr (Inl EBADF, s)
      | Some h \<Rightarrow>
         (case fd_node h of None \<Rightarrow> Inl Null_deref
          | Some n \<Rightarrow>
              let s = s\<lparr>s_world := v_add_handle v n (s_world s)\<rparr>;
                  f = (if flags AND O_CLOEXEC c \<noteq> 0 then h\<lparr>fd_mode := fd_mode h OR ucast (O_CLOEXEC c)\<rparr> else h) in
              if sint requested \<ge> 0
              then if unat requested \<ge> length (s_fds s) then Inr (Inl ENOSYS, s)
                   else kbind (destroy_file_desc (v_close v) requested (s_fds s) (s_world s)) (\<lambda>(_, t, w).
                        kbind (replace_file_desc (v_close v) requested (Some f) t w) (\<lambda>(err, t, w).
                        let s = s\<lparr>s_fds := t, s_world := w\<rparr> in
                        Inr (if err \<noteq> 0 then Inl EBADF else Inr requested, s)))
              else (let (i, t) = allocate_file_desc (Some f) (s_fds s) in Inr (Inr (of_nat i), s\<lparr>s_fds := t\<rparr>))))"

definition sys_get_fstat_flags :: "u64 \<Rightarrow> 'w sys \<Rightarrow> u32 sysret" where
  "sys_get_fstat_flags fd s = (case get_file_desc (ucast fd) (s_fds s) of None \<Rightarrow> Inl EBADF | Some h \<Rightarrow> Inr (fd_mode h))"

definition sys_set_fstat_flags :: "abi \<Rightarrow> u64 \<Rightarrow> u64 \<Rightarrow> 'w sys \<Rightarrow> ('w, u64) call" where
  "sys_set_fstat_flags c fd flags s =
     (case get_file_desc (ucast fd) (s_fds s) of None \<Rightarrow> Inr (Inl EBADF, s)
      | Some h \<Rightarrow>
          let m = ucast (O_APPEND c OR O_NONBLOCK c) :: u32 in
          Inr (Inr 0, set_fd (ucast fd) (h\<lparr>fd_mode := (fd_mode h AND NOT m) OR (ucast flags AND m)\<rparr>) s))"

text \<open>A null descriptor from \<open>fs::open\<close> would be dereferenced.\<close>

definition open_end :: "'w vfs \<Rightarrow> nat \<Rightarrow> u64 \<Rightarrow> 'w sys \<Rightarrow> (nat \<times> 'w sys) kres" where
  "open_end v n flags s =
     kbind (v_open v n 0 (s_world s)) (\<lambda>(f, w).
     case f of None \<Rightarrow> Inl Null_deref
     | Some f \<Rightarrow> let (i, t) = allocate_file_desc (Some (f\<lparr>fd_mode := ucast flags\<rparr>)) (s_fds s) in
                 Inr (i, s\<lparr>s_fds := t, s_world := w\<rparr>))"

definition sys_pipe :: "abi \<Rightarrow> 'w vfs \<Rightarrow> u64 \<Rightarrow> 'w sys \<Rightarrow> ('w, nat \<times> nat) call" where
  "sys_pipe c v flags s =
     (if (ucast flags :: u32) AND NOT (ucast (O_CLOEXEC c OR O_NONBLOCK c)) \<noteq> 0 then Inr (Inl EINVAL, s)
      else let (r, wr, w) = v_new_pipe v (s_world s); s = s\<lparr>s_world := w\<rparr> in
        kbind (open_end v r flags s) (\<lambda>(i, s).
        kbind (open_end v wr flags s) (\<lambda>(j, s). Inr (Inr (i, j), s))))"

definition sys_ioctl :: "abi \<Rightarrow> 'w vfs \<Rightarrow> u64 \<Rightarrow> u64 \<Rightarrow> u64 \<Rightarrow> u64 \<Rightarrow> 'w sys \<Rightarrow> ('w, u32) call" where
  "sys_ioctl c v fd request arg result s =
     (if result \<noteq> 0 \<and> \<not> check_usermode_pointer result 4 (mm_regions (s_mm s)) then Inr (Inl EFAULT, s)
      else case get_file_desc (ucast fd) (s_fds s) of None \<Rightarrow> Inr (Inl EBADF, s)
      | Some h \<Rightarrow>
          if request = FIOCLEX c then Inr (Inr 0, set_fd (ucast fd) (h\<lparr>fd_mode := fd_mode h OR ucast (O_CLOEXEC c)\<rparr>) s)
          else (case fd_node h of None \<Rightarrow> Inl Assert_failed
            | Some n \<Rightarrow> kbind (v_ioctl v n request arg (s_world s)) (\<lambda>(r, w). Inr (r, s\<lparr>s_world := w\<rparr>))))"

record stat =
  st_ino :: u64
  st_mode :: u32
  st_uid :: u32
  st_size :: u64

definition stat_of :: "node_info \<Rightarrow> stat" where
  "stat_of i =
     (let is = (\<lambda>t. if ni_flags i AND 0xF000 = t then t else 0) in
      \<lparr>st_ino = ni_inode i, st_mode = is 0x4000 OR is 0x8000 OR is 0x6000 OR is 0x2000 OR is 0xA000 OR is 0xC000,
       st_uid = ni_uid i, st_size = ni_size i\<rparr>)"

definition sys_fstat :: "'w vfs \<Rightarrow> u64 \<Rightarrow> 'w sys \<Rightarrow> stat sysret kres" where
  "sys_fstat v fd s =
     (case get_file_desc (ucast fd) (s_fds s) of None \<Rightarrow> Inr (Inl EBADF)
      | Some h \<Rightarrow> (case fd_node h of None \<Rightarrow> Inl Null_deref | Some n \<Rightarrow> Inr (Inr (stat_of (v_info v n (s_world s))))))"

definition sys_stat :: "abi \<Rightarrow> 'w vfs \<Rightarrow> u64 \<Rightarrow> u64 \<Rightarrow> u8 list \<Rightarrow> u64 \<Rightarrow> 'w sys \<Rightarrow> stat sysret" where
  "sys_stat c v st path_ptr path flags s =
     (if \<not> check_usermode_pointer st 64 (mm_regions (s_mm s)) \<or> \<not> check_usermode_pointer path_ptr 64 (mm_regions (s_mm s)) then Inl EINVAL
      else case v_resolve v path (s_cwd s) (flags AND AT_SYMLINK_NOFOLLOW c = 0) (s_world s) of
        None \<Rightarrow> Inl ENOENT | Some n \<Rightarrow> Inr (stat_of (v_info v n (s_world s))))"

section \<open>Memory and identity\<close>

text \<open>
  The address of the new region goes through the pointer \<open>address\<close> of the user, which the call does not check;
  the call then returns 0.  \<open>st\<close> is the processor's store of a 64-bit value, with the page fault it may take.
  \<open>-1\<close> is the failure result.
\<close>

definition sys_mmap ::
  "abi \<Rightarrow> (u64 \<Rightarrow> u64 \<Rightarrow> 'w sys \<Rightarrow> 'w sys kres) \<Rightarrow> (nat \<Rightarrow> u64) \<Rightarrow> nat \<Rightarrow> int \<Rightarrow> u64 \<Rightarrow> u64 \<Rightarrow> u64 \<Rightarrow> u64 \<Rightarrow> 'w sys \<Rightarrow> ('w, u64) call" where
  "sys_mmap c st tp oid uses address sz hint flags s =
     (if sz = 0 then Inr (Inl EINVAL, s)
      else if flags AND NOT (MAP_PRIVATE c OR MAP_ANONYMOUS c OR MAP_FIXED c) \<noteq> 0 \<or> flags AND MAP_ANONYMOUS c = 0
      then Inr (Inl EINVAL, s)
      else kbind (allocate_anonymous_vmo tp oid uses sz hint (flags AND MAP_FIXED c \<noteq> 0) (s_mm s)) (\<lambda>(r, m).
        let s = s\<lparr>s_mm := m\<rparr> in
        case r of None \<Rightarrow> Inr (Inr (- 1), s)
        | Some i \<Rightarrow>
            if r_base (mm_regions m ! i) = 0 then Inr (Inr (- 1), s)
            else kbind (st address (r_base (mm_regions m ! i)) s) (\<lambda>s. Inr (Inr 0, s))))"

definition sys_set_fsbase :: "u64 \<Rightarrow> 'w sys \<Rightarrow> 'w sys" where
  "sys_set_fsbase b s = s\<lparr>s_fs_base := b\<rparr>"

definition sys_setuid :: "u64 \<Rightarrow> 'w sys \<Rightarrow> u64 sysret \<times> 'w sys" where
  "sys_setuid arg s =
     (let r = ucast arg in
      if s_uid s = r then (Inr 0, s)
      else if s_euid s \<noteq> 0 then (Inl EPERM, s)
      else (Inr 0, s\<lparr>s_uid := r, s_euid := r\<rparr>))"

definition sys_setgid :: "u64 \<Rightarrow> 'w sys \<Rightarrow> u64 sysret \<times> 'w sys" where
  "sys_setgid arg s =
     (let r = ucast arg in
      if s_gid s = r then (Inr 0, s)
      else if s_euid s \<noteq> 0 then (Inl EPERM, s)
      else (Inr 0, s\<lparr>s_gid := r, s_egid := r\<rparr>))"

definition sys_seteuid :: "u64 \<Rightarrow> 'w sys \<Rightarrow> u64 sysret \<times> 'w sys" where
  "sys_seteuid arg s =
     (let r = ucast arg in
      if s_euid s = r then (Inr 0, s)
      else if s_uid s \<noteq> 0 \<and> s_uid s \<noteq> r then (Inl EPERM, s)
      else (Inr 0, s\<lparr>s_euid := r\<rparr>))"

definition sys_setegid :: "u64 \<Rightarrow> 'w sys \<Rightarrow> u64 sysret \<times> 'w sys" where
  "sys_setegid arg s =
     (let r = ucast arg in
      if s_egid s = r then (Inr 0, s)
      else if s_uid s \<noteq> 0 \<and> s_gid s \<noteq> r then (Inl EPERM, s)
      else (Inr 0, s\<lparr>s_egid := r\<rparr>))"

definition sys_getppid :: "'w sys \<Rightarrow> u32" where
  "sys_getppid s = (case s_parent s of None \<Rightarrow> - 1 | Some p \<Rightarrow> p)"

text \<open>
  The entry point: an unknown number is refused; a zombie, or a thread whose lock is taken because its process
  is being ended, halts for ever.
\<close>

definition syscall_handler :: "u64 \<Rightarrow> bool \<Rightarrow> bool \<Rightarrow> (u64 \<Rightarrow> 's \<Rightarrow> ('a sysret \<times> 's) kres) \<Rightarrow> 's \<Rightarrow> ('a sysret \<times> 's) kres" where
  "syscall_handler rax zombie got_lock table s =
     (if rax \<ge> 29 then Inr (Inl ENOSYS, s)
      else if zombie then Inl Loops
      else if \<not> got_lock then Inl Loops
      else table rax s)"

section \<open>Identities\<close>

datatype id_call = Setuid u64 | Setgid u64 | Seteuid u64 | Setegid u64

fun id_exec :: "id_call \<Rightarrow> 'w sys \<Rightarrow> 'w sys" where
  "id_exec (Setuid a) s = snd (sys_setuid a s)"
| "id_exec (Setgid a) s = snd (sys_setgid a s)"
| "id_exec (Seteuid a) s = snd (sys_seteuid a s)"
| "id_exec (Setegid a) s = snd (sys_setegid a s)"

lemmas id_defs = sys_setuid_def sys_setgid_def sys_seteuid_def sys_setegid_def

text \<open>
  C37. An unprivileged process stays unprivileged: from a state whose user and effective user are not root, no
  sequence of the four calls changes the user or the group, the effective user is the initial one or the user,
  and the effective group the initial one or the group.  In particular it never becomes root.
\<close>

theorem unprivileged_stays_unprivileged:
  assumes "s_uid s \<noteq> 0" "s_euid s \<noteq> 0"
  shows "let s' = foldl (\<lambda>s c. id_exec c s) s calls in
    s_uid s' = s_uid s \<and> s_gid s' = s_gid s \<and> s_euid s' \<in> {s_euid s, s_uid s} \<and> s_egid s' \<in> {s_egid s, s_gid s}"
proof -
  define inv where "inv = (\<lambda>s' :: 'a sys. s_uid s' = s_uid s \<and> s_gid s' = s_gid s \<and> s_euid s' \<in> {s_euid s, s_uid s} \<and> s_egid s' \<in> {s_egid s, s_gid s})"
  have step: "inv (id_exec c s')" if "inv s'" for c s'
    using that assms by (cases c) (auto simp: inv_def id_defs Let_def)
  have "inv s' \<Longrightarrow> inv (foldl (\<lambda>s c. id_exec c s) s' calls)" for s'
    by (induction calls arbitrary: s') (simp_all add: step)
  moreover have "inv s" by (simp add: inv_def)
  ultimately show ?thesis unfolding Let_def inv_def by blast
qed

lemma unprivileged_stays_unprivileged_witness:
  "let s = \<lparr>s_uid = 1000, s_gid = 1000, s_euid = 1000, s_egid = 1000, s_pid = 5, s_parent = None, s_fds = [], s_cwd = [47],
            s_mm = undefined, s_fs_base = 0, s_world = ()\<rparr>
   in s_euid (foldl (\<lambda>s c. id_exec c s) s [Seteuid 0, Setuid 0, Setgid 0, Seteuid 0]) = 1000"
  using unprivileged_stays_unprivileged [of "\<lparr>s_uid = 1000, s_gid = 1000, s_euid = 1000, s_egid = 1000, s_pid = 5, s_parent = None, s_fds = [], s_cwd = [47],
            s_mm = undefined, s_fs_base = 0, s_world = ()\<rparr>" "[Seteuid 0, Setuid 0, Setgid 0, Seteuid 0]"] by (simp add: Let_def)

section \<open>Seeking\<close>

text \<open>
  A successful seek leaves the position inside the file: it stores the position it returns, which is at most
  the size of the node; the position is the offset, the old position plus the offset, or the size, by mode.  An
  offset from the end is only accepted when it is zero: negative ones are refused because the test compares
  them as unsigned.
\<close>

theorem sys_seek_within_file:
  assumes "sys_seek c v fd off whence s = Inr (r, s')" "SEEK_SET c \<noteq> SEEK_CUR c" "SEEK_SET c \<noteq> SEEK_END c" "SEEK_CUR c \<noteq> SEEK_END c"
  shows "case r of Inl e \<Rightarrow> s' = s
    | Inr p \<Rightarrow> (\<exists>h n. get_file_desc (ucast fd) (s_fds s) = Some h \<and> fd_node h = Some n
        \<and> get_file_desc (ucast fd) (s_fds s') = Some (h\<lparr>fd_pos := p\<rparr>) \<and> p \<le> ni_size (v_info v n (s_world s))
        \<and> (whence = SEEK_SET c \<longrightarrow> p = off) \<and> (whence = SEEK_CUR c \<longrightarrow> p = fd_pos h + off)
        \<and> (whence = SEEK_END c \<longrightarrow> off = 0 \<and> p = ni_size (v_info v n (s_world s))))"
proof (cases "get_file_desc (ucast fd) (s_fds s)")
  case None
  then show ?thesis using assms(1) by (auto simp: sys_seek_def)
next
  case (Some h)
  then have i: "fd_index (ucast fd) < length (s_fds s)" by (simp add: get_file_desc_def split: if_splits)
  obtain n where n: "fd_node h = Some n" using assms(1) Some by (cases "fd_node h") (auto simp: sys_seek_def)
  let ?sz = "ni_size (v_info v n (s_world s))"
  have set: "get_file_desc (ucast fd) (s_fds (set_fd (ucast fd) f s)) = Some f" for f
    using i by (simp add: get_file_desc_def set_fd_def)
  show ?thesis
  proof (cases r)
    case (Inr p)
    have "(whence = SEEK_SET c \<and> off \<le> ?sz \<and> p = off \<or> whence = SEEK_CUR c \<and> fd_pos h + off \<le> ?sz \<and> p = fd_pos h + off
        \<or> whence = SEEK_END c \<and> off = 0 \<and> p = ?sz) \<and> s' = set_fd (ucast fd) (h\<lparr>fd_pos := p\<rparr>) s"
      using assms(1) Some n Inr by (auto simp: sys_seek_def Let_def not_less add.commute split: if_splits)
    then show ?thesis using Inr Some n set assms(2-4) by auto
  next
    case (Inl e)
    then show ?thesis using assms(1) Some n by (auto simp: sys_seek_def Let_def split: if_splits)
  qed
qed

text \<open>ABI constants as in the usual headers, and a file system of one node that does nothing, for the examples.\<close>

definition demo_abi :: abi where
  "demo_abi = \<lparr>O_NOFOLLOW = 0x20000, O_CREAT = 0x40, O_DIRECTORY = 0x10000, O_TRUNC = 0x200, O_ACCMODE = 3, O_RDWR = 2,
     O_WRONLY = 1, O_APPEND = 0x400, O_CLOEXEC = 0x80000, O_NONBLOCK = 0x800, AT_SYMLINK_NOFOLLOW = 0x100, SEEK_SET = 0, SEEK_CUR = 1,
     SEEK_END = 2, MAP_PRIVATE = 2, MAP_ANONYMOUS = 0x20, MAP_FIXED = 0x10, FIOCLEX = 0x5451\<rparr>"

definition demo_vfs :: "unit vfs" where
  "demo_vfs = \<lparr>v_root = 0, v_info = (\<lambda>n w. \<lparr>ni_inode = 2, ni_uid = 0, ni_size = 100, ni_flags = 0x8000\<rparr>),
     v_read = (\<lambda>n p k w. Inr (Inr [], w)), v_write = (\<lambda>n p b w. Inr (Inr 0, w)), v_open = (\<lambda>n f w. Inr (None, w)),
     v_close = (\<lambda>n w. Inr w), v_add_handle = (\<lambda>n w. w), v_ioctl = (\<lambda>n r a w. Inr (Inl ENOSYS, w)),
     v_resolve = (\<lambda>p d f w. None), v_new_pipe = (\<lambda>w. (1, 2, w))\<rparr>"

definition demo_mm :: mm where
  "demo_mm =
     \<lparr>mm_regions = [\<lparr>r_base = 0x400000, r_size = 0x1000, r_vmo = Some 0\<rparr>], mm_vmos = (\<lambda>_. None),
      mm_pm = \<lparr>page_dirs = (\<lambda>_ _. 7), page_dirs_phys = (\<lambda>_. 0), page_dirs_virt = (\<lambda>_. 4096),
        page_tables = (\<lambda>_ _. Some (0, (\<lambda>_. 0))), pm_pdpt = (\<lambda>_. 0), pm_pml4 = (\<lambda>_. 0), pdpt_phys = 0, pml4_phys = 0\<rparr>,
      mm_vm = \<lparr>vm_heap = \<lparr>kernel_heap_dir = (\<lambda>_. 3), kernel_heap_dir_tables = (\<lambda>_ _. 0)\<rparr>,
        vm_phys = \<lparr>phys_mem_bitmap = [], used_blocks = 0, max_blocks = 0, next_chunk = 1\<rparr>\<rparr>\<rparr>"

definition demo_sys :: "unit sys" where
  "demo_sys = \<lparr>s_uid = 0, s_gid = 0, s_euid = 0, s_egid = 0, s_pid = 1, s_parent = None,
     s_fds = [Some \<lparr>fd_node = Some 0, fd_pos = 10, fd_mode = 0\<rparr>], s_cwd = [47], s_mm = demo_mm, s_fs_base = 0, s_world = ()\<rparr>"

lemma sys_seek_within_file_witness:
  "\<exists>s'. sys_seek demo_abi demo_vfs 0 20 1 demo_sys = Inr (Inr 30, s') \<and> get_file_desc 0 (s_fds s') = Some \<lparr>fd_node = Some 0, fd_pos = 30, fd_mode = 0\<rparr>"
proof -
  have "\<exists>s'. sys_seek demo_abi demo_vfs 0 20 1 demo_sys = Inr (Inr 30, s')"
    by (simp add: sys_seek_def demo_sys_def demo_vfs_def demo_abi_def get_file_desc_def fd_index_def Let_def)
  then obtain s' where s': "sys_seek demo_abi demo_vfs 0 20 1 demo_sys = Inr (Inr 30, s')" by blast
  from sys_seek_within_file [OF s'] s' show ?thesis
    by (auto simp: demo_abi_def demo_sys_def get_file_desc_def fd_index_def)
qed

section \<open>Mapping memory\<close>

lemma place_region_base: "place_region sz base fixed rs = Inr (Some (i, rs')) \<Longrightarrow> as_inv rs \<Longrightarrow> unat base + unat sz < 2 ^ 64 \<Longrightarrow> r_base (rs' ! i) \<noteq> 0"
proof -
  assume p: "place_region sz base fixed rs = Inr (Some (i, rs'))" and inv: "as_inv rs" and ok: "unat base + unat sz < 2 ^ 64"
  show ?thesis
  proof (cases "base \<noteq> 0 \<and> allocate_region_at base sz rs = Some (i, rs')")
    case True
    then have "r_base (rs' ! i) = base"
      using allocate_region_at_correct [OF inv ok] by (auto simp: insert_at_def nth_append mapped_region_def split: if_splits)
    then show ?thesis using True by simp
  next
    case False
    then show ?thesis using p by (auto simp: place_region_def Let_def split: if_splits option.splits)
  qed
qed

text \<open>A range is taken when it starts at 0 or overlaps a region.  A free one is used as it is.\<close>

definition taken :: "u64 \<Rightarrow> u64 \<Rightarrow> region list \<Rightarrow> bool" where
  "taken base sz rs \<longleftrightarrow> base = 0 \<or> (\<exists>r \<in> set rs. overlaps (unat base) (unat base + unat sz) r)"

lemma place_region_taken:
  assumes "as_inv rs" "unat base + unat sz < 2 ^ 64" "place_region sz base fixed rs = Inr q"
  shows "q = None \<longleftrightarrow> fixed \<and> taken base sz rs" "\<not> taken base sz rs \<Longrightarrow> q = Some (i, rs') \<Longrightarrow> r_base (rs' ! i) = base"
proof -
  note at = allocate_region_at_correct [OF assms(1,2)]
  show "q = None \<longleftrightarrow> fixed \<and> taken base sz rs"
    using at assms(3) by (auto simp: place_region_def taken_def Let_def split: if_splits option.splits) metis+
  show "r_base (rs' ! i) = base" if "\<not> taken base sz rs" "q = Some (i, rs')"
    using at assms(3) that by (auto simp: place_region_def taken_def Let_def insert_at_def nth_append mapped_region_def)
qed

lemma anonymous_base:
  assumes "as_inv (mm_regions m)" "unat base + unat sz < 2 ^ 64" "allocate_anonymous_vmo tp oid uses sz base fixed m = Inr (q, m')"
  shows "q = None \<longleftrightarrow> fixed \<and> taken base sz (mm_regions m)"
    "q = Some i \<Longrightarrow> r_base (mm_regions m' ! i) \<noteq> 0"
    "q = Some i \<Longrightarrow> \<not> taken base sz (mm_regions m) \<Longrightarrow> r_base (mm_regions m' ! i) = base"
proof -
  obtain place where p: "place_region sz base fixed (mm_regions m) = Inr place"
      "place = None \<Longrightarrow> q = None"
      "\<And>j rs. place = Some (j, rs) \<Longrightarrow> q = Some j \<and> mm_regions m' = rs[j := (rs ! j)\<lparr>r_vmo := Some oid\<rparr>]"
    using assms(3) by (auto simp: allocate_anonymous_vmo_def attach_def Let_def split: if_splits option.splits)
  have "q = None \<longleftrightarrow> place = None" using p(2,3) by (cases place) auto
  then show "q = None \<longleftrightarrow> fixed \<and> taken base sz (mm_regions m)" using place_region_taken(1) [OF assms(1,2) p(1)] by blast
  have b: "r_base (mm_regions m' ! j) = r_base (rs ! j)" if "place = Some (j, rs)" for j rs
    using p(3) [OF that] by (cases "j < length rs") (auto simp: list_update_beyond)
  show "r_base (mm_regions m' ! i) \<noteq> 0" if qi: "q = Some i"
  proof -
    obtain rs where "place = Some (i, rs)" using p(2,3) qi by (cases place) auto
    then show ?thesis using place_region_base [OF _ assms(1,2)] p(1) b by metis
  qed
  show "r_base (mm_regions m' ! i) = base" if qi: "q = Some i" "\<not> taken base sz (mm_regions m)"
  proof -
    obtain rs where r: "place = Some (i, rs)" using p(2,3) qi(1) by (cases place) auto
    then show ?thesis using place_region_taken(2) [OF assms(1,2) p(1) qi(2) r] b by metis
  qed
qed

text \<open>
  C21. The memory map call, for a request whose ends do not wrap.  When it returns, then: for a zero size, an
  unknown flag or a mapping that is not anonymous it has returned \<open>EINVAL\<close> and changed nothing; otherwise, for a
  fixed request at 0 or over an existing region, it has returned \<open>-1\<close> and changed nothing; otherwise it has returned
  0, one new region of exactly the requested size has been added, disjoint from all others, which are all still
  there, at the hint whenever that is not 0 and the range is free, and the last thing it has done is to store the
  base of that region through the pointer of the user, wherever that points.
\<close>

theorem sys_mmap_correct:
  assumes "as_inv (mm_regions (s_mm s))" "request_fits sz hint (mm_regions (s_mm s))" "\<forall>r \<in> set (mm_regions (s_mm s)). r_vmo r \<noteq> None"
    "sys_mmap c st tp oid uses address sz hint flags s = Inr (r, s')"
  shows "if sz = 0 \<or> flags AND NOT (MAP_PRIVATE c OR MAP_ANONYMOUS c OR MAP_FIXED c) \<noteq> 0 \<or> flags AND MAP_ANONYMOUS c = 0
      then r = Inl EINVAL \<and> s' = s
    else if flags AND MAP_FIXED c \<noteq> 0 \<and> taken hint sz (mm_regions (s_mm s)) then r = Inr (- 1) \<and> s' = s
    else r = Inr 0 \<and> (\<exists>i m. placed sz (mm_regions (s_mm s)) i (mm_regions m) \<and> r_vmo (mm_regions m ! i) = Some oid
        \<and> (\<not> taken hint sz (mm_regions (s_mm s)) \<longrightarrow> r_base (mm_regions m ! i) = hint)
        \<and> st address (r_base (mm_regions m ! i)) (s\<lparr>s_mm := m\<rparr>) = Inr s')"
proof -
  let ?fixed = "flags AND MAP_FIXED c \<noteq> 0" and ?rs = "mm_regions (s_mm s)"
  define bad where "bad \<longleftrightarrow> sz = 0 \<or> flags AND NOT (MAP_PRIVATE c OR MAP_ANONYMOUS c OR MAP_FIXED c) \<noteq> 0 \<or> flags AND MAP_ANONYMOUS c = 0"
  have eq: "sys_mmap c st tp oid uses address sz hint flags s = (if bad then Inr (Inl EINVAL, s)
      else kbind (allocate_anonymous_vmo tp oid uses sz hint ?fixed (s_mm s)) (\<lambda>(q, m).
        case q of None \<Rightarrow> Inr (Inr (- 1), s\<lparr>s_mm := m\<rparr>)
      | Some i \<Rightarrow> if r_base (mm_regions m ! i) = 0 then Inr (Inr (- 1), s\<lparr>s_mm := m\<rparr>)
          else kbind (st address (r_base (mm_regions m ! i)) (s\<lparr>s_mm := m\<rparr>)) (\<lambda>s. Inr (Inr 0, s))))"
    unfolding sys_mmap_def bad_def Let_def by (cases "sz = 0") (simp_all only: if_True if_False simp_thms)
  have fits: "unat hint + unat sz < 2 ^ 64" using assms(2) by (simp add: request_fits_def)
  show ?thesis
  proof (cases bad)
    case True
    then show ?thesis using assms(4) unfolding eq bad_def [symmetric] by simp
  next
    case False
    obtain q m where a: "allocate_anonymous_vmo tp oid uses sz hint ?fixed (s_mm s) = Inr (q, m)"
      using assms(4) False unfolding eq by auto
    note map = anonymous_map_correct [OF assms(1-3) a] and base = anonymous_base [OF assms(1) fits a]
    note k = assms(4) [unfolded eq a]
    show ?thesis
    proof (cases q)
      case None
      then have "?fixed \<and> taken hint sz ?rs" using base(1) by simp
      then show ?thesis using map k None False unfolding bad_def [symmetric] by auto
    next
      case (Some i)
      have s: "r = Inr 0" "st address (r_base (mm_regions m ! i)) (s\<lparr>s_mm := m\<rparr>) = Inr s'"
        using k False Some base(2) by auto
      have "placed sz ?rs i (mm_regions m)" "r_vmo (mm_regions m ! i) = Some oid" using map Some by auto
      then have "\<exists>i m. placed sz ?rs i (mm_regions m) \<and> r_vmo (mm_regions m ! i) = Some oid
          \<and> (\<not> taken hint sz ?rs \<longrightarrow> r_base (mm_regions m ! i) = hint)
          \<and> st address (r_base (mm_regions m ! i)) (s\<lparr>s_mm := m\<rparr>) = Inr s'"
        using s(2) base(3) [OF Some] by blast
      moreover have "\<not> (?fixed \<and> taken hint sz ?rs)" using base(1) Some by auto
      ultimately show ?thesis using s(1) False unfolding bad_def [symmetric] by (simp only: if_False simp_thms)
    qed
  qed
qed

text \<open>For the examples: a store into the flat memory of the world.\<close>

definition demo_store :: "u64 \<Rightarrow> u64 \<Rightarrow> (u64 \<Rightarrow> u64) sys \<Rightarrow> (u64 \<Rightarrow> u64) sys kres" where
  "demo_store a v s = Inr (s\<lparr>s_world := (s_world s)(a := v)\<rparr>)"

definition demo_mem :: "(u64 \<Rightarrow> u64) sys" where
  "demo_mem = \<lparr>s_uid = 0, s_gid = 0, s_euid = 0, s_egid = 0, s_pid = 1, s_parent = None,
     s_fds = [], s_cwd = [47], s_mm = demo_mm, s_fs_base = 0, s_world = (\<lambda>_. 0)\<rparr>"

lemma sys_mmap_correct_witness:
  "\<exists>s' i. sys_mmap demo_abi demo_store (\<lambda>_. 0) 7 0 0x400010 0x1000 0x800000 0x30 demo_mem = Inr (Inr 0, s')
     \<and> placed 0x1000 (mm_regions demo_mm) i (mm_regions (s_mm s')) \<and> s_world s' 0x400010 = 0x800000"
proof -
  have "\<exists>s'. sys_mmap demo_abi demo_store (\<lambda>_. 0) 7 0 0x400010 0x1000 0x800000 0x30 demo_mem = Inr (Inr 0, s')"
    by (simp add: sys_mmap_def demo_store_def demo_abi_def demo_mem_def demo_mm_def allocate_anonymous_vmo_def aligned_def place_region_def
        allocate_region_at_def r_end_def physical_vm_object_def PAGE_COUNT_4K_def attach_def map_allocated_blocks_def
        block_count_def block_entry_def index_defs present_def TABLE_PRESENT_def Let_def mapped_region_def insert_at_def)
  then obtain s' where s': "sys_mmap demo_abi demo_store (\<lambda>_. 0) 7 0 0x400010 0x1000 0x800000 0x30 demo_mem = Inr (Inr 0, s')" by blast
  have h: "as_inv (mm_regions (s_mm demo_mem))" "request_fits 0x1000 0x800000 (mm_regions (s_mm demo_mem))"
      "\<forall>r \<in> set (mm_regions (s_mm demo_mem)). r_vmo r \<noteq> None" "\<not> taken 0x800000 0x1000 (mm_regions (s_mm demo_mem))"
    by (simp_all add: demo_mem_def demo_mm_def as_inv_def request_fits_def r_lo_def r_hi_def taken_def overlaps_def)
  have f: "(0x30 :: u64) AND NOT (MAP_PRIVATE demo_abi OR MAP_ANONYMOUS demo_abi OR MAP_FIXED demo_abi) = 0" "(0x30 :: u64) AND MAP_ANONYMOUS demo_abi \<noteq> 0"
    by (simp_all add: demo_abi_def)
  from sys_mmap_correct [OF h(1-3) s'] f h(4) obtain i m where
      "placed 0x1000 (mm_regions (s_mm demo_mem)) i (mm_regions m)" "r_base (mm_regions m ! i) = 0x800000"
      "demo_store 0x400010 (r_base (mm_regions m ! i)) (demo_mem\<lparr>s_mm := m\<rparr>) = Inr s'"
    by auto
  moreover from this have "s_mm s' = m" "s_world s' 0x400010 = 0x800000" by (auto simp: demo_store_def)
  ultimately show ?thesis using s' by (auto simp: demo_mem_def)
qed

text \<open>
  Any process can stop the kernel: \<open>sys_mmap\<close> passes the user's size and hint on without checking that they are
  multiples of the page size, which the callee asserts.
\<close>

theorem sys_mmap_unaligned_stops_kernel:
  assumes "sz \<noteq> 0" "flags AND NOT (MAP_PRIVATE c OR MAP_ANONYMOUS c OR MAP_FIXED c) = 0" "flags AND MAP_ANONYMOUS c \<noteq> 0"
    "\<not> aligned sz \<or> \<not> aligned hint"
  shows "sys_mmap c st tp oid uses address sz hint flags s = Inl Assert_failed"
  using assms by (auto simp: sys_mmap_def allocate_anonymous_vmo_def)

lemma sys_mmap_unaligned_stops_kernel_witness:
  "sys_mmap demo_abi demo_store (\<lambda>_. 0) 7 0 0 100 0 0x22 demo_mem = Inl Assert_failed"
  by (rule sys_mmap_unaligned_stops_kernel) (simp_all add: demo_abi_def aligned_def)

section \<open>Duplicating descriptors\<close>

lemma bit_scast_low: "k < 32 \<Longrightarrow> bit (scast (x :: u32) :: u64) k = bit x k"
  by (simp add: bit_simps)

text \<open>
  Duplicating a descriptor to a number that is in use gives that number a copy of the descriptor and closes
  what it held; the source is untouched, and the node of the source has gained one reference.  To a number past
  the table the call is refused with \<open>ENOSYS\<close>, but the reference has been taken all the same and is never given
  back.
\<close>

theorem sys_dup_to_number:
  assumes "get_file_desc fd (s_fds s) = Some h" "fd_node h = Some n" "fd \<noteq> req" "0 \<le> sint req" "flags AND O_CLOEXEC c = 0"
    "length (s_fds s) < 2 ^ 31" "fd_index req = unat req"
    "sys_dup c v a flags b s = Inr (r, s')" "ucast a = fd" "ucast b = req"
  shows "if unat req < length (s_fds s)
    then r = Inr req \<and> get_file_desc req (s_fds s') = Some h \<and> get_file_desc fd (s_fds s') = Some h
      \<and> (case get_file_desc req (s_fds s) of None \<Rightarrow> s_world s' = v_add_handle v n (s_world s)
         | Some g \<Rightarrow> fs_close (v_close v) g (v_add_handle v n (s_world s)) = Inr (s_world s'))
    else r = Inl ENOSYS \<and> s' = s\<lparr>s_world := v_add_handle v n (s_world s)\<rparr>"
proof -
  let ?w = "v_add_handle v n (s_world s)" and ?t = "s_fds s"
  have fd: "fd_index fd < length ?t" "?t ! fd_index fd = Some h" using assms(1) by (auto simp: get_file_desc_def split: if_splits)
  have neq: "fd_index fd \<noteq> fd_index req"
  proof
    assume "fd_index fd = fd_index req"
    then have "(scast fd :: u64) = scast req" by (simp add: fd_index_def word_unat_eq_iff)
    then have "bit (scast fd :: u64) k = bit (scast req :: u64) k" for k by simp
    then have "bit fd k = bit req k" if "k < 32" for k using that by (metis (no_types) bit_scast_low)
    then have "fd = req" by (intro bit_word_eqI) simp
    then show False using assms(3) by simp
  qed
  show ?thesis
  proof (cases "unat req < length ?t")
    case True
    have len: "fd_index req < length ?t" using True assms(7) by simp
    show ?thesis
    proof (cases "?t ! fd_index req")
      case None
      then have "r = Inr req \<and> s' = s\<lparr>s_world := ?w, s_fds := ?t[fd_index req := Some h]\<rparr>"
        using assms True len by (auto simp: sys_dup_def Let_def destroy_file_desc_def replace_file_desc_def)
      then show ?thesis using True len None fd neq by (simp add: get_file_desc_def)
    next
      case (Some g)
      then obtain w where "fs_close (v_close v) g ?w = Inr w" "r = Inr req \<and> s' = s\<lparr>s_fds := ?t[fd_index req := Some h], s_world := w\<rparr>"
        using assms True len by (auto simp: sys_dup_def Let_def destroy_file_desc_def replace_file_desc_def)
      then show ?thesis using True len Some fd neq by (simp add: get_file_desc_def)
    qed
  next
    case False
    then show ?thesis using assms by (auto simp: sys_dup_def Let_def)
  qed
qed

lemma sys_dup_to_number_witness:
  "\<exists>s'. sys_dup demo_abi demo_vfs 0 0 5 demo_sys = Inr (Inl ENOSYS, s')"
proof -
  obtain r s' where d: "sys_dup demo_abi demo_vfs 0 0 5 demo_sys = Inr (r, s')"
    by (simp add: sys_dup_def demo_sys_def demo_vfs_def get_file_desc_def fd_index_def Let_def)
  have "get_file_desc 0 (s_fds demo_sys) = Some \<lparr>fd_node = Some 0, fd_pos = 10, fd_mode = 0\<rparr>" "fd_index 5 = unat (5 :: u32)"
    by (simp_all add: demo_sys_def get_file_desc_def fd_index_def)
  from sys_dup_to_number [OF this(1) _ _ _ _ _ this(2) d] d show ?thesis by (auto simp: demo_sys_def)
qed

end
