(* ===== verification/Threads.thy ===== *)
theory Threads
  imports Prelude
begin

text \<open>
  Threads and their blockers, \<^verbatim>\<open>Kernel/src/arch/x86_64/thread.cpp\<close> and \<^verbatim>\<open>Kernel/include/arch/x86_64/thread.h\<close>.
  Sleeping, blocking and waking run on several processors at once, so each method is a function from a place in
  its body to the next place, one shared access at a time, and a step relation interleaves the thread that goes
  to sleep with whoever wakes it.  The parameter \<open>smp\<close> says whether the waker runs on another processor; if not,
  it only runs while interrupts are enabled.  A thread that has yielded continues when its state is no longer
  \<open>Blocked\<close>.
\<close>

section \<open>Model\<close>

record register_context =
  r15 :: u64
  r14 :: u64
  r13 :: u64
  r12 :: u64
  r11 :: u64
  r10 :: u64
  r9 :: u64
  r8 :: u64
  rbp :: u64
  rdi :: u64
  rsi :: u64
  rdx :: u64
  rcx :: u64
  rbx :: u64
  rax :: u64
  rip :: u64
  cs :: u64
  rflags :: u64
  rsp :: u64
  ss :: u64

datatype thread_state = Running | Blocked | Zombie | Dying

text \<open>\<open>fx_state\<close> stands for the saved floating point state, an opaque value.\<close>

record 'f thread =
  th_lock :: bool
  parent :: nat
  stack :: u64
  kernel_stack :: u64
  time_slice :: u32
  time_slice_default :: u32
  registers :: register_context
  fx_state :: 'f
  priority :: u8
  th_state :: thread_state
  fs_base :: u64
  blocked_timeout :: bool
  blocker :: bool

definition DEFAULT_TIMESLICE :: u32 where "DEFAULT_TIMESLICE = 10"

text \<open>\<open>thread::unblock\<close>, and the callback of the timer that \<open>sleep\<close> and \<open>block\<close> install.\<close>

definition thread_unblock :: "'f thread \<Rightarrow> 'f thread" where
  "thread_unblock t =
     (let t = t\<lparr>time_slice := time_slice_default t\<rparr>
      in if th_state t \<noteq> Zombie then t\<lparr>th_state := Running\<rparr> else t)"

text \<open>The blocker; \<open>bl_thread\<close> tells whether the thread has entered itself.\<close>

record thread_blocker =
  bl_lock :: bool
  bl_thread :: bool
  should_block :: bool
  was_interrupted :: bool
  bl_removed :: bool

definition new_blocker :: thread_blocker where
  "new_blocker = \<lparr>bl_lock = False, bl_thread = False, should_block = True, was_interrupted = False, bl_removed = False\<rparr>"

text \<open>What the thread and its waker share; \<open>int_on\<close> is the interrupt flag of the thread's processor.\<close>

record 'f shared =
  thr :: "'f thread"
  blk :: thread_blocker
  int_on :: bool

abbreviation set_lock :: "bool \<Rightarrow> 'f shared \<Rightarrow> 'f shared" where
  "set_lock b s \<equiv> s\<lparr>blk := (blk s)\<lparr>bl_lock := b\<rparr>\<rparr>"

abbreviation set_state :: "thread_state \<Rightarrow> 'f shared \<Rightarrow> 'f shared" where
  "set_state st s \<equiv> s\<lparr>thr := (thr s)\<lparr>th_state := st\<rparr>\<rparr>"

definition unblock_thread :: "'f shared \<Rightarrow> 'f shared" where
  "unblock_thread s = (if bl_thread (blk s) then s\<lparr>thr := thread_unblock (thr s)\<rparr> else s)"

subsection \<open>Waking\<close>

datatype wake_pc = U_start | U_lock | U_wake | U_unlock | U_done

text \<open>\<open>thread_blocker::unblock\<close>\<close>

fun unblock_exec :: "wake_pc \<Rightarrow> 'f shared \<Rightarrow> (wake_pc \<times> 'f shared) option" where
  "unblock_exec U_start s = Some (U_lock, s\<lparr>blk := (blk s)\<lparr>should_block := False, bl_removed := True\<rparr>\<rparr>)"
| "unblock_exec U_lock s = (if bl_lock (blk s) then None else Some (U_wake, set_lock True s))"
| "unblock_exec U_wake s = Some (U_unlock, unblock_thread s)"
| "unblock_exec U_unlock s = Some (U_done, set_lock False s)"
| "unblock_exec U_done s = None"

text \<open>\<open>thread_blocker::interrupt\<close>\<close>

fun interrupt_exec :: "wake_pc \<Rightarrow> 'f shared \<Rightarrow> (wake_pc \<times> 'f shared) option" where
  "interrupt_exec U_start s = Some (U_lock, s\<lparr>blk := (blk s)\<lparr>was_interrupted := True, should_block := False\<rparr>\<rparr>)"
| "interrupt_exec U_lock s = (if bl_lock (blk s) then None else Some (U_wake, set_lock True s))"
| "interrupt_exec U_wake s = Some (U_unlock, unblock_thread s)"
| "interrupt_exec U_unlock s = Some (U_done, set_lock False s)"
| "interrupt_exec U_done s = None"

subsection \<open>Blocking\<close>

datatype block_pc =
    B_lock | B_cli | B_test | B_return_sti | B_return_unlock | B_unlock | B_mark | B_sti | B_yield | B_asleep | B_wake
  | B_done bool

text \<open>\<open>thread::block\<close> without a time limit; the guard on the blocker's lock ends before the state changes.\<close>

fun block_exec :: "block_pc \<Rightarrow> 'f shared \<Rightarrow> (block_pc \<times> 'f shared) option" where
  "block_exec B_lock s = (if bl_lock (blk s) then None else Some (B_cli, set_lock True s))"
| "block_exec B_cli s = Some (B_test, s\<lparr>int_on := False\<rparr>)"
| "block_exec B_test s =
     (let s = s\<lparr>blk := (blk s)\<lparr>bl_thread := True\<rparr>\<rparr> in
      if \<not> should_block (blk s) then Some (B_return_sti, s)
      else Some (B_unlock, s\<lparr>thr := (thr s)\<lparr>blocker := True\<rparr>\<rparr>))"
| "block_exec B_return_sti s = Some (B_return_unlock, s\<lparr>int_on := True\<rparr>)"
| "block_exec B_return_unlock s = Some (B_done True, set_lock False s)"
| "block_exec B_unlock s = Some (B_mark, set_lock False s)"
| "block_exec B_mark s = Some (B_sti, set_state Blocked s)"
| "block_exec B_sti s = Some (B_yield, s\<lparr>int_on := True\<rparr>)"
| "block_exec B_yield s = Some (B_asleep, s\<lparr>thr := (thr s)\<lparr>time_slice := 0\<rparr>\<rparr>)"
| "block_exec B_asleep s = (if th_state (thr s) = Blocked then None else Some (B_wake, s))"
| "block_exec B_wake s = Some (B_done (\<not> was_interrupted (blk s)), s\<lparr>thr := (thr s)\<lparr>blocker := False\<rparr>\<rparr>)"
| "block_exec (B_done r) s = None"

inductive block_step ::
  "(wake_pc \<Rightarrow> 'f shared \<Rightarrow> (wake_pc \<times> 'f shared) option) \<Rightarrow> bool
     \<Rightarrow> block_pc \<times> wake_pc \<times> 'f shared \<Rightarrow> block_pc \<times> wake_pc \<times> 'f shared \<Rightarrow> bool"
  for wake smp where
  thread: "block_exec pc s = Some (pc', s') \<Longrightarrow> block_step wake smp (pc, u, s) (pc', u, s')"
| waker: "wake u s = Some (u', s') \<Longrightarrow> smp \<or> int_on s \<Longrightarrow> block_step wake smp (pc, u, s) (pc, u', s')"

definition block_init :: "'f thread \<Rightarrow> block_pc \<times> wake_pc \<times> 'f shared" where
  "block_init t = (B_lock, U_start, \<lparr>thr = t\<lparr>th_state := Running\<rparr>, blk = new_blocker, int_on = True\<rparr>)"

subsection \<open>Sleeping\<close>

datatype sleep_pc = S_clear | S_arm | S_cli | S_mark | S_test | S_yield | S_asleep | S_done

text \<open>The callback, \<open>C_off\<close> before the timer event exists; \<open>us \<le> 0\<close> fires inside the constructor.\<close>

datatype cb_pc = C_off | C_armed | C_set | C_fired

fun cb_exec :: "cb_pc \<Rightarrow> 'f shared \<Rightarrow> (cb_pc \<times> 'f shared) option" where
  "cb_exec C_off s = None"
| "cb_exec C_armed s = Some (C_set, s\<lparr>thr := (thr s)\<lparr>blocked_timeout := True\<rparr>\<rparr>)"
| "cb_exec C_set s = Some (C_fired, s\<lparr>thr := thread_unblock (thr s)\<rparr>)"
| "cb_exec C_fired s = None"

fun sleep_exec :: "bool \<Rightarrow> sleep_pc \<Rightarrow> cb_pc \<times> 'f shared \<Rightarrow> (sleep_pc \<times> cb_pc \<times> 'f shared) option" where
  "sleep_exec now S_clear (c, s) = Some (S_arm, c, s\<lparr>thr := (thr s)\<lparr>blocked_timeout := False\<rparr>\<rparr>)"
| "sleep_exec now S_arm (c, s) =
     (if now then Some (S_cli, C_fired, s\<lparr>thr := thread_unblock ((thr s)\<lparr>blocked_timeout := True\<rparr>)\<rparr>)
      else Some (S_cli, C_armed, s))"
| "sleep_exec now S_cli (c, s) = Some (S_mark, c, s\<lparr>int_on := False\<rparr>)"
| "sleep_exec now S_mark (c, s) = Some (S_test, c, set_state Blocked s)"
| "sleep_exec now S_test (c, s) =
     (if \<not> blocked_timeout (thr s) then Some (S_yield, c, s\<lparr>int_on := True\<rparr>)
      else Some (S_done, c, (set_state Running s)\<lparr>int_on := True\<rparr>))"
| "sleep_exec now S_yield (c, s) = Some (S_asleep, c, s\<lparr>thr := (thr s)\<lparr>time_slice := 0\<rparr>\<rparr>)"
| "sleep_exec now S_asleep (c, s) = (if th_state (thr s) = Blocked then None else Some (S_done, c, s))"
| "sleep_exec now S_done (c, s) = None"

inductive sleep_step :: "bool \<Rightarrow> bool \<Rightarrow> sleep_pc \<times> cb_pc \<times> 'f shared \<Rightarrow> sleep_pc \<times> cb_pc \<times> 'f shared \<Rightarrow> bool"
  for now smp where
  thread: "sleep_exec now pc (c, s) = Some (pc', c', s') \<Longrightarrow> sleep_step now smp (pc, c, s) (pc', c', s')"
| timer: "cb_exec c s = Some (c', s') \<Longrightarrow> smp \<or> int_on s \<Longrightarrow> sleep_step now smp (pc, c, s) (pc, c', s')"

definition sleep_init :: "'f thread \<Rightarrow> thread_blocker \<Rightarrow> sleep_pc \<times> cb_pc \<times> 'f shared" where
  "sleep_init t b = (S_clear, C_off, \<lparr>thr = t\<lparr>th_state := Running\<rparr>, blk = b, int_on = True\<rparr>)"

subsection \<open>Blocking with a time limit\<close>

datatype tblock_pc =
    T_lock | T_test | T_return | T_arm | T_cli | T_unlock | T_mark | T_check | T_yield | T_asleep
  | T_int wake_pc | T_clear | T_done bool

text \<open>\<open>lock = nullptr\<close> drops the only handle on the guard, which releases the blocker's lock.\<close>

fun tblock_exec :: "bool \<Rightarrow> tblock_pc \<Rightarrow> cb_pc \<times> 'f shared \<Rightarrow> (tblock_pc \<times> cb_pc \<times> 'f shared) option" where
  "tblock_exec now T_lock (c, s) = (if bl_lock (blk s) then None else Some (T_test, c, set_lock True s))"
| "tblock_exec now T_test (c, s) =
     (if \<not> should_block (blk s) then Some (T_return, c, s)
      else Some (T_arm, c, s\<lparr>thr := (thr s)\<lparr>blocked_timeout := False, blocker := True\<rparr>, blk := (blk s)\<lparr>bl_thread := True\<rparr>\<rparr>))"
| "tblock_exec now T_return (c, s) = Some (T_done True, c, set_lock False s)"
| "tblock_exec now T_arm (c, s) =
     (if now then Some (T_cli, C_fired, s\<lparr>thr := thread_unblock ((thr s)\<lparr>blocked_timeout := True\<rparr>)\<rparr>)
      else Some (T_cli, C_armed, s))"
| "tblock_exec now T_cli (c, s) = Some (T_unlock, c, s\<lparr>int_on := False\<rparr>)"
| "tblock_exec now T_unlock (c, s) = Some (T_mark, c, set_lock False s)"
| "tblock_exec now T_mark (c, s) = Some (T_check, c, set_state Blocked s)"
| "tblock_exec now T_check (c, s) =
     (if \<not> blocked_timeout (thr s) then Some (T_yield, c, s\<lparr>int_on := True\<rparr>)
      else Some (T_int U_start, c, (set_state Running s)\<lparr>int_on := True\<rparr>))"
| "tblock_exec now T_yield (c, s) = Some (T_asleep, c, s\<lparr>thr := (thr s)\<lparr>time_slice := 0\<rparr>\<rparr>)"
| "tblock_exec now T_asleep (c, s) = (if th_state (thr s) = Blocked then None else Some (T_clear, c, s))"
| "tblock_exec now (T_int u) (c, s) =
     (if u = U_done then Some (T_clear, c, s)
      else (case interrupt_exec u s of None \<Rightarrow> None | Some (u', s') \<Rightarrow> Some (T_int u', c, s')))"
| "tblock_exec now T_clear (c, s) =
     Some (T_done (\<not> blocked_timeout (thr s) \<and> \<not> was_interrupted (blk s)), c, s\<lparr>thr := (thr s)\<lparr>blocker := False\<rparr>\<rparr>)"
| "tblock_exec now (T_done r) (c, s) = None"

inductive tblock_step ::
  "bool \<Rightarrow> bool \<Rightarrow> tblock_pc \<times> cb_pc \<times> wake_pc \<times> 'f shared \<Rightarrow> tblock_pc \<times> cb_pc \<times> wake_pc \<times> 'f shared \<Rightarrow> bool"
  for now smp where
  thread: "tblock_exec now pc (c, s) = Some (pc', c', s') \<Longrightarrow> tblock_step now smp (pc, c, u, s) (pc', c', u, s')"
| timer: "cb_exec c s = Some (c', s') \<Longrightarrow> smp \<or> int_on s \<Longrightarrow> tblock_step now smp (pc, c, u, s) (pc, c', u, s')"
| waker: "unblock_exec u s = Some (u', s') \<Longrightarrow> smp \<or> int_on s \<Longrightarrow> tblock_step now smp (pc, c, u, s) (pc, c, u', s')"

definition tblock_init :: "'f thread \<Rightarrow> tblock_pc \<times> cb_pc \<times> wake_pc \<times> 'f shared" where
  "tblock_init t = (T_lock, C_off, U_start, \<lparr>thr = t\<lparr>th_state := Running\<rparr>, blk = new_blocker, int_on = True\<rparr>)"

section \<open>Blocking on one processor\<close>

lemma th_state_unblock: "th_state (thread_unblock t) = (if th_state t = Zombie then Zombie else Running)"
  by (simp add: thread_unblock_def Let_def)

lemma unblock_thread_sel [simp]:
  "blk (unblock_thread s) = blk s" "int_on (unblock_thread s) = int_on s"
  "thr (unblock_thread s) = (if bl_thread (blk s) then thread_unblock (thr s) else thr s)"
  by (simp_all add: unblock_thread_def)

definition thread_holds :: "block_pc \<Rightarrow> bool" where
  "thread_holds pc \<longleftrightarrow> pc \<in> {B_cli, B_test, B_return_sti, B_return_unlock, B_unlock}"

definition waker_holds :: "wake_pc \<Rightarrow> bool" where
  "waker_holds u \<longleftrightarrow> u = U_wake \<or> u = U_unlock"

text \<open>Lock and interrupt flag as a function of the two places, and who can be where.\<close>

definition block_inv :: "block_pc \<times> wake_pc \<times> 'f shared \<Rightarrow> bool" where
  "block_inv = (\<lambda>(pc, u, s).
     bl_lock (blk s) = (thread_holds pc \<or> waker_holds u) \<and> \<not> (thread_holds pc \<and> waker_holds u)
     \<and> int_on s = (pc \<notin> {B_test, B_return_sti, B_unlock, B_mark, B_sti})
     \<and> should_block (blk s) = (u = U_start)
     \<and> (th_state (thr s) = Running \<or> th_state (thr s) = Blocked)
     \<and> (pc \<in> {B_unlock, B_mark, B_sti} \<longrightarrow> u = U_start)
     \<and> (pc \<in> {B_unlock, B_mark, B_sti, B_yield, B_asleep} \<longrightarrow> bl_thread (blk s))
     \<and> (pc \<in> {B_yield, B_asleep} \<and> (u = U_unlock \<or> u = U_done) \<longrightarrow> th_state (thr s) = Running))"

lemma block_inv_init: "block_inv (block_init t)"
  by (simp add: block_inv_def block_init_def new_blocker_def thread_holds_def waker_holds_def)

lemma block_inv_thread:
  assumes "block_inv (pc, u, s)" "block_exec pc s = Some (pc', s')"
  shows "block_inv (pc', u, s')"
  using assms by (cases pc) (auto simp: block_inv_def thread_holds_def waker_holds_def Let_def split: if_splits)

lemma block_inv_waker:
  assumes "block_inv (pc, u, s)" "wake u s = Some (u', s')" "int_on s" "wake = unblock_exec \<or> wake = interrupt_exec"
  shows "block_inv (pc, u', s')"
proof (cases u)
  case U_wake
  then show ?thesis
    using assms by (cases pc) (auto simp: block_inv_def thread_holds_def waker_holds_def th_state_unblock split: if_splits)
next
  case U_lock
  then show ?thesis
    using assms by (cases pc) (auto simp: block_inv_def thread_holds_def waker_holds_def split: if_splits)
qed (use assms in \<open>cases pc; auto simp: block_inv_def thread_holds_def waker_holds_def\<close>)+

lemma block_inv_step:
  assumes "block_step wake False x y" "block_inv x" "wake = unblock_exec \<or> wake = interrupt_exec"
  shows "block_inv y"
  using assms(1) proof cases
  case (thread pc s pc' s' u)
  then show ?thesis using block_inv_thread assms(2) by blast
next
  case (waker u s u' s' pc)
  then show ?thesis using block_inv_waker assms(2,3) by metis
qed

lemma block_inv_reachable:
  assumes "(block_step wake False)\<^sup>*\<^sup>* (block_init t) x" "wake = unblock_exec \<or> wake = interrupt_exec"
  shows "block_inv x"
  using assms(1) by (induction rule: rtranclp_induct) (use block_inv_init block_inv_step assms(2) in blast)+

text \<open>How far a thread is from the end of \<open>block\<close>.\<close>

fun block_rank :: "block_pc \<Rightarrow> nat" where
  "block_rank B_lock = 10" | "block_rank B_cli = 9" | "block_rank B_test = 8" | "block_rank B_unlock = 7"
| "block_rank B_mark = 6" | "block_rank B_sti = 5" | "block_rank B_yield = 4" | "block_rank B_asleep = 3"
| "block_rank B_wake = 1" | "block_rank B_return_sti = 2" | "block_rank B_return_unlock = 1" | "block_rank (B_done r) = 0"

lemma block_progress:
  assumes "block_inv (pc, U_done, s)" "\<forall>r. pc \<noteq> B_done r"
  obtains pc' s' where "block_exec pc s = Some (pc', s')" "block_rank pc' < block_rank pc"
  using assms by (cases pc) (auto simp: block_inv_def thread_holds_def waker_holds_def Let_def)

lemma block_finishes:
  assumes "block_inv (pc, U_done, s)"
  shows "\<exists>r s'. (block_step wake smp)\<^sup>*\<^sup>* (pc, U_done, s) (B_done r, U_done, s')"
  using assms
proof (induction "block_rank pc" arbitrary: pc s rule: less_induct)
  case less
  show ?case
  proof (cases "\<exists>r. pc = B_done r")
    case False
    then obtain pc' s' where e: "block_exec pc s = Some (pc', s')" "block_rank pc' < block_rank pc"
      using block_progress less.prems by metis
    then have "block_inv (pc', U_done, s')" using block_inv_thread less.prems by blast
    then obtain r t where "(block_step wake smp)\<^sup>*\<^sup>* (pc', U_done, s') (B_done r, U_done, t)" using less.hyps e(2) by blast
    moreover have "block_step wake smp (pc, U_done, s) (pc', U_done, s')" using e(1) by (rule block_step.thread)
    ultimately show ?thesis by (meson converse_rtranclp_into_rtranclp)
  qed blast
qed

text \<open>One more step at the front of a run, for replaying a schedule.\<close>

lemma block_step_thread_run:
  "block_exec pc s = Some (pc', s') \<Longrightarrow> (block_step wake smp)\<^sup>*\<^sup>* (pc', u, s') x \<Longrightarrow> (block_step wake smp)\<^sup>*\<^sup>* (pc, u, s) x"
  by (rule converse_rtranclp_into_rtranclp) (rule block_step.thread)

lemma block_step_waker_run:
  "wake u s = Some (u', s') \<Longrightarrow> smp \<or> int_on s \<Longrightarrow> (block_step wake smp)\<^sup>*\<^sup>* (pc, u', s') x \<Longrightarrow> (block_step wake smp)\<^sup>*\<^sup>* (pc, u, s) x"
  by (rule converse_rtranclp_into_rtranclp) (rule block_step.waker)

definition zero_registers :: register_context where
  "zero_registers = \<lparr>r15 = 0, r14 = 0, r13 = 0, r12 = 0, r11 = 0, r10 = 0, r9 = 0, r8 = 0, rbp = 0, rdi = 0, rsi = 0, rdx = 0,
     rcx = 0, rbx = 0, rax = 0, rip = 0, cs = 0, rflags = 0, rsp = 0, ss = 0\<rparr>"

text \<open>A thread as \<open>memset\<close> leaves it.\<close>

definition zero_thread :: "'f \<Rightarrow> 'f thread" where
  "zero_thread fx = \<lparr>th_lock = False, parent = 0, stack = 0, kernel_stack = 0, time_slice = 0, time_slice_default = 0,
     registers = zero_registers, fx_state = fx, priority = 0, th_state = Running, fs_base = 0, blocked_timeout = False, blocker = False\<rparr>"

text \<open>
  C29. On a single processor a wake-up is never lost: whenever \<open>unblock\<close> or \<open>interrupt\<close> of the blocker has completed,
  in any interleaving with \<open>block\<close>, the thread is not asleep in state \<open>Blocked\<close>, and its own steps take it to the
  end of \<open>block\<close>.
\<close>

theorem block_wakes_on_one_processor:
  assumes "(block_step wake False)\<^sup>*\<^sup>* (block_init t) (pc, U_done, s)" "wake = unblock_exec \<or> wake = interrupt_exec"
  shows "\<not> (pc = B_asleep \<and> th_state (thr s) = Blocked)
    \<and> (\<exists>r s'. (block_step wake False)\<^sup>*\<^sup>* (pc, U_done, s) (B_done r, U_done, s'))"
proof -
  have i: "block_inv (pc, U_done, s)" using block_inv_reachable assms by blast
  then have "\<not> (pc = B_asleep \<and> th_state (thr s) = Blocked)" by (auto simp: block_inv_def)
  then show ?thesis using block_finishes i by blast
qed

lemma block_wakes_on_one_processor_witness:
  "let s = \<lparr>thr = zero_thread (), blk = new_blocker\<lparr>should_block := False, bl_removed := True\<rparr>, int_on = True\<rparr> in
    (block_step unblock_exec False)\<^sup>*\<^sup>* (block_init (zero_thread ())) (B_lock, U_done, s)
    \<and> (\<exists>r s'. (block_step unblock_exec False)\<^sup>*\<^sup>* (B_lock, U_done, s) (B_done r, U_done, s'))"
proof -
  let ?s = "\<lparr>thr = zero_thread (), blk = new_blocker\<lparr>should_block := False, bl_removed := True\<rparr>, int_on = True\<rparr>"
  note run = block_step_waker_run
  have r: "(block_step unblock_exec False)\<^sup>*\<^sup>* (block_init (zero_thread ())) (B_lock, U_done, ?s)"
    unfolding block_init_def
    apply (rule run, simp, simp)
    apply (rule run, simp add: new_blocker_def, simp)
    apply (rule run, simp add: unblock_thread_def new_blocker_def, simp)
    apply (rule run, simp, simp)
    apply (simp add: zero_thread_def new_blocker_def)
    done
  show ?thesis using block_wakes_on_one_processor [OF r] r unfolding Let_def by blast
qed

section \<open>Blocking on several processors\<close>

text \<open>
  C30. With the waker on another processor the wake-up can be lost: it may run entirely between the release of the
  blocker's lock and the assignment of \<open>Blocked\<close>.  The thread then sleeps although \<open>unblock\<close> has returned, and
  neither can make a step any more.
\<close>

theorem block_loses_wakeup_on_smp:
  "\<exists>s. (block_step unblock_exec True)\<^sup>*\<^sup>* (block_init t) (B_asleep, U_done, s) \<and> th_state (thr s) = Blocked
     \<and> (\<nexists>y. block_step unblock_exec True (B_asleep, U_done, s) y)"
proof -
  let ?t = "(thread_unblock (t\<lparr>th_state := Running, blocker := True\<rparr>))\<lparr>th_state := Blocked, time_slice := 0\<rparr>"
  let ?s = "\<lparr>thr = ?t, blk = \<lparr>bl_lock = False, bl_thread = True, should_block = False, was_interrupted = False, bl_removed = True\<rparr>,
             int_on = True\<rparr>"
  note run = block_step_thread_run block_step_waker_run
  have "(block_step unblock_exec True)\<^sup>*\<^sup>* (block_init t) (B_asleep, U_done, ?s)"
    unfolding block_init_def new_blocker_def
    apply (rule run(1), simp) \<comment> \<open>\<open>B_lock\<close> to \<open>B_mark\<close>\<close>
    apply (rule run(1), simp)
    apply (rule run(1), simp add: Let_def)
    apply (rule run(1), simp)
    apply (rule run(2), simp, simp) \<comment> \<open>all of \<open>unblock\<close>\<close>
    apply (rule run(2), simp, simp)
    apply (rule run(2), simp, simp)
    apply (rule run(2), simp add: unblock_thread_def, simp)
    apply (rule run(1), simp) \<comment> \<open>\<open>B_mark\<close> to \<open>B_asleep\<close>\<close>
    apply (rule run(1), simp)
    apply (rule run(1), simp)
    apply simp
    done
  moreover have "\<not> block_step unblock_exec True (B_asleep, U_done, ?s) y" for y
    by (auto elim: block_step.cases)
  ultimately show ?thesis by (intro exI [of _ ?s]) auto
qed

section \<open>Sleeping\<close>

definition sleep_inv :: "sleep_pc \<times> cb_pc \<times> 'f shared \<Rightarrow> bool" where
  "sleep_inv = (\<lambda>(pc, c, s).
     (c = C_off) = (pc = S_clear \<or> pc = S_arm)
     \<and> (c \<noteq> C_off \<longrightarrow> blocked_timeout (thr s) = (c = C_set \<or> c = C_fired))
     \<and> (pc = S_arm \<longrightarrow> \<not> blocked_timeout (thr s))
     \<and> (th_state (thr s) = Running \<or> th_state (thr s) = Blocked)
     \<and> (pc = S_test \<and> c = C_armed \<longrightarrow> th_state (thr s) = Blocked)
     \<and> (pc = S_yield \<or> pc = S_asleep \<longrightarrow> (th_state (thr s) = Blocked) = (c \<noteq> C_fired))
     \<and> (pc = S_done \<longrightarrow> blocked_timeout (thr s))
     \<and> (pc = S_yield \<or> pc = S_asleep \<or> pc = S_done \<longrightarrow> int_on s))"

lemma blocked_timeout_unblock [simp]: "blocked_timeout (thread_unblock t) = blocked_timeout t"
  by (simp add: thread_unblock_def Let_def)

lemma sleep_inv_step:
  assumes "sleep_step now smp x y" "sleep_inv x"
  shows "sleep_inv y"
  using assms(1) proof cases
  case (thread pc c s pc' c' s')
  then show ?thesis using assms(2)
    by (cases pc; cases c) (auto simp: sleep_inv_def th_state_unblock split: if_splits)
next
  case (timer c s c' s' pc)
  then show ?thesis using assms(2)
    by (cases c; cases pc) (auto simp: sleep_inv_def th_state_unblock split: if_splits)
qed

lemma sleep_inv_reachable: "(sleep_step now smp)\<^sup>*\<^sup>* (sleep_init t b) x \<Longrightarrow> sleep_inv x"
  by (induction rule: rtranclp_induct) (simp add: sleep_inv_def sleep_init_def, blast intro: sleep_inv_step)

fun sleep_rank :: "sleep_pc \<Rightarrow> nat" where
  "sleep_rank S_clear = 7" | "sleep_rank S_arm = 6" | "sleep_rank S_cli = 5" | "sleep_rank S_mark = 4"
| "sleep_rank S_test = 3" | "sleep_rank S_yield = 2" | "sleep_rank S_asleep = 1" | "sleep_rank S_done = 0"

fun cb_rank :: "cb_pc \<Rightarrow> nat" where
  "cb_rank C_off = 3" | "cb_rank C_armed = 2" | "cb_rank C_set = 1" | "cb_rank C_fired = 0"

lemma cb_exec_rank: "cb_exec c s = Some (c', s') \<Longrightarrow> cb_rank c' < cb_rank c"
  by (cases c) auto

lemma sleep_exec_rank:
  "sleep_exec now pc (c, s) = Some (pc', c', s') \<Longrightarrow> sleep_rank pc' < sleep_rank pc \<and> (c' = c \<or> pc = S_arm \<and> (c' = C_fired \<or> c' = C_armed))"
  by (cases pc) (auto split: if_splits)

lemma cb_exec_enabled:
  assumes "c = C_armed \<or> c = C_set"
  obtains c' s' where "cb_exec c s = Some (c', s')"
  using assms by auto

text \<open>
  \<open>sleep\<close> on any number of processors: every run ends, because each step of the thread and of the timer callback
  lowers the rank; a thread that has not finished can always be brought further, so no wake-up is lost; and when
  \<open>sleep\<close> has returned, the time is over.
\<close>

theorem sleep_returns_after_timeout:
  assumes "(sleep_step now smp)\<^sup>*\<^sup>* (sleep_init t b) (pc, c, s)"
  shows "(if pc = S_done then blocked_timeout (thr s) else \<exists>y. sleep_step now smp (pc, c, s) y)
    \<and> (\<forall>pc' c' s'. sleep_step now smp (pc, c, s) (pc', c', s') \<longrightarrow> sleep_rank pc' + cb_rank c' < sleep_rank pc + cb_rank c)"
proof -
  have i: "sleep_inv (pc, c, s)" using sleep_inv_reachable assms by blast
  have "\<exists>y. sleep_step now smp (pc, c, s) y" if "pc \<noteq> S_done"
  proof (cases "sleep_exec now pc (c, s)")
    case None
    then have "pc = S_asleep" "th_state (thr s) = Blocked" using that by (cases pc; auto split: if_splits)+
    then have "int_on s" "c = C_armed \<or> c = C_set" using i by (cases c; auto simp: sleep_inv_def)+
    then show ?thesis using sleep_step.timer cb_exec_enabled by metis
  next
    case (Some y)
    then show ?thesis using sleep_step.thread by (cases y) blast
  qed
  moreover have "sleep_rank pc' + cb_rank c' < sleep_rank pc + cb_rank c"
    if "sleep_step now smp (pc, c, s) (pc', c', s')" for pc' c' s'
    using that
  proof cases
    case thread
    moreover have "c = C_off" if "pc = S_arm" using i that by (simp add: sleep_inv_def)
    ultimately show ?thesis using sleep_exec_rank [of now pc c s pc' c' s'] by fastforce
  next
    case timer
    then show ?thesis using cb_exec_rank [of c s c' s'] by auto
  qed
  moreover have "pc = S_done \<Longrightarrow> blocked_timeout (thr s)" using i by (simp add: sleep_inv_def)
  ultimately show ?thesis by simp
qed

lemma sleep_returns_after_timeout_witness:
  "let x = sleep_init (zero_thread ()) new_blocker in
    (sleep_step False True)\<^sup>*\<^sup>* x x \<and> (\<exists>y. sleep_step False True x y)"
  using sleep_returns_after_timeout [of False True "zero_thread ()" new_blocker S_clear C_off]
  unfolding Let_def sleep_init_def by auto

section \<open>Blocking with a time limit\<close>

definition thread_holds_t :: "tblock_pc \<Rightarrow> bool" where
  "thread_holds_t pc \<longleftrightarrow> pc \<in> {T_test, T_return, T_arm, T_cli, T_unlock, T_int U_wake, T_int U_unlock}"

text \<open>The invariant has three parts: the lock, the callback and the flag it sets, and the thread's state.\<close>

definition tblock_lock_inv :: "tblock_pc \<times> cb_pc \<times> wake_pc \<times> 'f shared \<Rightarrow> bool" where
  "tblock_lock_inv = (\<lambda>(pc, c, u, s).
     bl_lock (blk s) = (thread_holds_t pc \<or> waker_holds u) \<and> \<not> (thread_holds_t pc \<and> waker_holds u)
     \<and> int_on s = (pc \<notin> {T_unlock, T_mark, T_check}))"

definition tblock_cb_inv :: "tblock_pc \<times> cb_pc \<times> wake_pc \<times> 'f shared \<Rightarrow> bool" where
  "tblock_cb_inv = (\<lambda>(pc, c, u, s).
     (pc \<in> {T_lock, T_test, T_arm, T_return} \<longrightarrow> c = C_off) \<and> (c = C_off \<longrightarrow> pc \<in> {T_lock, T_test, T_arm, T_return, T_done True})
     \<and> (pc = T_arm \<longrightarrow> \<not> blocked_timeout (thr s))
     \<and> (pc \<in> {T_cli, T_unlock, T_mark, T_check, T_yield, T_asleep} \<longrightarrow> blocked_timeout (thr s) = (c = C_set \<or> c = C_fired)))"

definition tblock_state_inv :: "tblock_pc \<times> cb_pc \<times> wake_pc \<times> 'f shared \<Rightarrow> bool" where
  "tblock_state_inv = (\<lambda>(pc, c, u, s).
     (th_state (thr s) = Running \<or> th_state (thr s) = Blocked)
     \<and> (pc \<in> {T_yield, T_asleep} \<and> c = C_fired \<longrightarrow> th_state (thr s) = Running))"

lemma tblock_lock_inv_step:
  assumes "tblock_step now smp x y" "tblock_lock_inv x"
  shows "tblock_lock_inv y"
  using assms(1) proof cases
  case (thread pc c s pc' c' s' u)
  show ?thesis
  proof (cases pc)
    case (T_int v)
    then show ?thesis using thread assms(2)
      by (cases v) (auto simp: tblock_lock_inv_def thread_holds_t_def waker_holds_def split: if_splits)
  qed (use thread assms(2) in \<open>auto simp: tblock_lock_inv_def thread_holds_t_def waker_holds_def split: if_splits\<close>)
next
  case (timer c s c' s' pc u)
  then show ?thesis using assms(2) by (cases c) (auto simp: tblock_lock_inv_def)
next
  case (waker u s u' s' pc c)
  then show ?thesis using assms(2)
    by (cases u) (auto simp: tblock_lock_inv_def waker_holds_def split: if_splits)
qed

lemma tblock_cb_inv_step:
  assumes "tblock_step now smp x y" "tblock_cb_inv x"
  shows "tblock_cb_inv y"
  using assms(1) proof cases
  case (thread pc c s pc' c' s' u)
  then show ?thesis using assms(2)
    by (cases pc) (auto simp: tblock_cb_inv_def split: if_splits option.splits)
next
  case (timer c s c' s' pc u)
  then show ?thesis using assms(2) by (cases c; cases pc) (auto simp: tblock_cb_inv_def)
next
  case (waker u s u' s' pc c)
  then have "blocked_timeout (thr s') = blocked_timeout (thr s)" by (cases u) (auto split: if_splits)
  then show ?thesis using waker assms(2) by (simp add: tblock_cb_inv_def)
qed

lemma interrupt_exec_state:
  "interrupt_exec u s = Some (u', s') \<Longrightarrow> th_state (thr s) = Running \<or> th_state (thr s) = Blocked
    \<Longrightarrow> th_state (thr s') = Running \<or> th_state (thr s') = Blocked"
  by (cases u) (auto simp: th_state_unblock split: if_splits)

lemma tblock_state_inv_step:
  assumes "tblock_step now smp x y" "tblock_state_inv x" "tblock_cb_inv x"
  shows "tblock_state_inv y"
  using assms(1) proof cases
  case (thread pc c s pc' c' s' u)
  then show ?thesis using assms(2,3)
    by (cases pc) (auto simp: tblock_state_inv_def tblock_cb_inv_def th_state_unblock split: if_splits option.splits
        dest: interrupt_exec_state)
next
  case (timer c s c' s' pc u)
  then show ?thesis using assms(2) by (cases c) (auto simp: tblock_state_inv_def th_state_unblock)
next
  case (waker u s u' s' pc c)
  then show ?thesis using assms(2) by (cases u) (auto simp: tblock_state_inv_def th_state_unblock split: if_splits)
qed

definition tblock_inv :: "tblock_pc \<times> cb_pc \<times> wake_pc \<times> 'f shared \<Rightarrow> bool" where
  "tblock_inv x \<longleftrightarrow> tblock_lock_inv x \<and> tblock_cb_inv x \<and> tblock_state_inv x"

lemma tblock_inv_init: "tblock_inv (tblock_init t)"
  by (simp add: tblock_inv_def tblock_lock_inv_def tblock_cb_inv_def tblock_state_inv_def tblock_init_def new_blocker_def
      thread_holds_t_def waker_holds_def)

lemma tblock_inv_reachable:
  assumes "(tblock_step now smp)\<^sup>*\<^sup>* (tblock_init t) x"
  shows "tblock_inv x"
  using assms
proof (induction rule: rtranclp_induct)
  case (step x y)
  then show ?case using tblock_lock_inv_step tblock_cb_inv_step tblock_state_inv_step by (metis tblock_inv_def)
qed (rule tblock_inv_init)

lemmas tblock_inv_defs = tblock_inv_def tblock_lock_inv_def tblock_cb_inv_def tblock_state_inv_def

fun wake_rank :: "wake_pc \<Rightarrow> nat" where
  "wake_rank U_start = 4" | "wake_rank U_lock = 3" | "wake_rank U_wake = 2" | "wake_rank U_unlock = 1" | "wake_rank U_done = 0"

fun tblock_rank :: "tblock_pc \<Rightarrow> nat" where
  "tblock_rank T_lock = 14" | "tblock_rank T_test = 13" | "tblock_rank T_arm = 12" | "tblock_rank T_cli = 11"
| "tblock_rank T_unlock = 10" | "tblock_rank T_mark = 9" | "tblock_rank T_check = 8" | "tblock_rank T_yield = 3"
| "tblock_rank T_asleep = 2" | "tblock_rank (T_int u) = 2 + wake_rank u" | "tblock_rank T_clear = 1"
| "tblock_rank T_return = 1" | "tblock_rank (T_done r) = 0"

lemma wake_exec_rank:
  "unblock_exec u s = Some (u', s') \<Longrightarrow> wake_rank u' < wake_rank u"
  "interrupt_exec u s = Some (u', s') \<Longrightarrow> wake_rank u' < wake_rank u"
  by (cases u; auto split: if_splits)+

lemma tblock_exec_rank:
  assumes "tblock_exec now pc (c, s) = Some (pc', c', s')"
  shows "tblock_rank pc' < tblock_rank pc \<and> (c' = c \<or> pc = T_arm \<and> (c' = C_fired \<or> c' = C_armed))"
  using assms by (cases pc) (auto split: if_splits option.splits dest: wake_exec_rank(2))

lemma unblock_exec_enabled:
  assumes "u = U_wake \<or> u = U_unlock"
  obtains u' s' where "unblock_exec u s = Some (u', s')"
  using assms by auto

lemma tblock_no_deadlock:
  assumes i: "tblock_inv (pc, c, u, s)" and p: "\<forall>r. pc \<noteq> T_done r"
  shows "\<exists>y. tblock_step now smp (pc, c, u, s) y"
proof (cases "tblock_exec now pc (c, s)")
  case (Some y)
  then show ?thesis using tblock_step.thread by (cases y) blast
next
  case None
  show ?thesis
  proof (cases "pc = T_asleep")
    case True
    then have "int_on s" "c = C_armed \<or> c = C_set" using i None by (cases c; auto simp: tblock_inv_defs split: if_splits)+
    then show ?thesis using tblock_step.timer cb_exec_enabled by metis
  next
    case False
    then have "pc = T_lock \<or> pc = T_int U_lock" "bl_lock (blk s)"
      using None p by (cases pc; auto split: if_splits option.splits elim: interrupt_exec.elims)+
    then have "int_on s" "u = U_wake \<or> u = U_unlock"
      using i by (auto simp: tblock_inv_def tblock_lock_inv_def thread_holds_t_def waker_holds_def)
    then show ?thesis using tblock_step.waker unblock_exec_enabled by metis
  qed
qed

text \<open>
  C15. Blocking with a time limit, on any number of processors and with the waker and the timer interleaved in any way:
  each of the three participants' steps lowers the sum of the ranks, and unless the call has returned some step is
  possible.  So every run returns after at most 21 steps.
\<close>

theorem timed_block_returns:
  assumes "(tblock_step now smp)\<^sup>*\<^sup>* (tblock_init t) (pc, c, u, s)"
  shows "((\<exists>r. pc = T_done r) \<or> (\<exists>y. tblock_step now smp (pc, c, u, s) y))
    \<and> (\<forall>pc' c' u' s'. tblock_step now smp (pc, c, u, s) (pc', c', u', s')
         \<longrightarrow> tblock_rank pc' + cb_rank c' + wake_rank u' < tblock_rank pc + cb_rank c + wake_rank u)"
proof -
  have i: "tblock_inv (pc, c, u, s)" using tblock_inv_reachable assms by blast
  have "tblock_rank pc' + cb_rank c' + wake_rank u' < tblock_rank pc + cb_rank c + wake_rank u"
    if "tblock_step now smp (pc, c, u, s) (pc', c', u', s')" for pc' c' u' s'
    using that
  proof cases
    case thread
    moreover have "c = C_off" if "pc = T_arm" using i that by (simp add: tblock_inv_def tblock_cb_inv_def)
    ultimately show ?thesis using tblock_exec_rank [of now pc c s pc' c' s'] by fastforce
  next
    case timer
    then show ?thesis using cb_exec_rank [of c s c' s'] by simp
  next
    case waker
    then show ?thesis using wake_exec_rank(1) [of u s u' s'] by simp
  qed
  then show ?thesis using tblock_no_deadlock i by blast
qed

lemma timed_block_returns_witness:
  "let x = tblock_init (zero_thread ()) in (tblock_step False True)\<^sup>*\<^sup>* x x \<and> (\<exists>y. tblock_step False True x y)"
  using timed_block_returns [of False True "zero_thread ()" T_lock C_off U_start]
  unfolding Let_def tblock_init_def by auto

end
