(* ===== verification/Scheduler.thy ===== *)
theory Scheduler
  imports Threads Process
begin

text \<open>
  The scheduler, \<^verbatim>\<open>Kernel/src/arch/x86_64/scheduler.cpp\<close>: run queues per processor, the timer tick that switches
  threads, the end of a process and the collection of dead ones.  Threads and processes are objects in stores
  indexed by numbers, \<open>None\<close> once deleted.  A run queue, an intrusive list of the library the kernel links, is the
  list of its threads; a thread's \<open>hook.next\<close> is the element after it.  Entering another thread ends \<open>schedule\<close>:
  the outcome is what \<open>task_switch\<close> loads.  \<open>insert_new_thread\<close> declares a variable of type \<open>lock_t\<close> instead of a
  guard, so it takes no lock, and the model has none there either.
\<close>

section \<open>Model\<close>

record cpu =
  cpu_id :: u64
  current_thread :: "nat option"
  idle_process :: nat
  run_queue_lock :: bool
  run_queue_count :: u64
  run_queue :: "nat list"

record proc =
  p_pid :: int
  p_threads :: "nat list"
  p_files :: fd_table
  active_ticks :: u64
  p_pml4 :: u64

record 'f sched =
  threads :: "nat \<Rightarrow> 'f thread option"
  procs :: "nat \<Rightarrow> proc option"
  cpus :: "cpu list"
  processes :: "nat list"
  dead_processes :: "nat list"
  scheduler_ready :: bool

definition get_thread :: "'f sched \<Rightarrow> nat \<Rightarrow> 'f thread kres" where
  "get_thread s t = (case threads s t of None \<Rightarrow> Inl Use_after_free | Some x \<Rightarrow> Inr x)"

definition get_proc :: "'f sched \<Rightarrow> nat \<Rightarrow> proc kres" where
  "get_proc s p = (case procs s p of None \<Rightarrow> Inl Use_after_free | Some x \<Rightarrow> Inr x)"

definition put_thread :: "nat \<Rightarrow> 'f thread \<Rightarrow> 'f sched \<Rightarrow> 'f sched" where
  "put_thread t x s = s\<lparr>threads := (threads s)(t \<mapsto> x)\<rparr>"

definition put_cpu :: "nat \<Rightarrow> cpu \<Rightarrow> 'f sched \<Rightarrow> 'f sched" where
  "put_cpu i c s = s\<lparr>cpus := (cpus s)[i := c]\<rparr>"

subsection \<open>New threads\<close>

text \<open>The search for the least loaded processor, ending early at an idle one.\<close>

function least_loaded :: "cpu list \<Rightarrow> nat \<Rightarrow> nat \<Rightarrow> nat" where
  "least_loaded cl i c =
     (if i < length cl
      then let c = (if run_queue_count (cl ! i) < run_queue_count (cl ! c) then i else c)
           in if run_queue_count (cl ! c) = 0 then c else least_loaded cl (i + 1) c
      else c)"
  by pat_completeness auto
termination by (relation "measure (\<lambda>(cl, i, c). length cl - i)") auto

declare least_loaded.simps [simp del]

definition insert_new_thread :: "nat \<Rightarrow> 'f sched \<Rightarrow> 'f sched kres" where
  "insert_new_thread t s =
     (if cpus s = [] then Inl Null_deref
      else let i = least_loaded (cpus s) 1 0; c = cpus s ! i
           in Inr (put_cpu i (c\<lparr>run_queue := run_queue c @ [t], run_queue_count := run_queue_count c + 1\<rparr>) s))"

definition first_thread :: "'f sched \<Rightarrow> nat \<Rightarrow> nat kres" where
  "first_thread s p =
     kbind (get_proc s p) (\<lambda>x. case p_threads x of [] \<Rightarrow> Inl (Panic ''Out of bounds list access'') | t # _ \<Rightarrow> Inr t)"

definition start_process :: "nat \<Rightarrow> 'f sched \<Rightarrow> 'f sched kres" where
  "start_process p s = kbind (first_thread s p) (\<lambda>t. insert_new_thread t s)"

subsection \<open>Switching\<close>

datatype 'f outcome =
    Continue
  | Switch (sw_registers: register_context) (sw_fx: 'f) (sw_fs_base: u64) (sw_kernel_stack: u64) (sw_pml4: u64)

definition after :: "nat \<Rightarrow> nat list \<Rightarrow> nat list" where
  "after t q = tl (dropWhile (\<lambda>x. x \<noteq> t) q)"

text \<open>The loop that looks for another thread when the next one is blocked, over the threads after it.\<close>

fun skip_loop :: "'f sched \<Rightarrow> nat list \<Rightarrow> nat option kres" where
  "skip_loop s [] = Inr None"
| "skip_loop s (t # ts) =
     kbind (get_thread s t) (\<lambda>x. if th_state x \<noteq> Blocked then skip_loop s ts else Inr (Some t))"

text \<open>The choice of the next thread, with the lock of the run queue held.\<close>

definition leave_current :: "register_context \<Rightarrow> 'f \<Rightarrow> nat \<Rightarrow> nat \<Rightarrow> 'f sched \<Rightarrow> (nat \<times> 'f sched) kres" where
  "leave_current regs fx i t s =
     (let c = cpus s ! i in
      kbind (get_thread s t) (\<lambda>x.
      if th_state x = Dying
      then (if t \<notin> set (run_queue c) then Inl Assert_failed
            else let s = put_cpu i (c\<lparr>run_queue := remove1 t (run_queue c), run_queue_count := run_queue_count c - 1\<rparr>) s
                 in kbind (first_thread s (idle_process c)) (\<lambda>u. Inr (u, s)))
      else if parent x \<noteq> idle_process c
      then let s = put_thread t (x\<lparr>fx_state := fx, registers := regs, time_slice := time_slice_default x\<rparr>) s
           in (case after t (run_queue c) of
                 u # _ \<Rightarrow> Inr (u, s)
               | [] \<Rightarrow> (case run_queue c of [] \<Rightarrow> Inl Null_deref | u # _ \<Rightarrow> Inr (u, s)))
      else (case run_queue c of [] \<Rightarrow> Inl Null_deref | u # _ \<Rightarrow> Inr (u, s))))"

definition pick :: "register_context \<Rightarrow> 'f \<Rightarrow> nat \<Rightarrow> 'f sched \<Rightarrow> (nat \<times> 'f sched) kres" where
  "pick regs fx i s =
     (let c = cpus s ! i in
      case current_thread c of
        None \<Rightarrow> kbind (first_thread s (idle_process c)) (\<lambda>u. Inr (u, s))
      | Some t \<Rightarrow>
          if run_queue_count c = 0 then kbind (first_thread s (idle_process c)) (\<lambda>u. Inr (u, s))
          else kbind (leave_current regs fx i t s) (\<lambda>(u, s).
               kbind (get_thread s u) (\<lambda>y.
               if th_state y \<noteq> Blocked then Inr (u, s)
               else kbind (skip_loop s (after u (run_queue (cpus s ! i)))) (\<lambda>r. case r of
                      Some v \<Rightarrow> Inr (v, s)
                    | None \<Rightarrow> kbind (first_thread s (idle_process c)) (\<lambda>v. Inr (v, s))))))"

text \<open>The account of the running thread; \<open>True\<close> when it may go on.\<close>

definition charge :: "nat \<Rightarrow> 'f sched \<Rightarrow> (bool \<times> 'f sched) kres" where
  "charge i s =
     (case current_thread (cpus s ! i) of
        None \<Rightarrow> Inr (False, s)
      | Some t \<Rightarrow>
          kbind (get_thread s t) (\<lambda>x.
          kbind (get_proc s (parent x)) (\<lambda>p.
          let s = s\<lparr>procs := (procs s)(parent x \<mapsto> p\<lparr>active_ticks := active_ticks p + 1\<rparr>)\<rparr>
          in if time_slice x > 0 then Inr (True, put_thread t (x\<lparr>time_slice := time_slice x - 1\<rparr>) s) else Inr (False, s))))"

definition enter_thread :: "nat \<Rightarrow> nat \<Rightarrow> 'f sched \<Rightarrow> ('f outcome \<times> 'f sched) kres" where
  "enter_thread i u s =
     kbind (get_thread s u) (\<lambda>x.
     kbind (get_proc s (parent x)) (\<lambda>p.
     Inr (Switch (registers x) (fx_state x) (fs_base x) (kernel_stack x) (p_pml4 p),
          put_cpu i ((cpus s ! i)\<lparr>current_thread := Some u\<rparr>) s)))"

definition schedule :: "register_context \<Rightarrow> 'f \<Rightarrow> nat \<Rightarrow> 'f sched \<Rightarrow> ('f outcome \<times> 'f sched) kres" where
  "schedule regs fx i s =
     kbind (charge i s) (\<lambda>(go_on, s).
     if go_on \<or> run_queue_lock (cpus s ! i) then Inr (Continue, s)
     else kbind (pick regs fx i s) (\<lambda>(u, s). enter_thread i u s))"

definition tick :: "register_context \<Rightarrow> 'f \<Rightarrow> nat \<Rightarrow> 'f sched \<Rightarrow> ('f outcome \<times> 'f sched) kres" where
  "tick regs fx i s = (if \<not> scheduler_ready s then Inr (Continue, s) else schedule regs fx i s)"

definition yield_thread :: "register_context \<Rightarrow> 'f \<Rightarrow> nat \<Rightarrow> 'f sched \<Rightarrow> ('f outcome \<times> 'f sched) kres" where
  "yield_thread regs fx i s =
     kbind (case current_thread (cpus s ! i) of
              None \<Rightarrow> Inr s
            | Some t \<Rightarrow> kbind (get_thread s t) (\<lambda>x. Inr (put_thread t (x\<lparr>time_slice := 0\<rparr>) s)))
       (schedule regs fx i)"

subsection \<open>Ending a process\<close>

text \<open>\<open>remove_threads\<close>: a thread found is taken out of the queue and deleted in the next round of the loop.\<close>

definition drop_thread :: "nat option \<Rightarrow> nat \<Rightarrow> 'f sched \<Rightarrow> 'f sched" where
  "drop_thread to_remove i s =
     (case to_remove of None \<Rightarrow> s
      | Some t \<Rightarrow>
          let c = cpus s ! i
          in (put_cpu i (c\<lparr>run_queue := remove1 t (run_queue c), run_queue_count := run_queue_count c - 1\<rparr>) s)
               \<lparr>threads := (threads s)(t := None)\<rparr>)"

fun remove_loop :: "nat \<Rightarrow> nat \<Rightarrow> nat option \<Rightarrow> nat list \<Rightarrow> 'f sched \<Rightarrow> 'f sched kres" where
  "remove_loop p i to_remove [] s = Inr (drop_thread to_remove i s)"
| "remove_loop p i to_remove (t # ts) s =
     (let s = drop_thread to_remove i s in
      kbind (get_thread s t) (\<lambda>x.
      remove_loop p i (if Some t \<noteq> current_thread (cpus s ! i) \<and> parent x = p then Some t else None) ts s))"

definition remove_threads :: "nat \<Rightarrow> nat \<Rightarrow> 'f sched \<Rightarrow> 'f sched kres" where
  "remove_threads p i s = remove_loop p i None (run_queue (cpus s ! i)) s"





definition runs :: "nat \<Rightarrow> nat \<Rightarrow> 'f sched \<Rightarrow> bool kres" where
  "runs p i s =
     (case current_thread (cpus s ! i) of None \<Rightarrow> Inr False | Some t \<Rightarrow> kbind (get_thread s t) (\<lambda>x. Inr (parent x = p)))"



text \<open>
  The lock of a run queue: \<open>acquire_lock\<close> spins until it is free, and it is held while the queue is changed.  Only
  \<open>schedule\<close>, which gives up when it finds the lock held, takes a processor away from a thread.
\<close>

definition hold_queue :: "bool \<Rightarrow> nat \<Rightarrow> 'f sched \<Rightarrow> 'f sched" where
  "hold_queue b i s = put_cpu i ((cpus s ! i)\<lparr>run_queue_lock := b\<rparr>) s"







text \<open>\<open>gc\<close> deletes the dead processes from the last to the first; \<open>del\<close> deletes the address space of one.\<close>

fun gc_loop ::
  "(nat \<Rightarrow> 'w \<Rightarrow> 'w kres) \<Rightarrow> (nat \<Rightarrow> 'w \<Rightarrow> 'w kres) \<Rightarrow> nat list \<Rightarrow> 'f sched \<Rightarrow> 'w \<Rightarrow> ('f sched \<times> 'w) kres" where
  "gc_loop close del [] s w = Inr (s, w)"
| "gc_loop close del (p # ps) s w =
     kbind (get_proc s p) (\<lambda>x.
     kbind (del p w) (\<lambda>w.
     kbind (proc_destructor close (p_files x) w) (\<lambda>w.
     gc_loop close del ps (s\<lparr>procs := (procs s)(p := None), dead_processes := butlast (dead_processes s)\<rparr>) w)))"

definition gc ::
  "(nat \<Rightarrow> 'w \<Rightarrow> 'w kres) \<Rightarrow> (nat \<Rightarrow> 'w \<Rightarrow> 'w kres) \<Rightarrow> 'f sched \<Rightarrow> 'w \<Rightarrow> ('f sched \<times> 'w) kres" where
  "gc close del s w = gc_loop close del (rev (dead_processes s)) s w"

section \<open>The least loaded processor\<close>

lemma least_loaded_minimal:
  assumes "c < length cl" "\<forall>j<i. j < length cl \<longrightarrow> run_queue_count (cl ! c) \<le> run_queue_count (cl ! j)"
  shows "least_loaded cl i c < length cl
    \<and> (\<forall>j<length cl. run_queue_count (cl ! least_loaded cl i c) \<le> run_queue_count (cl ! j))"
  using assms
proof (induction cl i c rule: least_loaded.induct)
  case (1 cl i c)
  show ?case
  proof (cases "i < length cl")
    case True
    define d where "d = (if run_queue_count (cl ! i) < run_queue_count (cl ! c) then i else c)"
    have d: "d < length cl" "\<forall>j<i + 1. j < length cl \<longrightarrow> run_queue_count (cl ! d) \<le> run_queue_count (cl ! j)"
      using True "1.prems" by (fastforce simp: d_def less_Suc_eq)+
    show ?thesis
    proof (cases "run_queue_count (cl ! d) = 0")
      case z: True
      then have "least_loaded cl i c = d" using True by (subst least_loaded.simps) (simp add: d_def Let_def)
      then show ?thesis using d(1) z by simp
    next
      case nz: False
      then have e: "least_loaded cl i c = least_loaded cl (i + 1) d"
        using True by (subst least_loaded.simps) (auto simp: d_def Let_def)
      show ?thesis unfolding e using "1.IH" [OF True d_def _ d] nz by simp
    qed
  next
    case False
    then have "least_loaded cl i c = c" by (subst least_loaded.simps) simp
    then show ?thesis using False "1.prems" by auto
  qed
qed

text \<open>
  A new thread is appended to the run queue of one processor, whose load is the least of all, and nothing else
  changes.
\<close>

theorem insert_new_thread_balances:
  assumes "cpus s \<noteq> []"
  shows "\<exists>i<length (cpus s). insert_new_thread t s = Inr (s\<lparr>cpus := (cpus s)[i := (cpus s ! i)
      \<lparr>run_queue := run_queue (cpus s ! i) @ [t], run_queue_count := run_queue_count (cpus s ! i) + 1\<rparr>]\<rparr>)
    \<and> (\<forall>c\<in>set (cpus s). run_queue_count (cpus s ! i) \<le> run_queue_count c)"
proof -
  have "least_loaded (cpus s) 1 0 < length (cpus s)
    \<and> (\<forall>j<length (cpus s). run_queue_count (cpus s ! least_loaded (cpus s) 1 0) \<le> run_queue_count (cpus s ! j))"
    using assms by (intro least_loaded_minimal) auto
  then show ?thesis using assms
    by (intro exI [of _ "least_loaded (cpus s) 1 0"]) (auto simp: insert_new_thread_def put_cpu_def Let_def in_set_conv_nth)
qed

section \<open>Invariant\<close>

definition thread_ok :: "'f sched \<Rightarrow> cpu \<Rightarrow> nat \<Rightarrow> bool" where
  "thread_ok s c t \<longleftrightarrow> (\<exists>x p. threads s t = Some x \<and> procs s (parent x) = Some p \<and> parent x \<noteq> idle_process c)"

definition idle_ok :: "'f sched \<Rightarrow> cpu \<Rightarrow> nat \<Rightarrow> bool" where
  "idle_ok s c t \<longleftrightarrow> (\<exists>p ts x. procs s (idle_process c) = Some p \<and> p_threads p = t # ts
     \<and> threads s t = Some x \<and> parent x = idle_process c \<and> th_state x = Running)"

definition queue_ok :: "'f sched \<Rightarrow> cpu \<Rightarrow> bool" where
  "queue_ok s c \<longleftrightarrow> run_queue_count c = of_nat (length (run_queue c)) \<and> length (run_queue c) < 2 ^ 64
     \<and> distinct (run_queue c) \<and> (\<forall>t\<in>set (run_queue c). thread_ok s c t) \<and> (\<exists>t. idle_ok s c t)"

definition cpu_ok :: "'f sched \<Rightarrow> cpu \<Rightarrow> bool" where
  "cpu_ok s c \<longleftrightarrow> queue_ok s c \<and> (\<forall>t. current_thread c = Some t \<longrightarrow> t \<in> set (run_queue c) \<or> idle_ok s c t)"

definition disjoint_queues :: "cpu list \<Rightarrow> bool" where
  "disjoint_queues cl \<longleftrightarrow> (\<forall>i<length cl. \<forall>j<length cl. i \<noteq> j \<longrightarrow> set (run_queue (cl ! i)) \<inter> set (run_queue (cl ! j)) = {})"

definition sched_inv :: "'f sched \<Rightarrow> bool" where
  "sched_inv s \<longleftrightarrow> (\<forall>c\<in>set (cpus s). cpu_ok s c) \<and> disjoint_queues (cpus s)"

text \<open>The invariant only depends on these parts of the stores.\<close>

definition shape :: "'f sched \<Rightarrow> 'f sched \<Rightarrow> bool" where
  "shape s s' \<longleftrightarrow> (\<forall>t. map_option (\<lambda>x. (parent x, th_state x)) (threads s' t) = map_option (\<lambda>x. (parent x, th_state x)) (threads s t))
     \<and> (\<forall>p. map_option p_threads (procs s' p) = map_option p_threads (procs s p))"

lemma shape_refl [simp]: "shape s s" by (simp add: shape_def)

lemma shape_trans: "shape s s' \<Longrightarrow> shape s' s'' \<Longrightarrow> shape s s''" by (simp add: shape_def)

lemma shape_put_cpu [simp]: "shape s (put_cpu i c s') \<longleftrightarrow> shape s s'" by (simp add: shape_def put_cpu_def)

lemma shape_cpus [simp]: "shape s (s'\<lparr>cpus := cl\<rparr>) \<longleftrightarrow> shape s s'" by (simp add: shape_def)

lemma shape_put_thread:
  "threads s t = Some x \<Longrightarrow> parent y = parent x \<Longrightarrow> th_state y = th_state x \<Longrightarrow> shape s (put_thread t y s)"
  by (simp add: shape_def put_thread_def)

lemma shape_thread:
  assumes "shape s s'" "threads s t = Some x"
  obtains y where "threads s' t = Some y" "parent y = parent x" "th_state y = th_state x"
proof -
  have "map_option (\<lambda>x. (parent x, th_state x)) (threads s' t) = Some (parent x, th_state x)"
    using assms by (simp add: shape_def)
  then show ?thesis using that by auto
qed

lemma shape_proc:
  assumes "shape s s'" "procs s p = Some x"
  obtains y where "procs s' p = Some y" "p_threads y = p_threads x"
proof -
  have "map_option p_threads (procs s' p) = Some (p_threads x)" using assms by (simp add: shape_def)
  then show ?thesis using that by auto
qed

lemma shape_thread_ok:
  assumes "shape s s'" "thread_ok s c t"
  shows "thread_ok s' c t"
proof -
  obtain x p where x: "threads s t = Some x" "procs s (parent x) = Some p" "parent x \<noteq> idle_process c"
    using assms(2) by (auto simp: thread_ok_def)
  obtain y where "threads s' t = Some y" "parent y = parent x" using assms(1) x(1) by (rule shape_thread)
  moreover obtain q where "procs s' (parent x) = Some q" using assms(1) x(2) by (rule shape_proc)
  ultimately show ?thesis using x(3) by (auto simp: thread_ok_def)
qed

lemma shape_idle_ok:
  assumes "shape s s'" "idle_ok s c t"
  shows "idle_ok s' c t"
proof -
  obtain p ts x where x: "procs s (idle_process c) = Some p" "p_threads p = t # ts"
    "threads s t = Some x" "parent x = idle_process c" "th_state x = Running"
    using assms(2) by (auto simp: idle_ok_def)
  obtain y where "threads s' t = Some y" "parent y = parent x" "th_state y = th_state x" using assms(1) x(3) by (rule shape_thread)
  moreover obtain q where "procs s' (idle_process c) = Some q" "p_threads q = p_threads p" using assms(1) x(1) by (rule shape_proc)
  ultimately show ?thesis using x by (auto simp: idle_ok_def)
qed

lemma shape_queue_ok: "shape s s' \<Longrightarrow> queue_ok s c \<Longrightarrow> queue_ok s' c"
  unfolding queue_ok_def using shape_thread_ok shape_idle_ok by metis

lemma shape_cpu_ok: "shape s s' \<Longrightarrow> cpu_ok s c \<Longrightarrow> cpu_ok s' c"
  unfolding cpu_ok_def using shape_queue_ok shape_idle_ok by metis

lemma idle_ok_current [simp]: "idle_ok s (c\<lparr>current_thread := x\<rparr>) t \<longleftrightarrow> idle_ok s c t"
  by (simp add: idle_ok_def)

lemma cpu_current_same [simp]: "current_thread c = x \<Longrightarrow> c\<lparr>current_thread := x\<rparr> = c"
  by (cases c) simp

lemma queue_ok_current [simp]: "queue_ok s (c\<lparr>current_thread := x\<rparr>) \<longleftrightarrow> queue_ok s c"
  by (simp add: queue_ok_def thread_ok_def)

lemma idle_first_thread: "idle_ok s c t \<Longrightarrow> first_thread s (idle_process c) = Inr t"
  by (auto simp: idle_ok_def first_thread_def get_proc_def)

lemma queue_count_zero: "queue_ok s c \<Longrightarrow> run_queue_count c = 0 \<longleftrightarrow> run_queue c = []"
  using unat_of_nat_small [where 'a=64, of "length (run_queue c)"] by (auto simp: queue_ok_def)

lemma after_subset: "set (after t q) \<subseteq> set q"
  unfolding after_def by (metis dropWhile_eq_drop list.set_sel(2) set_drop_subset subset_code(1) tl_Nil)

lemma after_append: "t \<notin> set xs \<Longrightarrow> after t (xs @ t # ys) = ys"
  by (simp add: after_def dropWhile_append)

lemma skip_loop_total:
  "\<forall>t\<in>set ts. threads s t \<noteq> None \<Longrightarrow> \<exists>r. skip_loop s ts = Inr r \<and> set_option r \<subseteq> set ts"
proof (induction ts)
  case (Cons t ts)
  then obtain r x where r: "skip_loop s ts = Inr r" "set_option r \<subseteq> set ts" and "threads s t = Some x" by auto
  then show ?case by (cases "th_state x = Blocked") (auto simp: get_thread_def)
qed simp

section \<open>Switching threads\<close>

lemma charge_ok:
  assumes "cpu_ok s (cpus s ! i)"
  shows "\<exists>b s'. charge i s = Inr (b, s') \<and> shape s s' \<and> cpus s' = cpus s"
proof (cases "current_thread (cpus s ! i)")
  case None
  then show ?thesis by (auto simp: charge_def)
next
  case (Some t)
  then have "thread_ok s (cpus s ! i) t \<or> idle_ok s (cpus s ! i) t"
    using assms by (auto simp: cpu_ok_def queue_ok_def)
  then obtain x p where "threads s t = Some x" "procs s (parent x) = Some p" by (auto simp: thread_ok_def idle_ok_def)
  then show ?thesis using Some by (auto simp: charge_def get_thread_def get_proc_def put_thread_def Let_def shape_def)
qed

text \<open>The run queue that \<open>leave_current\<close> leaves, and the thread it finds.\<close>

lemma leave_current_ok:
  assumes q: "queue_ok s c" and c: "c = cpus s ! i" "i < length (cpus s)" "run_queue c \<noteq> []"
    and t: "t \<in> set (run_queue c) \<or> idle_ok s c t"
  shows "\<exists>u s' c'. leave_current regs fx i t s = Inr (u, s') \<and> shape s s' \<and> cpus s' = (cpus s)[i := c']
    \<and> set (run_queue c') \<subseteq> set (run_queue c) \<and> idle_process c' = idle_process c \<and> queue_ok s' c' \<and> (u \<in> set (run_queue c') \<or> idle_ok s' c' u)"
proof -
  obtain x where x: "threads s t = Some x" using t q by (auto simp: queue_ok_def thread_ok_def idle_ok_def)
  obtain d where d: "idle_ok s c d" using q by (auto simp: queue_ok_def)
  show ?thesis
  proof (cases "th_state x = Dying")
    case True
    then have tq: "t \<in> set (run_queue c)" using t x by (auto simp: idle_ok_def)
    let ?c = "c\<lparr>run_queue := remove1 t (run_queue c), run_queue_count := run_queue_count c - 1\<rparr>"
    have "(of_nat (length (run_queue c)) :: u64) - 1 = of_nat (length (run_queue c) - Suc 0)"
      using c(3) by (cases "run_queue c") simp_all
    then have "queue_ok s ?c" using q tq
      by (auto simp: queue_ok_def length_remove1 thread_ok_def idle_ok_def dest: notin_set_remove1)
    moreover have sh: "shape s (put_cpu i ?c s)" by simp
    moreover have "idle_ok s ?c d" using d by (simp add: idle_ok_def)
    ultimately have "queue_ok (put_cpu i ?c s) ?c" "idle_ok (put_cpu i ?c s) ?c d"
      using shape_queue_ok shape_idle_ok by blast+
    then show ?thesis using True x tq idle_first_thread [of "put_cpu i ?c s" ?c d] c(1)
      by (intro exI [of _ d] exI [of _ "put_cpu i ?c s"] exI [of _ ?c])
        (auto simp: leave_current_def get_thread_def put_cpu_def Let_def dest: set_remove1_subset [THEN subsetD])
  next
    case False
    let ?s = "put_thread t (x\<lparr>fx_state := fx, registers := regs, time_slice := time_slice_default x\<rparr>) s"
    have sh: "shape s ?s" using x by (auto intro: shape_put_thread)
    obtain h q' where h: "run_queue c = h # q'" using c(3) by (cases "run_queue c") auto
    have cl: "cpus s = (cpus s)[i := c]" "cpus ?s = (cpus s)[i := c]" using c(1) by (simp_all add: put_thread_def)
    show ?thesis
    proof (cases "parent x = idle_process c")
      case True
      then have "leave_current regs fx i t s = Inr (h, s)" using False x c(1) h by (simp add: leave_current_def get_thread_def)
      then show ?thesis using q h cl(1) by fastforce
    next
      case pn: False
      obtain u where "u \<in> set (run_queue c)" "leave_current regs fx i t s = Inr (u, ?s)"
      proof (cases "after t (run_queue c)")
        case Nil
        then show ?thesis using that [of h] False pn x c(1) h by (simp add: leave_current_def get_thread_def)
      next
        case (Cons u us)
        then have "u \<in> set (run_queue c)" using after_subset [of t "run_queue c"] by auto
        then show ?thesis using that [of u] False pn x c(1) Cons by (simp add: leave_current_def get_thread_def)
      qed
      then show ?thesis using shape_queue_ok [OF sh q] sh cl(2) by blast
    qed
  qed
qed

lemma pick_ok:
  assumes ok: "cpu_ok s (cpus s ! i)" and i: "i < length (cpus s)"
  shows "\<exists>u s' c'. pick regs fx i s = Inr (u, s') \<and> shape s s' \<and> cpus s' = (cpus s)[i := c']
    \<and> set (run_queue c') \<subseteq> set (run_queue (cpus s ! i)) \<and> idle_process c' = idle_process (cpus s ! i)
    \<and> queue_ok s' c' \<and> (u \<in> set (run_queue c') \<or> idle_ok s' c' u)"
proof -
  define c where "c = cpus s ! i"
  have q: "queue_ok s c" using ok by (simp add: cpu_ok_def c_def)
  obtain d where d: "idle_ok s c d" using q by (auto simp: queue_ok_def)
  show ?thesis
  proof (cases "current_thread c = None \<or> run_queue_count c = 0")
    case True
    then have "pick regs fx i s = Inr (d, s)" using idle_first_thread [OF d] by (auto simp: pick_def c_def Let_def split: option.split)
    then show ?thesis using q d by (intro exI [of _ d] exI [of _ s] exI [of _ c]) (simp add: c_def)
  next
    case False
    then obtain t where t: "current_thread c = Some t" by auto
    then have "t \<in> set (run_queue c) \<or> idle_ok s c t" using ok by (simp add: cpu_ok_def c_def)
    moreover have ne: "run_queue c \<noteq> []" using False queue_count_zero [OF q] by simp
    ultimately obtain u s1 c1 where l: "leave_current regs fx i t s = Inr (u, s1)" "shape s s1" "cpus s1 = (cpus s)[i := c1]"
      "set (run_queue c1) \<subseteq> set (run_queue c)" "idle_process c1 = idle_process c" "queue_ok s1 c1"
      and u: "u \<in> set (run_queue c1) \<or> idle_ok s1 c1 u"
      using leave_current_ok [OF q c_def i] by blast
    obtain y where y: "threads s1 u = Some y" using u l(6) by (auto simp: queue_ok_def thread_ok_def idle_ok_def)
    obtain d1 where d1: "idle_ok s1 c1 d1" using l(6) by (auto simp: queue_ok_def)
    have c1: "cpus s1 ! i = c1" using l(3) i by simp
    have "\<forall>v\<in>set (after u (run_queue c1)). threads s1 v \<noteq> None"
      using after_subset [of u "run_queue c1"] l(6) by (fastforce simp: queue_ok_def thread_ok_def)
    from skip_loop_total [OF this] obtain r where r: "skip_loop s1 (after u (run_queue c1)) = Inr r" "set_option r \<subseteq> set (run_queue c1)"
      using after_subset [of u "run_queue c1"] by blast
    let ?v = "if th_state y = Blocked then (case r of None \<Rightarrow> d1 | Some v \<Rightarrow> v) else u"
    have "pick regs fx i s = Inr (?v, s1)"
      using False t l(1) y r(1) c1 idle_first_thread [OF d1] l(5)
      by (cases r) (auto simp: pick_def Let_def c_def [symmetric] get_thread_def)
    moreover have "?v \<in> set (run_queue c1) \<or> idle_ok s1 c1 ?v" using u d1 r(2) by (cases r) auto
    ultimately show ?thesis using l unfolding c_def by blast
  qed
qed

lemma sched_inv_set_cpu:
  assumes inv: "sched_inv s" and sh: "shape s s'" and cl: "cpus s' = (cpus s)[i := c']" "i < length (cpus s)"
    and c': "cpu_ok s' c'" "set (run_queue c') \<subseteq> set (run_queue (cpus s ! i))"
  shows "sched_inv s'"
proof -
  have "cpu_ok s' c" if "c \<in> set (cpus s')" for c
  proof (cases "c = c'")
    case False
    then have "c \<in> set (cpus s)" using that cl(1) by (auto dest: in_set_list_update)
    then show ?thesis using inv sh shape_cpu_ok by (auto simp: sched_inv_def)
  qed (use c' in simp)
  moreover have "disjoint_queues (cpus s')"
    using inv c'(2) cl by (fastforce simp: sched_inv_def disjoint_queues_def nth_list_update)
  ultimately show ?thesis by (simp add: sched_inv_def)
qed

text \<open>
  In a well-formed state \<open>schedule\<close> neither faults nor leaves the processor without a thread: it ends with the
  interrupted thread going on or with the switch to a thread of the run queue or to the idle thread, and the state is
  well-formed again (counters and queues agree, queues are disjoint, every thread in one exists).
\<close>

lemma schedule_keeps_inv:
  assumes inv: "sched_inv s" and i: "i < length (cpus s)"
  shows "\<exists>r s'. schedule regs fx i s = Inr (r, s') \<and> sched_inv s' \<and> length (cpus s') = length (cpus s)
    \<and> (r \<noteq> Continue \<longrightarrow> (\<exists>u. current_thread (cpus s' ! i) = Some u \<and> (u \<in> set (run_queue (cpus s' ! i)) \<or> idle_ok s' (cpus s' ! i) u)))"
proof -
  have ok: "cpu_ok s (cpus s ! i)" using inv i by (simp add: sched_inv_def)
  obtain b s1 where s1: "charge i s = Inr (b, s1)" "shape s s1" "cpus s1 = cpus s" using charge_ok [OF ok] by blast
  have inv1: "sched_inv s1" using inv s1(2,3) shape_cpu_ok by (auto simp: sched_inv_def)
  show ?thesis
  proof (cases "b \<or> run_queue_lock (cpus s ! i)")
    case True
    then have "schedule regs fx i s = Inr (Continue, s1)" using s1 by (auto simp: schedule_def)
    then show ?thesis using inv1 s1(3) by simp
  next
    case False
    have i1: "i < length (cpus s1)" "cpu_ok s1 (cpus s1 ! i)" using i s1(3) inv1 by (auto simp: sched_inv_def)
    obtain u s2 c2 where p: "pick regs fx i s1 = Inr (u, s2)" "shape s1 s2" "cpus s2 = (cpus s1)[i := c2]"
      "set (run_queue c2) \<subseteq> set (run_queue (cpus s1 ! i))" "queue_ok s2 c2" "u \<in> set (run_queue c2) \<or> idle_ok s2 c2 u"
      using pick_ok [OF i1(2,1)] by blast
    have c2: "cpus s2 ! i = c2" using p(3) i1 by simp
    obtain x q where x: "threads s2 u = Some x" "procs s2 (parent x) = Some q"
      using p(5,6) by (auto simp: queue_ok_def thread_ok_def idle_ok_def)
    let ?c = "c2\<lparr>current_thread := Some u\<rparr>"
    let ?s = "put_cpu i ?c s2"
    have e: "schedule regs fx i s = Inr (Switch (registers x) (fx_state x) (fs_base x) (kernel_stack x) (p_pml4 q), ?s)"
      using s1(1,3) False p(1) x c2 by (auto simp: schedule_def enter_thread_def get_thread_def get_proc_def)
    have sh: "shape s2 ?s" by simp
    have ok2: "cpu_ok ?s ?c" using p(5,6) shape_queue_ok [OF sh] shape_idle_ok [OF sh] by (auto simp: cpu_ok_def)
    have cl: "cpus ?s = (cpus s1)[i := ?c]" using p(3) by (simp add: put_cpu_def)
    have "sched_inv ?s" using sched_inv_set_cpu [OF inv1 _ cl i1(1) ok2] p(2,4) by simp
    moreover have "cpus ?s ! i = ?c" "length (cpus ?s) = length (cpus s)" using cl i1(1) s1(3) by simp_all
    moreover have "u \<in> set (run_queue ?c) \<or> idle_ok ?s ?c u" using p(6) shape_idle_ok [OF sh] by auto
    ultimately show ?thesis using e by auto
  qed
qed

text \<open>
  C17. In a well-formed state the scheduler never faults and keeps the state well-formed: every run queue has no thread twice,
  its counter is its length, its threads and their processes exist, and no thread is in two queues.  If it switches, it
  enters a thread of the queue of the processor or the idle thread.
\<close>

theorem schedule_safe:
  assumes "sched_inv s" "i < length (cpus s)"
  shows "\<exists>r s'. schedule regs fx i s = Inr (r, s') \<and> sched_inv s'
    \<and> (r \<noteq> Continue \<longrightarrow> (\<exists>u. current_thread (cpus s' ! i) = Some u \<and> (u \<in> set (run_queue (cpus s' ! i)) \<or> idle_ok s' (cpus s' ! i) u)))"
  using schedule_keeps_inv [OF assms] by blast

section \<open>Fairness\<close>

definition next_thread :: "nat list \<Rightarrow> nat \<Rightarrow> nat" where
  "next_thread q t = (case after t q of u # _ \<Rightarrow> u | [] \<Rightarrow> hd q)"

text \<open>A processor that runs a thread of its queue, in which no thread is blocked or dying.\<close>

definition busy :: "'f sched \<Rightarrow> nat \<Rightarrow> nat \<Rightarrow> bool" where
  "busy s i t \<longleftrightarrow> i < length (cpus s) \<and> queue_ok s (cpus s ! i) \<and> \<not> run_queue_lock (cpus s ! i)
     \<and> current_thread (cpus s ! i) = Some t \<and> t \<in> set (run_queue (cpus s ! i))
     \<and> (\<forall>v\<in>set (run_queue (cpus s ! i)). \<exists>x. threads s v = Some x \<and> th_state x = Running)"

lemma next_thread_in: "q \<noteq> [] \<Longrightarrow> next_thread q t \<in> set q"
  using after_subset [of t q] by (auto simp: next_thread_def split: list.split)

lemma nth_next_thread:
  assumes "distinct q" "k < length q"
  shows "next_thread q (q ! k) = q ! (Suc k mod length q)"
proof -
  have "q = take k q @ q ! k # drop (Suc k) q" using assms(2) by (rule id_take_nth_drop)
  moreover have "q ! k \<notin> set (take k q)" using assms by (auto simp: in_set_conv_nth nth_eq_iff_index_eq)
  ultimately have a: "after (q ! k) q = drop (Suc k) q" using after_append by metis
  show ?thesis
  proof (cases "Suc k < length q")
    case True
    then show ?thesis using a by (simp add: next_thread_def Cons_nth_drop_Suc [symmetric])
  next
    case False
    then have "Suc k = length q" using assms(2) by simp
    moreover have "q \<noteq> []" using assms(2) by auto
    ultimately show ?thesis using a by (simp add: next_thread_def hd_conv_nth)
  qed
qed

lemma busy_shape:
  assumes b: "busy s i t" and sh: "shape s s'" and cl: "cpus s' = (cpus s)[i := (cpus s ! i)\<lparr>current_thread := Some u\<rparr>]"
    and u: "u \<in> set (run_queue (cpus s ! i))"
  shows "busy s' i u"
proof -
  have "\<exists>x. threads s' v = Some x \<and> th_state x = Running" if "v \<in> set (run_queue (cpus s ! i))" for v
    using b that shape_thread [OF sh] unfolding busy_def by metis
  then show ?thesis using b cl u shape_queue_ok [OF sh] by (auto simp: busy_def)
qed

lemma schedule_busy:
  assumes b: "busy s i t" and x: "threads s t = Some x"
  shows "\<exists>r s'. schedule regs fx i s = Inr (r, s') \<and> shape s s' \<and> (\<forall>v. v \<noteq> t \<longrightarrow> threads s' v = threads s v)
    \<and> (if time_slice x > 0
       then r = Continue \<and> cpus s' = cpus s \<and> threads s' t = Some (x\<lparr>time_slice := time_slice x - 1\<rparr>)
       else r \<noteq> Continue
         \<and> cpus s' = (cpus s)[i := (cpus s ! i)\<lparr>current_thread := Some (next_thread (run_queue (cpus s ! i)) t)\<rparr>]
         \<and> threads s' t = Some (x\<lparr>fx_state := fx, registers := regs, time_slice := time_slice_default x\<rparr>))"
proof -
  define c where "c = cpus s ! i"
  have c: "i < length (cpus s)" "queue_ok s c" "\<not> run_queue_lock c" "current_thread c = Some t" "t \<in> set (run_queue c)"
    using b by (auto simp: busy_def c_def)
  obtain p where p: "procs s (parent x) = Some p" "parent x \<noteq> idle_process c"
    using c(2,5) x by (auto simp: queue_ok_def thread_ok_def)
  have st: "th_state x = Running" using b x c(5) by (auto simp: busy_def c_def)
  define s1 where "s1 = s\<lparr>procs := (procs s)(parent x \<mapsto> p\<lparr>active_ticks := active_ticks p + 1\<rparr>)\<rparr>"
  have sh1: "shape s s1" using p(1) by (simp add: shape_def s1_def)
  show ?thesis
  proof (cases "time_slice x > 0")
    case True
    let ?s = "put_thread t (x\<lparr>time_slice := time_slice x - 1\<rparr>) s1"
    have "schedule regs fx i s = Inr (Continue, ?s)"
      using True c(4) x p(1) by (simp add: schedule_def charge_def get_thread_def get_proc_def c_def s1_def)
    moreover have "shape s ?s" using x by (intro shape_trans [OF sh1] shape_put_thread) (auto simp: s1_def)
    ultimately show ?thesis using True by (auto simp: put_thread_def s1_def)
  next
    case False
    define u where "u = next_thread (run_queue c) t"
    define s2 where "s2 = put_thread t (x\<lparr>fx_state := fx, registers := regs, time_slice := time_slice_default x\<rparr>) s1"
    have ne: "run_queue c \<noteq> []" "run_queue_count c \<noteq> 0" using c(5) queue_count_zero [OF c(2)] by auto
    have sh2: "shape s s2" using x unfolding s2_def by (intro shape_trans [OF sh1] shape_put_thread) (auto simp: s1_def)
    have uq: "u \<in> set (run_queue c)" using next_thread_in [OF ne(1)] by (simp add: u_def)
    have "thread_ok s2 c u" using shape_thread_ok [OF sh2] c(2) uq by (auto simp: queue_ok_def)
    then obtain y q where y: "threads s2 u = Some y" "procs s2 (parent y) = Some q" by (auto simp: thread_ok_def)
    have yst: "th_state y = Running"
    proof -
      obtain z where "threads s u = Some z" "th_state z = Running" using b uq by (auto simp: busy_def c_def)
      then show ?thesis using shape_thread [OF sh2] y(1) by (metis option.inject)
    qed
    have ch: "charge i s = Inr (False, s1)"
      using False c(4) x p(1) by (simp add: charge_def get_thread_def get_proc_def c_def s1_def)
    have c1: "cpus s1 ! i = c" "cpus s2 ! i = c" "cpus s2 = cpus s" by (simp_all add: s1_def s2_def put_thread_def c_def)
    have "leave_current regs fx i t s1 = Inr (u, s2)"
    proof (cases "after t (run_queue c)")
      case Nil
      then show ?thesis using ne(1) x p(2) st c1(1)
        by (cases "run_queue c") (auto simp: leave_current_def get_thread_def u_def next_thread_def s2_def s1_def)
    qed (use x p(2) st c1(1) in \<open>simp add: leave_current_def get_thread_def u_def next_thread_def s2_def s1_def\<close>)
    then have "pick regs fx i s1 = Inr (u, s2)"
      using c(4) ne(2) y(1) yst c1 by (simp add: pick_def get_thread_def)
    then have "schedule regs fx i s = Inr (Switch (registers y) (fx_state y) (fs_base y) (kernel_stack y) (p_pml4 q),
        put_cpu i (c\<lparr>current_thread := Some u\<rparr>) s2)"
      using ch c(3) c1 y by (simp add: schedule_def enter_thread_def get_thread_def get_proc_def)
    then show ?thesis using False sh2 c1(3) by (auto simp: put_cpu_def s2_def put_thread_def s1_def u_def c_def)
  qed
qed

text \<open>Timer interrupts on one processor; \<open>f n\<close> is what the registers hold at the \<open>n\<close>-th.\<close>

primrec run_ticks :: "(nat \<Rightarrow> register_context \<times> 'f) \<Rightarrow> nat \<Rightarrow> nat \<Rightarrow> 'f sched \<Rightarrow> 'f sched kres" where
  "run_ticks f i 0 s = Inr s"
| "run_ticks f i (Suc n) s =
     kbind (run_ticks f i n s) (\<lambda>s. kbind (schedule (fst (f n)) (snd (f n)) i s) (\<lambda>(r, s). Inr s))"

lemma run_ticks_add: "run_ticks f i (m + n) s = kbind (run_ticks f i m s) (run_ticks (\<lambda>k. f (m + k)) i n)"
proof (induction n)
  case 0
  then show ?case by (cases "run_ticks f i m s") auto
next
  case (Suc n)
  then show ?case by (cases "run_ticks f i m s") auto
qed

lemma run_slice:
  assumes "busy s i t" "threads s t = Some x" "unat (time_slice x) = n"
  shows "\<exists>s'. run_ticks f i (Suc n) s = Inr s' \<and> shape s s' \<and> (\<forall>v. v \<noteq> t \<longrightarrow> threads s' v = threads s v)
    \<and> cpus s' = (cpus s)[i := (cpus s ! i)\<lparr>current_thread := Some (next_thread (run_queue (cpus s ! i)) t)\<rparr>]"
  using assms
proof (induction n arbitrary: s x f)
  case 0
  then have z: "\<not> time_slice x > 0" by (simp add: unat_eq_0)
  obtain r s' where "schedule (fst (f 0)) (snd (f 0)) i s = Inr (r, s')" "shape s s'" "\<forall>v. v \<noteq> t \<longrightarrow> threads s' v = threads s v"
    "cpus s' = (cpus s)[i := (cpus s ! i)\<lparr>current_thread := Some (next_thread (run_queue (cpus s ! i)) t)\<rparr>]"
    using schedule_busy [OF 0(1,2), of "fst (f 0)" "snd (f 0)"] z by (auto simp del: word_gt_0)
  then show ?case by simp
next
  case (Suc n)
  have pos: "time_slice x > 0" using Suc.prems(3) by (auto simp: word_gt_0 unat_eq_0)
  obtain r s1 where s1: "schedule (fst (f 0)) (snd (f 0)) i s = Inr (r, s1)" "shape s s1"
    "\<forall>v. v \<noteq> t \<longrightarrow> threads s1 v = threads s v" "cpus s1 = cpus s" "threads s1 t = Some (x\<lparr>time_slice := time_slice x - 1\<rparr>)"
    using schedule_busy [OF Suc.prems(1,2), of "fst (f 0)" "snd (f 0)"] pos by (auto simp del: word_gt_0)
  have "busy s1 i t"
    by (rule busy_shape [OF Suc.prems(1) s1(2)]) (use Suc.prems(1) s1(4) in \<open>auto simp: busy_def\<close>)
  moreover have "unat (time_slice (x\<lparr>time_slice := time_slice x - 1\<rparr>)) = n"
    using Suc.prems(3) pos by (simp add: unat_minus_one)
  ultimately obtain s' where s': "run_ticks (\<lambda>k. f (1 + k)) i (Suc n) s1 = Inr s'" "shape s1 s'"
      "\<forall>v. v \<noteq> t \<longrightarrow> threads s' v = threads s1 v"
      "cpus s' = (cpus s1)[i := (cpus s1 ! i)\<lparr>current_thread := Some (next_thread (run_queue (cpus s1 ! i)) t)\<rparr>]"
    using Suc.IH s1(5) by blast
  have "run_ticks f i (1 + Suc n) s = Inr s'" unfolding run_ticks_add using s1(1) s'(1) by simp
  then show ?case using s' s1 shape_trans by (metis plus_1_eq_Suc)
qed

definition slice :: "'f sched \<Rightarrow> nat \<Rightarrow> nat" where
  "slice s v = unat (time_slice (the (threads s v))) + 1"

lemma rotation_inj:
  fixes a :: nat
  assumes "(k + a) mod n = (k + c) mod n" "a < n" "c < n"
  shows "a = c"
proof -
  have "x = y" if "(k + x) mod n = (k + y) mod n" "x \<le> y" "y < n" for x y
  proof -
    have "n dvd (k + y) - (k + x)" using that by (metis mod_eq_dvd_iff_nat add_le_cancel_left)
    then show ?thesis using that by (auto dest: dvd_imp_le)
  qed
  then show ?thesis using assms by (metis nat_le_linear)
qed

lemma run_path:
  assumes b: "busy s i (q ! k)" and q: "q = run_queue (cpus s ! i)" "k < length q" and d: "d < length q"
  shows "\<exists>s'. run_ticks f i (\<Sum>j<d. slice s (q ! ((k + j) mod length q))) s = Inr s' \<and> busy s' i (q ! ((k + d) mod length q))
    \<and> run_queue (cpus s' ! i) = q \<and> (\<forall>v. v \<notin> (\<lambda>j. q ! ((k + j) mod length q)) ` {..<d} \<longrightarrow> threads s' v = threads s v)"
  using d
proof (induction d)
  case 0
  then show ?case using b q by simp
next
  case (Suc d)
  let ?at = "\<lambda>j. q ! ((k + j) mod length q)"
  obtain s1 where s1: "run_ticks f i (\<Sum>j<d. slice s (?at j)) s = Inr s1" "busy s1 i (?at d)"
    "run_queue (cpus s1 ! i) = q" "\<forall>v. v \<notin> ?at ` {..<d} \<longrightarrow> threads s1 v = threads s v"
    using Suc by auto
  have dq: "distinct q" using b q by (auto simp: busy_def queue_ok_def)
  have "?at j \<noteq> ?at d" if "j < d" for j
  proof
    assume "?at j = ?at d"
    then have "(k + j) mod length q = (k + d) mod length q"
      using dq q(2) by (subst (asm) nth_eq_iff_index_eq) (auto intro: mod_less_divisor)
    then show False using rotation_inj [of k j "length q" d] that Suc.prems by simp
  qed
  then have n: "?at d \<notin> ?at ` {..<d}" by force
  obtain x where x: "threads s1 (?at d) = Some x" using s1(2) by (auto simp: busy_def)
  have sl: "slice s (?at d) = Suc (unat (time_slice x))" using s1(4) n x by (simp add: slice_def)
  obtain s2 where s2: "run_ticks (\<lambda>m. f ((\<Sum>j<d. slice s (?at j)) + m)) i (Suc (unat (time_slice x))) s1 = Inr s2" "shape s1 s2"
    "\<forall>v. v \<noteq> ?at d \<longrightarrow> threads s2 v = threads s1 v"
    "cpus s2 = (cpus s1)[i := (cpus s1 ! i)\<lparr>current_thread := Some (next_thread q (?at d))\<rparr>]"
    using run_slice [OF s1(2) x refl] s1(3) by metis
  have nx: "next_thread q (?at d) = ?at (Suc d)"
    using nth_next_thread [OF dq mod_less_divisor, of "k + d"] q(2) by (cases "q = []") (auto simp: mod_Suc_eq)
  have "?at (Suc d) \<in> set q" using q(2) by (intro nth_mem mod_less_divisor) auto
  then have "busy s2 i (?at (Suc d))" using busy_shape [OF s1(2) s2(2)] s2(4) s1(3) nx by simp
  moreover have "run_queue (cpus s2 ! i) = q" using s2(4) s1(2,3) by (simp add: busy_def)
  moreover have "run_ticks f i (\<Sum>j<Suc d. slice s (?at j)) s = Inr s2"
    unfolding sum.lessThan_Suc run_ticks_add sl using s1(1) s2(1) by (simp del: run_ticks.simps)
  moreover have "\<forall>v. v \<notin> ?at ` {..<Suc d} \<longrightarrow> threads s2 v = threads s v" using s1(4) s2(3) by (auto simp: lessThan_Suc)
  ultimately show ?case by blast
qed

text \<open>
  C3. While no thread of a run queue is blocked or dying, every one of them gets the processor, whatever the threads
  leave in the registers: thread \<open>u\<close> runs after at most as many timer interrupts as the time slices of the queue add
  up to, one more for each thread.
\<close>

theorem scheduler_fair:
  assumes b: "busy s i t" and u: "u \<in> set (run_queue (cpus s ! i))"
  shows "\<exists>n s'. n \<le> (\<Sum>v\<leftarrow>run_queue (cpus s ! i). unat (time_slice (the (threads s v))) + 1)
    \<and> run_ticks f i n s = Inr s' \<and> current_thread (cpus s' ! i) = Some u"
proof -
  define q where "q = run_queue (cpus s ! i)"
  obtain k m where k: "k < length q" "q ! k = t" "m < length q" "q ! m = u"
    using b u by (auto simp: busy_def q_def in_set_conv_nth)
  define d where "d = (if k \<le> m then m - k else m + length q - k)"
  have d: "d < length q" "(k + d) mod length q = m" using k by (auto simp: d_def)
  let ?at = "\<lambda>j. q ! ((k + j) mod length q)"
  have dq: "distinct q" using b by (auto simp: busy_def queue_ok_def q_def)
  obtain s' where s': "run_ticks f i (\<Sum>j<d. slice s (?at j)) s = Inr s'" "busy s' i u"
    using run_path [of s i q k d] b k d by (auto simp: q_def)
  have "inj_on ?at {..<d}"
  proof (rule inj_onI)
    fix a c assume ac: "a \<in> {..<d}" "c \<in> {..<d}" "?at a = ?at c"
    then have "(k + a) mod length q = (k + c) mod length q"
      using dq k(1) by (subst (asm) nth_eq_iff_index_eq) (auto intro: mod_less_divisor)
    then show "a = c" using rotation_inj [of k a "length q" c] ac d(1) by simp
  qed
  then have "(\<Sum>j<d. slice s (?at j)) = sum (slice s) (?at ` {..<d})" by (simp add: sum.reindex)
  also have "\<dots> \<le> sum (slice s) (set q)"
    using k(1) by (intro sum_mono2) (auto intro!: nth_mem mod_less_divisor)
  also have "\<dots> = (\<Sum>v\<leftarrow>q. slice s v)" using dq by (simp add: sum_list_distinct_conv_sum_set)
  finally show ?thesis using s' by (auto simp: busy_def q_def slice_def)
qed

section \<open>A blocked thread in the queue\<close>

lemma skip_loop_none: "\<forall>t\<in>set ts. \<exists>x. threads s t = Some x \<and> th_state x \<noteq> Blocked \<Longrightarrow> skip_loop s ts = Inr None"
  by (induction ts) (auto simp: get_thread_def)

definition in_state :: "'f sched \<Rightarrow> thread_state \<Rightarrow> nat \<Rightarrow> bool" where
  "in_state s st t \<longleftrightarrow> (\<exists>x. threads s t = Some x \<and> th_state x = st)"

text \<open>The queue is \<open>xs\<close>, a blocked thread \<open>b\<close>, and \<open>ys\<close>, all others running; the processor is at one of \<open>xs\<close> or idle.\<close>

definition before_blocked :: "nat list \<Rightarrow> nat \<Rightarrow> nat list \<Rightarrow> nat \<Rightarrow> 'f sched \<Rightarrow> bool" where
  "before_blocked xs b ys i s \<longleftrightarrow> i < length (cpus s) \<and> queue_ok s (cpus s ! i) \<and> run_queue (cpus s ! i) = xs @ b # ys
     \<and> in_state s Blocked b \<and> (\<forall>t\<in>set xs \<union> set ys. in_state s Running t)
     \<and> (\<forall>t. current_thread (cpus s ! i) = Some t \<longrightarrow> t \<in> set xs \<or> idle_ok s (cpus s ! i) t)"

lemma shape_in_state: "shape s s' \<Longrightarrow> in_state s st t \<Longrightarrow> in_state s' st t"
  unfolding in_state_def by (metis shape_thread)

lemma before_blocked_shape:
  assumes "before_blocked xs b ys i s" "shape s s'" "cpus s' = (cpus s)[i := (cpus s ! i)\<lparr>current_thread := u\<rparr>]"
    "\<forall>t. u = Some t \<longrightarrow> t \<in> set xs \<or> idle_ok s (cpus s ! i) t"
  shows "before_blocked xs b ys i s'"
  using assms shape_in_state [OF assms(2)] shape_queue_ok [OF assms(2)] shape_idle_ok [OF assms(2)]
  unfolding before_blocked_def by auto

text \<open>From a thread of \<open>xs\<close> or the idle thread the scheduler reaches a thread of \<open>xs\<close>, or \<open>b\<close>.\<close>

lemma leave_before_blocked:
  assumes b: "before_blocked xs b ys i s" and t: "current_thread (cpus s ! i) = Some t"
  obtains u s' where "leave_current regs fx i t s = Inr (u, s')" "shape s s'" "cpus s' = cpus s" "u \<in> set xs \<or> u = b"
proof -
  define c where "c = cpus s ! i"
  have q: "run_queue c = xs @ b # ys" "queue_ok s c" using b by (simp_all add: before_blocked_def c_def)
  consider (q) "t \<in> set xs" | (idle) "idle_ok s c t" using b t by (auto simp: before_blocked_def c_def)
  then show ?thesis
  proof cases
    case idle
    then obtain x where "threads s t = Some x" "parent x = idle_process c" "th_state x = Running" by (auto simp: idle_ok_def)
    then have "leave_current regs fx i t s = Inr (hd (xs @ [b]), s)"
      using q(1) by (cases xs) (auto simp: leave_current_def get_thread_def c_def)
    then show ?thesis using that [of "hd (xs @ [b])" s] by (cases xs) auto
  next
    case q': q
    then obtain as bs where xs: "xs = as @ t # bs" "t \<notin> set as" by (metis split_list_first)
    obtain x where x: "threads s t = Some x" "th_state x = Running" using b q' by (auto simp: before_blocked_def in_state_def)
    have "thread_ok s c t" using q q' by (auto simp: queue_ok_def)
    then have p: "parent x \<noteq> idle_process c" using x by (auto simp: thread_ok_def)
    have a: "after t (run_queue c) = bs @ b # ys" using q(1) xs after_append by simp
    let ?s = "put_thread t (x\<lparr>fx_state := fx, registers := regs, time_slice := time_slice_default x\<rparr>) s"
    have "leave_current regs fx i t s = Inr (hd (bs @ [b]), ?s)"
      using x p a by (cases bs) (auto simp: leave_current_def get_thread_def c_def)
    moreover have "shape s ?s" using x(1) by (auto intro: shape_put_thread)
    moreover have "hd (bs @ [b]) \<in> set xs \<or> hd (bs @ [b]) = b" using xs by (cases bs) auto
    ultimately show ?thesis using that [of "hd (bs @ [b])" ?s] by (simp add: put_thread_def)
  qed
qed

lemma pick_before_blocked:
  assumes b: "before_blocked xs b ys i s"
  obtains u s' where "pick regs fx i s = Inr (u, s')" "shape s s'" "cpus s' = cpus s" "u \<in> set xs \<or> idle_ok s (cpus s ! i) u"
proof -
  have q: "run_queue (cpus s ! i) = xs @ b # ys" "queue_ok s (cpus s ! i)" using b by (simp_all add: before_blocked_def)
  obtain d where d: "idle_ok s (cpus s ! i) d" using q(2) by (auto simp: queue_ok_def)
  show ?thesis
  proof (cases "current_thread (cpus s ! i)")
    case None
    then have "pick regs fx i s = Inr (d, s)" using idle_first_thread [OF d] by (simp add: pick_def)
    then show ?thesis using that d by simp
  next
    case (Some t)
    obtain u s1 where l: "leave_current regs fx i t s = Inr (u, s1)" "shape s s1" "cpus s1 = cpus s" and u: "u \<in> set xs \<or> u = b"
      using leave_before_blocked [OF b Some] by blast
    have nz: "run_queue_count (cpus s ! i) \<noteq> 0" using q queue_count_zero [OF q(2)] by simp
    have st: "in_state s1 Blocked b" "\<forall>t\<in>set xs \<union> set ys. in_state s1 Running t"
      using b shape_in_state [OF l(2)] by (auto simp: before_blocked_def)
    show ?thesis
    proof (cases "u \<in> set xs")
      case True
      then obtain y where "threads s1 u = Some y" "th_state y = Running" using st by (auto simp: in_state_def)
      then have "pick regs fx i s = Inr (u, s1)" using Some nz l(1) by (simp add: pick_def get_thread_def)
      then show ?thesis using that True l by blast
    next
      case False
      then have ub: "u = b" using u by simp
      obtain y where y: "threads s1 b = Some y" "th_state y = Blocked" using st(1) by (auto simp: in_state_def)
      have "b \<notin> set xs" using q by (auto simp: queue_ok_def)
      then have "after b (run_queue (cpus s1 ! i)) = ys" using q(1) l(3) after_append by metis
      moreover have "skip_loop s1 ys = Inr None" using st(2) by (intro skip_loop_none) (fastforce simp: in_state_def)
      moreover have "first_thread s1 (idle_process (cpus s ! i)) = Inr d" using idle_first_thread shape_idle_ok [OF l(2) d] by blast
      ultimately have "pick regs fx i s = Inr (d, s1)" using Some nz l(1) y ub by (simp add: pick_def get_thread_def)
      then show ?thesis using that l d by blast
    qed
  qed
qed

lemma schedule_before_blocked:
  assumes b: "before_blocked xs b ys i s"
  shows "\<exists>r s'. schedule regs fx i s = Inr (r, s') \<and> before_blocked xs b ys i s'"
proof -
  have ok: "cpu_ok s (cpus s ! i)" using b by (auto simp: before_blocked_def cpu_ok_def)
  obtain g s1 where s1: "charge i s = Inr (g, s1)" "shape s s1" "cpus s1 = cpus s" using charge_ok [OF ok] by blast
  have b1: "before_blocked xs b ys i s1"
    by (rule before_blocked_shape [OF b s1(2), of "current_thread (cpus s ! i)"]) (use b s1(3) in \<open>auto simp: before_blocked_def\<close>)
  show ?thesis
  proof (cases "g \<or> run_queue_lock (cpus s ! i)")
    case True
    then show ?thesis using s1 b1 by (auto simp: schedule_def)
  next
    case False
    obtain u s2 where p: "pick regs fx i s1 = Inr (u, s2)" "shape s1 s2" "cpus s2 = cpus s1"
      and u: "u \<in> set xs \<or> idle_ok s1 (cpus s1 ! i) u"
      using pick_before_blocked [OF b1] by blast
    obtain x q where x: "threads s2 u = Some x" "procs s2 (parent x) = Some q"
    proof -
      have "thread_ok s1 (cpus s1 ! i) u \<or> idle_ok s1 (cpus s1 ! i) u" using u b1 by (auto simp: before_blocked_def queue_ok_def)
      then have "thread_ok s2 (cpus s1 ! i) u \<or> idle_ok s2 (cpus s1 ! i) u" using p(2) shape_thread_ok shape_idle_ok by blast
      then show ?thesis using that by (auto simp: thread_ok_def idle_ok_def)
    qed
    let ?s = "put_cpu i ((cpus s2 ! i)\<lparr>current_thread := Some u\<rparr>) s2"
    have "\<exists>r. schedule regs fx i s = Inr (r, ?s)"
      using s1(1,3) False p(1) x by (auto simp: schedule_def enter_thread_def get_thread_def get_proc_def)
    moreover have "before_blocked xs b ys i ?s"
      by (rule before_blocked_shape [OF b1, of _ "Some u"]) (use p u in \<open>auto simp: put_cpu_def\<close>)
    ultimately show ?thesis by blast
  qed
qed

text \<open>
  C31. The loop that skips blocked threads is inverted: behind a blocked thread it looks for another blocked one.  When
  the queue is \<open>xs\<close>, then a blocked thread \<open>b\<close>, then \<open>ys\<close>, and the processor is at one of \<open>xs\<close> or idle, then as long
  as \<open>b\<close> stays blocked no number of timer interrupts ever lets one of \<open>ys\<close> run, although all of them are ready.
\<close>

theorem blocked_thread_starves_followers:
  assumes "before_blocked xs b ys i s"
  shows "\<exists>s'. run_ticks f i n s = Inr s' \<and> (\<forall>v\<in>set ys. in_state s' Running v \<and> current_thread (cpus s' ! i) \<noteq> Some v)"
proof -
  have "\<exists>s'. run_ticks f i n s = Inr s' \<and> before_blocked xs b ys i s'"
  proof (induction n)
    case (Suc n)
    then show ?case using schedule_before_blocked by fastforce
  qed (use assms in simp)
  moreover have "current_thread (cpus s' ! i) \<noteq> Some v" if "before_blocked xs b ys i s'" "v \<in> set ys" for s' v
  proof
    assume c: "current_thread (cpus s' ! i) = Some v"
    have "distinct (xs @ b # ys)" "thread_ok s' (cpus s' ! i) v" using that by (auto simp: before_blocked_def queue_ok_def)
    then show False using c that by (auto simp: before_blocked_def idle_ok_def thread_ok_def)
  qed
  ultimately show ?thesis by (metis UnI2 before_blocked_def)
qed

section \<open>Removing the threads of a process\<close>

text \<open>The effect of deleting a set \<open>D\<close> of threads of one run queue.\<close>

definition cut :: "nat \<Rightarrow> nat set \<Rightarrow> 'f sched \<Rightarrow> 'f sched" where
  "cut i D s = s\<lparr>cpus := (cpus s)[i := (cpus s ! i)\<lparr>run_queue := filter (\<lambda>v. v \<notin> D) (run_queue (cpus s ! i)),
       run_queue_count := run_queue_count (cpus s ! i) - of_nat (card D)\<rparr>],
     threads := (\<lambda>v. if v \<in> D then None else threads s v)\<rparr>"

lemma cut_empty [simp]: "i < length (cpus s) \<Longrightarrow> cut i {} s = s"
  by (cases s) (simp add: cut_def)

lemma cut_cut:
  assumes "i < length (cpus s)" "D \<inter> E = {}" "finite D" "finite E"
  shows "cut i E (cut i D s) = cut i (D \<union> E) s"
proof -
  have "(\<lambda>v. if v \<in> E then None else if v \<in> D then None else threads s v) = (\<lambda>v. if v \<in> D \<union> E then None else threads s v)"
    by auto
  moreover have "card (D \<union> E) = card D + card E" using assms by (simp add: card_Un_disjoint)
  ultimately show ?thesis using assms(1) by (simp add: cut_def conj_commute diff_diff_eq cong: if_cong)
qed

lemma drop_thread_cut:
  assumes "i < length (cpus s)" "distinct (run_queue (cpus s ! i))" "set_option r \<subseteq> set (run_queue (cpus s ! i))"
  shows "drop_thread r i s = cut i (set_option r) s"
proof (cases r)
  case (Some t)
  have "(\<lambda>v. if v = t then None else threads s v) = (threads s)(t := None)" by auto
  moreover have "remove1 t (run_queue (cpus s ! i)) = filter (\<lambda>v. v \<notin> {t}) (run_queue (cpus s ! i))"
    using assms(2) by (simp add: distinct_remove1_removeAll removeAll_filter_not_eq eq_commute)
  ultimately show ?thesis using Some by (simp add: drop_thread_def cut_def put_cpu_def Let_def)
qed (use assms in \<open>simp add: drop_thread_def\<close>)

lemma cut_select:
  assumes "i < length (cpus s)"
  shows "current_thread (cpus (cut i D s) ! i) = current_thread (cpus s ! i)"
    "run_queue (cpus (cut i D s) ! i) = filter (\<lambda>v. v \<notin> D) (run_queue (cpus s ! i))" "length (cpus (cut i D s)) = length (cpus s)"
    "v \<notin> D \<Longrightarrow> threads (cut i D s) v = threads s v"
  using assms by (simp_all add: cut_def)

definition victims :: "nat \<Rightarrow> nat \<Rightarrow> nat list \<Rightarrow> 'f sched \<Rightarrow> nat set" where
  "victims p i ts s = {v \<in> set ts. Some v \<noteq> current_thread (cpus s ! i) \<and> parent (the (threads s v)) = p}"

lemma remove_loop_eq:
  assumes "i < length (cpus s)" "distinct (run_queue (cpus s ! i))" "\<forall>v\<in>set ts. threads s v \<noteq> None" "distinct ts"
    "set ts \<subseteq> set (run_queue (cpus s ! i))" "set_option r \<subseteq> set (run_queue (cpus s ! i)) - set ts"
  shows "remove_loop p i r ts s = Inr (cut i (set_option r \<union> victims p i ts s) s)"
  using assms
proof (induction ts arbitrary: r s)
  case Nil
  then show ?case using drop_thread_cut by (simp add: victims_def)
next
  case (Cons t ts)
  define s1 where "s1 = cut i (set_option r) s"
  have d: "drop_thread r i s = s1" using drop_thread_cut [of i s r] Cons.prems by (auto simp: s1_def)
  have tr: "v \<notin> set_option r" if "v \<in> set (t # ts)" for v using Cons.prems(6) that by auto
  note sel = cut_select(1-3) [OF Cons.prems(1), of "set_option r", folded s1_def]
    and thr = cut_select(4) [OF Cons.prems(1) tr, folded s1_def]
  obtain x where x: "threads s t = Some x" using Cons.prems(3) by auto
  define r' where "r' = (if Some t \<noteq> current_thread (cpus s ! i) \<and> parent x = p then Some t else None)"
  have "threads s1 t = Some x" using thr [of t] x by simp
  then have "remove_loop p i r (t # ts) s = remove_loop p i r' ts s1"
    using d sel(1) by (simp add: get_thread_def r'_def)
  also have "\<dots> = Inr (cut i (set_option r' \<union> victims p i ts s1) s1)"
    by (rule Cons.IH) (use Cons.prems sel thr tr in \<open>auto simp: r'_def split: if_splits\<close>)
  also have "cut i (set_option r' \<union> victims p i ts s1) s1 = cut i (set_option r \<union> (set_option r' \<union> victims p i ts s1)) s"
    unfolding s1_def using tr Cons.prems(1)
    by (intro cut_cut) (auto simp: r'_def victims_def split: if_splits)
  also have "set_option r' \<union> victims p i ts s1 = victims p i (t # ts) s"
    using sel(1) thr x by (auto simp: victims_def r'_def)
  finally show ?case .
qed

definition spared :: "nat \<Rightarrow> nat \<Rightarrow> 'f sched \<Rightarrow> nat \<Rightarrow> bool" where
  "spared p i s v \<longleftrightarrow> Some v = current_thread (cpus s ! i) \<or> parent (the (threads s v)) \<noteq> p"

lemma remove_threads_spec:
  assumes q: "queue_ok s (cpus s ! i)" and i: "i < length (cpus s)"
  shows "\<exists>s'. remove_threads p i s = Inr s' \<and> queue_ok s' (cpus s' ! i)
    \<and> run_queue (cpus s' ! i) = filter (spared p i s) (run_queue (cpus s ! i))
    \<and> (\<forall>v. threads s' v = (if v \<in> set (run_queue (cpus s ! i)) \<and> \<not> spared p i s v then None else threads s v))
    \<and> (\<forall>j. j \<noteq> i \<longrightarrow> cpus s' ! j = cpus s ! j) \<and> length (cpus s') = length (cpus s)
    \<and> current_thread (cpus s' ! i) = current_thread (cpus s ! i) \<and> idle_process (cpus s' ! i) = idle_process (cpus s ! i)
    \<and> cpu_id (cpus s' ! i) = cpu_id (cpus s ! i) \<and> run_queue_lock (cpus s' ! i) = run_queue_lock (cpus s ! i)
    \<and> procs s' = procs s \<and> processes s' = processes s \<and> dead_processes s' = dead_processes s"
proof -
  let ?c = "cpus s ! i" and ?D = "victims p i (run_queue (cpus s ! i)) s"
  let ?s = "cut i ?D s"
  have dq: "distinct (run_queue ?c)" "\<forall>v\<in>set (run_queue ?c). threads s v \<noteq> None"
    using q by (auto simp: queue_ok_def thread_ok_def)
  have e: "remove_threads p i s = Inr ?s" using remove_loop_eq [OF i dq dq(1) order_refl, of None] by (simp add: remove_threads_def)
  have D: "v \<in> ?D \<longleftrightarrow> v \<in> set (run_queue ?c) \<and> \<not> spared p i s v" for v by (auto simp: victims_def spared_def)
  have f: "filter (\<lambda>v. v \<notin> ?D) (run_queue ?c) = filter (spared p i s) (run_queue ?c)" using D by (auto intro: filter_cong)
  have "card ?D = length (filter (\<lambda>v. \<not> spared p i s v) (run_queue ?c))"
    using dq(1) D by (subst distinct_card [symmetric]) (auto intro: arg_cong [where f = card])
  then have "length (run_queue ?c) = length (filter (spared p i s) (run_queue ?c)) + card ?D"
    using sum_length_filter_compl [of "spared p i s" "run_queue ?c"] by simp
  then have cnt: "run_queue_count ?c - of_nat (card ?D) = of_nat (length (filter (spared p i s) (run_queue ?c)))"
    using q by (simp add: queue_ok_def)
  have rq: "run_queue (cpus ?s ! i) = filter (spared p i s) (run_queue ?c)" "idle_process (cpus ?s ! i) = idle_process ?c"
    using i f by (simp_all add: cut_def)
  have th: "threads ?s v = (if v \<in> set (run_queue ?c) \<and> \<not> spared p i s v then None else threads s v)" for v
    using D [of v] by (simp add: cut_def)
  have "idle_ok ?s (cpus ?s ! i) d" if "idle_ok s ?c d" for d
  proof -
    have "d \<notin> set (run_queue ?c)" using that q by (auto simp: idle_ok_def queue_ok_def thread_ok_def)
    then show ?thesis using that th rq(2) by (auto simp: idle_ok_def cut_def)
  qed
  moreover have "thread_ok ?s (cpus ?s ! i) v" if "v \<in> set (run_queue (cpus ?s ! i))" for v
  proof -
    have "thread_ok s ?c v" "spared p i s v" using that rq(1) q by (auto simp: queue_ok_def)
    then show ?thesis using th [of v] rq(2) by (auto simp: thread_ok_def cut_def)
  qed
  moreover have "length (filter (spared p i s) (run_queue ?c)) < 2 ^ 64"
    using q by (intro le_less_trans [OF length_filter_le]) (simp add: queue_ok_def)
  moreover have "run_queue_count (cpus ?s ! i) = of_nat (length (run_queue (cpus ?s ! i)))"
    using cnt rq(1) i by (simp add: cut_def)
  ultimately have "queue_ok ?s (cpus ?s ! i)" using q rq(1) by (auto simp: queue_ok_def)
  then show ?thesis using e rq(1) th i
    by (intro exI [of _ ?s] conjI allI) (auto simp: cut_def)
qed

text \<open>
  Of a well-formed run queue \<open>remove_threads\<close> deletes exactly the threads of the process that the processor is not
  running, keeps the others in order, and the counter stays the length of the queue.
\<close>

theorem remove_threads_correct:
  assumes q: "queue_ok s (cpus s ! i)" and i: "i < length (cpus s)"
  shows "\<exists>s'. remove_threads p i s = Inr s' \<and> queue_ok s' (cpus s' ! i)
    \<and> run_queue (cpus s' ! i) = filter (spared p i s) (run_queue (cpus s ! i))
    \<and> (\<forall>v. threads s' v = (if v \<in> set (run_queue (cpus s ! i)) \<and> \<not> spared p i s v then None else threads s v))
    \<and> (\<forall>j. j \<noteq> i \<longrightarrow> cpus s' ! j = cpus s ! j)"
  using remove_threads_spec [OF assms] by blast

section \<open>The end of a process\<close>






text \<open>Holding the lock of the queue makes no difference to what is done to it.\<close>

lemma hold_queue_simps [simp]:
  "threads (hold_queue b i s) = threads s" "procs (hold_queue b i s) = procs s" "length (cpus (hold_queue b i s)) = length (cpus s)"
  "processes (hold_queue b i s) = processes s" "dead_processes (hold_queue b i s) = dead_processes s"
  "current_thread (cpus (hold_queue b i s) ! j) = current_thread (cpus s ! j)"
  "cpu_id (cpus (hold_queue b i s) ! j) = cpu_id (cpus s ! j)"
  "get_thread (hold_queue b i s) v = get_thread s v" "runs p j (hold_queue b i s) = runs p j s"
proof -
  show c: "current_thread (cpus (hold_queue b i s) ! j) = current_thread (cpus s ! j)" for j
    by (cases "j = i \<and> i < length (cpus s)") (auto simp: hold_queue_def put_cpu_def list_update_beyond)
  show "cpu_id (cpus (hold_queue b i s) ! j) = cpu_id (cpus s ! j)"
    by (cases "j = i \<and> i < length (cpus s)") (auto simp: hold_queue_def put_cpu_def list_update_beyond)
  show g: "get_thread (hold_queue b i s) v = get_thread s v" for v by (simp add: get_thread_def hold_queue_def put_cpu_def)
  show "runs p j (hold_queue b i s) = runs p j s" by (simp add: runs_def c g split: option.split)
qed (simp_all add: hold_queue_def put_cpu_def)







subsection \<open>The wait for another processor\<close>



















section \<open>A small system\<close>

text \<open>One processor; process 0 is idle with thread 0, process 1 has the queued threads 1, 2 and 3, thread 1 running.\<close>

definition demo_sched :: "thread_state \<Rightarrow> unit sched" where
  "demo_sched st = \<lparr>threads = (\<lambda>_. None)(0 \<mapsto> zero_thread (), 1 \<mapsto> (zero_thread ())\<lparr>parent := 1\<rparr>,
       2 \<mapsto> (zero_thread ())\<lparr>parent := 1, th_state := st\<rparr>, 3 \<mapsto> (zero_thread ())\<lparr>parent := 1\<rparr>),
     procs = (\<lambda>_. None)(0 \<mapsto> \<lparr>p_pid = 1, p_threads = [0], p_files = [], active_ticks = 0, p_pml4 = 0\<rparr>,
       1 \<mapsto> \<lparr>p_pid = 2, p_threads = [1, 2, 3], p_files = [], active_ticks = 0, p_pml4 = 0\<rparr>),
     cpus = [\<lparr>cpu_id = 0, current_thread = Some 1, idle_process = 0, run_queue_lock = False, run_queue_count = 3, run_queue = [1, 2, 3]\<rparr>],
     processes = [0, 1], dead_processes = [], scheduler_ready = True\<rparr>"

lemma demo_queue_ok: "queue_ok (demo_sched st) (cpus (demo_sched st) ! 0)"
  by (auto simp: queue_ok_def thread_ok_def idle_ok_def demo_sched_def zero_thread_def)

lemma demo_sched_inv: "sched_inv (demo_sched st)"
  using demo_queue_ok [of st] by (simp add: sched_inv_def cpu_ok_def disjoint_queues_def demo_sched_def)

lemma insert_new_thread_balances_witness:
  "cpus (demo_sched Running) \<noteq> [] \<and> (\<exists>i<length (cpus (demo_sched Running)).
     \<exists>s'. insert_new_thread 7 (demo_sched Running) = Inr s' \<and> run_queue (cpus s' ! i) = [1, 2, 3, 7])"
proof -
  have "cpus (demo_sched Running) \<noteq> []" by (simp add: demo_sched_def)
  from insert_new_thread_balances [OF this, of 7] show ?thesis by (auto simp: demo_sched_def)
qed

lemma schedule_safe_witness:
  "sched_inv (demo_sched Blocked) \<and> (\<exists>r s'. schedule zero_registers () 0 (demo_sched Blocked) = Inr (r, s') \<and> sched_inv s')"
  using schedule_safe [OF demo_sched_inv, of 0 Blocked zero_registers "()"] demo_sched_inv by (auto simp: demo_sched_def)

lemma scheduler_fair_witness:
  "busy (demo_sched Running) 0 1 \<and> (\<exists>n s'. n \<le> 3 \<and> run_ticks (\<lambda>_. (zero_registers, ())) 0 n (demo_sched Running) = Inr s'
     \<and> current_thread (cpus s' ! 0) = Some 3)"
proof -
  have b: "busy (demo_sched Running) 0 1" using demo_queue_ok [of Running] by (simp add: busy_def demo_sched_def zero_thread_def)
  have "3 \<in> set (run_queue (cpus (demo_sched Running) ! 0))" by (simp add: demo_sched_def)
  from scheduler_fair [OF b this, of "\<lambda>_. (zero_registers, ())"]
  obtain n s' where "n \<le> (\<Sum>v\<leftarrow>run_queue (cpus (demo_sched Running) ! 0). unat (time_slice (the (threads (demo_sched Running) v))) + 1)"
    "run_ticks (\<lambda>_. (zero_registers, ())) 0 n (demo_sched Running) = Inr s'" "current_thread (cpus s' ! 0) = Some 3" by blast
  moreover have "(\<Sum>v\<leftarrow>run_queue (cpus (demo_sched Running) ! 0). unat (time_slice (the (threads (demo_sched Running) v))) + 1) = 3"
    by (simp add: demo_sched_def zero_thread_def)
  ultimately show ?thesis using b by auto
qed

lemma blocked_thread_starves_followers_witness:
  "before_blocked [1] 2 [3] 0 (demo_sched Blocked)
    \<and> (\<exists>s'. run_ticks (\<lambda>_. (zero_registers, ())) 0 1000 (demo_sched Blocked) = Inr s' \<and> current_thread (cpus s' ! 0) \<noteq> Some 3)"
proof -
  have b: "before_blocked [1] 2 [3] 0 (demo_sched Blocked)"
    using demo_queue_ok [of Blocked] by (simp add: before_blocked_def in_state_def demo_sched_def zero_thread_def)
  from blocked_thread_starves_followers [OF b, of "\<lambda>_. (zero_registers, ())" 1000] b show ?thesis by auto
qed

lemma remove_threads_correct_witness:
  "queue_ok (demo_sched Running) (cpus (demo_sched Running) ! 0)
    \<and> (\<exists>s'. remove_threads 1 0 (demo_sched Running) = Inr s' \<and> run_queue (cpus s' ! 0) = [1] \<and> threads s' 2 = None)"
proof -
  have "0 < length (cpus (demo_sched Running))" by (simp add: demo_sched_def)
  from remove_threads_correct [OF demo_queue_ok this, of 1] demo_queue_ok [of Running] show ?thesis
    by (auto simp: demo_sched_def spared_def zero_thread_def)
qed




end
