(* ===== verification/Filesystem.thy ===== *)
theory Filesystem
  imports KString Process
begin

unbundle bit_operations_syntax

text \<open>
  The virtual file system of \<^verbatim>\<open>Kernel/src/fs/filesystem.cpp\<close>, \<^verbatim>\<open>fs_node.cpp\<close>, \<^verbatim>\<open>directory_entry.cpp\<close> and their
  headers: nodes with their default methods, volumes below the root directory, and the resolution of paths with
  symbolic links.  Names and paths are byte strings without the final zero.  What differs between file systems, the
  virtual methods \<open>find_dir\<close>, \<open>read_link\<close> and the flags of a node, is a record of functions on an arbitrary type of
  nodes; the directories of the repository provide it in this theory (root) and in those of the devices and the tar
  volume.  \<open>resolve_path\<close> and \<open>follow_link\<close> call each other, so the model counts the depth of the calls: the result
  \<open>None\<close> means the depth was not enough, \<open>Some None\<close> is the null pointer.
\<close>

section \<open>Model\<close>

type_synonym name = "u8 list"

definition NAME_MAX :: nat where "NAME_MAX = 255"

definition PATH_MAX :: nat where "PATH_MAX = 4096"

definition SYMLINK_MAX :: nat where "SYMLINK_MAX = 10"

definition FS_NODE_TYPE :: u32 where "FS_NODE_TYPE = 0xF000"

definition FS_NODE_FILE :: u32 where "FS_NODE_FILE = 0x8000"

definition FS_NODE_DIRECTORY :: u32 where "FS_NODE_DIRECTORY = 0x4000"

definition FS_NODE_BLKDEVICE :: u32 where "FS_NODE_BLKDEVICE = 0x6000"

definition FS_NODE_SYMLINK :: u32 where "FS_NODE_SYMLINK = 0xA000"

definition FS_NODE_CHARDEVICE :: u32 where "FS_NODE_CHARDEVICE = 0x2000"

definition FS_NODE_SOCKET :: u32 where "FS_NODE_SOCKET = 0xC000"

lemmas node_type_defs = FS_NODE_TYPE_def FS_NODE_FILE_def FS_NODE_DIRECTORY_def FS_NODE_BLKDEVICE_def FS_NODE_SYMLINK_def
  FS_NODE_CHARDEVICE_def FS_NODE_SOCKET_def

definition is_dir :: "u32 \<Rightarrow> bool" where
  "is_dir flags \<longleftrightarrow> flags AND FS_NODE_TYPE = FS_NODE_DIRECTORY"

definition is_symlink :: "u32 \<Rightarrow> bool" where
  "is_symlink flags \<longleftrightarrow> flags AND FS_NODE_TYPE = FS_NODE_SYMLINK"

definition is_file :: "u32 \<Rightarrow> bool" where
  "is_file flags \<longleftrightarrow> flags AND FS_NODE_TYPE = FS_NODE_FILE"

text \<open>Comparison of strings: \<open>strcmp\<close> and \<open>strncmp\<close> return 0.\<close>

definition str_eq :: "name \<Rightarrow> name \<Rightarrow> bool" where
  "str_eq a b \<longleftrightarrow> compare_bytes a b = 0"

definition strn_eq :: "nat \<Rightarrow> name \<Rightarrow> name \<Rightarrow> bool" where
  "strn_eq n a b \<longleftrightarrow> compare_bytes (take n a) (take n b) = 0"

subsection \<open>Nodes\<close>

record fs_node =
  inode :: u64
  n_uid :: u32
  volume_id :: u64
  n_size :: u64
  nlink :: int
  n_flags :: u32
  handle_count :: u32

text \<open>The default methods.  Only \<open>open\<close> and \<open>close\<close> do anything; the others report what is missing.\<close>

definition fs_node_read :: "fs_node \<Rightarrow> u64 \<Rightarrow> u64 \<Rightarrow> u8 list sysret" where
  "fs_node_read n off len = Inl ENOSYS"

definition fs_node_write :: "fs_node \<Rightarrow> u64 \<Rightarrow> u8 list \<Rightarrow> u64 sysret" where
  "fs_node_write n off bytes = Inl ENOSYS"

definition fs_node_open :: "nat \<Rightarrow> u64 \<Rightarrow> fs_node \<Rightarrow> file_desc \<times> fs_node" where
  "fs_node_open this flags n =
     (\<lparr>fd_node = Some this, fd_pos = 0, fd_mode = ucast flags\<rparr>, n\<lparr>handle_count := handle_count n + 1\<rparr>)"

definition fs_node_close :: "fs_node \<Rightarrow> fs_node" where
  "fs_node_close n = n\<lparr>handle_count := handle_count n - 1\<rparr>"

definition fs_node_read_dir :: "fs_node \<Rightarrow> u32 \<Rightarrow> int sysret" where
  "fs_node_read_dir n index = (if \<not> is_dir (n_flags n) then Inl ENOTDIR else Inl ENOSYS)"

definition fs_node_find_dir :: "fs_node \<Rightarrow> name \<Rightarrow> nat option" where
  "fs_node_find_dir n nm = None"

definition fs_node_create :: "fs_node \<Rightarrow> int sysret" where
  "fs_node_create n = (if \<not> is_dir (n_flags n) then Inl ENOTDIR else Inl ENOSYS)"

definition fs_node_create_dir :: "fs_node \<Rightarrow> int sysret" where
  "fs_node_create_dir n = (if \<not> is_dir (n_flags n) then Inl ENOTDIR else Inl ENOSYS)"

definition fs_node_read_link :: "fs_node \<Rightarrow> name sysret" where
  "fs_node_read_link n = (if \<not> is_symlink (n_flags n) then Inl EINVAL else Inl ENOSYS)"

definition fs_node_ioctl :: "fs_node \<Rightarrow> u64 \<Rightarrow> u64 \<Rightarrow> int sysret" where
  "fs_node_ioctl n cmd arg = Inl ENOSYS"

text \<open>\<open>fs::read\<close> and \<open>fs::write\<close> on a handle, given the node's own methods.\<close>

definition fs_read ::
  "(nat \<Rightarrow> u64 \<Rightarrow> u64 \<Rightarrow> 'w \<Rightarrow> (u8 list sysret \<times> 'w) kres) \<Rightarrow> u64 \<Rightarrow> file_desc \<Rightarrow> 'w \<Rightarrow> (u8 list sysret \<times> file_desc \<times> 'w) kres" where
  "fs_read rd len h w =
     (case fd_node h of None \<Rightarrow> Inl Assert_failed
      | Some n \<Rightarrow> kbind (rd n (fd_pos h) len w) (\<lambda>(r, w).
          case r of Inl e \<Rightarrow> Inr (Inl e, h, w)
          | Inr bs \<Rightarrow> Inr (Inr bs, h\<lparr>fd_pos := fd_pos h + of_nat (length bs)\<rparr>, w)))"

definition fs_write ::
  "(nat \<Rightarrow> u64 \<Rightarrow> u8 list \<Rightarrow> 'w \<Rightarrow> (u64 sysret \<times> 'w) kres) \<Rightarrow> u8 list \<Rightarrow> file_desc \<Rightarrow> 'w \<Rightarrow> (u64 sysret \<times> file_desc \<times> 'w) kres" where
  "fs_write wr bytes h w =
     (case fd_node h of None \<Rightarrow> Inl Assert_failed
      | Some n \<Rightarrow> kbind (wr n (fd_pos h) bytes w) (\<lambda>(r, w).
          case r of Inl e \<Rightarrow> Inr (Inl e, h, w) | Inr k \<Rightarrow> Inr (Inr k, h\<lparr>fd_pos := fd_pos h + k\<rparr>, w)))"

subsection \<open>Directory entries\<close>

definition file_to_dirent_flags :: "u32 \<Rightarrow> u32 kres" where
  "file_to_dirent_flags flags =
     (let t = flags AND FS_NODE_TYPE in
      if t = FS_NODE_FILE then Inr 8
      else if t = FS_NODE_DIRECTORY then Inr 4
      else if t = FS_NODE_CHARDEVICE then Inr 2
      else if t = FS_NODE_BLKDEVICE then Inr 6
      else if t = FS_NODE_SOCKET then Inr 12
      else if t = FS_NODE_SYMLINK then Inr 10
      else Inl Assert_failed)"

subsection \<open>Volumes and the root directory\<close>

record 'n volume =
  vol_name :: name
  vol_node :: 'n
  vol_id :: int

record 'n volumes =
  vols :: "'n volume list"
  next_vid :: int

definition register_volume :: "'n volume \<Rightarrow> bool \<Rightarrow> 'n volumes \<Rightarrow> 'n volumes" where
  "register_volume v add_root s =
     (if add_root then s\<lparr>vols := vols s @ [v\<lparr>vol_id := next_vid s\<rparr>], next_vid := next_vid s + 1\<rparr>
      else s\<lparr>vols := vols s @ [v]\<rparr>)"

definition has_system_volume :: "'n volumes \<Rightarrow> bool" where
  "has_system_volume s = list_ex (\<lambda>v. strn_eq 7 [115, 121, 115, 116, 101, 109] (vol_name v)) (vols s)"

definition root_read_dir :: "'n volumes \<Rightarrow> nat \<Rightarrow> (name \<times> 'n) option" where
  "root_read_dir s index = (if index < length (vols s) then Some (vol_name (vols s ! index), vol_node (vols s ! index)) else None)"

fun find_volume :: "name \<Rightarrow> 'n volume list \<Rightarrow> 'n option" where
  "find_volume nm [] = None"
| "find_volume nm (v # vs) = (if str_eq nm (vol_name v) then Some (vol_node v) else find_volume nm vs)"

definition root_find_dir :: "'n \<Rightarrow> 'n volumes \<Rightarrow> name \<Rightarrow> 'n option" where
  "root_find_dir this s nm = (if str_eq [46] nm \<or> str_eq [46, 46] nm then Some this else find_volume nm (vols s))"

subsection \<open>Paths\<close>

text \<open>One call of \<open>strtok_r\<close> with the delimiter \<open>/\<close>: the token and the text that is saved.\<close>

definition next_token :: "name \<Rightarrow> (name \<times> name) option" where
  "next_token path =
     (let rest = dropWhile (\<lambda>c. c = 47) path; tok = takeWhile (\<lambda>c. c \<noteq> 47) rest
      in if tok = [] then None else Some (tok, drop (length tok + 1) rest))"

record 'n tree =
  find_dir :: "'n \<Rightarrow> name \<Rightarrow> 'n option"
  node_flags :: "'n \<Rightarrow> u32"
  read_link :: "'n \<Rightarrow> name sysret"

text \<open>The loops that replace a node by what its link denotes, at most \<open>SYMLINK_MAX + 1\<close> times.\<close>

function chase :: "'n tree \<Rightarrow> ('n \<Rightarrow> 'n \<Rightarrow> 'n option option) \<Rightarrow> bool \<Rightarrow> nat \<Rightarrow> 'n \<Rightarrow> 'n \<Rightarrow> (nat \<times> 'n) option option" where
  "chase T follow go symlink_count node cur =
     (if go \<and> is_symlink (node_flags T node)
      then if symlink_count > SYMLINK_MAX then Some None
           else (case follow node cur of None \<Rightarrow> None | Some None \<Rightarrow> Some None
                 | Some (Some n) \<Rightarrow> chase T follow go (symlink_count + 1) n cur)
      else Some (Some (symlink_count, node)))"
  by pat_completeness auto
termination by (relation "measure (\<lambda>(T, follow, go, c, node, cur). 12 - c)") (auto simp: SYMLINK_MAX_def)

declare chase.simps [simp del]

lemma next_token_shorter: "next_token path = Some (tok, rest) \<Longrightarrow> length rest < length path"
proof -
  assume "next_token path = Some (tok, rest)"
  then have "tok \<noteq> []" "length rest = length (dropWhile (\<lambda>c. c = 47) path) - (length tok + 1)"
    "tok = takeWhile (\<lambda>c. c \<noteq> 47) (dropWhile (\<lambda>c. c = 47) path)"
    by (auto simp: next_token_def Let_def split: if_splits)
  moreover have "length tok \<le> length (dropWhile (\<lambda>c. c = 47) path)" using calculation(3) by (simp add: length_takeWhile_le)
  moreover have "length (dropWhile (\<lambda>c. c = 47) path) \<le> length path" by (rule length_dropWhile_le)
  ultimately show ?thesis using length_greater_0_conv [of tok] by linarith
qed

text \<open>The main loop of \<open>resolve_path\<close>, with the recursive call through \<open>follow_link\<close> as a function.\<close>

function resolve_loop :: "'n tree \<Rightarrow> ('n \<Rightarrow> 'n \<Rightarrow> 'n option option) \<Rightarrow> bool \<Rightarrow> name \<Rightarrow> 'n \<Rightarrow> 'n option option" where
  "resolve_loop T follow follow_symlinks path current_node =
     (case next_token path of None \<Rightarrow> Some (Some current_node)
      | Some (file, saved) \<Rightarrow>
          (case find_dir T current_node file of None \<Rightarrow> Some None
           | Some node \<Rightarrow>
               (case chase T follow True 0 node current_node of None \<Rightarrow> None | Some None \<Rightarrow> Some None
                | Some (Some (count1, node)) \<Rightarrow>
                    if is_dir (node_flags T node) then resolve_loop T follow follow_symlinks saved node
                    else if next_token saved \<noteq> None then Some None
                    else map_option (map_option snd) (chase T follow follow_symlinks count1 node current_node))))"
  by pat_completeness auto
termination by (relation "measure (\<lambda>(T, follow, fl, path, cur). length path)") (auto dest: next_token_shorter)

declare resolve_loop.simps [simp del]

definition follow_link :: "'n tree \<Rightarrow> (bool \<Rightarrow> name \<Rightarrow> 'n \<Rightarrow> 'n option option) \<Rightarrow> 'n \<Rightarrow> 'n \<Rightarrow> 'n option option" where
  "follow_link T resolve link working_dir =
     (case read_link T link of Inl e \<Rightarrow> Some None | Inr target \<Rightarrow> resolve False target working_dir)"

text \<open>\<open>resolve_path\<close> on a node, with the depth of the calls.\<close>

primrec resolve_path :: "nat \<Rightarrow> 'n tree \<Rightarrow> bool \<Rightarrow> name \<Rightarrow> 'n \<Rightarrow> 'n option option" where
  "resolve_path 0 T follow_symlinks path working_dir = None"
| "resolve_path (Suc depth) T follow_symlinks path working_dir =
     resolve_loop T (follow_link T (resolve_path depth T)) follow_symlinks path working_dir"

text \<open>
  \<open>resolve_path\<close> on strings.  The buffer for a relative path gets no final zero: \<open>junk\<close> is what its last byte holds,
  and unless that happens to be zero the tokenizer runs past the buffer.
\<close>

definition resolve_path_from ::
  "nat \<Rightarrow> 'n tree \<Rightarrow> 'n \<Rightarrow> u8 \<Rightarrow> bool \<Rightarrow> name \<Rightarrow> name option \<Rightarrow> 'n option option kres" where
  "resolve_path_from depth T root junk follow_symlinks path working_dir =
     (case working_dir of None \<Rightarrow> Inr (resolve_path depth T follow_symlinks path root)
      | Some wd \<Rightarrow>
          if path \<noteq> [] \<and> hd path = 47 then Inr (resolve_path depth T follow_symlinks path root)
          else if junk \<noteq> 0 then Inl Out_of_bounds
          else Inr (resolve_path depth T follow_symlinks (take PATH_MAX wd @ [47] @ take PATH_MAX path) root))"

section \<open>Tokens\<close>

text \<open>\<open>next_token\<close> is what \<open>strtok_r\<close> of the kernel's string library computes on memory.\<close>

lemma strtok_r_next_token:
  assumes del: "cstr m del [47]" "0 < del" and s: "cstr m s path" "0 < s"
  shows "case next_token path of
      None \<Rightarrow> strtok_r m s del saved = Some (m, 0, 0)
    | Some (tok, rest) \<Rightarrow> \<exists>m' p save. strtok_r m s del saved = Some (m', save, p) \<and> cstr m' p tok
        \<and> (if save = 0 then rest = [] else cstr m' save rest)"
proof -
  define r where "r = dropWhile (\<lambda>c. c \<in> set [47]) path"
  define t where "t = takeWhile (\<lambda>c. c \<notin> set [47]) r"
  have n: "next_token path = (if t = [] then None else Some (t, drop (length t + 1) r))"
    by (simp add: next_token_def r_def t_def Let_def)
  have "case drop (length t) r of
      [] \<Rightarrow> strtok_r m s del saved = Some (m, 0, if t = [] then 0 else s + (length path - length r)) \<and> cstr m (s + (length path - length r)) t
    | c # after \<Rightarrow> \<exists>m'. strtok_r m s del saved = Some (m', s + (length path - length r) + length t + 1, s + (length path - length r)) \<and> t \<noteq> []
        \<and> cstr m' (s + (length path - length r)) t \<and> cstr m' (s + (length path - length r) + length t + 1) after
        \<and> (\<forall>a. a \<noteq> s + (length path - length r) + length t \<longrightarrow> m' a = m a)"
    using strtok_r_spec [OF del s] by (simp only: r_def t_def)
  then show ?thesis
  proof (cases "drop (length t) r")
    case Nil
    then have "drop (length t + 1) r = []" by simp
    moreover have "strtok_r m s del saved = Some (m, 0, if t = [] then 0 else s + (length path - length r))"
      "cstr m (s + (length path - length r)) t" using \<open>case drop (length t) r of [] \<Rightarrow> _ | _ # _ \<Rightarrow> _\<close> Nil by simp_all
    ultimately show ?thesis using n by simp
  next
    case (Cons c after)
    then have "drop (length t + 1) r = after" by (metis add.commute drop_drop drop0 drop_Suc_Cons plus_1_eq_Suc)
    moreover have "t \<noteq> []" "\<exists>m'. strtok_r m s del saved = Some (m', s + (length path - length r) + length t + 1, s + (length path - length r))
        \<and> cstr m' (s + (length path - length r)) t \<and> cstr m' (s + (length path - length r) + length t + 1) after"
      using \<open>case drop (length t) r of [] \<Rightarrow> _ | _ # _ \<Rightarrow> _\<close> Cons by auto
    ultimately show ?thesis using n by auto
  qed
qed

text \<open>The components of a path.\<close>

function tokens :: "name \<Rightarrow> name list" where
  "tokens path = (case next_token path of None \<Rightarrow> [] | Some (tok, rest) \<Rightarrow> tok # tokens rest)"
  by pat_completeness auto
termination by (relation "measure length") (auto dest: next_token_shorter)

declare tokens.simps [simp del]

lemma next_token_slash: "next_token (47 # path) = next_token path"
  by (simp add: next_token_def)

lemma tokens_slash [simp]: "tokens (47 # path) = tokens path"
  by (subst (1 2) tokens.simps) (simp add: next_token_slash)

lemma tokens_Nil [simp]: "tokens [] = []"
  by (subst tokens.simps) (simp add: next_token_def)

lemma next_token_name:
  assumes "nm \<noteq> []" "47 \<notin> set nm"
  shows "next_token (nm @ 47 # rest) = Some (nm, rest)" "next_token nm = Some (nm, [])"
proof -
  obtain c cs where n: "nm = c # cs" "c \<noteq> 47" using assms by (cases nm) auto
  have "takeWhile (\<lambda>c. c \<noteq> 47) (nm @ 47 # rest) = nm @ takeWhile (\<lambda>c. c \<noteq> 47) (47 # rest)"
    using assms(2) by (intro takeWhile_append2) auto
  then have tw: "takeWhile (\<lambda>c. c \<noteq> 47) (nm @ 47 # rest) = nm" by simp
  have tw': "takeWhile (\<lambda>c. c \<noteq> 47) nm = nm" using assms(2) by (subst takeWhile_eq_all_conv) auto
  have dw: "dropWhile (\<lambda>c. c = 47) (nm @ 47 # rest) = nm @ 47 # rest" "dropWhile (\<lambda>c. c = 47) nm = nm" using n by simp_all
  show "next_token (nm @ 47 # rest) = Some (nm, rest)" "next_token nm = Some (nm, [])"
    unfolding next_token_def Let_def dw tw tw' using assms(1) by simp_all
qed

lemma tokens_name:
  assumes "nm \<noteq> []" "47 \<notin> set nm"
  shows "tokens (nm @ 47 # rest) = nm # tokens rest" "tokens nm = [nm]"
  using next_token_name [OF assms] by (subst tokens.simps, simp)+

section \<open>Resolution\<close>

text \<open>
  What a path denotes, without any bound: \<open>denotes T ts dir n\<close> for the components \<open>ts\<close> read in the directory \<open>dir\<close>,
  and \<open>target T node dir n\<close> for what a node stands for when it was found in \<open>dir\<close>.
\<close>

inductive denotes :: "'n tree \<Rightarrow> name list \<Rightarrow> 'n \<Rightarrow> 'n \<Rightarrow> bool"
  and target :: "'n tree \<Rightarrow> 'n \<Rightarrow> 'n \<Rightarrow> 'n \<Rightarrow> bool"
  for T :: "'n tree" where
  den_here: "denotes T [] dir dir"
| den_dir: "find_dir T dir t = Some m \<Longrightarrow> target T m dir m' \<Longrightarrow> is_dir (node_flags T m') \<Longrightarrow> denotes T ts m' n
    \<Longrightarrow> denotes T (t # ts) dir n"
| den_leaf: "find_dir T dir t = Some m \<Longrightarrow> target T m dir m' \<Longrightarrow> \<not> is_dir (node_flags T m') \<Longrightarrow> denotes T [t] dir m'"
| tar_plain: "\<not> is_symlink (node_flags T m) \<Longrightarrow> target T m dir m"
| tar_link: "is_symlink (node_flags T m) \<Longrightarrow> read_link T m = Inr p \<Longrightarrow> denotes T (tokens p) dir m'
    \<Longrightarrow> \<not> is_symlink (node_flags T m') \<Longrightarrow> target T m dir m'"

lemma dir_not_symlink: "is_dir flags \<Longrightarrow> \<not> is_symlink flags"
  by (simp add: is_dir_def is_symlink_def node_type_defs)

text \<open>The loop over the list of components.\<close>

fun resolve_tokens :: "'n tree \<Rightarrow> ('n \<Rightarrow> 'n \<Rightarrow> 'n option option) \<Rightarrow> name list \<Rightarrow> 'n \<Rightarrow> 'n option option" where
  "resolve_tokens T follow [] cur = Some (Some cur)"
| "resolve_tokens T follow (t # ts) cur =
     (case find_dir T cur t of None \<Rightarrow> Some None
      | Some node \<Rightarrow>
          (case chase T follow True 0 node cur of None \<Rightarrow> None | Some None \<Rightarrow> Some None
           | Some (Some (_, m)) \<Rightarrow>
               if is_dir (node_flags T m) then resolve_tokens T follow ts m
               else if ts \<noteq> [] then Some None else Some (Some m)))"

lemma chase_plain: "\<not> is_symlink (node_flags T node) \<Longrightarrow> chase T follow go c node cur = Some (Some (c, node))"
  by (subst chase.simps) simp

lemma chase_not_symlink: "chase T follow True c node cur = Some (Some (c', m)) \<Longrightarrow> \<not> is_symlink (node_flags T m)"
proof (induction T follow True c node cur rule: chase.induct)
  case (1 T follow c node cur)
  show ?case
  proof (cases "is_symlink (node_flags T node)")
    case True
    then obtain n where "follow node cur = Some (Some n)" "chase T follow True (c + 1) n cur = Some (Some (c', m))" "\<not> SYMLINK_MAX < c"
      using "1.prems" by (subst (asm) chase.simps) (auto split: if_splits option.splits)
    then show ?thesis using "1.hyps" True by simp
  qed (use "1.prems" in \<open>simp add: chase_plain\<close>)
qed

lemma tokens_Nil_iff: "tokens path = [] \<longleftrightarrow> next_token path = None"
  by (subst tokens.simps) (auto split: option.split)

lemma resolve_loop_tokens: "resolve_loop T follow fl path cur = resolve_tokens T follow (tokens path) cur"
proof (induction T follow fl path cur rule: resolve_loop.induct)
  case (1 T follow fl path cur)
  show ?case
  proof (cases "next_token path")
    case None
    then show ?thesis by (subst resolve_loop.simps, subst tokens.simps) simp
  next
    case (Some p)
    obtain tk saved where p: "next_token path = Some (tk, saved)" using Some by (cases p) auto
    have t: "tokens path = tk # tokens saved" using p by (subst tokens.simps) simp
    show ?thesis
    proof (cases "find_dir T cur tk")
      case None
      then show ?thesis using p t by (subst resolve_loop.simps) simp
    next
      case (Some node)
      show ?thesis
      proof (cases "\<exists>c m. chase T follow True 0 node cur = Some (Some (c, m))")
        case True
        then obtain c m where m: "chase T follow True 0 node cur = Some (Some (c, m))" by blast
        have "chase T follow fl c m cur = Some (Some (c, m))" using chase_plain chase_not_symlink [OF m] by metis
        then show ?thesis using p t Some m "1.IH" [OF p refl Some m refl refl] tokens_Nil_iff [of saved]
          by (subst resolve_loop.simps) (auto split: if_splits)
      next
        case False
        then show ?thesis using p t Some by (subst resolve_loop.simps) (auto split: option.split)
      qed
    qed
  qed
qed

lemma resolve_path_Suc:
  "resolve_path (Suc d) T fl path cur = resolve_tokens T (follow_link T (resolve_path d T)) (tokens path) cur"
  by (simp add: resolve_loop_tokens)

declare resolve_path.simps(2) [simp del]

subsection \<open>More depth changes no answer\<close>

definition below :: "('n \<Rightarrow> 'n \<Rightarrow> 'n option option) \<Rightarrow> ('n \<Rightarrow> 'n \<Rightarrow> 'n option option) \<Rightarrow> bool" where
  "below f g \<longleftrightarrow> (\<forall>a b r. f a b = Some r \<longrightarrow> g a b = Some r)"

lemma chase_below: "below f g \<Longrightarrow> chase T f go c node cur = Some r \<Longrightarrow> chase T g go c node cur = Some r"
proof (induction T f go c node cur rule: chase.induct)
  case (1 T f go c node cur)
  show ?case
  proof (cases "go \<and> is_symlink (node_flags T node) \<and> \<not> SYMLINK_MAX < c")
    case True
    then obtain x where x: "f node cur = Some x" using "1.prems"(2) by (subst (asm) chase.simps) (auto split: option.splits)
    then have g: "g node cur = Some x" using "1.prems"(1) by (auto simp: below_def)
    show ?thesis
    proof (cases x)
      case None
      then show ?thesis using True x g "1.prems"(2) by (subst (asm) chase.simps, subst chase.simps) simp
    next
      case (Some n)
      have "chase T f go (c + 1) n cur = Some r" using True x Some "1.prems"(2) by (subst (asm) chase.simps) simp
      then have "chase T g go (c + 1) n cur = Some r" using "1.IH" [OF _ _ x Some "1.prems"(1)] True by blast
      then show ?thesis using True g Some by (subst chase.simps) simp
    qed
  next
    case False
    then show ?thesis using "1.prems"(2) by (subst (asm) chase.simps, subst chase.simps) auto
  qed
qed

lemma resolve_tokens_below: "below f g \<Longrightarrow> resolve_tokens T f ts cur = Some r \<Longrightarrow> resolve_tokens T g ts cur = Some r"
proof (induction ts arbitrary: cur)
  case (Cons t ts)
  show ?case
  proof (cases "find_dir T cur t")
    case (Some node)
    then obtain x where "chase T f True 0 node cur = Some x" using Cons.prems(2) by (auto split: option.splits)
    moreover from this have "chase T g True 0 node cur = Some x" by (rule chase_below [OF Cons.prems(1)])
    ultimately show ?thesis using Cons Some by (auto split: option.splits if_splits prod.splits)
  qed (use Cons in simp)
qed simp

lemma resolve_path_mono:
  assumes "resolve_path d T fl path cur = Some r" "d \<le> d'"
  shows "resolve_path d' T fl path cur = Some r"
proof -
  have step: "resolve_path (Suc e) T fl path cur = Some r" if "resolve_path e T fl path cur = Some r" for e fl path cur r
    using that
  proof (induction e arbitrary: fl path cur r)
    case (Suc e)
    have b: "below (follow_link T (resolve_path e T)) (follow_link T (resolve_path (Suc e) T))"
      using Suc.IH by (auto simp: below_def follow_link_def split: sum.splits)
    have "resolve_tokens T (follow_link T (resolve_path e T)) (tokens path) cur = Some r" using Suc.prems by (simp only: resolve_path_Suc)
    then have "resolve_tokens T (follow_link T (resolve_path (Suc e) T)) (tokens path) cur = Some r" by (rule resolve_tokens_below [OF b])
    then show ?case by (simp only: resolve_path_Suc)
  qed simp
  show ?thesis using assms(2,1) by (induction rule: dec_induct) (auto intro: step)
qed

subsection \<open>Soundness\<close>

lemma denotes_not_symlink:
  "denotes T ts dir n \<Longrightarrow> \<not> is_symlink (node_flags T dir) \<Longrightarrow> \<not> is_symlink (node_flags T n)"
  "target T m dir n \<Longrightarrow> \<not> is_symlink (node_flags T n)"
  by (induction rule: denotes_target.inducts) (auto dest: dir_not_symlink)

definition sound_follow :: "'n tree \<Rightarrow> ('n \<Rightarrow> 'n \<Rightarrow> 'n option option) \<Rightarrow> bool" where
  "sound_follow T follow \<longleftrightarrow> (\<forall>link dir n. \<not> is_symlink (node_flags T dir) \<longrightarrow> follow link dir = Some (Some n)
     \<longrightarrow> (\<exists>p. read_link T link = Inr p \<and> denotes T (tokens p) dir n))"

lemma chase_sound:
  assumes f: "sound_follow T follow" and c: "chase T follow True 0 node dir = Some (Some (k, m))" and d: "\<not> is_symlink (node_flags T dir)"
  shows "target T node dir m"
proof (cases "is_symlink (node_flags T node)")
  case True
  then obtain n where n: "follow node dir = Some (Some n)" "chase T follow True 1 n dir = Some (Some (k, m))"
    using c by (subst (asm) chase.simps) (auto split: option.splits if_splits)
  obtain p where p: "read_link T node = Inr p" "denotes T (tokens p) dir n" using f n(1) d unfolding sound_follow_def by metis
  have ns: "\<not> is_symlink (node_flags T n)" by (rule denotes_not_symlink(1) [OF p(2) d])
  then have "m = n" using n(2) by (simp add: chase_plain)
  then show ?thesis using tar_link True p ns by metis
next
  case False
  then show ?thesis using c by (auto simp: chase_plain intro: tar_plain)
qed

lemma resolve_tokens_sound:
  assumes f: "sound_follow T follow"
  shows "resolve_tokens T follow ts dir = Some (Some n) \<Longrightarrow> \<not> is_symlink (node_flags T dir) \<Longrightarrow> denotes T ts dir n"
proof (induction ts arbitrary: dir)
  case Nil
  then show ?case by (simp add: den_here)
next
  case (Cons t ts)
  then obtain node k m where m: "find_dir T dir t = Some node" "chase T follow True 0 node dir = Some (Some (k, m))"
    by (auto split: option.splits)
  have tg: "target T node dir m" using chase_sound [OF f m(2) Cons.prems(2)] .
  show ?case
  proof (cases "is_dir (node_flags T m)")
    case True
    then have "denotes T ts m n" using Cons m dir_not_symlink by simp
    then show ?thesis using den_dir m(1) tg True by metis
  next
    case False
    then have "ts = []" "n = m" using Cons.prems m by (auto split: if_splits)
    then show ?thesis using den_leaf m(1) tg False by metis
  qed
qed

lemma resolve_path_sound:
  "resolve_path d T fl path dir = Some (Some n) \<Longrightarrow> \<not> is_symlink (node_flags T dir) \<Longrightarrow> denotes T (tokens path) dir n"
proof (induction d arbitrary: fl path dir n)
  case (Suc d)
  have "sound_follow T (follow_link T (resolve_path d T))"
    using Suc.IH by (auto simp: sound_follow_def follow_link_def split: sum.splits)
  then show ?case using resolve_tokens_sound Suc.prems unfolding resolve_path_Suc by metis
qed simp

subsection \<open>Completeness\<close>

definition follow_at :: "nat \<Rightarrow> 'n tree \<Rightarrow> 'n \<Rightarrow> 'n \<Rightarrow> 'n option option" where
  "follow_at d T = follow_link T (resolve_path d T)"

lemma follow_at_mono: "d \<le> d' \<Longrightarrow> below (follow_at d T) (follow_at d' T)"
  using resolve_path_mono by (fastforce simp: below_def follow_at_def follow_link_def split: sum.splits)

lemma chase_at_mono: "chase T (follow_at d T) go c node cur = Some r \<Longrightarrow> d \<le> d' \<Longrightarrow> chase T (follow_at d' T) go c node cur = Some r"
  using chase_below follow_at_mono by metis

lemma denotes_complete:
  "denotes T ts dir n \<Longrightarrow> \<not> is_symlink (node_flags T dir) \<longrightarrow> (\<exists>d. resolve_tokens T (follow_at d T) ts dir = Some (Some n))"
  "target T m dir n \<Longrightarrow> \<not> is_symlink (node_flags T dir) \<longrightarrow> (\<exists>d k. chase T (follow_at d T) True 0 m dir = Some (Some (k, n)))"
proof (induction rule: denotes_target.inducts)
  case (den_dir dir t m m' ts n)
  show ?case
  proof
    assume "\<not> is_symlink (node_flags T dir)"
    then obtain d1 k where d1: "chase T (follow_at d1 T) True 0 m dir = Some (Some (k, m'))" using den_dir by blast
    obtain d2 where d2: "resolve_tokens T (follow_at d2 T) ts m' = Some (Some n)" using den_dir dir_not_symlink by blast
    have "chase T (follow_at (max d1 d2) T) True 0 m dir = Some (Some (k, m'))" using chase_at_mono [OF d1] by simp
    moreover have "resolve_tokens T (follow_at (max d1 d2) T) ts m' = Some (Some n)"
      using resolve_tokens_below [OF follow_at_mono d2] by simp
    ultimately show "\<exists>d. resolve_tokens T (follow_at d T) (t # ts) dir = Some (Some n)"
      using den_dir by (intro exI [of _ "max d1 d2"]) simp
  qed
next
  case (den_leaf dir t m m')
  show ?case
  proof
    assume "\<not> is_symlink (node_flags T dir)"
    then obtain d k where "chase T (follow_at d T) True 0 m dir = Some (Some (k, m'))" using den_leaf by blast
    then show "\<exists>d. resolve_tokens T (follow_at d T) [t] dir = Some (Some m')"
      using den_leaf by (intro exI [of _ d]) simp
  qed
next
  case (tar_link m p dir m')
  show ?case
  proof
    assume "\<not> is_symlink (node_flags T dir)"
    then obtain d where "resolve_tokens T (follow_at d T) (tokens p) dir = Some (Some m')" using tar_link by blast
    then have "follow_at (Suc d) T m dir = Some (Some m')"
      using tar_link by (simp add: follow_at_def follow_link_def resolve_path_Suc)
    then have "chase T (follow_at (Suc d) T) True 0 m dir = Some (Some (1, m'))"
      using tar_link by (subst chase.simps) (simp add: chase_plain)
    then show "\<exists>d k. chase T (follow_at d T) True 0 m dir = Some (Some (k, m'))" by blast
  qed
qed (auto simp: chase_plain)

text \<open>
  C4. Path resolution is right: from a directory \<open>dir\<close> it returns the node \<open>n\<close>, with enough depth for the symbolic links
  on the way, exactly when the components of the path lead to \<open>n\<close>; and then \<open>n\<close> is not a symbolic link, so the
  argument \<open>follow_symlinks\<close> makes no difference.
\<close>

theorem resolve_path_correct:
  assumes d: "is_dir (node_flags T dir)"
  shows "((\<exists>depth. resolve_path depth T follow_symlinks path dir = Some (Some n)) \<longleftrightarrow> denotes T (tokens path) dir n)
    \<and> (denotes T (tokens path) dir n \<longrightarrow> \<not> is_symlink (node_flags T n))
    \<and> resolve_path depth T follow_symlinks path dir = resolve_path depth T (\<not> follow_symlinks) path dir"
proof -
  have ns: "\<not> is_symlink (node_flags T dir)" using d dir_not_symlink by simp
  have "\<exists>depth. resolve_path depth T follow_symlinks path dir = Some (Some n)" if den: "denotes T (tokens path) dir n"
  proof -
    obtain e where "resolve_tokens T (follow_at e T) (tokens path) dir = Some (Some n)" using denotes_complete(1) [OF den] ns by blast
    then have "resolve_path (Suc e) T follow_symlinks path dir = Some (Some n)" by (simp add: resolve_path_Suc follow_at_def)
    then show ?thesis by blast
  qed
  moreover have "resolve_path depth T follow_symlinks path dir = resolve_path depth T (\<not> follow_symlinks) path dir"
    by (cases depth) (simp_all add: resolve_path_Suc)
  ultimately show ?thesis using resolve_path_sound ns denotes_not_symlink(1) by metis
qed

text \<open>
  C32. A symbolic link whose text begins with its own name is never resolved nor refused: each round enters \<open>resolve_path\<close>
  again with a fresh count of links, so no depth of calls is enough and the limit \<open>SYMLINK_MAX\<close> is never reached.
\<close>

theorem symlink_loop_exhausts_stack:
  assumes "find_dir T dir t = Some m" "is_symlink (node_flags T m)" "read_link T m = Inr p" "tokens p = t # ts"
    "tokens path = t # us"
  shows "resolve_path depth T follow_symlinks path dir = None"
  using assms(5)
proof (induction depth arbitrary: path us follow_symlinks)
  case (Suc depth)
  have "follow_link T (resolve_path depth T) m dir = None" using Suc.IH [OF assms(4)] assms(3) by (simp add: follow_link_def)
  then have "chase T (follow_link T (resolve_path depth T)) True 0 m dir = None" using assms(2) by (subst chase.simps) simp
  then show ?case using assms(1) Suc.prems by (simp add: resolve_path_Suc)
qed simp

section \<open>Directories\<close>

text \<open>
  What the resolution of paths needs of a kind of directory: for names that are not special, \<open>find_dir\<close> looks the name
  up in the list of entries, the first one counting.
\<close>

locale directory =
  fixes find_in :: "'d \<Rightarrow> name \<Rightarrow> 'n option" and entries :: "'d \<Rightarrow> (name \<times> 'n) list" and plain :: "name \<Rightarrow> bool"
  assumes find_entry: "plain nm \<Longrightarrow> find_in d nm = map_of (entries d) nm"
begin

lemma find_listed:
  assumes "distinct (map fst (entries d))" "(nm, n) \<in> set (entries d)" "plain nm"
  shows "find_in d nm = Some n"
  using assms by (simp add: find_entry)

lemma find_none_iff: "plain nm \<Longrightarrow> find_in d nm = None \<longleftrightarrow> nm \<notin> fst ` set (entries d)"
  by (simp add: find_entry map_of_eq_None_iff)

lemma find_sound: "plain nm \<Longrightarrow> find_in d nm = Some n \<Longrightarrow> (nm, n) \<in> set (entries d)"
  by (simp add: find_entry map_of_SomeD)

text \<open>Resolving the name of an entry, alone or at the front of a longer path.\<close>

lemma resolve_entry:
  assumes "find_dir T dir = find_in d" "find_in d nm = Some n" "\<not> is_symlink (node_flags T n)" "nm \<noteq> []" "47 \<notin> set nm"
  shows "resolve_path (Suc k) T fl nm dir = Some (Some n)"
    and "is_dir (node_flags T n) \<Longrightarrow> resolve_path (Suc k) T fl (nm @ 47 # rest) dir = resolve_path (Suc k) T fl rest n"
  using assms by (simp_all add: resolve_path_Suc tokens_name chase_plain)

lemma resolve_missing:
  assumes "find_dir T dir = find_in d" "plain nm" "nm \<notin> fst ` set (entries d)" "nm \<noteq> []" "47 \<notin> set nm"
  shows "resolve_path (Suc k) T fl (nm @ 47 # rest) dir = Some None"
  using assms find_none_iff [of nm d] by (simp add: resolve_path_Suc tokens_name)

end

lemma str_eq_iff [simp]: "str_eq a b \<longleftrightarrow> a = b"
  by (simp add: str_eq_def compare_bytes_0_iff)

lemma strn_eq_iff [simp]: "strn_eq n a b \<longleftrightarrow> take n a = take n b"
  by (simp add: strn_eq_def compare_bytes_0_iff)

lemma find_volume_map_of: "find_volume nm vs = map_of (map (\<lambda>v. (vol_name v, vol_node v)) vs) nm"
  by (induction vs) auto

text \<open>The root directory: the state is the root node with the volumes.\<close>

definition root_entries :: "'n \<times> 'n volumes \<Rightarrow> (name \<times> 'n) list" where
  "root_entries = (\<lambda>(this, s). map (\<lambda>v. (vol_name v, vol_node v)) (vols s))"

interpretation root_dir: directory "\<lambda>(this, s). root_find_dir this s" root_entries "\<lambda>nm. nm \<noteq> [46] \<and> nm \<noteq> [46, 46]"
  by unfold_locales (auto simp: root_entries_def root_find_dir_def find_volume_map_of)

lemma root_read_dir_entries:
  "root_read_dir s i = (if i < length (root_entries (this, s)) then Some (root_entries (this, s) ! i) else None)"
  by (simp add: root_read_dir_def root_entries_def)

text \<open>The volumes have different numbers, all below the next one.\<close>

definition ids_below :: "'n volumes \<Rightarrow> bool" where
  "ids_below s \<longleftrightarrow> distinct (map vol_id (vols s)) \<and> (\<forall>v\<in>set (vols s). vol_id v < next_vid s)"

text \<open>
  A registered volume is found below the root by its name, unless an earlier volume has the same one, gets a number no
  other volume has, and the volumes found before are still found.
\<close>

theorem register_volume_mounts:
  assumes i: "ids_below s" and n: "vol_name v \<noteq> [46]" "vol_name v \<noteq> [46, 46]" "vol_name v \<notin> vol_name ` set (vols s)"
  shows "ids_below (register_volume v True s)
    \<and> root_find_dir root (register_volume v True s) (vol_name v) = Some (vol_node v)
    \<and> (\<forall>nm. nm \<noteq> vol_name v \<longrightarrow> root_find_dir root (register_volume v True s) nm = root_find_dir root s nm)
    \<and> root_read_dir (register_volume v True s) (length (vols s)) = Some (vol_name v, vol_node v)"
proof -
  have "vol_name v \<notin> dom (map_of (map (\<lambda>v. (vol_name v, vol_node v)) (vols s)))"
    using n(3) by (auto simp: dom_map_of_conv_image_fst)
  then have "map_of (map (\<lambda>v. (vol_name v, vol_node v)) (vols s)) (vol_name v) = None" by auto
  then show ?thesis using i n
    by (auto simp: ids_below_def register_volume_def root_find_dir_def root_read_dir_def find_volume_map_of map_add_def
        split: option.split)
qed

section \<open>Nodes and handles\<close>

text \<open>Reading through a handle moves it by what was read, and an error leaves it where it was.\<close>

lemma fs_read_advances:
  assumes "fs_read rd len h w = Inr (r, h', w')"
  shows "fd_node h' = fd_node h \<and> fd_mode h' = fd_mode h
    \<and> fd_pos h' = (case r of Inl e \<Rightarrow> fd_pos h | Inr bs \<Rightarrow> fd_pos h + of_nat (length bs))"
proof -
  obtain n q v where "fd_node h = Some n" "rd n (fd_pos h) len w = Inr (q, v)" using assms by (auto simp: fs_read_def option_Inr_iff)
  then show ?thesis using assms by (cases q) (auto simp: fs_read_def)
qed

lemma open_close_handle: "fs_node_close (snd (fs_node_open this flags n)) = n"
  by (cases n) (simp add: fs_node_open_def fs_node_close_def)

section \<open>A small tree\<close>

text \<open>Root 0, volume 1 with a file 2, a link 3 to the file, and a link 4 to itself.\<close>

definition demo_tree :: "nat tree" where
  "demo_tree = \<lparr>find_dir = (\<lambda>n nm. if n = 0 \<and> nm = [118] then Some 1
       else if n = 1 \<and> nm = [102] then Some 2 else if n = 1 \<and> nm = [108] then Some 3 else if n = 1 \<and> nm = [120] then Some 4 else None),
     node_flags = (\<lambda>n. if n \<le> 1 then FS_NODE_DIRECTORY else if n = 2 then FS_NODE_FILE else FS_NODE_SYMLINK),
     read_link = (\<lambda>n. if n = 3 then Inr [102] else Inr [120])\<rparr>"

lemma tokens_demo: "tokens [118, 47, 108] = [[118], [108]]" "tokens [102] = [[102]]" "tokens [120] = [[120]]"
  using tokens_name(1) [of "[118]" "[108]"] tokens_name(2) [of "[108]"] tokens_name(2) [of "[102]"] tokens_name(2) [of "[120]"]
  by simp_all

lemma resolve_path_correct_witness:
  "is_dir (node_flags demo_tree 0) \<and> denotes demo_tree (tokens [118, 47, 108]) 0 2 \<and> \<not> is_symlink (node_flags demo_tree 2)"
proof -
  have d: "is_dir (node_flags demo_tree 0)" by (simp add: demo_tree_def is_dir_def node_type_defs)
  have "resolve_path (Suc (Suc 0)) demo_tree True [118, 47, 108] 0 = Some (Some 2)"
    by (simp add: resolve_path_Suc tokens_demo chase.simps follow_link_def demo_tree_def is_dir_def is_symlink_def
        node_type_defs SYMLINK_MAX_def)
  then show ?thesis using resolve_path_correct [OF d, of True "[118, 47, 108]" 2] d by blast
qed

lemma symlink_loop_exhausts_stack_witness:
  "find_dir demo_tree 1 [120] = Some 4 \<and> resolve_path 1000 demo_tree False [120] 1 = None"
proof -
  have f: "find_dir demo_tree 1 [120] = Some 4" "is_symlink (node_flags demo_tree 4)" "read_link demo_tree 4 = Inr [120]"
    by (simp_all add: demo_tree_def is_symlink_def node_type_defs)
  show ?thesis using symlink_loop_exhausts_stack [OF f tokens_demo(3) tokens_demo(3)] f by blast
qed

lemma register_volume_mounts_witness:
  "root_find_dir (0 :: nat) (register_volume \<lparr>vol_name = [100, 101, 118], vol_node = 7, vol_id = 0\<rparr> True \<lparr>vols = [], next_vid = 1\<rparr>)
     [100, 101, 118] = Some 7"
  using register_volume_mounts [of "\<lparr>vols = [], next_vid = 1\<rparr>" "\<lparr>vol_name = [100, 101, 118], vol_node = 7, vol_id = 0\<rparr>" "0 :: nat"]
  by (simp add: ids_below_def)

end
