(* ===== verification/Devices.thy ===== *)
theory Devices
  imports Filesystem
begin

text \<open>
  The registry of devices and the directory \<open>/dev\<close>, \<^verbatim>\<open>Kernel/src/device.cpp\<close> and \<^verbatim>\<open>Kernel/include/device.h\<close>.  Devices
  are objects with numbers; the two intrusive lists of the registry are lists of these numbers, in the order of
  registration.
\<close>

section \<open>Model\<close>

datatype device_type = Unknown | Devfs | Unix_pseudo | Unix_pseudo_terminal | Kernel_log | Storage | Legacy_hid

record device =
  instance_name :: name
  d_type :: device_type
  device_id :: int
  is_root_device :: bool

record registry =
  devs :: "nat \<Rightarrow> device option"
  next_devid :: int
  root_devices :: "nat list"
  root_device_count :: u64
  all_devices :: "nat list"
  device_count :: u64

definition set_device_id :: "int \<Rightarrow> device \<Rightarrow> device kres" where
  "set_device_id i d = (if device_id d = 0 \<and> i > 0 then Inr (d\<lparr>device_id := i\<rparr>) else Inl Assert_failed)"

definition register_device :: "nat \<Rightarrow> device \<Rightarrow> registry \<Rightarrow> registry kres" where
  "register_device this d s =
     kbind (set_device_id (next_devid s) d) (\<lambda>d.
     let s = s\<lparr>devs := (devs s)(this \<mapsto> d), next_devid := next_devid s + 1, all_devices := all_devices s @ [this],
               device_count := device_count s + 1\<rparr>
     in Inr (if is_root_device d then s\<lparr>root_devices := root_devices s @ [this], root_device_count := root_device_count s + 1\<rparr> else s))"

text \<open>The constructor; \<open>this\<close> is the new object.  A \<open>devfs\<close> is not registered.\<close>

definition new_device :: "nat \<Rightarrow> device_type \<Rightarrow> name option \<Rightarrow> nat option \<Rightarrow> registry \<Rightarrow> registry kres" where
  "new_device this type nm parent s =
     (let d = \<lparr>instance_name = [], d_type = type, device_id = 0, is_root_device = (parent = None)\<rparr> in
      if type = Devfs then Inr (s\<lparr>devs := (devs s)(this \<mapsto> d)\<rparr>)
      else register_device this
             (d\<lparr>instance_name := (case nm of None \<Rightarrow> [117, 110, 107, 110, 111, 119, 110] | Some n \<Rightarrow> n)\<rparr>) s)"

text \<open>
  \<open>unregister_device\<close> asks the list to erase a node that was just made on the stack and is on no list, and then deletes
  it; neither has a defined effect.
\<close>

definition unregister_device :: "nat \<Rightarrow> registry \<Rightarrow> registry kres" where
  "unregister_device this s = Inl Assert_failed"

subsection \<open>The null device\<close>

definition null_read :: "u64 \<Rightarrow> u64 \<Rightarrow> u8 list sysret" where
  "null_read offset len = Inr (replicate (unat len) (- 1))"

definition null_write :: "u64 \<Rightarrow> u8 list \<Rightarrow> u64 sysret" where
  "null_write offset bytes = Inr (of_nat (length bytes))"

subsection \<open>The directory\<close>

text \<open>The loop of \<open>read_dir\<close> for an index above 2: its counter never changes, so it runs off the list.\<close>

fun advance_item :: "nat list \<Rightarrow> nat kres" where
  "advance_item [] = Inl Null_deref"
| "advance_item (x # xs) = advance_item xs"

definition devfs_read_dir :: "registry \<Rightarrow> u32 \<Rightarrow> name option kres" where
  "devfs_read_dir s index =
     (if ucast index \<ge> root_device_count s + 2 then Inr None
      else if index = 0 then Inr (Some [46])
      else if index = 1 then Inr (Some [46, 46])
      else kbind (if 2 < index then advance_item (root_devices s)
                  else (case root_devices s of [] \<Rightarrow> Inl Null_deref | x # _ \<Rightarrow> Inr x))
             (\<lambda>x. case devs s x of None \<Rightarrow> Inl Use_after_free | Some d \<Rightarrow> Inr (Some (take NAME_MAX (instance_name d)))))"

text \<open>Both tests for the special names compare a single character; the result is \<open>Inl ()\<close> for the directory itself.\<close>

fun find_device :: "registry \<Rightarrow> name \<Rightarrow> nat list \<Rightarrow> nat option" where
  "find_device s nm [] = None"
| "find_device s nm (x # xs) =
     (case devs s x of None \<Rightarrow> None
      | Some d \<Rightarrow> if strn_eq NAME_MAX (instance_name d) nm then Some x else find_device s nm xs)"

definition devfs_find_dir :: "'n \<Rightarrow> 'n \<Rightarrow> (nat \<Rightarrow> 'n) \<Rightarrow> registry \<Rightarrow> name \<Rightarrow> 'n option" where
  "devfs_find_dir this root node s nm =
     (if strn_eq 1 nm [46] then Some this
      else if strn_eq 1 nm [46, 46] then Some root
      else map_option node (find_device s nm (all_devices s)))"

section \<open>Invariant\<close>

text \<open>Every listed device exists, no device is listed twice, the counters count, and the numbers are distinct.\<close>

definition registry_inv :: "registry \<Rightarrow> bool" where
  "registry_inv s \<longleftrightarrow> distinct (all_devices s) \<and> (\<forall>x\<in>set (all_devices s). devs s x \<noteq> None)
     \<and> root_devices s = filter (\<lambda>x. is_root_device (the (devs s x))) (all_devices s)
     \<and> device_count s = of_nat (length (all_devices s)) \<and> root_device_count s = of_nat (length (root_devices s))
     \<and> 0 < next_devid s \<and> (\<forall>x\<in>set (all_devices s). 0 < device_id (the (devs s x)) \<and> device_id (the (devs s x)) < next_devid s)
     \<and> inj_on (\<lambda>x. device_id (the (devs s x))) (set (all_devices s))"

definition devfs_entries :: "(nat \<Rightarrow> 'n) \<Rightarrow> registry \<Rightarrow> (name \<times> 'n) list" where
  "devfs_entries node s = map (\<lambda>x. (take NAME_MAX (instance_name (the (devs s x))), node x))
     (takeWhile (\<lambda>x. devs s x \<noteq> None) (all_devices s))"

lemma find_device_map_of:
  assumes "length nm \<le> NAME_MAX"
  shows "map_option node (find_device s nm xs) = map_of (map (\<lambda>x. (take NAME_MAX (instance_name (the (devs s x))), node x))
     (takeWhile (\<lambda>x. devs s x \<noteq> None) xs)) nm"
  using assms by (induction xs) (auto split: option.split)

definition devfs_plain :: "name \<Rightarrow> bool" where
  "devfs_plain nm \<longleftrightarrow> take 1 nm \<noteq> [46] \<and> length nm \<le> NAME_MAX"

lemma devfs_find_plain:
  "devfs_plain nm \<Longrightarrow> devfs_find_dir this root node s nm = map_option node (find_device s nm (all_devices s))"
  by (simp add: devfs_find_dir_def devfs_plain_def)

interpretation dev_dir: directory "\<lambda>(this, root, node, s). devfs_find_dir this root node s"
  "\<lambda>(this, root, node, s). devfs_entries node s" devfs_plain
proof
  fix nm :: name and d :: "'a \<times> 'a \<times> (nat \<Rightarrow> 'a) \<times> registry"
  assume p: "devfs_plain nm"
  obtain this root node s where d: "d = (this, root, node, s)" by (cases d) auto
  have "length nm \<le> NAME_MAX" using p by (simp add: devfs_plain_def)
  then show "(case d of (this, root, node, s) \<Rightarrow> devfs_find_dir this root node s) nm
    = map_of (case d of (this, root, node, s) \<Rightarrow> devfs_entries node s) nm"
    using devfs_find_plain [OF p, of this root node s] find_device_map_of [of nm node s "all_devices s"] by (simp add: d devfs_entries_def)
qed

section \<open>Registering\<close>

text \<open>Devices listed under the same name hide each other, so a new name is found.\<close>

lemma find_device_append:
  "\<forall>x\<in>set xs. \<exists>d. devs s x = Some d \<and> take NAME_MAX (instance_name d) \<noteq> take NAME_MAX nm \<Longrightarrow> find_device s nm (xs @ ys) = find_device s nm ys"
  by (induction xs) auto

lemma find_device_cong:
  "(\<And>x. x \<in> set xs \<Longrightarrow> devs s' x = devs s x) \<Longrightarrow> find_device s' nm xs = find_device s nm xs"
  by (induction xs) (auto split: option.split)

text \<open>
  C33. A new device with a new object and a name no other device has is registered with a number of its own: the registry
  stays consistent, the name is found in \<open>/dev\<close>, and the lookup of other names gives what it gave before.
\<close>

theorem new_device_registered:
  assumes inv: "registry_inv s" and t: "type \<noteq> Devfs" "this \<notin> set (all_devices s)" "devfs_plain nm"
    and n: "\<forall>x\<in>set (all_devices s). take NAME_MAX (instance_name (the (devs s x))) \<noteq> nm"
  shows "\<exists>s'. new_device this type (Some nm) par s = Inr s' \<and> registry_inv s'
    \<and> devfs_find_dir dir root node s' nm = Some (node this)
    \<and> (\<forall>nm'. take NAME_MAX nm' \<noteq> nm \<longrightarrow> devfs_find_dir dir root node s' nm' = devfs_find_dir dir root node s nm')"
proof -
  define d where "d = \<lparr>instance_name = nm, d_type = type, device_id = next_devid s, is_root_device = (par = None)\<rparr>"
  have ln: "take NAME_MAX nm = nm" using t(3) by (simp add: devfs_plain_def)
  have "0 < next_devid s" using inv by (simp add: registry_inv_def)
  then have "\<exists>s'. new_device this type (Some nm) par s = Inr s' \<and> devs s' = (devs s)(this \<mapsto> d)
    \<and> all_devices s' = all_devices s @ [this] \<and> next_devid s' = next_devid s + 1 \<and> device_count s' = device_count s + 1
    \<and> root_devices s' = (if par = None then root_devices s @ [this] else root_devices s)
    \<and> root_device_count s' = (if par = None then root_device_count s + 1 else root_device_count s)"
    using t(1) by (cases par) (simp_all add: new_device_def register_device_def set_device_id_def d_def Let_def)
  then obtain s' where s': "new_device this type (Some nm) par s = Inr s'" "devs s' = (devs s)(this \<mapsto> d)"
    "all_devices s' = all_devices s @ [this]" "next_devid s' = next_devid s + 1" "device_count s' = device_count s + 1"
    "root_devices s' = (if par = None then root_devices s @ [this] else root_devices s)"
    "root_device_count s' = (if par = None then root_device_count s + 1 else root_device_count s)" by blast
  have same: "\<And>x. x \<in> set (all_devices s) \<Longrightarrow> devs s' x = devs s x" using t(2) s'(2) by auto
  have "filter (\<lambda>x. is_root_device (the (devs s' x))) (all_devices s) = filter (\<lambda>x. is_root_device (the (devs s x))) (all_devices s)"
    using same by (intro filter_cong) auto
  moreover have "inj_on (\<lambda>x. device_id (the (devs s' x))) (set (all_devices s'))"
    using inv same s'(2,3) t(2) by (auto simp: registry_inv_def inj_on_def d_def)
  ultimately have "registry_inv s'" using inv same s' t(2)
    unfolding registry_inv_def by (auto simp: d_def)
  moreover have "find_device s' nm (all_devices s @ [this]) = Some this"
  proof -
    have "\<forall>x\<in>set (all_devices s). \<exists>d. devs s' x = Some d \<and> take NAME_MAX (instance_name d) \<noteq> take NAME_MAX nm"
    proof
      fix x assume x: "x \<in> set (all_devices s)"
      then obtain e where "devs s x = Some e" using inv by (auto simp: registry_inv_def)
      then show "\<exists>d. devs s' x = Some d \<and> take NAME_MAX (instance_name d) \<noteq> take NAME_MAX nm" using n same x ln by auto
    qed
    then show ?thesis using find_device_append [of "all_devices s" s' nm "[this]"] s'(2) by (simp add: d_def)
  qed
  moreover have "find_device s' nm' (all_devices s @ [this]) = find_device s nm' (all_devices s)" if "take NAME_MAX nm' \<noteq> nm" for nm'
  proof -
    have "find_device s' nm' (xs @ [this]) = find_device s' nm' xs" for xs
      using that s'(2) ln by (induction xs) (auto simp: d_def split: option.split)
    then show ?thesis using find_device_cong [OF same] by simp
  qed
  ultimately show ?thesis using s'(1,3) t(3) by (auto simp: devfs_find_dir_def devfs_plain_def)
qed

text \<open>
  Listing \<open>/dev\<close>: the first three indices work, but with two or more root devices the next index, and every further one
  inside the directory, makes the kernel dereference a null pointer.
\<close>

lemma advance_item_faults: "advance_item xs = Inl Null_deref"
  by (induction xs) auto

theorem devfs_listing_faults:
  assumes "registry_inv s" "2 < index" "unat index < length (root_devices s) + 2" "length (root_devices s) < 2 ^ 63"
  shows "devfs_read_dir s index = Inl Null_deref
    \<and> devfs_read_dir s 2 = Inr (Some (take NAME_MAX (instance_name (the (devs s (hd (root_devices s)))))))"
proof -
  have c: "unat (root_device_count s + 2) = length (root_devices s) + 2"
    using assms(1,4) by (simp add: registry_inv_def unat_plus_no_wrap unat_of_nat_small)
  then have lt: "\<not> ucast index \<ge> root_device_count s + 2" using assms(3) by (simp add: word_le_nat_alt)
  have bad: "devfs_read_dir s index = Inl Null_deref"
    using lt assms(2) by (auto simp: devfs_read_dir_def advance_item_faults)
  have "root_devices s \<noteq> []" using assms(2,3) by (auto simp: word_less_nat_alt)
  then obtain x xs where x: "root_devices s = x # xs" by (cases "root_devices s") auto
  moreover have "x \<in> set (all_devices s)"
  proof -
    have "set (root_devices s) \<subseteq> set (all_devices s)" using assms(1) by (auto simp: registry_inv_def)
    then show ?thesis using x by auto
  qed
  then have "devs s x \<noteq> None" using assms(1) by (simp add: registry_inv_def)
  moreover have "\<not> ucast (2 :: u32) \<ge> root_device_count s + 2" using c x by (simp add: word_le_nat_alt)
  ultimately show ?thesis using bad by (auto simp: devfs_read_dir_def)
qed

section \<open>A small registry\<close>

definition demo_registry :: registry where
  "demo_registry = \<lparr>devs = (\<lambda>_. None)(5 \<mapsto> \<lparr>instance_name = [110], d_type = Unix_pseudo, device_id = 1, is_root_device = True\<rparr>,
       6 \<mapsto> \<lparr>instance_name = [107], d_type = Kernel_log, device_id = 2, is_root_device = True\<rparr>),
     next_devid = 3, root_devices = [5, 6], root_device_count = 2, all_devices = [5, 6], device_count = 2\<rparr>"

lemma demo_registry_inv: "registry_inv demo_registry"
  by (simp add: registry_inv_def demo_registry_def)

lemma new_device_registered_witness:
  "\<exists>s'. new_device 7 Storage (Some [100]) None demo_registry = Inr s' \<and> registry_inv s'
    \<and> devfs_find_dir 0 (1 :: nat) (\<lambda>x. x) s' [100] = Some 7"
  using new_device_registered [OF demo_registry_inv, of Storage 7 "[100]" None 0 1 "\<lambda>x. x"]
  by (auto simp: demo_registry_def devfs_plain_def NAME_MAX_def)

lemma devfs_listing_faults_witness: "devfs_read_dir demo_registry 3 = Inl Null_deref"
  using devfs_listing_faults [OF demo_registry_inv, of 3] by (simp add: demo_registry_def)

end
