(* ===== verification/Tar.thy ===== *)
theory Tar
  imports Filesystem
begin

text \<open>
  The read-only volume on a tar archive in memory, \<^verbatim>\<open>Kernel/src/fs/tar.cpp\<close> and \<^verbatim>\<open>Kernel/include/fs/tar.h\<close>.  The
  archive is a list of bytes; block \<open>i\<close> starts at byte \<open>512 * i\<close> and its fields are read at the offsets of
  \<open>ustar_header_t\<close>.  \<open>strtok_r\<close> writes zeros into the names inside the archive, so the bytes are part of the state.
  Strings end at the first zero byte or at the end of the archive.
\<close>

section \<open>Model\<close>

definition BYTES_PER_BLOCK :: nat where "BYTES_PER_BLOCK = 512"

definition field :: "u8 list \<Rightarrow> nat \<Rightarrow> nat \<Rightarrow> nat \<Rightarrow> u8 list" where
  "field img block off len = take len (drop (BYTES_PER_BLOCK * block + off) img)"

definition cstring :: "u8 list \<Rightarrow> u8 list" where
  "cstring bs = takeWhile (\<lambda>c. c \<noteq> 0) bs"

definition header_name :: "u8 list \<Rightarrow> nat \<Rightarrow> name" where
  "header_name img block = cstring (drop (BYTES_PER_BLOCK * block) img)"

definition header_type :: "u8 list \<Rightarrow> nat \<Rightarrow> u8" where
  "header_type img block = (case field img block 156 1 of c # _ \<Rightarrow> c | [] \<Rightarrow> 0)"

fun oct_to_dec :: "u8 list \<Rightarrow> nat \<Rightarrow> nat" where
  "oct_to_dec [] n = n"
| "oct_to_dec (c # cs) n = (if c = 0 then n else oct_to_dec cs (8 * n + unat ((c - 48) AND 7)))"

definition header_size :: "u8 list \<Rightarrow> nat \<Rightarrow> nat" where
  "header_size img block = oct_to_dec (field img block 124 12) 0"

definition get_block_count :: "u8 list \<Rightarrow> nat \<Rightarrow> nat" where
  "get_block_count img block = (header_size img block + BYTES_PER_BLOCK - 1) div BYTES_PER_BLOCK"

definition tar_flags_to_fs :: "u8 \<Rightarrow> u32" where
  "tar_flags_to_fs type = (if type = 53 then FS_NODE_DIRECTORY else if type = 50 then FS_NODE_SYMLINK else FS_NODE_FILE)"

record tar_node =
  t_name :: name
  t_header :: "nat option"
  t_parent :: nat
  t_children :: "nat option list"
  t_flags :: u32
  t_size :: u64
  t_uid :: u32
  t_inode :: nat

record tar_volume =
  t_image :: "u8 list"
  t_block_count :: nat
  t_next_node :: nat
  t_nodes :: "tar_node list"

definition new_node :: tar_node where
  "new_node = \<lparr>t_name = [], t_header = None, t_parent = 0, t_children = [], t_flags = 0, t_size = 0, t_uid = 0, t_inode = 0\<rparr>"

definition put_node :: "nat \<Rightarrow> tar_node \<Rightarrow> tar_volume \<Rightarrow> tar_volume kres" where
  "put_node n x v = (if n < length (t_nodes v) then Inr (v\<lparr>t_nodes := (t_nodes v)[n := x]\<rparr>) else Inl Out_of_bounds)"

definition get_node :: "nat \<Rightarrow> tar_volume \<Rightarrow> tar_node kres" where
  "get_node n v = (if n < length (t_nodes v) then Inr (t_nodes v ! n) else Inl Out_of_bounds)"

text \<open>The writes of a run of \<open>strtok_r\<close> through a string: the slash that ends a token becomes zero.\<close>

fun cut_tokens :: "bool \<Rightarrow> u8 list \<Rightarrow> u8 list" where
  "cut_tokens in_token [] = []"
| "cut_tokens in_token (c # cs) =
     (if c = 0 then c # cs
      else if c = 47 then (if in_token then 0 else 47) # cut_tokens False cs
      else c # cut_tokens True cs)"

text \<open>The last component of the name, or the whole name if it has none.\<close>

definition base_name :: "name \<Rightarrow> name" where
  "base_name nm = (if tokens nm = [] then nm else last (tokens nm))"

definition make_node :: "nat \<Rightarrow> nat \<Rightarrow> nat \<Rightarrow> tar_volume \<Rightarrow> tar_volume kres" where
  "make_node block n par v =
     (let img = t_image v;
          img' = take (BYTES_PER_BLOCK * block) img @ cut_tokens False (drop (BYTES_PER_BLOCK * block) img) in
      kbind (get_node n v) (\<lambda>x.
      put_node n (x\<lparr>t_name := take 256 (base_name (header_name img block)), t_header := Some block, t_parent := par,
                    t_flags := tar_flags_to_fs (header_type img block), t_size := of_nat (header_size img block),
                    t_uid := of_nat (oct_to_dec (field img block 108 8) 0), t_inode := n\<rparr>)
        (v\<lparr>t_image := img'\<rparr>)))"

subsection \<open>Directories of the archive\<close>

text \<open>The loop that counts the entries of the directory whose header is block \<open>d\<close>.\<close>

function count_entries :: "u8 list \<Rightarrow> nat \<Rightarrow> nat \<Rightarrow> nat \<Rightarrow> nat \<Rightarrow> nat" where
  "count_entries img nblocks d i n =
     (if i < nblocks then
        if \<not> str_eq (header_name img i) (header_name img d) \<or> header_name img i = [] then n
        else if drop (BYTES_PER_BLOCK * i + min 100 (length (header_name img d))) img = []
             \<or> hd (drop (BYTES_PER_BLOCK * i + min 100 (length (header_name img d))) img) \<noteq> 47 then n
        else count_entries img nblocks d (i + get_block_count img i + 1) (n + 1)
      else n)"
  by pat_completeness auto
termination by (relation "measure (\<lambda>(img, nb, d, i, n). nb - i)") auto

declare count_entries.simps [simp del]

fun add_entries :: "nat \<Rightarrow> nat \<Rightarrow> nat \<Rightarrow> nat \<Rightarrow> tar_volume \<Rightarrow> (nat \<times> tar_volume) kres" where
  "add_entries dir 0 e i v = Inr (i, v)"
| "add_entries dir (Suc k) e i v =
     (if i < t_block_count v then
        let n = t_next_node v in
        kbind (make_node i n dir (v\<lparr>t_next_node := n + 1\<rparr>)) (\<lambda>v.
        kbind (get_node dir v) (\<lambda>x.
        kbind (put_node dir (x\<lparr>t_children := (t_children x)[e := Some n]\<rparr>) v) (\<lambda>v.
        add_entries dir k (e + 1) (i + get_block_count (t_image v) i + 1) v)))
      else Inr (i, v))"

definition read_directory :: "nat \<Rightarrow> nat \<Rightarrow> tar_volume \<Rightarrow> (nat \<times> tar_volume) kres" where
  "read_directory block par v =
     (let dir = t_next_node v in
      kbind (make_node block dir par (v\<lparr>t_next_node := dir + 1\<rparr>)) (\<lambda>v.
      let b = get_block_count (t_image v) block;
          n = count_entries (t_image v) (t_block_count v) block (block + b) 0 in
      kbind (get_node dir v) (\<lambda>x.
      kbind (put_node dir (x\<lparr>t_children := replicate n None\<rparr>) v) (\<lambda>v.
      add_entries dir n 0 (block + b + 1) v))))"

subsection \<open>Mounting\<close>

text \<open>The first pass of the constructor: the number of nodes, and of entries of the top directory.\<close>

definition top_entry :: "u8 list \<Rightarrow> nat \<Rightarrow> bool" where
  "top_entry img i =
     (let nm = header_name img i in
      47 \<notin> set nm \<or> header_type img i = 53 \<and> length (takeWhile (\<lambda>c. c \<noteq> 47) nm) + 1 = min 100 (length nm))"

function count_nodes :: "u8 list \<Rightarrow> nat \<Rightarrow> nat \<Rightarrow> nat \<times> nat \<Rightarrow> nat \<times> nat" where
  "count_nodes img nblocks i (nn, ne) =
     (if i < nblocks
      then count_nodes img nblocks (i + get_block_count img i + 1) (nn + 1, if top_entry img i then ne + 1 else ne)
      else (nn, ne))"
  by pat_completeness auto
termination by (relation "measure (\<lambda>(img, nb, i, p). nb - i)") auto

declare count_nodes.simps [simp del]

definition set_child :: "nat \<Rightarrow> nat \<Rightarrow> tar_volume \<Rightarrow> tar_volume kres" where
  "set_child e n v =
     kbind (get_node 0 v) (\<lambda>x.
     if e < length (t_children x) then put_node 0 (x\<lparr>t_children := (t_children x)[e := Some n]\<rparr>) v else Inl Out_of_bounds)"

text \<open>The second pass, with as many rounds as there are blocks; it returns the number of entries.\<close>

fun read_blocks :: "nat \<Rightarrow> nat \<Rightarrow> nat \<Rightarrow> tar_volume \<Rightarrow> (nat \<times> tar_volume) kres" where
  "read_blocks 0 i e v = Inr (e, v)"
| "read_blocks (Suc k) i e v =
     (if i < t_block_count v \<and> header_name (t_image v) i \<noteq> [] then
        let size_blocks = get_block_count (t_image v) i in
        if header_type (t_image v) i = 53 then
          kbind (set_child e (t_next_node v) v) (\<lambda>v.
          kbind (read_directory i 0 v) (\<lambda>(i, v). read_blocks k (i + size_blocks + 1) (e + 1) v))
        else if header_type (t_image v) i = 48 then
          let n = t_next_node v in
          kbind (make_node i n 0 (v\<lparr>t_next_node := n + 1\<rparr>)) (\<lambda>v.
          kbind (set_child e n v) (\<lambda>v. read_blocks k (i + size_blocks + 1) (e + 1) v))
        else read_blocks k (i + size_blocks + 1) (e + 1) v
      else Inr (e, v))"

text \<open>\<open>entry_count\<close> of the top directory is set last; only this many children are looked at.\<close>

definition mount_tar :: "u8 list \<Rightarrow> tar_volume kres" where
  "mount_tar img =
     (let nblocks = length img div BYTES_PER_BLOCK;
          (nn, ne) = count_nodes img nblocks 0 (1, 0);
          root = new_node\<lparr>t_flags := FS_NODE_DIRECTORY, t_size := of_nat (length img), t_children := replicate ne None\<rparr>;
          v = \<lparr>t_image = img, t_block_count = nblocks, t_next_node = 1, t_nodes = root # replicate (nn - 1) new_node\<rparr> in
      kbind (read_blocks nblocks 0 0 v) (\<lambda>(e, v).
      kbind (get_node 0 v) (\<lambda>x. put_node 0 (x\<lparr>t_children := take e (t_children x)\<rparr>) v)))"

subsection \<open>Access\<close>

text \<open>Nothing limits a read to the size of the file.\<close>

definition tar_read :: "tar_volume \<Rightarrow> nat \<Rightarrow> nat \<Rightarrow> nat \<Rightarrow> u8 list sysret kres" where
  "tar_read v n off len =
     kbind (get_node n v) (\<lambda>x.
     if is_dir (t_flags x) then Inr (Inl EISDIR)
     else if of_nat off > t_size x \<or> len = 0 then Inr (Inr [])
     else (case t_header x of None \<Rightarrow> Inl Null_deref
           | Some b \<Rightarrow>
               if BYTES_PER_BLOCK * b + BYTES_PER_BLOCK + off + len \<le> length (t_image v)
               then Inr (Inr (take len (drop (BYTES_PER_BLOCK * b + BYTES_PER_BLOCK + off) (t_image v))))
               else Inl Out_of_bounds))"

definition tar_write :: "tar_volume \<Rightarrow> nat \<Rightarrow> u8 list \<Rightarrow> u64 sysret kres" where
  "tar_write v n bytes = kbind (get_node n v) (\<lambda>x. Inr (Inl (if is_dir (t_flags x) then EISDIR else EROFS)))"

definition tar_read_dir :: "tar_volume \<Rightarrow> nat \<Rightarrow> nat \<Rightarrow> (name \<times> u32) option sysret kres" where
  "tar_read_dir v n index =
     kbind (get_node n v) (\<lambda>x.
     if \<not> is_dir (t_flags x) then Inr (Inl ENOTDIR)
     else if index \<ge> length (t_children x) + 2 then Inr (Inr None)
     else if index = 0 then Inr (Inr (Some ([46], 4)))
     else if index = 1 then Inr (Inr (Some ([46, 46], 4)))
     else (case t_children x ! (index - 2) of None \<Rightarrow> Inl Out_of_bounds
           | Some c \<Rightarrow> kbind (get_node c v) (\<lambda>y.
               Inr (Inr (Some (take NAME_MAX (t_name y),
                 (case file_to_dirent_flags (t_flags y) of Inr f \<Rightarrow> f | Inl _ \<Rightarrow> t_flags y)))))))"

text \<open>The result \<open>Inl ()\<close> is the root of the file system.\<close>

fun find_child :: "tar_volume \<Rightarrow> name \<Rightarrow> nat option list \<Rightarrow> nat option kres" where
  "find_child v nm [] = Inr None"
| "find_child v nm (c # cs) =
     (case c of None \<Rightarrow> Inl Out_of_bounds
      | Some k \<Rightarrow> kbind (get_node k v) (\<lambda>y. if strn_eq 256 (t_name y) nm then Inr (Some k) else find_child v nm cs))"

definition tar_find_dir :: "tar_volume \<Rightarrow> nat \<Rightarrow> name \<Rightarrow> (unit + nat) option kres" where
  "tar_find_dir v n nm =
     kbind (get_node n v) (\<lambda>x.
     if \<not> is_dir (t_flags x) then Inr None
     else if strn_eq 1 [46] nm then Inr (Some (Inr n))
     else if strn_eq 1 [46, 46] nm then Inr (Some (if n = 0 then Inl () else Inr (t_parent x)))
     else kbind (find_child v nm (t_children x)) (\<lambda>r. Inr (map_option Inr r)))"

section \<open>Archives of plain files\<close>

text \<open>What \<^verbatim>\<open>tar\<close> writes for a plain file: a header block, and the content padded to whole blocks.\<close>

primrec octal :: "nat \<Rightarrow> nat \<Rightarrow> u8 list" where
  "octal 0 n = []"
| "octal (Suc k) n = octal k (n div 8) @ [48 + of_nat (n mod 8)]"

definition ustar_header :: "name \<Rightarrow> nat \<Rightarrow> u8 list" where
  "ustar_header nm sz = nm @ replicate (100 - length nm) 0 @ replicate 24 0 @ (octal 11 sz @ [0]) @ replicate 20 0 @ [48] @ replicate 355 0"

definition blocks_of :: "u8 list \<Rightarrow> nat" where
  "blocks_of c = (length c + 511) div 512"

definition file_blocks :: "name \<times> u8 list \<Rightarrow> u8 list" where
  "file_blocks = (\<lambda>(nm, c). ustar_header nm (length c) @ c @ replicate (512 * blocks_of c - length c) 0)"

definition tar_archive :: "(name \<times> u8 list) list \<Rightarrow> u8 list" where
  "tar_archive fs = concat (map file_blocks fs) @ replicate 1024 0"

definition file_ok :: "name \<times> u8 list \<Rightarrow> bool" where
  "file_ok = (\<lambda>(nm, c). nm \<noteq> [] \<and> length nm < 100 \<and> 0 \<notin> set nm \<and> 47 \<notin> set nm \<and> length c < 8 ^ 11)"

lemma length_octal [simp]: "length (octal k n) = k"
  by (induction k arbitrary: n) auto

lemma octal_digit: "d < 8 \<Longrightarrow> (48 + of_nat d :: u8) \<noteq> 0 \<and> unat ((48 + of_nat d - 48 :: u8) AND 7) = d"
proof -
  assume d: "d < 8"
  have "unat (of_nat d AND (7 :: u8)) = d"
    using d by (cases "d = 0 \<or> d = 1 \<or> d = 2 \<or> d = 3 \<or> d = 4 \<or> d = 5 \<or> d = 6 \<or> d = 7") auto
  moreover have "(48 + of_nat d :: u8) \<noteq> 0"
  proof
    assume "(48 + of_nat d :: u8) = 0"
    then have "unat (48 + of_nat d :: u8) = 0" by simp
    then show False using d by (simp add: unat_plus_no_wrap unat_of_nat_small)
  qed
  ultimately show ?thesis by simp
qed

lemma oct_to_dec_octal: "oct_to_dec (octal k n @ cs) a = oct_to_dec cs (a * 8 ^ k + n mod 8 ^ k)"
proof (induction k arbitrary: n cs)
  case (Suc k)
  have "oct_to_dec (octal (Suc k) n @ cs) a = oct_to_dec ((48 + of_nat (n mod 8)) # cs) (a * 8 ^ k + n div 8 mod 8 ^ k)"
    using Suc by simp
  also have "\<dots> = oct_to_dec cs (8 * (a * 8 ^ k + n div 8 mod 8 ^ k) + n mod 8)" using octal_digit [of "n mod 8"] by simp
  also have "8 * (a * 8 ^ k + n div 8 mod 8 ^ k) + n mod 8 = a * 8 ^ Suc k + n mod 8 ^ Suc k"
    using mod_mult2_eq [of n 8 "8 ^ k"] by simp
  finally show ?case .
qed simp

lemma length_ustar_header: "length nm < 100 \<Longrightarrow> length (ustar_header nm sz) = 512"
  by (simp add: ustar_header_def)

lemma padded_length: "length c \<le> 512 * blocks_of c"
  by (simp add: blocks_of_def)

lemma length_file_blocks: "length nm < 100 \<Longrightarrow> length (file_blocks (nm, c)) = 512 * (blocks_of c + 1)"
  using padded_length [of c] by (simp add: file_blocks_def length_ustar_header)

lemma takeWhile_name: "0 \<notin> set nm \<Longrightarrow> takeWhile (\<lambda>c. c \<noteq> 0) (nm @ 0 # cs) = nm"
  using takeWhile_append2 [of nm "\<lambda>c. c \<noteq> 0" "0 # cs"] by fastforce

lemma cut_tokens_plain: "0 \<notin> set nm \<Longrightarrow> 47 \<notin> set nm \<Longrightarrow> cut_tokens b (nm @ 0 # cs) = nm @ 0 # cs"
  by (induction nm arbitrary: b) auto

text \<open>Reading a header that stands at block \<open>b\<close> of an archive.\<close>

lemma header_at:
  assumes img: "img = pre @ ustar_header nm sz @ post" "length pre = 512 * b"
    and nm: "nm \<noteq> []" "length nm < 100" "0 \<notin> set nm" "47 \<notin> set nm" and sz: "sz < 8 ^ 11"
  shows "header_name img b = nm" "header_type img b = 48" "header_size img b = sz"
    "oct_to_dec (field img b 108 8) 0 = 0"
    "take (512 * b) img @ cut_tokens False (drop (512 * b) img) = img"
proof -
  have d: "drop (512 * b) img = ustar_header nm sz @ post" using img by simp
  have dk: "drop (512 * b + k) img = drop k (ustar_header nm sz) @ drop (k - 512) post" for k
    using img nm(2) by (simp add: length_ustar_header)
  obtain cs where h: "ustar_header nm sz @ post = nm @ 0 # cs"
    using nm(2) by (cases "100 - length nm") (auto simp: ustar_header_def)
  show "header_name img b = nm" using d h takeWhile_name [OF nm(3)] by (simp add: header_name_def BYTES_PER_BLOCK_def cstring_def)
  show "header_type img b = 48" using dk [of 156] nm(2) by (simp add: header_type_def field_def BYTES_PER_BLOCK_def ustar_header_def)
  have "field img b 124 12 = octal 11 sz @ [0]"
    using dk [of 124] nm(2) by (simp add: field_def BYTES_PER_BLOCK_def ustar_header_def)
  then show "header_size img b = sz" using sz oct_to_dec_octal [of 11 sz "[0]" 0] by (simp add: header_size_def)
  have "field img b 108 8 = replicate 8 0"
    using dk [of 108] nm(2) by (simp add: field_def BYTES_PER_BLOCK_def ustar_header_def)
  then show "oct_to_dec (field img b 108 8) 0 = 0" by (simp add: numeral_nat)
  show "take (512 * b) img @ cut_tokens False (drop (512 * b) img) = img"
    unfolding d h using cut_tokens_plain [OF nm(3,4)] img h by simp
qed

lemma file_header_at:
  assumes "img = pre @ file_blocks f @ post" "length pre = 512 * b" "file_ok f"
  shows "header_name img b = fst f" "header_type img b = 48" "header_size img b = length (snd f)"
    "oct_to_dec (field img b 108 8) 0 = 0" "take (512 * b) img @ cut_tokens False (drop (512 * b) img) = img"
    "get_block_count img b = blocks_of (snd f)"
proof -
  obtain nm c where f: "f = (nm, c)" by (cases f)
  have img: "img = pre @ ustar_header nm (length c) @ (c @ replicate (512 * blocks_of c - length c) 0 @ post)"
    using assms(1) by (simp add: f file_blocks_def)
  have ok: "nm \<noteq> []" "length nm < 100" "0 \<notin> set nm" "47 \<notin> set nm" "length c < 8 ^ 11" using assms(3) by (auto simp: f file_ok_def)
  note h = header_at [OF img assms(2) ok]
  show "header_name img b = fst f" "header_type img b = 48" "header_size img b = length (snd f)"
    "oct_to_dec (field img b 108 8) 0 = 0" "take (512 * b) img @ cut_tokens False (drop (512 * b) img) = img"
    using h by (simp_all add: f)
  show "get_block_count img b = blocks_of (snd f)" using h(3) by (simp add: f get_block_count_def blocks_of_def BYTES_PER_BLOCK_def)
qed

text \<open>The zero blocks at the end.\<close>

lemma zero_block:
  assumes "img = pre @ replicate n 0" "length pre = 512 * i"
  shows "header_name img (i + k) = []" "get_block_count img (i + k) = 0"
proof -
  have d: "drop (512 * (i + k) + m) img = replicate (n - (512 * k + m)) 0" for m
    using assms by (simp add: algebra_simps)
  show "header_name img (i + k) = []"
    using d [of 0] by (cases "n - 512 * k") (simp_all add: header_name_def BYTES_PER_BLOCK_def cstring_def)
  have "oct_to_dec (take j (replicate m 0)) 0 = 0" for j m by (cases "min j m") simp_all
  then have "header_size img (i + k) = 0" using d [of 124] by (simp add: header_size_def field_def BYTES_PER_BLOCK_def)
  then show "get_block_count img (i + k) = 0" by (simp add: get_block_count_def BYTES_PER_BLOCK_def)
qed

primrec total_blocks :: "(name \<times> u8 list) list \<Rightarrow> nat" where
  "total_blocks [] = 0"
| "total_blocks (f # fs) = blocks_of (snd f) + 1 + total_blocks fs"

lemma length_files: "\<forall>f\<in>set fs. file_ok f \<Longrightarrow> length (concat (map file_blocks fs)) = 512 * total_blocks fs"
proof (induction fs)
  case (Cons f fs)
  then show ?case by (cases f) (simp add: length_file_blocks file_ok_def)
qed simp

lemma count_nodes_archive:
  assumes "img = pre @ tar_archive fs" "length pre = 512 * i" "\<forall>f\<in>set fs. file_ok f" "nb = i + total_blocks fs + 2"
  shows "count_nodes img nb i (nn, ne) = (nn + length fs + 2, ne + length fs + 2)"
  using assms
proof (induction fs arbitrary: pre i nn ne)
  case Nil
  have img: "img = pre @ replicate 1024 0" using Nil.prems(1) by (simp add: tar_archive_def)
  note z = zero_block [OF img Nil.prems(2)]
  have "count_nodes img nb i (nn, ne) = count_nodes img nb (i + 1) (nn + 1, ne + 1)"
    using Nil.prems(4) z [of 0] by (subst count_nodes.simps) (simp add: top_entry_def)
  also have "\<dots> = count_nodes img nb (i + 2) (nn + 2, ne + 2)"
    using Nil.prems(4) z [of 1] by (subst count_nodes.simps) (simp add: top_entry_def)
  also have "\<dots> = (nn + 2, ne + 2)" using Nil.prems(4) by (subst count_nodes.simps) simp
  finally show ?case by simp
next
  case (Cons f fs)
  have img: "img = pre @ file_blocks f @ tar_archive fs" using Cons.prems(1) by (simp add: tar_archive_def)
  have ok: "file_ok f" using Cons.prems(3) by simp
  note h = file_header_at [OF img Cons.prems(2) ok]
  have "47 \<notin> set (fst f)" using ok by (cases f) (simp add: file_ok_def)
  then have "count_nodes img nb i (nn, ne) = count_nodes img nb (i + blocks_of (snd f) + 1) (nn + 1, ne + 1)"
    using Cons.prems(4) h by (subst count_nodes.simps) (simp add: top_entry_def)
  also have "\<dots> = (nn + 1 + length fs + 2, ne + 1 + length fs + 2)"
  proof (rule Cons.IH [of "pre @ file_blocks f"])
    show "length (pre @ file_blocks f) = 512 * (i + blocks_of (snd f) + 1)"
      using Cons.prems(2) ok by (cases f) (simp add: length_file_blocks file_ok_def)
  qed (use img Cons.prems in simp_all)
  finally show ?case by simp
qed

text \<open>The nodes the second pass makes.\<close>

definition file_node :: "nat \<Rightarrow> nat \<Rightarrow> name \<times> u8 list \<Rightarrow> tar_node" where
  "file_node n b f = \<lparr>t_name = fst f, t_header = Some b, t_parent = 0, t_children = [], t_flags = FS_NODE_FILE,
     t_size = of_nat (length (snd f)), t_uid = 0, t_inode = n\<rparr>"

primrec file_nodes :: "nat \<Rightarrow> nat \<Rightarrow> (name \<times> u8 list) list \<Rightarrow> tar_node list" where
  "file_nodes n b [] = []"
| "file_nodes n b (f # fs) = file_node n b f # file_nodes (n + 1) (b + blocks_of (snd f) + 1) fs"

definition top_node :: "nat \<Rightarrow> nat option list \<Rightarrow> tar_node" where
  "top_node len cs = new_node\<lparr>t_flags := FS_NODE_DIRECTORY, t_size := of_nat len, t_children := cs\<rparr>"

lemma make_node_file:
  assumes img: "img = pre @ file_blocks f @ post" "length pre = 512 * b" "file_ok f" and n: "length ns = n"
  shows "make_node b n 0 \<lparr>t_image = img, t_block_count = nb, t_next_node = m, t_nodes = ns @ new_node # ms\<rparr>
    = Inr \<lparr>t_image = img, t_block_count = nb, t_next_node = m, t_nodes = ns @ file_node n b f # ms\<rparr>"
proof -
  note h = file_header_at [OF img]
  have nm: "tokens (fst f) = [fst f]" "length (fst f) < 100" using img(3) tokens_name(2) by (cases f; auto simp: file_ok_def)+
  have "take (BYTES_PER_BLOCK * b) img @ cut_tokens False (drop (BYTES_PER_BLOCK * b) img) = img"
    using h(5) by (simp add: BYTES_PER_BLOCK_def)
  then show ?thesis using h nm n [symmetric]
    by (simp add: make_node_def get_node_def put_node_def Let_def base_name_def tar_flags_to_fs_def file_node_def new_node_def nth_append)
qed

lemma set_child_next:
  assumes "length cs = e"
  shows "set_child e n \<lparr>t_image = img, t_block_count = nb, t_next_node = m, t_nodes = top_node k (cs @ None # ds) # ns\<rparr>
    = Inr \<lparr>t_image = img, t_block_count = nb, t_next_node = m, t_nodes = top_node k (cs @ Some n # ds) # ns\<rparr>"
  using assms [symmetric] by (simp add: set_child_def get_node_def put_node_def top_node_def)

lemma read_blocks_archive:
  assumes "img = pre @ tar_archive fs" "length pre = 512 * i" "\<forall>f\<in>set fs. file_ok f" "nb = i + total_blocks fs + 2"
    "length fs \<le> k" "length made = e" "length cs = e" "length ds = length fs + d" "set ds \<subseteq> {None}"
  shows "read_blocks k i e \<lparr>t_image = img, t_block_count = nb, t_next_node = e + 1,
      t_nodes = top_node len (cs @ ds) # made @ replicate (length fs) new_node @ rest\<rparr>
    = Inr (e + length fs, \<lparr>t_image = img, t_block_count = nb, t_next_node = e + length fs + 1,
      t_nodes = top_node len (cs @ map Some [e + 1..<e + length fs + 1] @ replicate d None) # made @ file_nodes (e + 1) i fs @ rest\<rparr>)"
  using assms
proof (induction fs arbitrary: pre i k e made cs ds)
  case Nil
  have img: "img = pre @ replicate 1024 0" using Nil.prems(1) by (simp add: tar_archive_def)
  have "\<forall>y\<in>set ds. y = None" using Nil.prems(9) by auto
  then have "ds = replicate d None" using Nil.prems(8) by (metis add_0 list.size(3) replicate_length_same)
  then show ?case using zero_block(1) [OF img Nil.prems(2), of 0] by (cases k) simp_all
next
  case (Cons f fs)
  have img: "img = pre @ file_blocks f @ tar_archive fs" using Cons.prems(1) by (simp add: tar_archive_def)
  have ok: "file_ok f" "fst f \<noteq> []" using Cons.prems(3) by (auto simp: file_ok_def split: prod.splits)
  note h = file_header_at [OF img Cons.prems(2) ok(1)]
  obtain k' where k: "k = Suc k'" "length fs \<le> k'" using Cons.prems(5) by (cases k) auto
  obtain ds' where ds: "ds = None # ds'" "length ds' = length fs + d" "set ds' \<subseteq> {None}" using Cons.prems(8,9) by (cases ds) auto
  let ?v = "\<lambda>m cs ns. \<lparr>t_image = img, t_block_count = nb, t_next_node = m, t_nodes = top_node len cs # ns @ replicate (length fs) new_node @ rest\<rparr>"
  have mk: "make_node i (e + 1) 0 (?v (e + 2) (cs @ ds) (made @ [new_node])) = Inr (?v (e + 2) (cs @ ds) (made @ [file_node (e + 1) i f]))"
    using make_node_file [OF img Cons.prems(2) ok(1), of "top_node len (cs @ ds) # made" "e + 1"] Cons.prems(6) by simp
  have sc: "set_child e (e + 1) (?v (e + 2) (cs @ ds) ns) = Inr (?v (e + 2) ((cs @ [Some (e + 1)]) @ ds') ns)" for ns
    using set_child_next [OF Cons.prems(7), of "e + 1" img nb "e + 2" len ds'] ds(1) by simp
  have "read_blocks k i e (?v (e + 1) (cs @ ds) (made @ [new_node]))
    = read_blocks k' (i + blocks_of (snd f) + 1) (e + 1) (?v (e + 2) ((cs @ [Some (e + 1)]) @ ds') (made @ [file_node (e + 1) i f]))"
    using h ok(2) k(1) mk sc [of "made @ [file_node (e + 1) i f]"] Cons.prems(4) by (simp add: Let_def)
  also have "\<dots> = Inr (e + 1 + length fs, \<lparr>t_image = img, t_block_count = nb, t_next_node = e + 1 + length fs + 1,
      t_nodes = top_node len ((cs @ [Some (e + 1)]) @ map Some [e + 1 + 1..<e + 1 + length fs + 1] @ replicate d None)
        # (made @ [file_node (e + 1) i f]) @ file_nodes (e + 1 + 1) (i + blocks_of (snd f) + 1) fs @ rest\<rparr>)"
    using Cons.IH [of "pre @ file_blocks f" "i + blocks_of (snd f) + 1" k' "made @ [file_node (e + 1) i f]" "e + 1" "cs @ [Some (e + 1)]" ds']
      img Cons.prems ok k(2) ds by (cases f) (simp add: length_file_blocks file_ok_def)
  finally show ?case using upt_conv_Cons [of "e + 1" "e + length (f # fs) + 1"] by (simp add: replicate_app_Cons_same)
qed

declare read_blocks.simps(2) [simp del]

lemma mount_archive:
  assumes ok: "\<forall>f\<in>set fs. file_ok f"
  shows "mount_tar (tar_archive fs) = Inr \<lparr>t_image = tar_archive fs, t_block_count = total_blocks fs + 2, t_next_node = length fs + 1,
    t_nodes = top_node (length (tar_archive fs)) (map Some [1..<length fs + 1]) # file_nodes 1 0 fs @ replicate 2 new_node\<rparr>"
proof -
  let ?img = "tar_archive fs" and ?n = "length fs"
  have nb: "length ?img div BYTES_PER_BLOCK = total_blocks fs + 2"
    using length_files [OF ok] by (simp add: tar_archive_def BYTES_PER_BLOCK_def)
  have "?n \<le> total_blocks fs" by (induction fs) auto
  then have "read_blocks (total_blocks fs + 2) 0 0 \<lparr>t_image = ?img, t_block_count = total_blocks fs + 2, t_next_node = 0 + 1,
      t_nodes = top_node (length ?img) ([] @ replicate (?n + 2) None) # [] @ replicate ?n new_node @ replicate 2 new_node\<rparr>
    = Inr (0 + ?n, \<lparr>t_image = ?img, t_block_count = total_blocks fs + 2, t_next_node = 0 + ?n + 1,
      t_nodes = top_node (length ?img) ([] @ map Some [0 + 1..<0 + ?n + 1] @ replicate 2 None) # [] @ file_nodes (0 + 1) 0 fs @ replicate 2 new_node\<rparr>)"
    using ok by (intro read_blocks_archive [where pre = "[]"]) auto
  moreover have "count_nodes ?img (total_blocks fs + 2) 0 (1, 0) = (?n + 3, ?n + 2)"
    using count_nodes_archive [where pre = "[]" and i = 0 and fs = fs] ok by simp
  ultimately show ?thesis
    by (simp add: mount_tar_def nb top_node_def replicate_add [symmetric] get_node_def put_node_def del: upt_Suc)
qed

section \<open>Finding and reading files\<close>

primrec start :: "(name \<times> u8 list) list \<Rightarrow> nat \<Rightarrow> nat" where
  "start fs 0 = 0"
| "start fs (Suc k) = start fs k + blocks_of (snd (fs ! k)) + 1"

lemma length_file_nodes [simp]: "length (file_nodes n b fs) = length fs"
  by (induction fs arbitrary: n b) auto

lemma start_Cons: "start (f # fs) (Suc k) = blocks_of (snd f) + 1 + start fs k"
  by (induction k) auto

lemma nth_file_nodes: "k < length fs \<Longrightarrow> file_nodes n b fs ! k = file_node (n + k) (b + start fs k) (fs ! k)"
proof (induction fs arbitrary: n b k)
  case (Cons f fs)
  then show ?case by (cases k) (auto simp: start_Cons add.assoc simp del: start.simps(2))
qed simp

lemma find_child_first:
  assumes "\<forall>k<m. k < length ns \<and> length (t_name (ns ! k)) < 100" "length nm \<le> 256" "length pre = j"
  shows "find_child \<lparr>t_image = img, t_block_count = nb, t_next_node = q, t_nodes = pre @ ns\<rparr> nm (map Some [j..<j + m])
    = Inr (map_option (\<lambda>k. j + k) (List.find (\<lambda>k. t_name (ns ! k) = nm) [0..<m]))"
  using assms
proof (induction m arbitrary: ns pre j)
  case (Suc m)
  obtain y ys where ns: "ns = y # ys" using Suc.prems(1) by (cases ns) auto
  have IH: "find_child \<lparr>t_image = img, t_block_count = nb, t_next_node = q, t_nodes = (pre @ [y]) @ ys\<rparr> nm (map Some [j + 1..<j + 1 + m])
    = Inr (map_option (\<lambda>k. j + 1 + k) (List.find (\<lambda>k. t_name (ys ! k) = nm) [0..<m]))"
  proof (rule Suc.IH)
    show "\<forall>k<m. k < length ys \<and> length (t_name (ys ! k)) < 100" using Suc.prems(1) ns by (metis Suc_less_eq length_Cons nth_Cons_Suc)
  qed (use Suc.prems in simp_all)
  have y: "length (t_name y) < 100" using Suc.prems(1) ns by (metis nth_Cons_0 zero_less_Suc)
  have f: "List.find (\<lambda>k. t_name (ns ! k) = nm) [0..<Suc m]
    = (if t_name y = nm then Some 0 else map_option Suc (List.find (\<lambda>k. t_name (ys ! k) = nm) [0..<m]))"
  proof -
    have "[0..<Suc m] = 0 # map Suc [0..<m]" by (simp add: map_Suc_upt upt_conv_Cons del: upt_Suc)
    moreover have "List.find P (map Suc xs) = map_option Suc (List.find (\<lambda>k. P (Suc k)) xs)" for P xs by (induction xs) auto
    ultimately show ?thesis by (simp add: ns)
  qed
  have "[j..<j + Suc m] = j # [j + 1..<j + 1 + m]" by (simp add: upt_conv_Cons)
  then show ?case using IH y f Suc.prems(2,3) ns
    by (simp add: get_node_def nth_append option.map_comp comp_def)
qed simp

definition files_ok :: "(name \<times> u8 list) list \<Rightarrow> bool" where
  "files_ok fs \<longleftrightarrow> (\<forall>f\<in>set fs. file_ok f \<and> hd (fst f) \<noteq> 46) \<and> distinct (map fst fs)"

lemma archive_split:
  assumes "\<forall>f\<in>set fs. file_ok f" "k < length fs"
  shows "\<exists>pre post. tar_archive fs = pre @ file_blocks (fs ! k) @ post \<and> length pre = 512 * start fs k"
proof -
  have fs: "fs = take k fs @ fs ! k # drop (Suc k) fs" using assms(2) by (rule id_take_nth_drop)
  have "length (concat (map file_blocks (take k fs))) = 512 * start fs k"
    using assms(2)
  proof (induction k)
    case (Suc k)
    have "file_ok (fs ! k)" using assms(1) Suc.prems by simp
    then show ?case using Suc by (cases "fs ! k") (simp add: take_Suc_conv_app_nth length_file_blocks file_ok_def)
  qed simp
  moreover have "tar_archive fs = concat (map file_blocks (take k fs)) @ file_blocks (fs ! k) @ (concat (map file_blocks (drop (Suc k) fs)) @ replicate 1024 0)"
    unfolding tar_archive_def by (subst fs) simp
  ultimately show ?thesis by blast
qed

definition mounted :: "(name \<times> u8 list) list \<Rightarrow> tar_volume" where
  "mounted fs = \<lparr>t_image = tar_archive fs, t_block_count = total_blocks fs + 2, t_next_node = length fs + 1,
    t_nodes = top_node (length (tar_archive fs)) (map Some [1..<length fs + 1]) # file_nodes 1 0 fs @ replicate 2 new_node\<rparr>"

lemma get_file_node:
  assumes "k < length fs"
  shows "get_node (k + 1) (mounted fs) = Inr (file_node (k + 1) (start fs k) (fs ! k))"
  using assms by (simp add: get_node_def mounted_def nth_append nth_file_nodes)

lemma tar_read_padded:
  assumes ok: "\<forall>f\<in>set fs. file_ok f" and k: "k < length fs" and c: "snd (fs ! k) = c"
    and r: "off \<le> length c" "off + len \<le> 512 * blocks_of c"
  shows "tar_read (mounted fs) (k + 1) off len = Inr (Inr (take len (drop off (c @ replicate (512 * blocks_of c - length c) 0))))"
proof -
  obtain nm where f: "fs ! k = (nm, c)" using c by (cases "fs ! k") auto
  have fo: "file_ok (nm, c)" using ok k f by (metis nth_mem)
  obtain pre post where a: "tar_archive fs = pre @ file_blocks (nm, c) @ post" "length pre = 512 * start fs k"
    using archive_split [OF ok k] f by auto
  let ?p = "c @ replicate (512 * blocks_of c - length c) 0"
  have h: "length (ustar_header nm (length c)) = 512" using fo by (simp add: file_ok_def length_ustar_header)
  have lp: "length ?p = 512 * blocks_of c" using padded_length [of c] by simp
  have img: "drop (512 * start fs k + 512 + off) (tar_archive fs) = drop off ?p @ drop (off - length ?p) post"
    using a h by (simp add: file_blocks_def)
  have "length (tar_archive fs) \<ge> 512 * start fs k + 512 + length ?p" using a h by (simp add: file_blocks_def)
  then have "512 * start fs k + 512 + off + len \<le> length (tar_archive fs)" using r lp by linarith
  moreover have "take len (drop off ?p @ drop (off - length ?p) post) = take len (drop off ?p)" using r lp by simp
  moreover have "\<not> (of_nat off :: u64) > of_nat (length c)"
  proof -
    have "length c < 2 ^ 64" using fo by (simp add: file_ok_def)
    then show ?thesis using r by (simp add: word_less_nat_alt unat_of_nat_small)
  qed
  moreover have "\<not> is_dir FS_NODE_FILE" by (simp add: is_dir_def node_type_defs)
  ultimately show ?thesis using get_file_node [OF k] img
    by (simp add: tar_read_def file_node_def f BYTES_PER_BLOCK_def mounted_def)
qed

lemma tar_find_mounted:
  assumes ok: "\<forall>f\<in>set fs. file_ok f" and nm: "take 1 nm \<noteq> [46]" "length nm \<le> 256"
  shows "tar_find_dir (mounted fs) 0 nm = Inr (map_option (\<lambda>k. Inr (k + 1)) (List.find (\<lambda>k. fst (fs ! k) = nm) [0..<length fs]))"
proof -
  let ?ns = "file_nodes 1 0 fs @ replicate 2 new_node"
  have n: "?ns ! k = file_node (1 + k) (start fs k) (fs ! k)" if "k < length fs" for k
    using that by (simp add: nth_append nth_file_nodes)
  have "k < length ?ns \<and> length (t_name (?ns ! k)) < 100" if "k < length fs" for k
  proof -
    have "file_ok (fs ! k)" using ok that by simp
    then show ?thesis using n [OF that] that by (simp add: file_node_def file_ok_def case_prod_beta)
  qed
  then have "find_child (mounted fs) nm (map Some [1..<1 + length fs])
    = Inr (map_option (\<lambda>k. 1 + k) (List.find (\<lambda>k. t_name (?ns ! k) = nm) [0..<length fs]))"
    using find_child_first [of "length fs" ?ns nm "[top_node (length (tar_archive fs)) (map Some [1..<length fs + 1])]" 1] nm(2)
    by (simp add: mounted_def)
  moreover have "List.find (\<lambda>k. t_name (?ns ! k) = nm) [0..<length fs] = List.find (\<lambda>k. fst (fs ! k) = nm) [0..<length fs]"
    using n by (intro find_cong) (auto simp: file_node_def)
  moreover have "get_node 0 (mounted fs) = Inr (top_node (length (tar_archive fs)) (map Some [1..<length fs + 1]))"
    by (simp add: get_node_def mounted_def)
  moreover have "is_dir FS_NODE_DIRECTORY" by (simp add: is_dir_def node_type_defs)
  moreover have "\<not> strn_eq 1 [46] nm" "\<not> strn_eq 1 [46, 46] nm" using nm(1) by auto
  ultimately show ?thesis by (simp add: tar_find_dir_def top_node_def option.map_comp comp_def)
qed

text \<open>
  C12. Mounting an archive of plain files with distinct names succeeds; every file is found in the top directory under its
  name, other names are not, and reading within the file returns exactly its bytes.
\<close>

theorem tar_archive_roundtrip:
  assumes "files_ok fs"
  shows "\<exists>v. mount_tar (tar_archive fs) = Inr v
    \<and> (\<forall>k<length fs. tar_find_dir v 0 (fst (fs ! k)) = Inr (Some (Inr (k + 1)))
        \<and> (\<forall>off len. off + len \<le> length (snd (fs ! k)) \<longrightarrow> tar_read v (k + 1) off len = Inr (Inr (take len (drop off (snd (fs ! k)))))))
    \<and> (\<forall>nm. nm \<notin> fst ` set fs \<and> take 1 nm \<noteq> [46] \<and> length nm \<le> 256 \<longrightarrow> tar_find_dir v 0 nm = Inr None)"
proof -
  have ok: "\<forall>f\<in>set fs. file_ok f" "distinct (map fst fs)" using assms by (auto simp: files_ok_def)
  have "tar_find_dir (mounted fs) 0 (fst (fs ! k)) = Inr (Some (Inr (k + 1)))" if k: "k < length fs" for k
  proof -
    have "file_ok (fs ! k) \<and> hd (fst (fs ! k)) \<noteq> 46" using assms k by (simp add: files_ok_def)
    then have "take 1 (fst (fs ! k)) \<noteq> [46]" "length (fst (fs ! k)) \<le> 256"
      by (cases "fst (fs ! k)"; simp add: file_ok_def case_prod_beta)+
    moreover have "List.find (\<lambda>j. fst (fs ! j) = fst (fs ! k)) [0..<length fs] = Some k"
    proof -
      have "\<forall>j<length fs. fst (fs ! j) = fst (fs ! k) \<longleftrightarrow> j = k" using ok(2) k by (metis distinct_conv_nth length_map nth_map)
      then show ?thesis using k by (auto simp: find_Some_iff intro!: exI [of _ k])
    qed
    ultimately show ?thesis using tar_find_mounted [OF ok(1)] by simp
  qed
  moreover have "tar_read (mounted fs) (k + 1) off len = Inr (Inr (take len (drop off (snd (fs ! k)))))"
    if "k < length fs" "off + len \<le> length (snd (fs ! k))" for k off len
    using tar_read_padded [OF ok(1) that(1) refl, of off len] that(2) padded_length [of "snd (fs ! k)"] by simp
  moreover have "tar_find_dir (mounted fs) 0 nm = Inr None"
    if "nm \<notin> fst ` set fs" "take 1 nm \<noteq> [46]" "length nm \<le> 256" for nm
  proof -
    have "List.find (\<lambda>k. fst (fs ! k) = nm) [0..<length fs] = None" using that(1) by (auto simp: find_None_iff)
    then show ?thesis using tar_find_mounted [OF ok(1) that(2,3)] by simp
  qed
  ultimately show ?thesis using mount_archive [OF ok(1)] unfolding mounted_def by blast
qed

theorem tar_archive_roundtrip_witness:
  "\<exists>v. mount_tar (tar_archive [([97, 98], [1, 2, 3]), ([99], [])]) = Inr v \<and> tar_find_dir v 0 [97, 98] = Inr (Some (Inr 1))
     \<and> tar_read v 1 1 2 = Inr (Inr [2, 3]) \<and> tar_find_dir v 0 [100] = Inr None"
proof -
  let ?fs = "[([97, 98], [1, 2, 3]), ([99], [])] :: (name \<times> u8 list) list"
  have "files_ok ?fs" by (simp add: files_ok_def file_ok_def)
  from tar_archive_roundtrip [OF this] obtain v where
    v: "mount_tar (tar_archive ?fs) = Inr v"
    and f: "\<forall>k<length ?fs. tar_find_dir v 0 (fst (?fs ! k)) = Inr (Some (Inr (k + 1)))
      \<and> (\<forall>off len. off + len \<le> length (snd (?fs ! k)) \<longrightarrow> tar_read v (k + 1) off len = Inr (Inr (take len (drop off (snd (?fs ! k))))))"
    and n: "\<forall>nm. nm \<notin> fst ` set ?fs \<and> take 1 nm \<noteq> [46] \<and> length nm \<le> 256 \<longrightarrow> tar_find_dir v 0 nm = Inr None"
    by blast
  have "tar_find_dir v 0 [100] = Inr None" using n by simp
  moreover have "tar_find_dir v 0 [97, 98] = Inr (Some (Inr 1))" using f [rule_format, of 0] by simp
  moreover have "tar_read v 1 1 2 = Inr (Inr [2, 3])" using conjunct2 [OF f [rule_format, of 0], rule_format, of 1 2] by simp
  ultimately show ?thesis using v by blast
qed

text \<open>
  A read is not cut off at the end of the file: from inside the file it returns as many bytes as were asked for, the
  bytes after the end of the content included.
\<close>

theorem tar_read_past_end:
  assumes "files_ok fs" "k < length fs" "off \<le> length (snd (fs ! k))" "off + len \<le> 512 * blocks_of (snd (fs ! k))" "0 < len"
  shows "\<exists>v bs. mount_tar (tar_archive fs) = Inr v \<and> tar_read v (k + 1) off len = Inr (Inr bs) \<and> length bs = len"
proof -
  have ok: "\<forall>f\<in>set fs. file_ok f" using assms(1) by (simp add: files_ok_def)
  have "off + len \<le> length (snd (fs ! k) @ replicate (512 * blocks_of (snd (fs ! k)) - length (snd (fs ! k))) 0)"
    using assms(4) padded_length [of "snd (fs ! k)"] by simp
  then show ?thesis
    using tar_read_padded [OF ok assms(2) refl assms(3,4)] mount_archive [OF ok, folded mounted_def] by auto
qed

theorem tar_read_past_end_witness:
  "\<exists>v bs. mount_tar (tar_archive [([97], [1, 2, 3])]) = Inr v \<and> tar_read v 1 2 100 = Inr (Inr bs) \<and> length bs = 100"
proof -
  have "files_ok [([97], [1, 2, 3])]" by (simp add: files_ok_def file_ok_def)
  from tar_read_past_end [OF this, of 0 2 100] show ?thesis by (simp add: blocks_of_def)
qed

section \<open>Directories in an archive\<close>

lemma cut_tokens_form:
  "0 \<notin> set nm \<Longrightarrow> \<exists>nm'. length nm' = length nm \<and> cut_tokens b (nm @ 0 # cs) = nm' @ 0 # cs"
proof (induction nm arbitrary: b)
  case (Cons c nm)
  have z: "0 \<notin> set nm" "c \<noteq> 0" using Cons.prems by auto
  obtain nm1 where n1: "length nm1 = length nm" "cut_tokens False (nm @ 0 # cs) = nm1 @ 0 # cs" using Cons.IH [OF z(1)] by blast
  obtain nm2 where n2: "length nm2 = length nm" "cut_tokens True (nm @ 0 # cs) = nm2 @ 0 # cs" using Cons.IH [OF z(1)] by blast
  show ?case
    using n1 n2 z(2) by (intro exI [of _ "if c = 47 then (if b then 0 else 47) # nm1 else c # nm2"]) simp
qed auto

lemma cstring_ended: "length (takeWhile (\<lambda>c. c \<noteq> (0 :: u8)) xs) < length xs \<Longrightarrow> \<exists>cs. xs = takeWhile (\<lambda>c. c \<noteq> 0) xs @ 0 # cs"
  by (induction xs) (auto split: if_splits)

lemma length_cstring_le: "length (takeWhile (\<lambda>c. c \<noteq> (0 :: u8)) (xs @ 0 # ys)) \<le> length xs"
  by (induction xs) auto

lemma takeWhile_end: "\<exists>c cs. drop (length (takeWhile P (xs @ x # ys))) (xs @ x # ys) = c # cs \<and> \<not> P c" if "\<not> P x"
  using that by (induction xs) auto

text \<open>An archive whose block \<open>i\<close> is the header of a directory, its name ended inside the name field.\<close>

definition dir_header :: "u8 list \<Rightarrow> nat \<Rightarrow> bool" where
  "dir_header img i \<longleftrightarrow> header_type img i = 53 \<and> header_size img i = 0 \<and> header_name img i \<noteq> []
     \<and> length (header_name img i) < 100 \<and> 512 * i + length (header_name img i) < length img"

lemma dir_header_cut:
  assumes d: "dir_header img i"
    and img': "img' = take (512 * i) img @ cut_tokens False (drop (512 * i) img)"
  shows "get_block_count img' i = 0" "count_entries img' nb i i 0 = 0"
proof -
  let ?nm = "header_name img i"
  have nm: "?nm = takeWhile (\<lambda>c. c \<noteq> 0) (drop (512 * i) img)" by (simp add: header_name_def cstring_def BYTES_PER_BLOCK_def)
  have z: "0 \<notin> set ?nm" using nm by (auto dest: set_takeWhileD)
  have "length ?nm < length (drop (512 * i) img)" using d by (auto simp: dir_header_def)
  then obtain cs where cs: "drop (512 * i) img = ?nm @ 0 # cs" using cstring_ended nm by metis
  obtain nm' where nm': "length nm' = length ?nm" "cut_tokens False (drop (512 * i) img) = nm' @ 0 # cs"
    using cut_tokens_form [OF z] cs by metis
  have li: "length (take (512 * i) img) = 512 * i" using d by (simp add: dir_header_def)
  have dk: "drop (512 * i + k) img' = drop k (nm' @ 0 # cs)" "drop (512 * i + k) img = drop k (?nm @ 0 # cs)" for k
  proof -
    show "drop (512 * i + k) img' = drop k (nm' @ 0 # cs)" using img' nm'(2) li by simp
    show "drop (512 * i + k) img = drop k (?nm @ 0 # cs)" using cs by (metis add.commute drop_drop)
  qed
  have "drop (512 * i + 124) img' = drop (512 * i + 124) img"
    using dk [of 124] nm'(1) d by (simp add: dir_header_def drop_Cons')
  then have "header_size img' i = 0" using d by (simp add: dir_header_def header_size_def field_def BYTES_PER_BLOCK_def)
  then show "get_block_count img' i = 0" by (simp add: get_block_count_def BYTES_PER_BLOCK_def)
  have h': "header_name img' i = takeWhile (\<lambda>c. c \<noteq> 0) (nm' @ 0 # cs)"
    using dk(1) [of 0] by (simp add: header_name_def cstring_def BYTES_PER_BLOCK_def)
  then have "length (header_name img' i) \<le> length nm'" by (simp add: length_cstring_le)
  moreover obtain c ds where "drop (length (header_name img' i)) (nm' @ 0 # cs) = c # ds" "c = 0"
    using takeWhile_end [of "\<lambda>c. c \<noteq> 0" 0 nm' cs] h' by auto
  ultimately show "count_entries img' nb i i 0 = 0"
    using dk(1) [of "length (header_name img' i)"] nm'(1) d
    by (subst count_entries.simps) (simp add: dir_header_def BYTES_PER_BLOCK_def min_def)
qed

text \<open>
  A directory in the archive is mounted without its entries, and the scan goes on two blocks later: the header that
  follows the directory's is never read.
\<close>

theorem tar_directory_loses_entries:
  assumes d: "dir_header (t_image v) i" and i: "i < t_block_count v"
    and n: "0 < t_next_node v" "t_next_node v < length (t_nodes v)" "e < length (t_children (t_nodes v ! 0))"
  shows "\<exists>v'. read_blocks (Suc k) i e v = read_blocks k (i + 2) (e + 1) v' \<and> t_next_node v' = t_next_node v + 1
    \<and> t_children (t_nodes v' ! t_next_node v) = [] \<and> t_flags (t_nodes v' ! t_next_node v) = FS_NODE_DIRECTORY"
proof -
  let ?img = "t_image v" and ?n = "t_next_node v"
  define img' where "img' = take (512 * i) ?img @ cut_tokens False (drop (512 * i) ?img)"
  note c = dir_header_cut [OF d img'_def]
  have h: "header_type ?img i = 53" "header_name ?img i \<noteq> []" "get_block_count ?img i = 0"
    using d by (simp_all add: dir_header_def get_block_count_def BYTES_PER_BLOCK_def)
  define v1 where "v1 = v\<lparr>t_nodes := (t_nodes v)[0 := (t_nodes v ! 0)\<lparr>t_children := (t_children (t_nodes v ! 0))[e := Some ?n]\<rparr>]\<rparr>"
  have v1: "set_child e ?n v = Inr v1" using n by (cases "t_nodes v") (auto simp: set_child_def get_node_def put_node_def v1_def)
  obtain x where x: "make_node i ?n 0 (v1\<lparr>t_next_node := ?n + 1\<rparr>) = Inr (v1\<lparr>t_next_node := ?n + 1, t_image := img', t_nodes := (t_nodes v1)[?n := x]\<rparr>)"
    "t_flags x = FS_NODE_DIRECTORY"
    using n h(1) by (auto simp: make_node_def get_node_def put_node_def v1_def Let_def img'_def BYTES_PER_BLOCK_def tar_flags_to_fs_def)
  define v2 where "v2 = v1\<lparr>t_next_node := ?n + 1, t_image := img', t_nodes := (t_nodes v1)[?n := x\<lparr>t_children := []\<rparr>]\<rparr>"
  have "read_directory i 0 v1 = Inr (i + 1, v2)"
    using x(1) c n by (simp add: read_directory_def Let_def get_node_def put_node_def v2_def v1_def)
  then have "read_blocks (Suc k) i e v = read_blocks k (i + 2) (e + 1) v2"
    using h i v1 by (simp add: read_blocks.simps(2) Let_def)
  then show ?thesis using n x(2) by (intro exI [of _ v2]) (simp add: v2_def v1_def)
qed

theorem tar_directory_loses_entries_witness:
  "\<exists>v'. read_blocks 2 0 0 \<lparr>t_image = [100, 47] @ replicate 154 0 @ [53] @ replicate 867 0, t_block_count = 2, t_next_node = 1,
      t_nodes = new_node\<lparr>t_children := [None]\<rparr> # [new_node]\<rparr> = read_blocks 1 2 1 v' \<and> t_next_node v' = 2
    \<and> t_children (t_nodes v' ! 1) = [] \<and> t_flags (t_nodes v' ! 1) = FS_NODE_DIRECTORY"
proof -
  let ?v = "\<lparr>t_image = [100, 47] @ replicate 154 0 @ [53] @ replicate 867 0, t_block_count = 2, t_next_node = 1,
      t_nodes = new_node\<lparr>t_children := [None]\<rparr> # [new_node]\<rparr>"
  have "dir_header (t_image ?v) 0" by code_simp
  from tar_directory_loses_entries [OF this, of 0 1] show ?thesis by (simp add: new_node_def numeral_2_eq_2)
qed

end
