(* ===== verification/Bytes.thy ===== *)
theory Bytes
  imports Prelude
begin

text \<open>
  Structures read from a disk or a file: integers in little-endian order at an offset of a byte list, as a packed
  structure of the sources overlays them.  The encoder is used to state what a disk holds.
\<close>

primrec le_nat :: "u8 list \<Rightarrow> nat" where
  "le_nat [] = 0"
| "le_nat (b # bs) = unat b + 256 * le_nat bs"

definition get16 :: "u8 list \<Rightarrow> nat \<Rightarrow> u16" where
  "get16 bs off = of_nat (le_nat (take 2 (drop off bs)))"

definition get32 :: "u8 list \<Rightarrow> nat \<Rightarrow> u32" where
  "get32 bs off = of_nat (le_nat (take 4 (drop off bs)))"

definition get64 :: "u8 list \<Rightarrow> nat \<Rightarrow> u64" where
  "get64 bs off = of_nat (le_nat (take 8 (drop off bs)))"

primrec le_bytes :: "nat \<Rightarrow> nat \<Rightarrow> u8 list" where
  "le_bytes 0 n = []"
| "le_bytes (Suc k) n = of_nat (n mod 256) # le_bytes k (n div 256)"

lemma length_le_bytes [simp]: "length (le_bytes k n) = k"
  by (induction k arbitrary: n) auto

lemma unat_u8_mod [simp]: "unat (of_nat (n mod 256) :: u8) = n mod 256"
  by (intro unat_of_nat_small) simp

lemma le_nat_bytes: "le_nat (le_bytes k n) = n mod 256 ^ k"
proof (induction k arbitrary: n)
  case (Suc k)
  then show ?case using mod_mult2_eq [of n 256 "256 ^ k"] by simp
qed simp

lemma le_nat_less: "le_nat bs < 256 ^ length bs"
proof (induction bs)
  case (Cons b bs)
  have "unat b < 256" using unsigned_less [of b] by simp
  then show ?case using Cons by simp
qed simp

text \<open>Reading back what was encoded at the offset.\<close>

lemma get16_encoded: "drop off bs = le_bytes 2 (unat w) @ rest \<Longrightarrow> get16 bs off = w"
proof -
  have "unat w mod 65536 = unat w" using unsigned_less [of w, where 'a = nat] by simp
  then show "drop off bs = le_bytes 2 (unat w) @ rest \<Longrightarrow> get16 bs off = w" by (simp add: get16_def le_nat_bytes)
qed

lemma get32_encoded: "drop off bs = le_bytes 4 (unat w) @ rest \<Longrightarrow> get32 bs off = w"
proof -
  have "unat w mod 4294967296 = unat w" using unsigned_less [of w, where 'a = nat] by simp
  then show "drop off bs = le_bytes 4 (unat w) @ rest \<Longrightarrow> get32 bs off = w" by (simp add: get32_def le_nat_bytes)
qed

lemma get64_encoded: "drop off bs = le_bytes 8 (unat w) @ rest \<Longrightarrow> get64 bs off = w"
proof -
  have "unat w mod 18446744073709551616 = unat w" using unsigned_less [of w, where 'a = nat] by simp
  then show "drop off bs = le_bytes 8 (unat w) @ rest \<Longrightarrow> get64 bs off = w" by (simp add: get64_def le_nat_bytes)
qed

text \<open>Only the bytes of the field matter.\<close>

lemma get32_drop: "get32 (drop k bs) off = get32 bs (k + off)"
  by (simp add: get32_def add.commute)

lemma get64_drop: "get64 (drop k bs) off = get64 bs (k + off)"
  by (simp add: get64_def add.commute)

lemma get16_drop: "get16 (drop k bs) off = get16 bs (k + off)"
  by (simp add: get16_def add.commute)

lemma get32_take: "off + 4 \<le> n \<Longrightarrow> get32 (take n bs) off = get32 bs off"
  by (simp add: get32_def drop_take min_def)

lemma get64_take: "off + 8 \<le> n \<Longrightarrow> get64 (take n bs) off = get64 bs off"
  by (simp add: get64_def drop_take min_def)

lemma get16_take: "off + 2 \<le> n \<Longrightarrow> get16 (take n bs) off = get16 bs off"
  by (simp add: get16_def drop_take min_def)

section \<open>Buffers\<close>

text \<open>
  Storing bytes at the start of a buffer; it is the memory that \<open>malloc\<close> returns or the caller's.  \<open>fresh\<close> is what
  new memory happens to hold.
\<close>

definition store_front :: "u8 list \<Rightarrow> u8 list \<Rightarrow> u8 list kres" where
  "store_front buf bs = (if length bs \<le> length buf then Inr (bs @ drop (length bs) buf) else Inl Out_of_bounds)"

definition fresh_bytes :: "(nat \<Rightarrow> u8) \<Rightarrow> nat \<Rightarrow> u8 list" where
  "fresh_bytes fresh n = map fresh [0..<n]"

lemma length_fresh_bytes [simp]: "length (fresh_bytes fresh n) = n"
  by (simp add: fresh_bytes_def)

lemma store_front_full: "length bs = length buf \<Longrightarrow> store_front buf bs = Inr bs"
  by (simp add: store_front_def)

end
