(* ===== verification/Storage.thy ===== *)
theory Storage
  imports Bytes KMath Filesystem
begin

text \<open>
  Disks and their partitions: \<^verbatim>\<open>Kernel/src/storage/disk_device.cpp\<close>, \<^verbatim>\<open>partition_device.cpp\<close>, \<^verbatim>\<open>gpt.cpp\<close> and the
  classes in \<^verbatim>\<open>Kernel/include/device.h\<close>.  Reading sectors of a disk, a virtual method, is a function from the first
  sector and the number of sectors to the result and the bytes it stores into the buffer; \<open>fresh\<close> is what memory
  returned by \<open>malloc\<close> holds.  The locale \<open>sector_reader\<close> states what such a function promises.
\<close>

section \<open>Model\<close>

type_synonym sector_read = "u64 \<Rightarrow> u32 \<Rightarrow> int \<times> u8 list"

definition disk_block_size :: u32 where "disk_block_size = 512"

record partition_device =
  p_start_lba :: u64
  p_end_lba :: u64
  p_type :: "u8 list"

text \<open>The number of sectors is added to a number of bytes in the test of the range.\<close>

definition partition_in_range :: "partition_device \<Rightarrow> u64 \<Rightarrow> u32 \<Rightarrow> bool" where
  "partition_in_range p lba n \<longleftrightarrow>
     \<not> lba * ucast disk_block_size + ucast n > (p_end_lba p - p_start_lba p) * ucast disk_block_size"

definition partition_read_block :: "sector_read \<Rightarrow> partition_device \<Rightarrow> sector_read" where
  "partition_read_block rd p lba n = (if \<not> partition_in_range p lba n then (2, []) else rd (lba + p_start_lba p) n)"

definition partition_write_block ::
  "(u64 \<Rightarrow> u32 \<Rightarrow> u8 list \<Rightarrow> 'd \<Rightarrow> int \<times> 'd) \<Rightarrow> partition_device \<Rightarrow> u64 \<Rightarrow> u32 \<Rightarrow> u8 list \<Rightarrow> 'd \<Rightarrow> int \<times> 'd" where
  "partition_write_block wr p lba n bytes d =
     (if \<not> partition_in_range p lba n then (2, d) else wr (lba + p_start_lba p) n bytes d)"

text \<open>\<open>read_bytes\<close>; the null pointer is \<open>None\<close>.\<close>

definition read_bytes :: "(nat \<Rightarrow> u8) \<Rightarrow> sector_read \<Rightarrow> u64 \<Rightarrow> u32 \<Rightarrow> u8 list option kres" where
  "read_bytes fresh rd lba n =
     kbind (intervals_needed n disk_block_size) (\<lambda>block_count.
     let full_byte_size = disk_block_size * block_count;
         (e, bs) = rd lba block_count in
     if e < 0 then Inr None
     else kbind (store_front (fresh_bytes fresh (unat full_byte_size)) bs) (\<lambda>buf.
          if full_byte_size < n then Inl Out_of_bounds
          else Inr (Some (take (unat n) buf @ replicate (unat (full_byte_size - n)) 0))))"

text \<open>The node of a disk: the test of the offset and of the result, and the size passed as a number of sectors.\<close>

definition disk_read :: "sector_read \<Rightarrow> u64 \<Rightarrow> u64 \<Rightarrow> u64 sysret \<times> u8 list" where
  "disk_read rd offset len =
     (if offset AND ucast disk_block_size \<noteq> 0 then (Inl EINVAL, [])
      else let (e, bs) = rd (offset div ucast disk_block_size) (ucast len)
           in ((if e \<noteq> 0 then Inl EIO else Inr len), bs))"

definition disk_write :: "u64 sysret" where
  "disk_write = Inl ENOSYS"

subsection \<open>The partition table\<close>

definition GPT_HEADER_SIGNATURE :: u64 where "GPT_HEADER_SIGNATURE = 0x5452415020494645"

definition gpt_signature :: "u8 list \<Rightarrow> u64" where "gpt_signature h = get64 h 0"

definition gpt_table_lba :: "u8 list \<Rightarrow> u64" where "gpt_table_lba h = get64 h 72"

definition gpt_part_num :: "u8 list \<Rightarrow> u32" where "gpt_part_num h = get32 h 80"

definition gpt_entry_size :: "u8 list \<Rightarrow> u32" where "gpt_entry_size h = get32 h 84"

text \<open>An entry of the table has 128 bytes, whatever size the header gives.\<close>

definition gpt_entry :: "u8 list \<Rightarrow> nat \<Rightarrow> partition_device kres" where
  "gpt_entry table i =
     (if 128 * i + 128 \<le> length table
      then Inr \<lparr>p_start_lba = get64 table (128 * i + 32), p_end_lba = get64 table (128 * i + 40),
                p_type = take 16 (drop (128 * i) table)\<rparr>
      else Inl Out_of_bounds)"

fun gpt_entries :: "u8 list \<Rightarrow> nat list \<Rightarrow> partition_device list kres" where
  "gpt_entries table [] = Inr []"
| "gpt_entries table (i # is) =
     kbind (gpt_entry table i) (\<lambda>p.
     kbind (gpt_entries table is) (\<lambda>ps.
     Inr (if p_end_lba p - p_start_lba p \<noteq> 0 then p # ps else ps)))"

text \<open>The result and the partitions added to the disk.\<close>

definition gpt_parse :: "(nat \<Rightarrow> u8) \<Rightarrow> sector_read \<Rightarrow> (int \<times> partition_device list) kres" where
  "gpt_parse fresh rd =
     (let (e, bs) = rd 1 1 in
      kbind (store_front (fresh_bytes fresh (unat disk_block_size)) bs) (\<lambda>header.
      if e < 0 then Inr (-1, [])
      else if gpt_signature header \<noteq> GPT_HEADER_SIGNATURE \<or> gpt_part_num header = 0 then Inr (0, [])
      else
        let part_num = gpt_part_num header;
            table_size = part_num * gpt_entry_size header;
            table = fresh_bytes fresh (unat (round_up table_size disk_block_size)) in
        kbind (intervals_needed table_size disk_block_size) (\<lambda>sectors.
        let (e, bs) = rd (gpt_table_lba header) sectors in
        kbind (store_front table bs) (\<lambda>table.
        if e < 0 then Inr (-1, [])
        else kbind (gpt_entries table [0..<nat (sint part_num)]) (\<lambda>ps. Inr (1, ps))))))"

text \<open>Comparison of identifiers as four signed integers.\<close>

definition guid_eq :: "u8 list \<Rightarrow> u8 list \<Rightarrow> bool" where
  "guid_eq a b \<longleftrightarrow> (\<forall>k\<in>{0, 4, 8, 12}. get32 a k - get32 b k = 0)"

definition GUID_LINUX_FS_DATA :: "u8 list" where
  "GUID_LINUX_FS_DATA = [0xAF, 0x3D, 0xC6, 0x0F, 0x83, 0x84, 0x72, 0x47, 0x8E, 0x79, 0x3D, 0x69, 0xD8, 0x47, 0x7D, 0xE4]"

section \<open>What a reader of sectors promises\<close>

text \<open>
  A state is good when its sectors can be read; then a read that lies within them returns the number of sectors and
  their bytes.
\<close>

locale sector_reader =
  fixes sectors :: "'s \<Rightarrow> u8 list" and rd :: "'s \<Rightarrow> sector_read" and good :: "'s \<Rightarrow> bool"
  assumes read_sectors: "good s \<Longrightarrow> 0 < unat n \<Longrightarrow> unat n < 2 ^ 31 \<Longrightarrow> 512 * (unat lba + unat n) \<le> length (sectors s)
    \<Longrightarrow> rd s lba n = (int (unat n), take (512 * unat n) (drop (512 * unat lba) (sectors s)))"
begin

text \<open>\<open>read_bytes\<close> over such a reader.\<close>

lemma read_bytes_correct:
  assumes g: "good s" and n: "0 < unat n" "unat n + 512 < 2 ^ 32"
    and r: "512 * (unat lba + (unat n + 511) div 512) \<le> length (sectors s)"
  shows "\<exists>k. read_bytes fresh (rd s) lba n
    = Inr (Some (take (unat n) (drop (512 * unat lba) (sectors s)) @ replicate k 0))"
proof -
  let ?c = "(n + disk_block_size - 1) div disk_block_size"
  have c: "unat ?c = (unat n + 511) div 512"
    using unat_ceil_div [of disk_block_size n] n(2) by (simp add: disk_block_size_def)
  have cb: "0 < unat ?c" "unat ?c < 2 ^ 31" "512 * unat ?c < 2 ^ 32" "unat n \<le> 512 * unat ?c" using n c by auto
  have "unat (disk_block_size * ?c) = 512 * unat ?c"
    using unat_times_no_wrap [of disk_block_size ?c] cb(3) by (simp add: disk_block_size_def)
  note f = this
  have rd: "rd s lba ?c = (int (unat ?c), take (512 * unat ?c) (drop (512 * unat lba) (sectors s)))"
    using read_sectors [OF g cb(1,2)] r c by simp
  have l: "length (take (512 * unat ?c) (drop (512 * unat lba) (sectors s))) = 512 * unat ?c" using r c by simp
  have "\<not> disk_block_size * ?c < n" using f cb(4) by (simp add: word_less_nat_alt)
  moreover have "intervals_needed n disk_block_size = Inr ?c" by (simp add: intervals_needed_def disk_block_size_def)
  ultimately show ?thesis using rd l f cb(4) by (auto simp: read_bytes_def Let_def store_front_def min_def)
qed

end

section \<open>Partitions\<close>

definition reads_image :: "sector_read \<Rightarrow> u8 list \<Rightarrow> bool" where
  "reads_image rd img \<longleftrightarrow> (\<forall>lba n. 0 < unat n \<and> unat n < 2 ^ 31 \<and> 512 * (unat lba + unat n) \<le> length img
     \<longrightarrow> rd lba n = (int (unat n), take (512 * unat n) (drop (512 * unat lba) img)))"

text \<open>A whole disk, as \<open>gpt::parse\<close> and the driver of a file system read it.\<close>

interpretation whole: sector_reader snd fst "\<lambda>s. reads_image (fst s) (snd s)"
  by unfold_locales (simp add: reads_image_def)

definition partition_sectors :: "sector_read \<times> u8 list \<times> partition_device \<Rightarrow> u8 list" where
  "partition_sectors = (\<lambda>(rd, img, p). take (512 * (unat (p_end_lba p) - unat (p_start_lba p))) (drop (512 * unat (p_start_lba p)) img))"

definition partition_good :: "sector_read \<times> u8 list \<times> partition_device \<Rightarrow> bool" where
  "partition_good = (\<lambda>(rd, img, p). reads_image rd img \<and> unat (p_start_lba p) \<le> unat (p_end_lba p)
     \<and> 512 * unat (p_end_lba p) \<le> length img \<and> length img < 2 ^ 64)"

lemma partition_in_range_iff:
  assumes "unat (p_start_lba p) \<le> unat (p_end_lba p)" "512 * unat (p_end_lba p) < 2 ^ 64" "512 * unat lba + unat n < 2 ^ 64"
  shows "partition_in_range p lba n \<longleftrightarrow> 512 * unat lba + unat n \<le> 512 * (unat (p_end_lba p) - unat (p_start_lba p))"
proof -
  have "unat (p_end_lba p - p_start_lba p) = unat (p_end_lba p) - unat (p_start_lba p)"
    using assms(1) by (intro unat_minus_no_wrap) (simp add: word_le_nat_alt)
  moreover from this have "unat ((p_end_lba p - p_start_lba p) * 512) = (unat (p_end_lba p) - unat (p_start_lba p)) * 512"
    using assms(2) unat_times_no_wrap [of "p_end_lba p - p_start_lba p" "512 :: u64"] by simp
  moreover have l: "unat (lba * 512) = unat lba * 512" using assms(3) unat_times_no_wrap [of lba "512 :: u64"] by simp
  moreover have "unat (lba * 512 + ucast n) = unat lba * 512 + unat n"
    using l assms(3) unat_plus_no_wrap [of "lba * 512" "ucast n :: u64"] by simp
  ultimately show ?thesis by (simp add: partition_in_range_def disk_block_size_def word_less_nat_alt) linarith
qed

interpretation part: sector_reader partition_sectors "\<lambda>(rd, img, p). partition_read_block rd p" partition_good
proof
  fix s :: "sector_read \<times> u8 list \<times> partition_device" and lba :: u64 and n :: u32
  assume g: "partition_good s" and n: "0 < unat n" "unat n < 2 ^ 31" and r: "512 * (unat lba + unat n) \<le> length (partition_sectors s)"
  obtain rd img p where s: "s = (rd, img, p)" by (cases s)
  let ?a = "unat (p_start_lba p)" and ?e = "unat (p_end_lba p)"
  have G: "reads_image rd img" "?a \<le> ?e" "512 * ?e \<le> length img" "length img < 2 ^ 64"
    using g by (auto simp: s partition_good_def)
  have l: "length (partition_sectors s) = 512 * (?e - ?a)" using G(2,3) by (simp add: s partition_sectors_def)
  have r': "unat lba + unat n \<le> ?e - ?a" using r l by simp
  have b: "512 * ?e < 2 ^ 64" using G by linarith
  have "partition_in_range p lba n"
    using partition_in_range_iff [OF G(2) b, of lba n] r' b G(2) by simp
  moreover have "unat (lba + p_start_lba p) = unat lba + ?a" using r' b G(2) by (intro unat_plus_no_wrap) simp
  moreover have "rd (lba + p_start_lba p) n = (int (unat n), take (512 * unat n) (drop (512 * unat (lba + p_start_lba p)) img))"
    using G(1) n r' G(2,3) calculation(2) unfolding reads_image_def by auto
  moreover have "take (512 * unat n) (drop (512 * unat lba) (partition_sectors s)) = take (512 * unat n) (drop (512 * (unat lba + ?a)) img)"
    using r' by (simp add: s partition_sectors_def drop_take min_def algebra_simps)
  ultimately show "(case s of (rd, img, p) \<Rightarrow> partition_read_block rd p) lba n
    = (int (unat n), take (512 * unat n) (drop (512 * unat lba) (partition_sectors s)))"
    by (simp add: s partition_read_block_def)
qed

text \<open>
  C28. Reading bytes of a partition returns the bytes of the disk at the place where the partition starts, for every range
  that lies within the partition, followed by zeros.
\<close>

theorem partition_read_bytes_correct:
  assumes "partition_good (rd, img, p)" "0 < unat n" "unat n + 512 < 2 ^ 32"
    "unat lba + (unat n + 511) div 512 \<le> unat (p_end_lba p) - unat (p_start_lba p)"
  shows "\<exists>k. read_bytes fresh (partition_read_block rd p) lba n
    = Inr (Some (take (unat n) (drop (512 * (unat (p_start_lba p) + unat lba)) img) @ replicate k 0))"
proof -
  have "length (partition_sectors (rd, img, p)) = 512 * (unat (p_end_lba p) - unat (p_start_lba p))"
    using assms(1) by (auto simp: partition_sectors_def partition_good_def)
  then have r: "512 * (unat lba + (unat n + 511) div 512) \<le> length (partition_sectors (rd, img, p))" using assms(4) by simp
  have "unat n \<le> 512 * ((unat n + 511) div 512)" by simp
  then have "unat n \<le> 512 * (unat (p_end_lba p) - unat (p_start_lba p)) - 512 * unat lba" using assms(4) by linarith
  then have "take (unat n) (drop (512 * unat lba) (partition_sectors (rd, img, p)))
    = take (unat n) (drop (512 * (unat (p_start_lba p) + unat lba)) img)"
    by (simp add: partition_sectors_def drop_take min_def algebra_simps)
  then show ?thesis using part.read_bytes_correct [OF assms(1-3) r, of fresh] by simp
qed

text \<open>
  The test of the range lets a read of up to 512 sectors through that starts in the last sector of a partition, so it
  returns sectors of the partition that follows.
\<close>

theorem partition_read_escapes:
  assumes "unat (p_start_lba p) < unat (p_end_lba p)" "512 * unat (p_end_lba p) < 2 ^ 64" "unat n \<le> 512"
  shows "partition_read_block rd p (p_end_lba p - p_start_lba p - 1) n = rd (p_end_lba p - 1) n"
proof -
  have d: "unat (p_end_lba p - p_start_lba p) = unat (p_end_lba p) - unat (p_start_lba p)"
    using assms(1) by (intro unat_minus_no_wrap) (simp add: word_le_nat_alt)
  then have "1 \<le> p_end_lba p - p_start_lba p" using assms(1) by (simp add: word_le_nat_alt)
  then have l: "unat (p_end_lba p - p_start_lba p - 1) = unat (p_end_lba p) - unat (p_start_lba p) - 1"
    using d unat_minus_no_wrap by force
  have "partition_in_range p (p_end_lba p - p_start_lba p - 1) n"
    using partition_in_range_iff [of p "p_end_lba p - p_start_lba p - 1" n] l assms by auto
  then show ?thesis by (simp add: partition_read_block_def)
qed

theorem partition_read_escapes_witness:
  "partition_read_block (\<lambda>lba n. (int (unat lba), [])) \<lparr>p_start_lba = 10, p_end_lba = 20, p_type = []\<rparr> 9 8 = (19, [])"
  using partition_read_escapes [of "\<lparr>p_start_lba = 10, p_end_lba = 20, p_type = []\<rparr>" 8 "\<lambda>lba n. (int (unat lba), [])"] by simp

text \<open>
  The node of a disk takes the number of sectors that a successful read returns for an error: reading the device
  reports an I/O error whenever the disk delivered something.
\<close>

theorem disk_read_reports_error:
  assumes "reads_image rd img" "offset AND 512 = 0" "0 < unat (ucast len :: u32)" "unat (ucast len :: u32) < 2 ^ 31"
    "512 * (unat (offset div 512) + unat (ucast len :: u32)) \<le> length img"
  shows "disk_read rd offset len = (Inl EIO, take (512 * unat (ucast len :: u32)) (drop (512 * unat (offset div 512)) img))"
proof -
  have "rd (offset div 512) (ucast len) = (int (unat (ucast len :: u32)), take (512 * unat (ucast len :: u32)) (drop (512 * unat (offset div 512)) img))"
    using assms unfolding reads_image_def by blast
  moreover have "int (unat (ucast len :: u32)) \<noteq> 0" using assms(3) by linarith
  ultimately show ?thesis using assms(2) by (simp add: disk_read_def disk_block_size_def del: of_nat_unat)
qed

section \<open>The partition table\<close>

lemma and_not_512:
  fixes w :: u32
  shows "w AND NOT 512 = (if odd (unat w div 512) then w - 512 else w)"
proof -
  have "bit w 9 \<longleftrightarrow> odd (unat w div 512)" using bit_unsigned_iff [of w 9, where 'a = nat] by (simp add: bit_iff_odd)
  then show ?thesis using unset_bit_eq_and_not [of 9 w] unset_bit_eq [of 9 w] by (auto simp: of_bool_def)
qed

text \<open>The memory for the table is large enough exactly if the table has an even number of sectors.\<close>

lemma round_up_table:
  fixes n :: u32
  assumes "0 < unat n" "unat n + 512 < 2 ^ 32"
  shows "unat (round_up n 512) = (if odd ((unat n + 511) div 512) then unat n - 1 else unat n + 511)"
proof -
  have s: "unat (n + 512 - 1) = unat n + 511"
  proof -
    have "n + 512 - 1 = n + 511" by simp
    then show ?thesis using assms unat_plus_no_wrap [of n "511 :: u32"] by (simp only: unat_numeral) simp
  qed
  then have "512 \<le> n + 512 - 1" using assms(1) by (simp add: word_le_nat_alt)
  then have "unat (n + 512 - 1 - 512) = unat n - 1" using s unat_minus_no_wrap [of "512 :: u32" "n + 512 - 1"] by simp
  then show ?thesis using s unfolding round_up_def and_not_512 by (simp only: if_distrib split: if_split) simp
qed

text \<open>An entry of a table as bytes, and a disk with a table of such entries.\<close>

record gpt_row =
  row_type :: "u8 list"
  row_guid :: "u8 list"
  row_start :: u64
  row_end :: u64
  row_rest :: "u8 list"

definition row_ok :: "gpt_row \<Rightarrow> bool" where
  "row_ok r \<longleftrightarrow> length (row_type r) = 16 \<and> length (row_guid r) = 16 \<and> length (row_rest r) = 80"

definition row_bytes :: "gpt_row \<Rightarrow> u8 list" where
  "row_bytes r = row_type r @ row_guid r @ le_bytes 8 (unat (row_start r)) @ le_bytes 8 (unat (row_end r)) @ row_rest r"

definition row_partition :: "gpt_row \<Rightarrow> partition_device" where
  "row_partition r = \<lparr>p_start_lba = row_start r, p_end_lba = row_end r, p_type = row_type r\<rparr>"

definition gpt_disk :: "u8 list \<Rightarrow> gpt_row list \<Rightarrow> bool" where
  "gpt_disk img rows \<longleftrightarrow>
     (let h = take 512 (drop 512 img) in
      1024 \<le> length img \<and> gpt_signature h = GPT_HEADER_SIGNATURE \<and> gpt_part_num h = of_nat (length rows) \<and> gpt_entry_size h = 128
      \<and> rows \<noteq> [] \<and> length rows < 2 ^ 24 \<and> (\<forall>r\<in>set rows. row_ok r)
      \<and> 512 * (unat (gpt_table_lba h) + (128 * length rows + 511) div 512) \<le> length img
      \<and> take (128 * length rows) (drop (512 * unat (gpt_table_lba h)) img) = concat (map row_bytes rows))"

lemma length_row_bytes [simp]: "row_ok r \<Longrightarrow> length (row_bytes r) = 128"
  by (simp add: row_ok_def row_bytes_def)

lemma length_rows: "\<forall>r\<in>set rows. row_ok r \<Longrightarrow> length (concat (map row_bytes rows)) = 128 * length rows"
  by (induction rows) auto

lemma gpt_entry_row:
  assumes "drop (128 * i) table = row_bytes r @ rest" "row_ok r"
  shows "gpt_entry table i = Inr (row_partition r)"
proof -
  have "128 * i + 128 \<le> length table" using arg_cong [OF assms(1), of length] assms(2) by simp
  moreover have d: "drop (128 * i + k) table = drop k (row_bytes r @ rest)" for k using assms(1) by (metis add.commute drop_drop)
  have "get64 table (128 * i + 32) = row_start r" "get64 table (128 * i + 40) = row_end r"
    using d [of 32] d [of 40] assms(2) by (auto simp: row_bytes_def row_ok_def intro!: get64_encoded)
  moreover have "take 16 (drop (128 * i) table) = row_type r" using assms by (simp add: row_bytes_def row_ok_def)
  ultimately show ?thesis by (simp add: gpt_entry_def row_partition_def)
qed

definition kept_rows :: "gpt_row list \<Rightarrow> partition_device list" where
  "kept_rows rows = filter (\<lambda>p. p_end_lba p \<noteq> p_start_lba p) (map row_partition rows)"

lemma gpt_entries_rows:
  assumes "\<forall>r\<in>set rows. row_ok r" "drop (128 * i) table = concat (map row_bytes rows) @ rest"
  shows "gpt_entries table [i..<i + length rows] = Inr (kept_rows rows)"
  using assms
proof (induction rows arbitrary: i)
  case (Cons r rows)
  have "drop (128 * Suc i) table = drop 128 (drop (128 * i) table)" by simp
  also have "\<dots> = concat (map row_bytes rows) @ rest" using Cons.prems by simp
  finally have IH: "gpt_entries table [Suc i..<Suc i + length rows] = Inr (kept_rows rows)"
    using Cons.IH [of "Suc i"] Cons.prems(1) by simp
  have "[i..<i + length (r # rows)] = i # [Suc i..<Suc i + length rows]" by (simp add: upt_conv_Cons del: upt_Suc)
  moreover have "gpt_entry table i = Inr (row_partition r)" using Cons.prems by (intro gpt_entry_row) auto
  ultimately show ?case using IH by (simp add: kept_rows_def del: upt_Suc)
qed (simp add: kept_rows_def)

lemma gpt_parse_disk:
  assumes rd: "reads_image rd img" and d: "gpt_disk img rows"
  defines "n \<equiv> (128 * length rows + 511) div 512"
  shows "gpt_parse fresh rd = (if odd n then Inl Out_of_bounds else Inr (1, kept_rows rows))"
proof -
  let ?h = "take 512 (drop 512 img)" and ?m = "of_nat (length rows) :: u32"
  have D: "1024 \<le> length img" "gpt_signature ?h = GPT_HEADER_SIGNATURE" "gpt_part_num ?h = ?m" "gpt_entry_size ?h = 128"
    "rows \<noteq> []" "length rows < 2 ^ 24" "\<forall>r\<in>set rows. row_ok r" "512 * (unat (gpt_table_lba ?h) + n) \<le> length img"
    "take (128 * length rows) (drop (512 * unat (gpt_table_lba ?h)) img) = concat (map row_bytes rows)"
    using d by (auto simp: gpt_disk_def n_def Let_def)
  have m: "unat ?m = length rows" "?m \<noteq> 0" using D(5,6) unat_of_nat_small [of "length rows", where 'a = 32] by auto
  have sz: "unat (?m * 128) = 128 * length rows" using unat_times_no_wrap [of ?m "128 :: u32"] m(1) D(6) by simp
  have r1: "rd 1 1 = (1, ?h)" using rd D(1) unfolding reads_image_def by simp
  let ?c = "(?m * 128 + 512 - 1) div 512"
  have c: "unat ?c = n" using unat_ceil_div [of "512 :: u32" "?m * 128"] sz D(6) by (simp add: n_def)
  have nb: "0 < n" "n < 2 ^ 31" "128 * length rows \<le> 512 * n" using D(5,6) by (auto simp: n_def div_greater_zero_iff neq_Nil_conv)
  define t where "t = take (512 * n) (drop (512 * unat (gpt_table_lba ?h)) img)"
  have r2: "rd (gpt_table_lba ?h) ?c = (int n, t)" using rd D(8) c nb unfolding reads_image_def t_def by auto
  have lt: "length t = 512 * n" using D(8) by (simp add: t_def)
  have a: "unat (round_up (?m * 128) 512) = (if odd n then 128 * length rows - 1 else 128 * length rows + 511)"
    using round_up_table [of "?m * 128"] sz D(5,6) by (simp add: n_def)
  have iv: "intervals_needed (?m * 128) 512 = Inr ?c" by (simp add: intervals_needed_def)
  have si: "nat (sint ?m) = length rows" using D(6) by (simp add: signed_of_nat signed_take_bit_int_eq_self)
  have P: "gpt_parse fresh rd = kbind (store_front (fresh_bytes fresh (unat (round_up (?m * 128) 512))) t)
      (\<lambda>table. kbind (gpt_entries table [0..<length rows]) (\<lambda>ps. Inr (1, ps)))"
    using D(1-4) m(2) r1 r2 iv si by (simp add: gpt_parse_def Let_def store_front_def disk_block_size_def)
  show ?thesis
  proof (cases "odd n")
    case True
    then have "\<not> length t \<le> unat (round_up (?m * 128) 512)" using a lt nb D(5) by simp
    then show ?thesis using True P by (simp add: store_front_def)
  next
    case False
    have "512 * n \<le> 128 * length rows + 511" by (simp add: n_def)
    then have "store_front (fresh_bytes fresh (unat (round_up (?m * 128) 512))) t
      = Inr (t @ drop (512 * n) (fresh_bytes fresh (128 * length rows + 511)))" using False a lt by (simp add: store_front_def)
    moreover have "t = concat (map row_bytes rows) @ drop (128 * length rows) t"
    proof -
      have "take (128 * length rows) t = concat (map row_bytes rows)" using D(9) nb(3) by (simp add: t_def min_def)
      then show ?thesis by (metis append_take_drop_id)
    qed
    ultimately show ?thesis using False P gpt_entries_rows [OF D(7), of 0] by (metis (no_types, lifting) add_0 append.assoc drop0 kbind_simps(2) mult_0_right)
  qed
qed

text \<open>
  C16. On a disk with a partition table of 128-byte entries that fills an even number of sectors (as the usual 128 entries
  do), parsing succeeds and yields exactly the entries whose first and last sector differ, in order, with their first
  and last sector and type.
\<close>

theorem gpt_parse_correct:
  assumes "reads_image rd img" "gpt_disk img rows" "even ((128 * length rows + 511) div 512)"
  shows "gpt_parse fresh rd = Inr (1, filter (\<lambda>p. p_end_lba p \<noteq> p_start_lba p) (map row_partition rows))"
  using gpt_parse_disk [OF assms(1,2), of fresh] assms(3) by (simp add: kept_rows_def)

text \<open>
  If the table fills an odd number of sectors, the memory allocated for it is too small, because \<open>round_up\<close> clears
  the wrong bits, and reading the table writes past its end.
\<close>

theorem gpt_parse_overflows:
  assumes "reads_image rd img" "gpt_disk img rows" "odd ((128 * length rows + 511) div 512)"
  shows "gpt_parse fresh rd = Inl Out_of_bounds"
  using gpt_parse_disk [OF assms(1,2), of fresh] assms(3) by simp

section \<open>Witnesses\<close>

definition image_reader :: "u8 list \<Rightarrow> sector_read" where
  "image_reader img lba n =
     (if 512 * (unat lba + unat n) \<le> length img then (int (unat n), take (512 * unat n) (drop (512 * unat lba) img)) else (-1, []))"

lemma image_reader_reads: "reads_image (image_reader img) img"
  by (simp add: reads_image_def image_reader_def)

definition demo_row :: gpt_row where
  "demo_row = \<lparr>row_type = GUID_LINUX_FS_DATA, row_guid = replicate 16 0, row_start = 34, row_end = 40, row_rest = replicate 80 0\<rparr>"

definition demo_empty_row :: gpt_row where
  "demo_empty_row = demo_row\<lparr>row_start := 0, row_end := 0\<rparr>"

definition demo_gpt :: "gpt_row list \<Rightarrow> u8 list" where
  "demo_gpt rows = replicate 512 0 @ le_bytes 8 0x5452415020494645 @ replicate 64 0 @ le_bytes 8 2 @ le_bytes 4 (length rows)
     @ le_bytes 4 128 @ replicate 424 0 @ concat (map row_bytes rows) @ replicate 1024 0"

lemma demo_gpt_disk:
  assumes "rows \<noteq> []" "length rows < 2 ^ 24" "\<forall>r\<in>set rows. row_ok r"
  shows "gpt_disk (demo_gpt rows) rows"
proof -
  have l: "length (demo_gpt rows) = 2048 + 128 * length rows" using length_rows [OF assms(3)] by (simp add: demo_gpt_def)
  let ?h = "take 512 (drop 512 (demo_gpt rows))"
  have h: "?h = le_bytes 8 (unat (0x5452415020494645 :: u64)) @ replicate 64 0 @ le_bytes 8 (unat (2 :: u64))
      @ le_bytes 4 (unat (of_nat (length rows) :: u32)) @ le_bytes 4 (unat (128 :: u32)) @ replicate 424 0"
    using unat_of_nat_small [of "length rows", where 'a = 32] assms(2) by (simp add: demo_gpt_def)
  have d0: "get64 ?h 0 = 0x5452415020494645" unfolding h by (rule get64_encoded) simp
  have d1: "get64 ?h 72 = 2" unfolding h by (rule get64_encoded) simp
  have d2: "get32 ?h 80 = of_nat (length rows)" unfolding h by (rule get32_encoded) simp
  have d3: "get32 ?h 84 = 128" unfolding h by (rule get32_encoded) simp
  have "take (128 * length rows) (drop 1024 (demo_gpt rows)) = concat (map row_bytes rows)"
    using length_rows [OF assms(3)] by (simp add: demo_gpt_def)
  moreover have "512 * ((128 * length rows + 511) div 512) \<le> 128 * length rows + 511" by simp
  ultimately show ?thesis using assms l d0 d1 d2 d3
    by (simp add: gpt_disk_def gpt_signature_def gpt_part_num_def gpt_entry_size_def gpt_table_lba_def GPT_HEADER_SIGNATURE_def)
qed

lemma demo_rows_ok [simp]: "row_ok demo_row" "row_ok demo_empty_row"
  by (simp_all add: row_ok_def demo_row_def demo_empty_row_def GUID_LINUX_FS_DATA_def)

theorem gpt_parse_correct_witness:
  "gpt_parse (\<lambda>_. 0) (image_reader (demo_gpt ([demo_row, demo_empty_row, demo_row, demo_row, demo_row, demo_row])))
     = Inr (1, map row_partition [demo_row, demo_row, demo_row, demo_row, demo_row])"
proof -
  let ?rows = "[demo_row, demo_empty_row, demo_row, demo_row, demo_row, demo_row]"
  have "gpt_disk (demo_gpt ?rows) ?rows" by (intro demo_gpt_disk) auto
  from gpt_parse_correct [OF image_reader_reads this, of "\<lambda>_. 0"] show ?thesis
    by (simp add: row_partition_def demo_row_def demo_empty_row_def)
qed

theorem gpt_parse_overflows_witness:
  "gpt_parse (\<lambda>_. 0) (image_reader (demo_gpt [demo_row])) = Inl Out_of_bounds"
proof -
  have "gpt_disk (demo_gpt [demo_row]) [demo_row]" by (intro demo_gpt_disk) auto
  from gpt_parse_overflows [OF image_reader_reads this, of "\<lambda>_. 0"] show ?thesis by simp
qed

theorem partition_read_bytes_correct_witness:
  "\<exists>k. read_bytes (\<lambda>_. 0) (partition_read_block (image_reader (replicate 5120 7)) \<lparr>p_start_lba = 1, p_end_lba = 10, p_type = []\<rparr>) 2 600
     = Inr (Some (replicate 600 7 @ replicate k 0))"
proof -
  let ?p = "\<lparr>p_start_lba = 1, p_end_lba = 10, p_type = []\<rparr>"
  have "partition_good (image_reader (replicate 5120 7), replicate 5120 7, ?p)"
    by (simp add: partition_good_def image_reader_reads)
  from partition_read_bytes_correct [OF this, of 600 2 "\<lambda>_. 0"] show ?thesis by simp
qed

theorem disk_read_reports_error_witness:
  "disk_read (image_reader (replicate 5120 7)) 1024 3 = (Inl EIO, replicate 1536 7)"
  using disk_read_reports_error [OF image_reader_reads, of 1024 3 "replicate 5120 7"] by simp

end
