(* ===== verification/Ext2.thy ===== *)
theory Ext2
  imports Storage LruCache Locks
begin

unbundle bit_operations_syntax

text \<open>
  The driver for the second extended file system, \<^verbatim>\<open>Kernel/src/fs/ext2.cpp\<close> and \<^verbatim>\<open>Kernel/include/fs/ext2.h\<close>: the
  state of a mounted volume with its caches, the reading of blocks and inodes, the block map of a file, reading,
  listing and lookup.  The partition is a reader of sectors; \<open>io_fresh\<close> is what memory from \<open>malloc\<close> and arrays on the
  stack hold before they are filled, \<open>io_inode\<close> what an uninitialised inode on the stack holds.  Every
  \<^verbatim>\<open>if(int e = f(...) < 0)\<close> of the source gives \<open>e\<close> the value of the comparison, so the number returned on an error is 1.
  Log messages are not modelled, and a node that a cache deletes is not tracked further.
\<close>

section \<open>Model\<close>

record super_block =
  sb_inode_count :: u32
  sb_block_count :: u32
  sb_r_block_count :: u32
  sb_free_block_count :: u32
  sb_free_inode_count :: u32
  sb_first_data_block :: u32
  sb_log_block_size :: u32
  sb_log_frag_size :: u32
  sb_blocks_per_group :: u32
  sb_frags_per_group :: u32
  sb_inodes_per_group :: u32
  sb_mtime :: u32
  sb_wtime :: u32
  sb_mnt_count :: u16
  sb_max_mnt_count :: u16
  sb_magic :: u16
  sb_state :: u16
  sb_errors :: u16
  sb_minor_rev_level :: u16
  sb_last_check :: u32
  sb_check_interval :: u32
  sb_creator_os :: u32
  sb_rev_level :: u32
  sb_def_resuid :: u16
  sb_def_resgid :: u16

definition super_block_at :: "u8 list \<Rightarrow> super_block" where
  "super_block_at bs = \<lparr>sb_inode_count = get32 bs 0, sb_block_count = get32 bs 4, sb_r_block_count = get32 bs 8,
     sb_free_block_count = get32 bs 12, sb_free_inode_count = get32 bs 16, sb_first_data_block = get32 bs 20,
     sb_log_block_size = get32 bs 24, sb_log_frag_size = get32 bs 28, sb_blocks_per_group = get32 bs 32,
     sb_frags_per_group = get32 bs 36, sb_inodes_per_group = get32 bs 40, sb_mtime = get32 bs 44,
     sb_wtime = get32 bs 48, sb_mnt_count = get16 bs 52, sb_max_mnt_count = get16 bs 54,
     sb_magic = get16 bs 56, sb_state = get16 bs 58, sb_errors = get16 bs 60, sb_minor_rev_level = get16 bs 62,
     sb_last_check = get32 bs 64, sb_check_interval = get32 bs 68, sb_creator_os = get32 bs 72,
     sb_rev_level = get32 bs 76, sb_def_resuid = get16 bs 80, sb_def_resgid = get16 bs 82\<rparr>"

text \<open>The part that later revisions add starts after the 84 bytes of \<open>ext2_super_block_t\<close>.\<close>

definition sbe_inode_size :: "u8 list \<Rightarrow> u16" where "sbe_inode_size bs = get16 bs 88"

definition sbe_feature_incompat :: "u8 list \<Rightarrow> u32" where "sbe_feature_incompat bs = get32 bs 96"

definition sbe_feature_ro_compat :: "u8 list \<Rightarrow> u32" where "sbe_feature_ro_compat bs = get32 bs 100"

record ext2_inode =
  i_mode :: u16
  i_uid :: u16
  i_size :: u32
  i_atime :: u32
  i_ctime :: u32
  i_mtime :: u32
  i_dtime :: u32
  i_gid :: u16
  i_links_count :: u16
  i_blocks :: u32
  i_flags :: u32
  i_osd1 :: u32
  i_block :: "u32 list"
  i_generation :: u32
  i_file_acl :: u32
  i_dir_acl :: u32
  i_faddr :: u32
  i_osd2 :: "u8 list"

definition inode_at :: "u8 list \<Rightarrow> nat \<Rightarrow> ext2_inode" where
  "inode_at bs off = \<lparr>i_mode = get16 bs off, i_uid = get16 bs (off + 2), i_size = get32 bs (off + 4), i_atime = get32 bs (off + 8),
     i_ctime = get32 bs (off + 12), i_mtime = get32 bs (off + 16), i_dtime = get32 bs (off + 20), i_gid = get16 bs (off + 24),
     i_links_count = get16 bs (off + 26), i_blocks = get32 bs (off + 28), i_flags = get32 bs (off + 32), i_osd1 = get32 bs (off + 36),
     i_block = map (\<lambda>k. get32 bs (off + 40 + 4 * k)) [0..<15], i_generation = get32 bs (off + 100), i_file_acl = get32 bs (off + 104),
     i_dir_acl = get32 bs (off + 108), i_faddr = get32 bs (off + 112), i_osd2 = take 12 (drop (off + 116) bs)\<rparr>"

record ext2_node =
  n_inode :: u32
  n_uid :: u32
  n_size :: u64
  n_flags :: u32
  n_link_count :: u64
  n_ext2_inode :: ext2_inode

definition new_ext2_node :: "ext2_inode \<Rightarrow> u32 \<Rightarrow> ext2_node" where
  "new_ext2_node ino num =
     \<lparr>n_inode = num, n_uid = ucast (i_uid ino), n_size = ucast (i_size ino),
      n_flags = (let t = (ucast (i_mode ino) :: u32) AND 0xF000 in
                 if t = 0x6000 then FS_NODE_BLKDEVICE else if t = 0x2000 then FS_NODE_CHARDEVICE
                 else if t = 0x4000 then FS_NODE_DIRECTORY else if t = 0xA000 then FS_NODE_SYMLINK
                 else if t = 0xC000 then FS_NODE_SOCKET else FS_NODE_FILE),
      n_link_count = ucast (i_links_count ino), n_ext2_inode = ino\<rparr>"

record ext2_volume =
  e_sb :: super_block
  e_file_type :: bool
  e_large_files :: bool
  e_sparse :: bool
  e_groups :: "u8 list"
  e_block_size :: u32
  e_inode_size :: u32
  e_block_cache :: "(u32, u8 list) lru_cache"
  e_inode_cache :: "(u32, ext2_node) lru_cache"
  e_root :: "ext2_node option"
  e_error :: nat

record disk_io =
  io_read :: sector_read
  io_fresh :: "nat \<Rightarrow> u8"
  io_inode :: ext2_inode

definition DISK_READ_ERROR :: nat where "DISK_READ_ERROR = 1"

definition INCOMPATIBLE_ERROR :: nat where "INCOMPATIBLE_ERROR = 5"

definition INODE_IND_BLOCK :: nat where "INODE_IND_BLOCK = 12"

definition INODE_DIND_BLOCK :: nat where "INODE_DIND_BLOCK = 13"

definition INODE_TIND_BLOCK :: nat where "INODE_TIND_BLOCK = 14"

definition ROOT_DIR_INODE :: u32 where "ROOT_DIR_INODE = 2"

definition SUPER_MAGIC :: u16 where "SUPER_MAGIC = 0xEF53"

text \<open>The location is not used: the result is always 0.\<close>

definition location_to_block :: "u64 \<Rightarrow> u32 \<Rightarrow> u32" where
  "location_to_block l log_block_size = drop_bit 10 (drop_bit (unat log_block_size) 1)"

definition block_to_lba :: "u64 \<Rightarrow> u32 \<Rightarrow> u32 \<Rightarrow> u64 kres" where
  "block_to_lba block block_size sector_size =
     (if sector_size = 0 then Inl Div_by_zero else Inr (block * ucast (block_size div sector_size)))"

subsection \<open>Blocks and inodes\<close>

text \<open>
  Reading a block: the result, the buffer and the volume.  The cache holds the block even if the disk delivered fewer
  bytes than a block has.
\<close>

definition read_block :: "disk_io \<Rightarrow> u32 \<Rightarrow> bool \<Rightarrow> u8 list \<Rightarrow> ext2_volume \<Rightarrow> (int \<times> u8 list \<times> ext2_volume) kres" where
  "read_block io block_num cache buffer v =
     (if block_num > sb_block_count (e_sb v) then Inr (-1, buffer, v)
      else
        let sectors_per_block = e_block_size v div disk_block_size;
            (e, bs) = io_read io (ucast (block_num * sectors_per_block)) sectors_per_block in
        if cache then
          (case lru_get block_num (e_block_cache v) of
             Some b \<Rightarrow> kbind (store_front buffer b) (\<lambda>buffer. Inr (1, buffer, v))
           | None \<Rightarrow>
               kbind (store_front (fresh_bytes (io_fresh io) (unat (e_block_size v))) bs) (\<lambda>b.
               if e < 0 then Inr (1, buffer, v)
               else kbind (lru_set block_num b (e_block_cache v)) (\<lambda>(_, c).
                    kbind (store_front buffer b) (\<lambda>buffer. Inr (1, buffer, v\<lparr>e_block_cache := c\<rparr>)))))
        else kbind (store_front buffer bs) (\<lambda>buffer. Inr (e, buffer, v)))"

text \<open>On an error the inode of the caller is left alone.\<close>

definition read_inode :: "disk_io \<Rightarrow> u32 \<Rightarrow> ext2_volume \<Rightarrow> (int \<times> ext2_inode option \<times> ext2_volume) kres" where
  "read_inode io number v =
     (let num = (ucast number :: u64) - 1; ipg = sb_inodes_per_group (e_sb v) in
      if ipg = 0 \<or> e_block_size v = 0 \<or> e_inode_size v = 0 \<or> e_block_size v div e_inode_size v = 0 then Inl Div_by_zero
      else
        let bg_number = ucast (num div ucast ipg) :: u32;
            bg_offset = ucast (num mod ucast ipg) :: u32 in
        if 32 * unat bg_number + 32 > length (e_groups v) then Inl Out_of_bounds
        else
          let inode_table_block = get32 (e_groups v) (32 * unat bg_number + 8);
              inode_block_num = bg_offset * e_inode_size v div e_block_size v;
              inode_block_offset = bg_offset mod (e_block_size v div e_inode_size v) in
          kbind (read_block io (inode_table_block + inode_block_num) False (fresh_bytes (io_fresh io) (unat (e_block_size v))) v)
            (\<lambda>(e, val, v).
             if e < 0 then Inr (1, None, v)
             else if unat (e_inode_size v * inode_block_offset) + 128 \<le> length val
             then Inr (0, Some (inode_at val (unat (e_inode_size v * inode_block_offset))), v)
             else Inl Out_of_bounds))"

definition inode_lba :: "ext2_volume \<Rightarrow> u32 \<Rightarrow> u64 kres" where
  "inode_lba v num =
     (let ipg = sb_inodes_per_group (e_sb v) in
      if ipg = 0 then Inl Div_by_zero
      else if 32 * unat ((num - 1) div ipg) + 32 > length (e_groups v) then Inl Out_of_bounds
      else let block = get32 (e_groups v) (32 * unat ((num - 1) div ipg) + 8)
           in Inr (ucast ((block * e_block_size v + ((num - 1) mod ipg) * e_inode_size v) div disk_block_size)))"

subsection \<open>The block map of a file\<close>

definition word_at :: "u8 list \<Rightarrow> u32 \<Rightarrow> u32 kres" where
  "word_at buf k = (if 4 * unat k + 4 \<le> length buf then Inr (get32 buf (4 * unat k)) else Inl Out_of_bounds)"

text \<open>
  The block with number \<open>index\<close> of a file: directly, or through one, two or three blocks of block numbers.  The indices
  into the second and third level are computed as the source does.
\<close>

definition single_indirect :: "disk_io \<Rightarrow> ext2_inode \<Rightarrow> u32 \<Rightarrow> u8 list \<Rightarrow> ext2_volume \<Rightarrow> (int sysret \<times> ext2_volume) kres" where
  "single_indirect io ino index buf v =
     kbind (read_block io (i_block ino ! INODE_IND_BLOCK) True buf v) (\<lambda>(e, buf, v).
     if e < 0 then Inr (Inr 1, v) else kbind (word_at buf index) (\<lambda>w. Inr (Inr (uint w), v)))"

definition double_indirect :: "disk_io \<Rightarrow> ext2_inode \<Rightarrow> u32 \<Rightarrow> u32 \<Rightarrow> u8 list \<Rightarrow> ext2_volume \<Rightarrow> (int sysret \<times> ext2_volume) kres" where
  "double_indirect io ino index epb buf v =
     kbind (read_block io (i_block ino ! INODE_DIND_BLOCK) True buf v) (\<lambda>(e, buf, v).
     if e < 0 then Inr (Inr 1, v)
     else kbind (word_at buf (index div epb)) (\<lambda>b.
          kbind (read_block io b False buf v) (\<lambda>(e, buf, v).
          if e < 0 then Inr (Inr 1, v) else kbind (word_at buf (index mod epb)) (\<lambda>w. Inr (Inr (uint w), v)))))"

definition triple_indirect :: "disk_io \<Rightarrow> ext2_inode \<Rightarrow> u32 \<Rightarrow> u32 \<Rightarrow> u8 list \<Rightarrow> ext2_volume \<Rightarrow> (int sysret \<times> ext2_volume) kres" where
  "triple_indirect io ino index epb buf v =
     kbind (read_block io (i_block ino ! INODE_TIND_BLOCK) True buf v) (\<lambda>(e, buf, v).
     if e < 0 then Inr (Inr 1, v)
     else if epb * epb = 0 then Inl Div_by_zero
     else kbind (word_at buf (index div (epb * epb))) (\<lambda>b.
          kbind (read_block io b True buf v) (\<lambda>(e, buf, v).
          if e < 0 then Inr (Inr 1, v)
          else kbind (word_at buf (index div epb)) (\<lambda>b.
               kbind (read_block io b True buf v) (\<lambda>(e, buf, v).
               if e < 0 then Inr (Inr 1, v) else kbind (word_at buf (index mod epb)) (\<lambda>w. Inr (Inr (uint w), v)))))))"

definition find_data_block :: "disk_io \<Rightarrow> ext2_inode \<Rightarrow> u32 \<Rightarrow> ext2_volume \<Rightarrow> (int sysret \<times> ext2_volume) kres" where
  "find_data_block io ino index v =
     (let ind = of_nat INODE_IND_BLOCK; epb = e_block_size v div 4;
          buf = fresh_bytes (io_fresh io) (4 * unat epb);
          max2 = ind + epb * epb;
          max3 = max2 + ucast (((ucast (e_block_size v) :: u64) div 4) * ucast (e_block_size v) * ucast (e_block_size v)) in
      if index < ind then Inr (Inr (uint (i_block ino ! unat index)), v)
      else if index < ind + epb then single_indirect io ino (index - ind) buf v
      else if index < max2 then double_indirect io ino (index - ind) epb buf v
      else if index > max3 then Inr (Inl EINVAL, v)
      else triple_indirect io ino (index - ind) epb buf v)"

fun data_block_list :: "disk_io \<Rightarrow> ext2_inode \<Rightarrow> nat list \<Rightarrow> ext2_volume \<Rightarrow> (u32 list sysret \<times> ext2_volume) kres" where
  "data_block_list io ino [] v = Inr (Inr [], v)"
| "data_block_list io ino (i # is) v =
     kbind (find_data_block io ino (of_nat i) v) (\<lambda>(r, v).
     case r of Inl e \<Rightarrow> Inr (Inl e, v)
     | Inr b \<Rightarrow>
         if b < 0 then Inr (Inl EINVAL, v)
         else kbind (data_block_list io ino is v) (\<lambda>(rs, v). Inr (map_sum id ((#) (of_int b)) rs, v)))"

definition find_data_blocks :: "disk_io \<Rightarrow> ext2_inode \<Rightarrow> u32 \<Rightarrow> u32 \<Rightarrow> ext2_volume \<Rightarrow> (u32 list sysret \<times> ext2_volume) kres" where
  "find_data_blocks io ino from to v = data_block_list io ino [unat from..<unat to] v"

subsection \<open>Reading a file\<close>

definition put_bytes :: "u8 list \<Rightarrow> nat \<Rightarrow> u8 list \<Rightarrow> u8 list kres" where
  "put_bytes buf pos bs = (if pos + length bs \<le> length buf then Inr (overwrite buf pos bs) else Inl Out_of_bounds)"

text \<open>
  The copying loop; \<open>first\<close> is true in the first round and \<open>pos\<close> is the place of the pointer \<open>b\<close> in the caller's buffer.
  The flag of the result says that the loop ended normally.
\<close>

fun copy_blocks ::
  "disk_io \<Rightarrow> bool \<Rightarrow> u32 \<Rightarrow> u32 \<Rightarrow> u64 \<Rightarrow> u32 list \<Rightarrow> u8 list \<Rightarrow> u8 list \<Rightarrow> nat \<Rightarrow> ext2_volume
     \<Rightarrow> (bool \<times> u8 list \<times> ext2_volume) kres" where
  "copy_blocks io first start_off end_size len [] data buf pos v = Inr (True, buf, v)"
| "copy_blocks io first start_off end_size len (b # bs) data buf pos v =
     kbind (read_block io b True data v) (\<lambda>(e, data, v).
     if e < 0 then Inr (False, buf, v)
     else
       let piece = (if first then take (unat (kstd_min (e_block_size v - start_off) (ucast len))) (drop (unat start_off) data)
                    else if bs = [] then take (unat end_size) data
                    else take (unat (e_block_size v)) data) in
       kbind (put_bytes buf pos piece) (\<lambda>buf.
       copy_blocks io False start_off end_size len bs data buf (pos + length piece) v))"

definition ext2_read :: "disk_io \<Rightarrow> ext2_node \<Rightarrow> u64 \<Rightarrow> u64 \<Rightarrow> u8 list \<Rightarrow> ext2_volume \<Rightarrow> (u64 sysret \<times> u8 list \<times> ext2_volume) kres" where
  "ext2_read io node offset len buffer v =
     (if offset \<ge> n_size node then Inr (Inr 0, buffer, v)
      else
        let len = (if offset + len > n_size node then n_size node - offset else len) in
        if e_block_size v = 0 then Inl Div_by_zero
        else
          let bs = ucast (e_block_size v) :: u64;
              start_block_num = ucast (offset div bs) :: u32;
              start_block_offset = ucast (offset mod bs) :: u32;
              end_block_size = ucast ((offset + len) mod bs) :: u32 in
          kbind (intervals_needed (offset + len) bs) (\<lambda>k.
          let end_block_num = ucast k :: u32 in
          kbind (find_data_blocks io (n_ext2_inode node) start_block_num end_block_num v) (\<lambda>(r, v).
          case r of Inl e \<Rightarrow> Inr (Inl e, buffer, v)
          | Inr blocks \<Rightarrow>
              if length blocks \<noteq> unat (end_block_num - start_block_num) then Inl Out_of_bounds
              else kbind (copy_blocks io True start_block_offset end_block_size len blocks
                            (fresh_bytes (io_fresh io) (unat (e_block_size v))) buffer 0 v) (\<lambda>(ok, buffer, v).
                   Inr (Inr (if ok then len else 1), buffer, v)))))"

definition ext2_write :: "u64 sysret" where "ext2_write = Inl ENOSYS"

text \<open>A short target is stored in the inode itself, in the place of the block numbers.\<close>

definition ext2_read_link :: "disk_io \<Rightarrow> ext2_node \<Rightarrow> u64 \<Rightarrow> u8 list \<Rightarrow> ext2_volume \<Rightarrow> (u64 sysret \<times> u8 list \<times> ext2_volume) kres" where
  "ext2_read_link io node len buffer v =
     (if \<not> is_symlink (n_flags node) then Inr (Inl EINVAL, buffer, v)
      else if n_size node \<le> 60 then
        let copy_size = kstd_min len (n_size node);
            target = concat (map (\<lambda>w. le_bytes 4 (unat w)) (i_block (n_ext2_inode node)));
            text = takeWhile (\<lambda>c. c \<noteq> 0) (take (unat copy_size) target) in
        kbind (put_bytes buffer 0 (text @ replicate (unat copy_size - length text) 0)) (\<lambda>buffer. Inr (Inr copy_size, buffer, v))
      else ext2_read io node 0 len buffer v)"

subsection \<open>Directories\<close>

record dirent =
  de_inode :: u32
  de_rec_len :: nat
  de_name_len :: nat
  de_file_type :: u8

definition dirent_at :: "u8 list \<Rightarrow> nat \<Rightarrow> dirent kres" where
  "dirent_at buf off =
     (if off + 8 \<le> length buf
      then Inr \<lparr>de_inode = get32 buf off, de_rec_len = unat (get16 buf (off + 4)), de_name_len = unat (buf ! (off + 6)), de_file_type = buf ! (off + 7)\<rparr>
      else Inl Out_of_bounds)"

text \<open>
  The comparison of a name with that of the entry at \<open>off\<close>; it reads past the buffer if the entry does and all bytes up
  to there agree.
\<close>

definition name_matches :: "name \<Rightarrow> u8 list \<Rightarrow> nat \<Rightarrow> dirent \<Rightarrow> bool kres" where
  "name_matches nm buf off d =
     (if min (length nm) NAME_MAX \<noteq> de_name_len d then Inr False
      else let avail = drop (off + 8) buf in
        if de_name_len d \<le> length avail then Inr (strn_eq (de_name_len d) nm avail)
        else if strn_eq (length avail) nm avail then Inl Out_of_bounds
        else Inr False)"

text \<open>Loading a block of a directory; the flag of the result is false if the caller gives up.\<close>

definition load_dir_block :: "disk_io \<Rightarrow> ext2_node \<Rightarrow> nat \<Rightarrow> bool \<Rightarrow> u8 list \<Rightarrow> ext2_volume \<Rightarrow> (bool \<times> u8 list \<times> ext2_volume) kres" where
  "load_dir_block io node current_block cache buf v =
     kbind (find_data_block io (n_ext2_inode node) (of_nat current_block) v) (\<lambda>(r, v).
     case r of Inl e \<Rightarrow> Inr (False, buf, v\<lparr>e_error := DISK_READ_ERROR\<rparr>)
     | Inr block_num \<Rightarrow>
         if block_num < 1 then Inr (False, buf, v\<lparr>e_error := DISK_READ_ERROR\<rparr>)
         else kbind (read_block io (of_int block_num) cache buf v) (\<lambda>(e, buf, v).
              if e < 0 then Inr (False, buf, v\<lparr>e_error := DISK_READ_ERROR\<rparr>) else Inr (True, buf, v)))"

text \<open>The number of blocks of the directory, from the number of sectors in the inode.\<close>

definition dir_blocks :: "ext2_node \<Rightarrow> ext2_volume \<Rightarrow> nat kres" where
  "dir_blocks node v =
     (if e_block_size v div disk_block_size = 0 then Inl Div_by_zero
      else Inr (unat (i_blocks (n_ext2_inode node) div (e_block_size v div disk_block_size))))"

text \<open>
  The loop of \<open>read_dir\<close>.  Its early returns are \<open>Inl\<close>; otherwise the result is the place of the entry.  Offsets stay
  below the size of a block plus \<open>2 ^ 16\<close>.
\<close>

function list_loop ::
  "disk_io \<Rightarrow> ext2_node \<Rightarrow> nat \<Rightarrow> nat \<Rightarrow> nat \<Rightarrow> nat \<Rightarrow> u8 list \<Rightarrow> ext2_volume \<Rightarrow> ((int + nat) \<times> u8 list \<times> ext2_volume) kres" where
  "list_loop io node i index current_block block_offset buf v =
     (if i < index then
        kbind (dirent_at buf block_offset) (\<lambda>d.
        if de_rec_len d = 0 then Inr (Inl 0, buf, v)
        else if de_rec_len d < 8 then Inr (Inr block_offset, buf, v)
        else
          let next = block_offset + de_rec_len d;
              index = (if de_inode d = 0 then index - 1 else index) in
          if next > unat (e_block_size v) then
            kbind (dir_blocks node v) (\<lambda>limit.
            if current_block + 1 \<ge> limit then Inr (Inl 0, buf, v)
            else kbind (load_dir_block io node (current_block + 1) False buf v) (\<lambda>(ok, buf, v).
                 if \<not> ok then Inr (Inl (-1), buf, v) else list_loop io node (i + 1) index (current_block + 1) 0 buf v))
          else list_loop io node (i + 1) index current_block next buf v)
      else Inr (Inr block_offset, buf, v))"
  by pat_completeness auto
termination by (relation "measure (\<lambda>(io, node, i, index, rest). index - i)") (auto split: if_splits)

declare list_loop.simps [simp del]

text \<open>The type of an entry; an unknown one leaves the flags of the caller's entry alone.\<close>

definition dirent_flags :: "u8 \<Rightarrow> u32 option" where
  "dirent_flags t =
     (if t = 1 then Some 8 else if t = 2 then Some 4 else if t = 3 then Some 2 else if t = 4 then Some 6
      else if t = 5 then Some 1 else if t = 6 then Some 12 else if t = 7 then Some 10 else None)"

text \<open>The result is \<open>Inl\<close> an error, or the returned number with the entry if that is 1.\<close>

definition ext2_read_dir ::
  "disk_io \<Rightarrow> ext2_node \<Rightarrow> u32 \<Rightarrow> ext2_volume \<Rightarrow> (int sysret \<times> (name \<times> u32 option) option \<times> ext2_volume) kres" where
  "ext2_read_dir io node index v =
     (if \<not> is_dir (n_flags node) then Inr (Inl ENOTDIR, None, v)
      else if n_inode node = 0 then Inr (Inl EINVAL, None, v)
      else kbind (load_dir_block io node 0 False (fresh_bytes (io_fresh io) (unat (e_block_size v))) v) (\<lambda>(ok, buf, v).
        if \<not> ok then Inr (Inr (-1), None, v)
        else kbind (list_loop io node 0 (unat index) 0 0 buf v) (\<lambda>(r, buf, v).
          case r of Inl n \<Rightarrow> Inr (Inr n, None, v)
          | Inr off \<Rightarrow> kbind (dirent_at buf off) (\<lambda>d.
              if off + 8 + de_name_len d \<le> length buf
              then Inr (Inr 1, Some (take (de_name_len d) (drop (off + 8) buf), dirent_flags (de_file_type d)), v)
              else Inl Out_of_bounds))))"

text \<open>
  The loop of \<open>find_dir\<close>: \<open>None\<close> for a return of the null pointer, otherwise the place where the loop stopped.  The
  running total is kept in 32 bits.
\<close>

function search_loop ::
  "disk_io \<Rightarrow> ext2_node \<Rightarrow> name \<Rightarrow> nat \<Rightarrow> nat \<Rightarrow> nat \<Rightarrow> nat \<Rightarrow> u32 \<Rightarrow> u8 list \<Rightarrow> ext2_volume \<Rightarrow> (nat option \<times> u8 list \<times> ext2_volume) kres" where
  "search_loop io node nm limit bs current_block block_offset total_off buf v =
     (if current_block < limit then
        kbind (dirent_at buf block_offset) (\<lambda>d.
        if de_rec_len d < 8 then Inr (Some block_offset, buf, v)
        else kbind (if de_inode d > 0 then name_matches nm buf block_offset d else Inr False) (\<lambda>found.
          if found then Inr (Some block_offset, buf, v)
          else
            let next = block_offset + de_rec_len d; total_off = total_off + of_nat (de_rec_len d) in
            if total_off > i_size (n_ext2_inode node) then Inr (None, buf, v)
            else if next \<ge> bs then
              if current_block + 1 \<ge> limit then Inr (None, buf, v)
              else kbind (load_dir_block io node (current_block + 1) True buf v) (\<lambda>(ok, buf, v).
                   if \<not> ok then Inr (None, buf, v) else search_loop io node nm limit bs (current_block + 1) 0 total_off buf v)
            else search_loop io node nm limit bs current_block next total_off buf v))
      else Inr (Some block_offset, buf, v))"
  by pat_completeness auto
termination
proof (relation "(\<lambda>(io, node, nm, limit, bs, cb, bo, rest). limit - cb) <*mlex*> measure (\<lambda>(io, node, nm, limit, bs, cb, bo, rest). bs - bo)", goal_cases)
  case 1
  then show ?case by (simp add: wf_mlex)
next
  case 2
  then show ?case by (intro mlex_less) auto
next
  case 3
  then show ?case by (intro mlex_leq) auto
qed

declare search_loop.simps [simp del]

text \<open>The node of an inode, from the cache or the disk.\<close>

definition node_of_inode :: "disk_io \<Rightarrow> u32 \<Rightarrow> ext2_volume \<Rightarrow> (ext2_node \<times> ext2_volume) kres" where
  "node_of_inode io num v =
     (case lru_get num (e_inode_cache v) of
        Some n \<Rightarrow> Inr (n, v)
      | None \<Rightarrow>
          kbind (read_inode io num v) (\<lambda>(e, ino, v).
          let n = new_ext2_node (case ino of Some x \<Rightarrow> x | None \<Rightarrow> io_inode io) num in
          kbind (lru_set num n (e_inode_cache v)) (\<lambda>(_, c). Inr (n, v\<lparr>e_inode_cache := c\<rparr>))))"

definition ext2_find_dir :: "disk_io \<Rightarrow> ext2_node \<Rightarrow> name \<Rightarrow> ext2_volume \<Rightarrow> (ext2_node option \<times> ext2_volume) kres" where
  "ext2_find_dir io node nm v =
     (if \<not> is_dir (n_flags node) \<or> n_inode node = 0 then Inr (None, v)
      else kbind (load_dir_block io node 0 True (fresh_bytes (io_fresh io) (unat (e_block_size v))) v) (\<lambda>(ok, buf, v).
        if \<not> ok then Inr (None, v)
        else kbind (dir_blocks node v) (\<lambda>limit.
          kbind (search_loop io node nm limit (unat (e_block_size v)) 0 0 0 buf v) (\<lambda>(r, buf, v).
          case r of None \<Rightarrow> Inr (None, v)
          | Some off \<Rightarrow>
              kbind (dirent_at buf off) (\<lambda>d.
              kbind (name_matches nm buf off d) (\<lambda>found.
              if \<not> found \<or> de_inode d = 0 \<or> de_inode d > sb_inode_count (e_sb v) then Inr (None, v)
              else kbind (node_of_inode io (de_inode d) v) (\<lambda>(n, v). Inr (Some n, v))))))))"

subsection \<open>Mounting\<close>

text \<open>The constructor, on the bytes of the superblock.\<close>

definition new_ext2_volume :: "disk_io \<Rightarrow> u8 list \<Rightarrow> ext2_volume kres" where
  "new_ext2_volume io sbytes =
     (let sb = super_block_at sbytes;
          v = \<lparr>e_sb = sb, e_file_type = False, e_large_files = False, e_sparse = False, e_groups = [], e_block_size = 0,
               e_inode_size = 0, e_block_cache = lru_new 50, e_inode_cache = lru_new 1600, e_root = None, e_error = 0\<rparr> in
      if sb_rev_level sb \<noteq> 0 \<and> (sbe_feature_incompat sbytes AND NOT 2 \<noteq> 0 \<or> sbe_feature_ro_compat sbytes AND NOT 3 \<noteq> 0)
      then Inr (v\<lparr>e_error := INCOMPATIBLE_ERROR\<rparr>)
      else
        let v = (if sb_rev_level sb \<noteq> 0
                 then v\<lparr>e_file_type := sbe_feature_incompat sbytes AND 2 \<noteq> 0, e_large_files := sbe_feature_ro_compat sbytes AND 2 \<noteq> 0,
                        e_sparse := sbe_feature_ro_compat sbytes AND 1 \<noteq> 0\<rparr>
                 else v);
            bpg = sb_blocks_per_group sb in
        if bpg = 0 then Inl Div_by_zero
        else
          let block_group_count = (sb_block_count sb + bpg - 1) div bpg;
              v = v\<lparr>e_block_size := push_bit (unat (sb_log_block_size sb)) 1024,
                    e_inode_size := (if sb_rev_level sb > 0 then ucast (sbe_inode_size sbytes) else 128)\<rparr> in
          kbind (block_to_lba (ucast (location_to_block 1024 (sb_log_block_size sb)) + 1) (e_block_size v) disk_block_size) (\<lambda>lba.
          kbind (read_bytes (io_fresh io) (io_read io) lba (block_group_count * 32)) (\<lambda>r.
          case r of None \<Rightarrow> Inr (v\<lparr>e_error := DISK_READ_ERROR\<rparr>)
          | Some groups \<Rightarrow>
              kbind (read_inode io ROOT_DIR_INODE (v\<lparr>e_groups := groups\<rparr>)) (\<lambda>(e, ino, v).
              if e < 0 then Inr (v\<lparr>e_error := DISK_READ_ERROR\<rparr>)
              else Inr (v\<lparr>e_root := Some (new_ext2_node (case ino of Some x \<Rightarrow> x | None \<Rightarrow> io_inode io) ROOT_DIR_INODE)\<rparr>)))))"

definition ext2_init :: "disk_io \<Rightarrow> ext2_volume option kres" where
  "ext2_init io =
     kbind (read_bytes (io_fresh io) (io_read io) 2 (1024 + 52)) (\<lambda>r.
     case r of None \<Rightarrow> Inr None
     | Some buffer \<Rightarrow>
         if sb_magic (super_block_at buffer) \<noteq> SUPER_MAGIC \<or> sb_rev_level (super_block_at buffer) > 1 then Inr None
         else kbind (new_ext2_volume io buffer) (\<lambda>v. Inr (Some v)))"

subsection \<open>The operations of a node, under its lock\<close>

text \<open>
  \<open>acquire_write\<close> of a thread that is alone with the lock: it spins for ever if the lock is held.  The operations that
  change a directory acquire the lock a second time where they should release it.
\<close>

definition acquire_write :: "rw_lock \<Rightarrow> rw_lock kres" where
  "acquire_write l = (case rw_exec WStart l of None \<Rightarrow> Inl Loops | Some (_, l) \<Rightarrow> Inr l)"

definition locked_write :: "'a \<Rightarrow> rw_lock \<Rightarrow> ('a \<times> rw_lock) kres" where
  "locked_write ret l = kbind (acquire_write l) (\<lambda>l. kbind (acquire_write l) (\<lambda>l. Inr (ret, l)))"

definition ext2_create :: "rw_lock \<Rightarrow> (unit sysret \<times> rw_lock) kres" where
  "ext2_create l = locked_write (Inl ENOSYS) l"

definition ext2_create_dir :: "rw_lock \<Rightarrow> (unit sysret \<times> rw_lock) kres" where
  "ext2_create_dir l = locked_write (Inl ENOSYS) l"

definition ext2_link :: "u32 \<Rightarrow> rw_lock \<Rightarrow> (unit sysret \<times> rw_lock) kres" where
  "ext2_link num l = (if num = 0 then Inr (Inl EINVAL, l) else locked_write (Inl ENOSYS) l)"

definition ext2_unlink :: "rw_lock \<Rightarrow> (unit sysret \<times> rw_lock) kres" where
  "ext2_unlink l = locked_write (Inl ENOSYS) l"

definition ext2_truncate :: "rw_lock \<Rightarrow> (unit sysret \<times> rw_lock) kres" where
  "ext2_truncate l = locked_write (Inl ENOSYS) l"

end
