(* ===== verification/Ext2Read.thy ===== *)
theory Ext2Read
  imports Ext2
begin

text \<open>
  Reading files of an ext2 volume: on a volume whose blocks the disk delivers, the caches are transparent, the block map
  agrees with the format for direct and singly indirect blocks, and a read returns the bytes of the file.
\<close>

section \<open>Blocks\<close>

text \<open>The volume stores \<open>img n\<close> in block \<open>n\<close>: the disk delivers it, and so does the cache if it has it.\<close>

definition volume_ok :: "disk_io \<Rightarrow> (u32 \<Rightarrow> u8 list) \<Rightarrow> ext2_volume \<Rightarrow> bool" where
  "volume_ok io img v \<longleftrightarrow>
     512 dvd unat (e_block_size v) \<and> 0 < unat (e_block_size v) \<and> lru_inv (e_block_cache v)
     \<and> (\<forall>n. n < sb_block_count (e_sb v) \<longrightarrow> length (img n) = unat (e_block_size v)
          \<and> (\<exists>r. 0 \<le> r \<and> io_read io (ucast (n * (e_block_size v div disk_block_size))) (e_block_size v div disk_block_size) = (r, img n))
          \<and> (\<forall>b. lru_get n (e_block_cache v) = Some b \<longrightarrow> b = img n))"

lemma lru_set_ok:
  assumes "lru_inv c"
  obtains vs c' where "lru_set k x c = Inr (vs, c')" "lru_inv c'"
    "\<And>q b. lru_get q c' = Some b \<Longrightarrow> q = k \<and> b = x \<or> lru_get q c = Some b"
proof -
  obtain vs c' where s: "lru_set k x c = Inr (vs, c')" "lru_inv c'" "lru_get k c' = Some x"
    and o1: "\<forall>q. q \<noteq> k \<longrightarrow> lru_get q c' = None \<or> lru_get q c' = lru_get q c"
    using lru_set_cases [OF assms, of k x] by blast
  show thesis by (rule that [OF s(1,2)]) (metis o1 option.distinct(1) option.inject s(3))
qed

lemma read_block_ok:
  assumes ok: "volume_ok io img v" and n: "n < sb_block_count (e_sb v)" and l: "length buf = unat (e_block_size v)"
  obtains e c where "read_block io n cache buf v = Inr (e, img n, v\<lparr>e_block_cache := c\<rparr>)" "0 \<le> e"
    "volume_ok io img (v\<lparr>e_block_cache := c\<rparr>)"
proof -
  let ?s = "e_block_size v div disk_block_size"
  obtain r where r: "io_read io (ucast (n * ?s)) ?s = (r, img n)" "0 \<le> r" and li: "length (img n) = unat (e_block_size v)"
    and ca: "\<forall>b. lru_get n (e_block_cache v) = Some b \<longrightarrow> b = img n"
    using ok n unfolding volume_ok_def by blast
  have le: "\<not> n > sb_block_count (e_sb v)" using n by simp
  have st: "store_front buf (img n) = Inr (img n)" using l li by (simp add: store_front_def)
  show thesis
  proof (cases "cache \<and> lru_get n (e_block_cache v) = None")
    case True
    have inv: "lru_inv (e_block_cache v)" using ok by (simp add: volume_ok_def)
    obtain vs c' where s: "lru_set n (img n) (e_block_cache v) = Inr (vs, c')" "lru_inv c'"
      "\<And>q b. lru_get q c' = Some b \<Longrightarrow> q = n \<and> b = img n \<or> lru_get q (e_block_cache v) = Some b"
      using lru_set_ok [OF inv] by metis
    have f: "store_front (fresh_bytes (io_fresh io) (unat (e_block_size v))) (img n) = Inr (img n)" using li by (simp add: store_front_def)
    have "read_block io n cache buf v = Inr (1, img n, v\<lparr>e_block_cache := c'\<rparr>)"
      using True le r s(1) f st by (simp add: read_block_def)
    moreover have "volume_ok io img (v\<lparr>e_block_cache := c'\<rparr>)" using ok s(2,3) unfolding volume_ok_def by fastforce
    ultimately show thesis using that by force
  next
    case False
    have "\<exists>e. 0 \<le> e \<and> read_block io n cache buf v = Inr (e, img n, v)"
    proof (cases cache)
      case True
      then obtain b where "lru_get n (e_block_cache v) = Some b" using False by auto
      then show ?thesis using True ca le st r by (auto simp: read_block_def)
    qed (use le st r in \<open>auto simp: read_block_def\<close>)
    then obtain e where e: "read_block io n cache buf v = Inr (e, img n, v)" "0 \<le> e" by blast
    have "v\<lparr>e_block_cache := e_block_cache v\<rparr> = v" by simp
    then show thesis using that [of e "e_block_cache v"] e ok by metis
  qed
qed

lemma read_block_ex:
  assumes "volume_ok io img v" "n < sb_block_count (e_sb v)" "length buf = unat (e_block_size v)"
  shows "\<exists>e c. read_block io n cache buf v = Inr (e, img n, v\<lparr>e_block_cache := c\<rparr>) \<and> 0 \<le> e \<and> volume_ok io img (v\<lparr>e_block_cache := c\<rparr>)"
  using read_block_ok [OF assms] by metis

section \<open>The block map\<close>

text \<open>The format's block map for the direct and the singly indirect blocks.\<close>

definition map_block :: "(u32 \<Rightarrow> u8 list) \<Rightarrow> ext2_inode \<Rightarrow> nat \<Rightarrow> u32" where
  "map_block img ino k = (if k < 12 then i_block ino ! k else get32 (img (i_block ino ! 12)) (4 * (k - 12)))"

definition file_blocks_ok :: "(u32 \<Rightarrow> u8 list) \<Rightarrow> ext2_volume \<Rightarrow> ext2_inode \<Rightarrow> nat \<Rightarrow> bool" where
  "file_blocks_ok img v ino n \<longleftrightarrow> n \<le> 12 + unat (e_block_size v) div 4 \<and> (12 < n \<longrightarrow> i_block ino ! 12 < sb_block_count (e_sb v))
     \<and> (\<forall>k<n. map_block img ino k < sb_block_count (e_sb v))"

lemma file_blocks_ok_cache [simp]: "file_blocks_ok img (v\<lparr>e_block_cache := c\<rparr>) ino n = file_blocks_ok img v ino n"
  by (simp add: file_blocks_ok_def)

lemma find_data_block_ok:
  assumes ok: "volume_ok io img v" and f: "file_blocks_ok img v ino n" and k: "k < n"
  obtains c where "find_data_block io ino (of_nat k) v = Inr (Inr (uint (map_block img ino k)), v\<lparr>e_block_cache := c\<rparr>)"
    "volume_ok io img (v\<lparr>e_block_cache := c\<rparr>)"
proof -
  let ?e = "e_block_size v div 4"
  have e: "unat ?e = unat (e_block_size v) div 4" by (simp add: unat_div)
  have eb: "unat ?e < 2 ^ 30" using e unat_u32_less [of "e_block_size v"] by simp
  have kb: "k < 12 + unat ?e" using f k e by (simp add: file_blocks_ok_def)
  have uk: "unat (of_nat k :: u32) = k" using kb eb by (intro unat_of_nat_small) simp
  show thesis
  proof (cases "k < 12")
    case True
    then have "(of_nat k :: u32) < 12" using uk by (simp add: word_less_nat_alt)
    then have "find_data_block io ino (of_nat k) v = Inr (Inr (uint (map_block img ino k)), v\<lparr>e_block_cache := e_block_cache v\<rparr>)"
      using True uk by (simp add: find_data_block_def Let_def INODE_IND_BLOCK_def map_block_def)
    then show thesis using that [of "e_block_cache v"] ok by simp
  next
    case False
    have w: "\<not> (of_nat k :: u32) < 12" using False uk by (simp add: word_less_nat_alt)
    have s: "unat (12 + ?e) = 12 + unat ?e" using unat_plus_no_wrap [of 12 ?e] eb by simp
    then have w2: "(of_nat k :: u32) < 12 + ?e" using kb uk by (simp add: word_less_nat_alt)
    have d: "unat ((of_nat k :: u32) - 12) = k - 12" using w uk unat_minus_no_wrap [of "12 :: u32" "of_nat k"] by (simp add: not_less)
    have bs: "4 * unat ?e = unat (e_block_size v)" using ok e by (auto simp: volume_ok_def dvd_def)
    have n12: "i_block ino ! 12 < sb_block_count (e_sb v)" using f k False by (simp add: file_blocks_ok_def)
    obtain e' c where r: "read_block io (i_block ino ! 12) True (fresh_bytes (io_fresh io) (4 * unat ?e)) v
        = Inr (e', img (i_block ino ! 12), v\<lparr>e_block_cache := c\<rparr>)" "0 \<le> e'" "volume_ok io img (v\<lparr>e_block_cache := c\<rparr>)"
      using read_block_ok [OF ok n12, of "fresh_bytes (io_fresh io) (4 * unat ?e)" True] bs by (metis length_fresh_bytes)
    have "length (img (i_block ino ! 12)) = unat (e_block_size v)" using ok n12 by (simp add: volume_ok_def)
    then have "word_at (img (i_block ino ! 12)) (of_nat k - 12) = Inr (map_block img ino k)"
      using d False kb bs by (auto simp: word_at_def map_block_def)
    then have "find_data_block io ino (of_nat k) v = Inr (Inr (uint (map_block img ino k)), v\<lparr>e_block_cache := c\<rparr>)"
      using w w2 r(1,2) by (simp add: find_data_block_def Let_def INODE_IND_BLOCK_def single_indirect_def)
    then show thesis using that r(3) by blast
  qed
qed

lemma data_block_list_ok:
  assumes "volume_ok io img v" "file_blocks_ok img v ino n" "\<forall>k\<in>set ks. k < n"
  shows "\<exists>c. data_block_list io ino ks v = Inr (Inr (map (map_block img ino) ks), v\<lparr>e_block_cache := c\<rparr>)
    \<and> volume_ok io img (v\<lparr>e_block_cache := c\<rparr>)"
  using assms
proof (induction ks arbitrary: v)
  case Nil
  then show ?case by (auto intro!: exI [of _ "e_block_cache v"])
next
  case (Cons k ks)
  obtain c where c: "find_data_block io ino (of_nat k) v = Inr (Inr (uint (map_block img ino k)), v\<lparr>e_block_cache := c\<rparr>)"
    "volume_ok io img (v\<lparr>e_block_cache := c\<rparr>)" using find_data_block_ok [OF Cons.prems(1,2), of k] Cons.prems(3) by auto
  obtain c' where c': "data_block_list io ino ks (v\<lparr>e_block_cache := c\<rparr>) = Inr (Inr (map (map_block img ino) ks), v\<lparr>e_block_cache := c'\<rparr>)"
    "volume_ok io img (v\<lparr>e_block_cache := c'\<rparr>)" using Cons.IH [OF c(2)] Cons.prems(2,3) by auto
  show ?case using c(1) c' by auto
qed

section \<open>Copying\<close>

lemma overwrite_append:
  assumes "i + length xs + length ys \<le> length buf"
  shows "overwrite (overwrite buf i xs) (i + length xs) ys = overwrite buf i (xs @ ys)"
proof -
  have "take (i + length xs) (overwrite buf i xs) = take i buf @ xs" using assms by (intro take_overwrite_upto) simp
  moreover have "drop (i + length xs + length ys) (overwrite buf i xs) = drop (i + length xs + length ys) buf"
    using assms by (simp add: overwrite_def ac_simps)
  ultimately show ?thesis by (simp add: overwrite_def add.assoc)
qed

text \<open>What the rounds after the first one copy: whole blocks, and of the last one the bytes of the last block.\<close>

definition later_bytes :: "(u32 \<Rightarrow> u8 list) \<Rightarrow> nat \<Rightarrow> u32 list \<Rightarrow> u8 list" where
  "later_bytes img es bs = (if bs = [] then [] else concat (map img (butlast bs)) @ take es (img (last bs)))"

lemma later_bytes_Cons: "later_bytes img es (b # bs) = (if bs = [] then take es (img b) else img b @ later_bytes img es bs)"
  by (simp add: later_bytes_def)

lemma copy_later_ok:
  assumes "volume_ok io img v" "\<forall>b\<in>set bs. b < sb_block_count (e_sb v)" "length data = unat (e_block_size v)"
    "pos + length (later_bytes img (unat es) bs) \<le> length buf"
  shows "\<exists>c. copy_blocks io False so es len bs data buf pos v = Inr (True, overwrite buf pos (later_bytes img (unat es) bs), v\<lparr>e_block_cache := c\<rparr>)
    \<and> volume_ok io img (v\<lparr>e_block_cache := c\<rparr>)"
  using assms
proof (induction bs arbitrary: data buf pos v)
  case Nil
  then show ?case by (auto simp: later_bytes_def intro!: exI [of _ "e_block_cache v"])
next
  case (Cons b bs)
  have b: "b < sb_block_count (e_sb v)" using Cons.prems(2) by simp
  obtain e c where r: "read_block io b True data v = Inr (e, img b, v\<lparr>e_block_cache := c\<rparr>)" "0 \<le> e" "volume_ok io img (v\<lparr>e_block_cache := c\<rparr>)"
    using read_block_ok [OF Cons.prems(1) b Cons.prems(3)] by metis
  have li: "length (img b) = unat (e_block_size v)" using Cons.prems(1) b by (simp add: volume_ok_def)
  define piece where "piece = (if bs = [] then take (unat es) (img b) else img b)"
  have lb: "later_bytes img (unat es) (b # bs) = piece @ later_bytes img (unat es) bs"
    by (simp add: later_bytes_Cons piece_def) (simp add: later_bytes_def)
  have p: "put_bytes buf pos piece = Inr (overwrite buf pos piece)" using Cons.prems(4) lb by (simp add: put_bytes_def)
  obtain c' where c': "copy_blocks io False so es len bs (img b) (overwrite buf pos piece) (pos + length piece) (v\<lparr>e_block_cache := c\<rparr>)
      = Inr (True, overwrite (overwrite buf pos piece) (pos + length piece) (later_bytes img (unat es) bs), v\<lparr>e_block_cache := c'\<rparr>)"
    "volume_ok io img (v\<lparr>e_block_cache := c'\<rparr>)"
    using Cons.IH [OF r(3), of "img b" "pos + length piece" "overwrite buf pos piece"] Cons.prems(2,4) li lb by auto
  have "copy_blocks io False so es len (b # bs) data buf pos v
      = copy_blocks io False so es len bs (img b) (overwrite buf pos piece) (pos + length piece) (v\<lparr>e_block_cache := c\<rparr>)"
    using r(1,2) p li by (simp add: piece_def Let_def split: if_splits)
  moreover have "overwrite (overwrite buf pos piece) (pos + length piece) (later_bytes img (unat es) bs) = overwrite buf pos (later_bytes img (unat es) (b # bs))"
    using overwrite_append [of pos piece "later_bytes img (unat es) bs" buf] Cons.prems(4) lb by simp
  ultimately show ?case using c' by metis
qed

lemma copy_blocks_ok:
  assumes ok: "volume_ok io img v" and b: "\<forall>b\<in>set (b0 # bs). b < sb_block_count (e_sb v)" and data: "length data = unat (e_block_size v)"
    and piece: "piece = take (unat (min (e_block_size v - so) (ucast len))) (drop (unat so) (img b0))"
    and fits: "length (piece @ later_bytes img (unat es) bs) \<le> length buf"
  shows "\<exists>c. copy_blocks io True so es len (b0 # bs) data buf 0 v
      = Inr (True, (piece @ later_bytes img (unat es) bs) @ drop (length (piece @ later_bytes img (unat es) bs)) buf, v\<lparr>e_block_cache := c\<rparr>)
    \<and> volume_ok io img (v\<lparr>e_block_cache := c\<rparr>)"
proof -
  have b0: "b0 < sb_block_count (e_sb v)" using b by simp
  obtain e c where r: "read_block io b0 True data v = Inr (e, img b0, v\<lparr>e_block_cache := c\<rparr>)" "0 \<le> e" "volume_ok io img (v\<lparr>e_block_cache := c\<rparr>)"
    using read_block_ok [OF ok b0 data] by metis
  have li: "length (img b0) = unat (e_block_size v)" using ok b0 by (simp add: volume_ok_def)
  have p: "put_bytes buf 0 piece = Inr (overwrite buf 0 piece)" using fits by (simp add: put_bytes_def)
  obtain c' where c': "copy_blocks io False so es len bs (img b0) (overwrite buf 0 piece) (length piece) (v\<lparr>e_block_cache := c\<rparr>)
      = Inr (True, overwrite (overwrite buf 0 piece) (length piece) (later_bytes img (unat es) bs), v\<lparr>e_block_cache := c'\<rparr>)"
    "volume_ok io img (v\<lparr>e_block_cache := c'\<rparr>)"
    using copy_later_ok [OF r(3), of bs "img b0" "length piece" es "overwrite buf 0 piece" so len] b li fits by auto
  have "copy_blocks io True so es len (b0 # bs) data buf 0 v
      = copy_blocks io False so es len bs (img b0) (overwrite buf 0 piece) (length piece) (v\<lparr>e_block_cache := c\<rparr>)"
    using r(1,2) p by (simp add: piece Let_def)
  moreover have "overwrite (overwrite buf 0 piece) (length piece) (later_bytes img (unat es) bs)
      = (piece @ later_bytes img (unat es) bs) @ drop (length (piece @ later_bytes img (unat es) bs)) buf"
    using overwrite_append [of 0 piece "later_bytes img (unat es) bs" buf] fits by (simp add: overwrite_def)
  ultimately show ?thesis using c' by metis
qed

section \<open>Bytes of a file\<close>

definition file_bytes :: "(u32 \<Rightarrow> u8 list) \<Rightarrow> ext2_inode \<Rightarrow> nat \<Rightarrow> u8 list" where
  "file_bytes img ino n = concat (map (\<lambda>k. img (map_block img ino k)) [0..<n])"

lemma length_concat_blocks: "\<forall>x\<in>set xs. length (f x) = B \<Longrightarrow> length (concat (map f xs)) = length xs * B"
  by (induction xs) auto

text \<open>The bytes of a range that starts in block \<open>s\<close> and ends in block \<open>N - 1\<close>.\<close>

lemma drop_file_bytes:
  assumes "\<forall>k<N. length (f k) = B" "s < N" "s = off div B" "0 < B"
  shows "drop off (concat (map f [0..<N])) = drop (off mod B) (f s) @ concat (map f [Suc s..<N])"
proof -
  have "[0..<N] = [0..<s] @ s # [Suc s..<N]"
    using assms(2) by (metis le0 less_imp_le_nat upt_add_eq_append upt_conv_Cons zero_le le_add_diff_inverse)
  then have "concat (map f [0..<N]) = concat (map f [0..<s]) @ f s @ concat (map f [Suc s..<N])" by simp
  moreover have lc: "length (concat (map f [0..<s])) = s * B" using assms(1,2) by (subst length_concat_blocks [of _ _ B]) auto
  moreover have "drop (s * B + off mod B) (concat (map f [0..<s]) @ f s @ concat (map f [Suc s..<N]))
    = drop (off mod B) (f s @ concat (map f [Suc s..<N]))" using lc by simp
  moreover have "off = s * B + off mod B" "off mod B \<le> length (f s)" using assms by (auto simp: less_imp_le_nat)
  ultimately show ?thesis by (metis drop_append diff_is_0_eq drop0)
qed

lemma range_bytes:
  assumes l: "\<forall>k<N. length (f k) = B" and s: "s = off div B" and N: "N = (off + len + B - 1) div B" and B: "0 < B" and len: "0 < len"
  shows "if N = Suc s then off mod B + len \<le> B \<and> take len (drop off (concat (map f [0..<N]))) = take len (drop (off mod B) (f s))
    else Suc s < N \<and> B - off mod B \<le> len
      \<and> take len (drop off (concat (map f [0..<N])))
        = drop (off mod B) (f s) @ concat (map f [Suc s..<N - 1]) @ take (off + len - (N - 1) * B) (f (N - 1))
      \<and> off + len - (N - 1) * B = (if B dvd off + len then B else (off + len) mod B)"
proof -
  have c: "off + len \<le> N * B" "(N - 1) * B < off + len" using ceil_div_bounds [OF B, of "off + len"] len N by auto
  have o: "off = s * B + off mod B" "off mod B < B" using s B by simp_all
  have "s * B < N * B" using c(1) o len by linarith
  then have sN: "s < N" by simp
  note d = drop_file_bytes [OF l sN s B]
  show ?thesis
  proof (cases "N = Suc s")
    case True
    then show ?thesis using d c(1) o(1) by simp
  next
    case False
    then have S: "Suc s < N" using sN by simp
    define m where "m = N - 2 - s"
    have m: "N - 1 = Suc s + m" using S by (simp add: m_def)
    have mB: "(N - 1) * B = s * B + B + m * B" unfolding m by (simp add: algebra_simps)
    define r where "r = off + len - (N - 1) * B"
    have r: "off + len = (N - 1) * B + r" "0 < r" "r \<le> B"
    proof -
      show "off + len = (N - 1) * B + r" "0 < r" using c(2) by (simp_all add: r_def)
      have "N * B = (N - 1) * B + B" using S by (cases N) auto
      then show "r \<le> B" using c(1) by (simp add: r_def)
    qed
    have len': "len = B - off mod B + (m * B + r)" using r(1) o mB by linarith
    have "[Suc s..<N] = [Suc s..<N - 1] @ [N - 1]" using S by (metis One_nat_def Suc_diff_1 Suc_leI less_imp_Suc_add upt_Suc_append zero_less_Suc diff_Suc_1 not_less_eq_eq)
    then have cc: "concat (map f [Suc s..<N]) = concat (map f [Suc s..<N - 1]) @ f (N - 1)" by simp
    have lc: "length (concat (map f [Suc s..<N - 1])) = m * B"
      using l m by (subst length_concat_blocks [of _ _ B]) auto
    have lf: "length (drop (off mod B) (f s)) = B - off mod B" using l sN by simp
    have "take len (drop off (concat (map f [0..<N]))) = drop (off mod B) (f s) @ concat (map f [Suc s..<N - 1]) @ take r (f (N - 1))"
      unfolding d cc len' using lf lc by simp
    moreover have "r = (if B dvd off + len then B else (off + len) mod B)"
    proof -
      have "(off + len) mod B = r mod B" using r(1) by simp
      moreover have "B dvd off + len \<longleftrightarrow> r mod B = 0" using r(1) by (simp add: dvd_eq_mod_eq_0)
      ultimately show ?thesis using r(2,3) by (cases "r = B") auto
    qed
    moreover have "B - off mod B \<le> len" using len' by linarith
    ultimately show ?thesis unfolding if_not_P [OF False] r_def [symmetric] using S by blast
  qed
qed

section \<open>Reading\<close>

text \<open>The bytes that a read of \<open>len\<close> bytes at \<open>off\<close> stores: all of them, unless it ends at the end of a block and spans several.\<close>

definition lost_tail :: "nat \<Rightarrow> nat \<Rightarrow> nat \<Rightarrow> bool" where
  "lost_tail B off len \<longleftrightarrow> B dvd off + len \<and> Suc (off div B) < (off + len + B - 1) div B"

definition stored_len :: "nat \<Rightarrow> nat \<Rightarrow> nat \<Rightarrow> nat" where
  "stored_len B off len = (if lost_tail B off len then len - B else len)"

lemma ext2_read_stores:
  fixes io img v ino num off len buf
  defines "B \<equiv> unat (e_block_size v)" and "node \<equiv> new_ext2_node ino num"
  defines "N \<equiv> (unat off + unat len + B - 1) div B"
  assumes ok: "volume_ok io img v" and f: "file_blocks_ok img v ino N" and len: "0 < unat len"
    and r: "unat off + unat len \<le> unat (i_size ino)" and buf: "unat len \<le> length buf"
  shows "\<exists>c. ext2_read io node off len buf v
      = Inr (Inr len, take (stored_len B (unat off) (unat len)) (drop (unat off) (file_bytes img ino N))
                      @ drop (stored_len B (unat off) (unat len)) buf, v\<lparr>e_block_cache := c\<rparr>)
    \<and> volume_ok io img (v\<lparr>e_block_cache := c\<rparr>)"
proof -
  let ?bs = "ucast (e_block_size v) :: u64"
  have B: "0 < B" "unat ?bs = B" using ok by (simp_all add: volume_ok_def B_def)
  have sz: "unat (n_size node) = unat (i_size ino)" "n_ext2_inode node = ino" by (simp_all add: node_def new_ext2_node_def)
  have i32: "unat (i_size ino) < 2 ^ 32" using unat_u32_less [of "i_size ino"] by simp
  have B32: "B < 2 ^ 32" using unat_u32_less [of "e_block_size v"] by (simp add: B_def)
  have sum: "unat (off + len) = unat off + unat len" using r i32 by (intro unat_plus_no_wrap) simp
  have g: "\<not> off \<ge> n_size node" "\<not> off + len > n_size node" using sum sz r len by (auto simp: word_le_nat_alt word_less_nat_alt)
  have bz: "e_block_size v \<noteq> 0" using B(1) by (auto simp: B_def)
  have bz': "?bs \<noteq> 0" using B by (metis less_irrefl unat_eq_zero)
  define s where "s = unat off div B"
  have k: "intervals_needed (off + len) ?bs = Inr ((off + len + ?bs - 1) div ?bs)" using bz' by (simp add: intervals_needed_def)
  have uk: "unat ((off + len + ?bs - 1) div ?bs) = N"
    using unat_ceil_div [of ?bs "off + len"] B sum r i32 B32 by (simp add: N_def)
  have "N \<le> unat off + unat len"
  proof -
    have "(N - 1) * B < unat off + unat len" using ceil_div_bounds(2) [OF B(1), of "unat off + unat len"] len by (simp add: N_def)
    moreover have "N - 1 \<le> (N - 1) * B" using B(1) by simp
    ultimately show ?thesis by linarith
  qed
  then have N32: "N < 2 ^ 32" using r i32 by linarith
  have eN: "unat (ucast ((off + len + ?bs - 1) div ?bs) :: u32) = N" using uk N32 by (simp add: unat_ucast_64_32)
  have so: "unat (ucast (off div ?bs) :: u32) = s"
    using B r i32 by (subst unat_ucast_64_32) (auto simp: unat_div s_def intro: le_less_trans [OF div_le_dividend])
  have oo: "unat (ucast (off mod ?bs) :: u32) = unat off mod B"
    using B B32 by (subst unat_ucast_64_32) (auto simp: unat_mod intro: less_trans [OF mod_less_divisor])
  have es: "unat (ucast ((off + len) mod ?bs) :: u32) = (unat off + unat len) mod B"
    using B B32 sum by (subst unat_ucast_64_32) (auto simp: unat_mod intro: less_trans [OF mod_less_divisor])
  have lens: "\<forall>k<N. length (img (map_block img ino k)) = B" using ok f by (auto simp: volume_ok_def file_blocks_ok_def B_def)
  note R = range_bytes [OF lens s_def meta_eq_to_obj_eq [OF N_def] B(1) len]
  have sN: "s < N" using R by (auto split: if_splits)
  have "\<forall>k\<in>set [s..<N]. k < N" by simp
  from data_block_list_ok [OF ok f this] obtain c where
    c: "find_data_blocks io ino (ucast (off div ?bs)) (ucast ((off + len + ?bs - 1) div ?bs)) v
        = Inr (Inr (map (map_block img ino) [s..<N]), v\<lparr>e_block_cache := c\<rparr>)" "volume_ok io img (v\<lparr>e_block_cache := c\<rparr>)"
    using so eN by (auto simp: find_data_blocks_def)
  have bl: "map (map_block img ino) [s..<N] = map_block img ino s # map (map_block img ino) [Suc s..<N]"
    using sN by (simp add: upt_conv_Cons)
  let ?F = "\<lambda>k. img (map_block img ino k)" and ?ow = "ucast (off mod ?bs) :: u32" and ?ew = "ucast ((off + len) mod ?bs) :: u32"
  let ?st = "stored_len B (unat off) (unat len)"
  define piece where "piece = take (unat (min (e_block_size v - ?ow) (ucast len))) (drop (unat ?ow) (?F s))"
  define later where "later = later_bytes img (unat ?ew) (map (map_block img ino) [Suc s..<N])"
  have "piece @ later = take ?st (drop (unat off) (file_bytes img ino N)) \<and> length (piece @ later) = ?st"
  proof -
    have "?ow \<le> e_block_size v" using oo B(1) mod_less_divisor [of B "unat off"] by (simp add: word_le_nat_alt B_def [symmetric])
    then have "unat (e_block_size v - ?ow) = B - unat off mod B" using oo by (simp add: unat_minus_no_wrap B_def)
    moreover have "unat (ucast len :: u32) = unat len" using r i32 by (intro unat_ucast_64_32) simp
    ultimately have mn: "unat (min (e_block_size v - ?ow) (ucast len)) = min (B - unat off mod B) (unat len)"
      by (auto simp: min_def word_le_nat_alt)
    have lF: "length (?F s) = B" "length (?F (N - 1)) = B" using lens sN by auto
    show ?thesis
    proof (cases "N = Suc s")
      case True
      then have "\<not> lost_tail B (unat off) (unat len)" by (simp add: lost_tail_def N_def s_def)
      then show ?thesis using R True mn oo lF by (auto simp: piece_def later_def later_bytes_def stored_len_def file_bytes_def min_def)
    next
      case False
      then have S: "Suc s < N" "B - unat off mod B \<le> unat len"
        and tk: "take (unat len) (drop (unat off) (file_bytes img ino N))
          = drop (unat off mod B) (?F s) @ concat (map ?F [Suc s..<N - 1]) @ take (unat off + unat len - (N - 1) * B) (?F (N - 1))"
        and rest: "unat off + unat len - (N - 1) * B = (if B dvd unat off + unat len then B else (unat off + unat len) mod B)"
        using R by (simp_all add: file_bytes_def)
      have p: "piece = drop (unat off mod B) (?F s)" using mn oo S(2) lF by (simp add: piece_def min_def)
      have "[Suc s..<N] = [Suc s..<N - 1] @ [N - 1]" using S(1) by (cases N) auto
      then have l: "later = concat (map ?F [Suc s..<N - 1]) @ take ((unat off + unat len) mod B) (?F (N - 1))"
        by (simp add: later_def later_bytes_def es comp_def)
      have lost: "lost_tail B (unat off) (unat len) \<longleftrightarrow> B dvd unat off + unat len" using S(1) by (simp add: lost_tail_def N_def s_def)
      have "length (take (unat len) (drop (unat off) (file_bytes img ino N))) = unat len"
      proof -
        have "length (file_bytes img ino N) = N * B" using lens by (simp add: file_bytes_def length_concat_blocks [of _ _ B])
        moreover have "unat off + unat len \<le> N * B" using ceil_div_bounds(1) [OF B(1), of "unat off + unat len"] by (simp add: N_def)
        ultimately show ?thesis by simp
      qed
      note lt = this
      show ?thesis
      proof (cases "B dvd unat off + unat len")
        case True
        then have m0: "(unat off + unat len) mod B = 0" by (simp add: dvd_eq_mod_eq_0)
        have tk': "take (unat len) (drop (unat off) (file_bytes img ino N)) = (piece @ later) @ ?F (N - 1)"
          using tk rest True lF p l m0 by simp
        have ll: "length (piece @ later) = unat len - B" using arg_cong [OF tk', of length] lt lF by simp
        have "take (unat len - B) (take (unat len) (drop (unat off) (file_bytes img ino N))) = piece @ later"
          unfolding tk' using ll by simp
        then have "take (unat len - B) (drop (unat off) (file_bytes img ino N)) = piece @ later" by (simp add: min_def)
        then show ?thesis using ll lost True by (simp add: stored_len_def)
      next
        case F: False
        then have "take (unat len) (drop (unat off) (file_bytes img ino N)) = piece @ later" using tk rest p l by simp
        then show ?thesis using lt lost F by (simp add: stored_len_def)
      qed
    qed
  qed
  note pl = this
  have "?st \<le> unat len" by (simp add: stored_len_def)
  then have fits: "length (piece @ later) \<le> length buf" using pl buf by simp
  have "\<forall>b\<in>set (map_block img ino s # map (map_block img ino) [Suc s..<N]). b < sb_block_count (e_sb (v\<lparr>e_block_cache := c\<rparr>))"
    using f sN by (auto simp: file_blocks_ok_def)
  from copy_blocks_ok [OF c(2) this, of "fresh_bytes (io_fresh io) (unat (e_block_size v))" piece ?ow len ?ew buf]
  obtain c' where c': "copy_blocks io True ?ow ?ew len (map_block img ino s # map (map_block img ino) [Suc s..<N])
        (fresh_bytes (io_fresh io) (unat (e_block_size v))) buf 0 (v\<lparr>e_block_cache := c\<rparr>)
      = Inr (True, (piece @ later) @ drop (length (piece @ later)) buf, v\<lparr>e_block_cache := c'\<rparr>)"
    "volume_ok io img (v\<lparr>e_block_cache := c'\<rparr>)"
    using fits by (auto simp: piece_def later_def)
  have dl: "unat ((ucast ((off + len + ?bs - 1) div ?bs) :: u32) - ucast (off div ?bs)) = N - s"
    using so eN sN by (subst unat_minus_no_wrap) (auto simp: word_le_nat_alt)
  have "ext2_read io node off len buf v = Inr (Inr len, (piece @ later) @ drop (length (piece @ later)) buf, v\<lparr>e_block_cache := c'\<rparr>)"
    using g bz k c(1) c'(1) dl bl sz(2) sN by (simp add: ext2_read_def Let_def del: copy_blocks.simps)
  then show ?thesis using c'(2) pl by metis
qed

text \<open>
  C9. Reading a range that lies within a file of direct and singly indirect blocks returns exactly its bytes and leaves the
  rest of the buffer alone, whether the blocks come from the disk or from the cache, and the cache stays right.  The range
  must not both end at the end of a block and span several blocks.
\<close>

theorem ext2_read_correct:
  assumes "volume_ok io img v" "0 < unat len" "unat off + unat len \<le> unat (i_size ino)" "unat len \<le> length buf"
    "file_blocks_ok img v ino ((unat off + unat len + unat (e_block_size v) - 1) div unat (e_block_size v))"
    "\<not> lost_tail (unat (e_block_size v)) (unat off) (unat len)"
  shows "\<exists>v'. ext2_read io (new_ext2_node ino num) off len buf v
      = Inr (Inr len, take (unat len) (drop (unat off) (file_bytes img ino ((unat off + unat len + unat (e_block_size v) - 1) div unat (e_block_size v))))
                      @ drop (unat len) buf, v') \<and> volume_ok io img v'"
  using ext2_read_stores [OF assms(1,5,2,3,4)] assms(6) by (auto simp: stored_len_def)

text \<open>
  A read that spans several blocks and ends at the end of one does not store the last block, although it reports that
  it did: the end of the caller's buffer keeps what it held.
\<close>

theorem ext2_read_loses_last_block:
  assumes "volume_ok io img v" "0 < unat len" "unat off + unat len \<le> unat (i_size ino)" "unat len \<le> length buf"
    "file_blocks_ok img v ino ((unat off + unat len + unat (e_block_size v) - 1) div unat (e_block_size v))"
    "lost_tail (unat (e_block_size v)) (unat off) (unat len)"
  shows "\<exists>v'. ext2_read io (new_ext2_node ino num) off len buf v
      = Inr (Inr len, take (unat len - unat (e_block_size v))
                        (drop (unat off) (file_bytes img ino ((unat off + unat len + unat (e_block_size v) - 1) div unat (e_block_size v))))
                      @ drop (unat len - unat (e_block_size v)) buf, v')"
  using ext2_read_stores [OF assms(1,5,2,3,4), of num] assms(6) by (auto simp: stored_len_def)

text \<open>
  The block map: for direct and singly indirect blocks the driver finds the block that the format prescribes, whatever
  the cache holds, and keeps the cache right.
\<close>

theorem find_data_block_correct:
  assumes "volume_ok io img v" "file_blocks_ok img v ino n" "k < n"
  shows "\<exists>v'. find_data_block io ino (of_nat k) v = Inr (Inr (uint (map_block img ino k)), v') \<and> volume_ok io img v'"
  using find_data_block_ok [OF assms] by metis

text \<open>The format's doubly indirect blocks, counted from the first one.\<close>

definition dind_block :: "(u32 \<Rightarrow> u8 list) \<Rightarrow> ext2_inode \<Rightarrow> nat \<Rightarrow> nat \<Rightarrow> u32" where
  "dind_block img ino E k = get32 (img (get32 (img (i_block ino ! 13)) (4 * (k div E)))) (4 * (k mod E))"

lemma word_at_nat: "4 * unat k + 4 \<le> length buf \<Longrightarrow> word_at buf k = Inr (get32 buf (4 * unat k))"
  by (simp add: word_at_def)

text \<open>
  The doubly indirect blocks are looked up one whole block of block numbers too far: the driver forgets to subtract the
  singly indirect ones, so block \<open>k\<close> of that part of a file is taken for block \<open>k + E\<close>, with \<open>E\<close> numbers per block.
\<close>

theorem double_indirect_shifted:
  fixes v :: ext2_volume
  defines "E \<equiv> unat (e_block_size v) div 4"
  assumes ok: "volume_ok io img v" and e: "12 + E * E < 2 ^ 32" and k: "k + E < E * E"
    and b: "i_block ino ! 13 < sb_block_count (e_sb v)" "get32 (img (i_block ino ! 13)) (4 * ((k + E) div E)) < sb_block_count (e_sb v)"
  shows "\<exists>v'. find_data_block io ino (of_nat (12 + E + k)) v = Inr (Inr (uint (dind_block img ino E (k + E))), v')"
proof -
  let ?e = "e_block_size v div 4" and ?i = "of_nat (12 + E + k) :: u32"
  have E: "unat ?e = E" "4 * E = unat (e_block_size v)" "0 < E" using ok k by (auto simp: unat_div E_def volume_ok_def dvd_def)
  have le: "E \<le> E * E" using E(3) by simp
  have i: "unat ?i = 12 + E + k" using e k by (intro unat_of_nat_small) simp
  have ee: "unat (?e * ?e) = E * E" using unat_times_no_wrap [of ?e ?e] E(1) e by simp
  have m2: "unat (12 + ?e * ?e) = 12 + E * E" using unat_plus_no_wrap [of 12 "?e * ?e"] ee e by simp
  have m1: "unat (12 + ?e) = 12 + E" using unat_plus_no_wrap [of 12 ?e] E(1) le_less_trans [OF le, of "2 ^ 32 - 12"] e by simp
  have c: "\<not> ?i < 12" "\<not> ?i < 12 + ?e" "?i < 12 + ?e * ?e" using i m1 m2 k by (simp_all add: word_less_nat_alt)
  have d: "unat (?i - 12) = E + k" using c(1) i unat_minus_no_wrap [of "12 :: u32" ?i] by (simp add: not_less)
  have q: "(k + E) div E < E" using k E(3) by (simp add: div_less_iff_less_mult)
  have dm: "unat ((?i - 12) div ?e) = (k + E) div E" "unat ((?i - 12) mod ?e) = (k + E) mod E"
    using d E(1) by (simp_all add: unat_div unat_mod add.commute)
  have lf: "length (fresh_bytes (io_fresh io) (4 * unat ?e)) = unat (e_block_size v)" using E by simp
  obtain e1 c1 where r1: "read_block io (i_block ino ! 13) True (fresh_bytes (io_fresh io) (4 * unat ?e)) v
      = Inr (e1, img (i_block ino ! 13), v\<lparr>e_block_cache := c1\<rparr>)" "0 \<le> e1" "volume_ok io img (v\<lparr>e_block_cache := c1\<rparr>)"
    using read_block_ok [OF ok b(1) lf] by metis
  have l1: "length (img (i_block ino ! 13)) = 4 * E" using ok b(1) E(2) by (simp add: volume_ok_def)
  have w1: "word_at (img (i_block ino ! 13)) ((?i - 12) div ?e) = Inr (get32 (img (i_block ino ! 13)) (4 * ((k + E) div E)))"
    using word_at_nat [of "(?i - 12) div ?e"] dm(1) l1 q by simp
  let ?b = "get32 (img (i_block ino ! 13)) (4 * ((k + E) div E))"
  obtain e2 c2 where r2: "read_block io ?b False (img (i_block ino ! 13)) (v\<lparr>e_block_cache := c1\<rparr>)
      = Inr (e2, img ?b, v\<lparr>e_block_cache := c2\<rparr>)" "0 \<le> e2"
    using read_block_ex [OF r1(3), of ?b "img (i_block ino ! 13)" False] b(2) l1 E(2) by auto
  have l2: "length (img ?b) = 4 * E" using ok b(2) E(2) by (simp add: volume_ok_def)
  have w2: "word_at (img ?b) ((?i - 12) mod ?e) = Inr (dind_block img ino E (k + E))"
    using word_at_nat [of "(?i - 12) mod ?e"] dm(2) l2 mod_less_divisor [OF E(3), of "k + E"] by (simp add: dind_block_def del: mod_less_divisor)
  have "find_data_block io ino ?i v = double_indirect io ino (?i - 12) ?e (fresh_bytes (io_fresh io) (4 * unat ?e)) v"
    using c by (simp add: find_data_block_def Let_def INODE_IND_BLOCK_def)
  then show ?thesis using r1(1,2) r2(1,2) w1 w2 by (simp add: double_indirect_def INODE_DIND_BLOCK_def)
qed

text \<open>
  C39. An error of the disk is not noticed: reading within one direct block that the disk cannot deliver reports success, and
  the caller gets what the fresh buffer happened to hold.
\<close>

theorem ext2_read_hides_disk_error:
  fixes v :: ext2_volume and ino off len
  defines "B \<equiv> unat (e_block_size v)"
  defines "blk \<equiv> i_block ino ! (unat off div B)"
  defines "spb \<equiv> e_block_size v div disk_block_size"
  assumes B: "0 < B" and k: "unat off div B < 12" and len: "0 < unat len" "unat off mod B + unat len \<le> B"
    and r: "unat off + unat len \<le> unat (i_size ino)" "unat len \<le> length buf"
    and b: "blk \<le> sb_block_count (e_sb v)" "lru_get blk (e_block_cache v) = None"
    and err: "io_read io (ucast (blk * spb)) spb = (e, [])" "e < 0"
  shows "ext2_read io (new_ext2_node ino num) off len buf v
    = Inr (Inr len, take (unat len) (drop (unat off mod B) (fresh_bytes (io_fresh io) B)) @ drop (unat len) buf, v)"
proof -
  let ?bs = "ucast (e_block_size v) :: u64" and ?k = "unat off div B"
  have ub: "unat ?bs = B" by (simp add: B_def)
  have sz: "unat (n_size (new_ext2_node ino num)) = unat (i_size ino)" "n_ext2_inode (new_ext2_node ino num) = ino"
    by (simp_all add: new_ext2_node_def)
  have i32: "unat (i_size ino) < 2 ^ 32" using unat_u32_less [of "i_size ino"] by simp
  have B32: "B < 2 ^ 32" using unat_u32_less [of "e_block_size v"] by (simp add: B_def)
  have sum: "unat (off + len) = unat off + unat len" using r i32 by (intro unat_plus_no_wrap) simp
  have g: "\<not> off \<ge> n_size (new_ext2_node ino num)" "\<not> off + len > n_size (new_ext2_node ino num)"
    using sum sz(1) r len by (auto simp: word_le_nat_alt word_less_nat_alt)
  have bz: "e_block_size v \<noteq> 0" "?bs \<noteq> 0" using B ub unat_eq_zero [of ?bs] by (auto simp: B_def)
  have o: "B * ?k + unat off mod B = unat off" by simp
  have mS: "B * Suc ?k = B * ?k + B" "B * Suc (Suc ?k) = B * ?k + B + B" by (simp_all add: algebra_simps)
  have "(unat off + unat len + B - 1) div B = Suc ?k"
  proof (rule div_nat_eqI)
    show "B * Suc ?k \<le> unat off + unat len + B - 1" "unat off + unat len + B - 1 < B * Suc (Suc ?k)"
      using len o unfolding mS by linarith+
  qed
  then have uk: "unat ((off + len + ?bs - 1) div ?bs) = Suc ?k"
    using unat_ceil_div [of ?bs "off + len"] ub B sum r i32 B32 by simp
  have kk: "ucast (off div ?bs) = (of_nat ?k :: u32)" "ucast ((off + len + ?bs - 1) div ?bs) = (of_nat (Suc ?k) :: u32)"
  proof -
    have "unat (off div ?bs) = ?k" using ub by (simp add: unat_div)
    then show "ucast (off div ?bs) = (of_nat ?k :: u32)"
      using k by (intro word_unat_eq_iff [THEN iffD2]) (simp add: unat_ucast_64_32 unat_of_nat_small)
    show "ucast ((off + len + ?bs - 1) div ?bs) = (of_nat (Suc ?k) :: u32)"
      using k uk by (intro word_unat_eq_iff [THEN iffD2]) (simp add: unat_ucast_64_32 unat_of_nat_small del: of_nat_Suc)
  qed
  have oo: "unat (ucast (off mod ?bs) :: u32) = unat off mod B"
    using B B32 ub by (subst unat_ucast_64_32) (auto simp: unat_mod intro: less_trans [OF mod_less_divisor])
  let ?ow = "ucast (off mod ?bs) :: u32" and ?f = "fresh_bytes (io_fresh io) B"
  have kw: "unat (of_nat ?k :: u32) = ?k" using k by (intro unat_of_nat_small) simp
  have "(of_nat ?k :: u32) < 12" using kw k by (simp add: word_less_nat_alt)
  then have "find_data_block io ino (of_nat ?k) v = Inr (Inr (uint blk), v)"
    using kw by (simp add: find_data_block_def Let_def INODE_IND_BLOCK_def blk_def)
  moreover have "unat (of_nat (Suc ?k) :: u32) = Suc ?k" using k by (intro unat_of_nat_small) simp
  ultimately have fb: "find_data_blocks io ino (of_nat ?k) (of_nat (Suc ?k)) v = Inr (Inr [blk], v)"
    using kw by (simp add: find_data_blocks_def)
  have rb: "read_block io blk True ?f v = Inr (1, ?f, v)"
    using b err by (simp add: read_block_def spb_def B_def store_front_def not_less)
  have "?ow \<le> e_block_size v" using oo B mod_less_divisor [of B "unat off"] by (simp add: word_le_nat_alt B_def [symmetric])
  then have "unat (e_block_size v - ?ow) = B - unat off mod B" using oo by (simp add: unat_minus_no_wrap B_def)
  moreover have "unat (ucast len :: u32) = unat len" using r i32 by (intro unat_ucast_64_32) simp
  ultimately have mn: "unat (min (e_block_size v - ?ow) (ucast len)) = unat len"
    using len(2) by (auto simp: min_def word_le_nat_alt)
  have pb: "put_bytes buf 0 (take (unat len) (drop (unat off mod B) ?f)) = Inr (take (unat len) (drop (unat off mod B) ?f) @ drop (unat len) buf)"
    using r(2) len(2) by (simp add: put_bytes_def overwrite_def)
  have "copy_blocks io True ?ow es len [blk] ?f buf 0 v = Inr (True, take (unat len) (drop (unat off mod B) ?f) @ drop (unat len) buf, v)" for es
    using rb mn oo pb by simp
  moreover have "(of_nat (Suc ?k) :: u32) - of_nat ?k = 1" by simp
  ultimately show ?thesis using g bz uk kk fb sz(2) unfolding ext2_read_def by (simp add: Let_def intervals_needed_def B_def del: copy_blocks.simps of_nat_Suc)
qed

section \<open>Witnesses\<close>

text \<open>A volume with blocks of 1024 bytes, each filled with its own number.\<close>

definition demo_block :: "u32 \<Rightarrow> u8 list" where
  "demo_block n = replicate 1024 (of_nat (unat n))"

definition demo_ino :: ext2_inode where
  "demo_ino = (inode_at [] 0)\<lparr>i_mode := 0x81A4, i_size := 3000, i_links_count := 1, i_blocks := 6, i_block := [5, 6, 7] @ replicate 12 0\<rparr>"

definition demo_io :: disk_io where
  "demo_io = \<lparr>io_read = (\<lambda>lba n. (2, replicate 1024 (of_nat (unat lba div 2)))), io_fresh = (\<lambda>_. 0), io_inode = demo_ino\<rparr>"

definition broken_io :: disk_io where
  "broken_io = demo_io\<lparr>io_read := (\<lambda>lba n. (-1, [])), io_fresh := (\<lambda>_. 0xAA)\<rparr>"

definition demo_volume :: ext2_volume where
  "demo_volume = \<lparr>e_sb = (super_block_at [])\<lparr>sb_inode_count := 16, sb_block_count := 64, sb_blocks_per_group := 8192,
       sb_inodes_per_group := 16, sb_magic := 0xEF53\<rparr>, e_file_type = False, e_large_files = False, e_sparse = False,
     e_groups = replicate 32 0, e_block_size = 1024, e_inode_size = 128, e_block_cache = lru_new 50, e_inode_cache = lru_new 1600,
     e_root = None, e_error = 0\<rparr>"

lemma demo_volume_ok: "volume_ok demo_io demo_block demo_volume"
proof -
  have "unat (ucast (n * 2) :: u64) = 2 * unat n" if "n < 64" for n :: u32
  proof -
    have "unat n < 64" using that by (simp add: word_less_nat_alt)
    then show ?thesis using unat_times_no_wrap [of n "2 :: u32"] by simp
  qed
  then show ?thesis
    by (simp add: volume_ok_def demo_volume_def demo_io_def demo_block_def disk_block_size_def lru_inv_def lru_new_def lru_get_def)
qed

lemma demo_map_block: "map_block demo_block demo_ino 0 = 5" "map_block demo_block demo_ino (Suc 0) = 6" "map_block demo_block demo_ino 2 = 7"
  by (simp_all add: map_block_def demo_ino_def)

lemma demo_fields: "unat (e_block_size demo_volume) = 1024" "unat (i_size demo_ino) = 3000" "sb_block_count (e_sb demo_volume) = 64"
  "lru_get n (e_block_cache demo_volume) = None"
  by (simp_all add: demo_volume_def demo_ino_def lru_get_def lru_new_def)

lemma demo_file_blocks: "n \<le> 3 \<Longrightarrow> file_blocks_ok demo_block demo_volume demo_ino n"
proof -
  assume "n \<le> 3"
  then have "k = 0 \<or> k = Suc 0 \<or> k = 2" if "k < n" for k using that by arith
  then have "map_block demo_block demo_ino k < 64" if "k < n" for k using that demo_map_block by force
  then show ?thesis using \<open>n \<le> 3\<close> by (simp add: file_blocks_ok_def demo_fields)
qed

lemma demo_file_bytes: "file_bytes demo_block demo_ino 2 = replicate 1024 5 @ replicate 1024 6"
  by (simp add: file_bytes_def upt_conv_Cons demo_map_block demo_block_def)

theorem ext2_read_correct_witness:
  "\<exists>v'. ext2_read demo_io (new_ext2_node demo_ino 12) 1020 8 (replicate 10 0) demo_volume
     = Inr (Inr 8, replicate 4 5 @ replicate 4 6 @ replicate 2 0, v') \<and> volume_ok demo_io demo_block v'"
proof -
  have p: "0 < unat (8 :: u64)" "unat (1020 :: u64) + unat (8 :: u64) \<le> unat (i_size demo_ino)" "unat (8 :: u64) \<le> length (replicate 10 (0 :: u8))"
    and n: "(unat (1020 :: u64) + unat (8 :: u64) + unat (e_block_size demo_volume) - 1) div unat (e_block_size demo_volume) = 2"
    and l: "\<not> lost_tail (unat (e_block_size demo_volume)) (unat (1020 :: u64)) (unat (8 :: u64))"
    by (simp_all add: demo_fields lost_tail_def)
  have b: "take (unat (8 :: u64)) (drop (unat (1020 :: u64)) (file_bytes demo_block demo_ino 2)) @ drop (unat (8 :: u64)) (replicate 10 0)
      = replicate 4 5 @ replicate 4 6 @ replicate 2 0" unfolding demo_file_bytes by simp
  show ?thesis
    using ext2_read_correct [OF demo_volume_ok p demo_file_blocks l, of 12] unfolding n b by simp
qed

theorem ext2_read_loses_last_block_witness:
  "\<exists>v'. ext2_read demo_io (new_ext2_node demo_ino 12) 1020 1028 (replicate 1028 9) demo_volume
     = Inr (Inr 1028, replicate 4 5 @ replicate 1024 9, v')"
proof -
  have p: "0 < unat (1028 :: u64)" "unat (1020 :: u64) + unat (1028 :: u64) \<le> unat (i_size demo_ino)" "unat (1028 :: u64) \<le> length (replicate 1028 (9 :: u8))"
    and n: "(unat (1020 :: u64) + unat (1028 :: u64) + unat (e_block_size demo_volume) - 1) div unat (e_block_size demo_volume) = 2"
    and l: "lost_tail (unat (e_block_size demo_volume)) (unat (1020 :: u64)) (unat (1028 :: u64))"
    by (simp_all add: demo_fields lost_tail_def)
  have b: "take (unat (1028 :: u64) - unat (e_block_size demo_volume)) (drop (unat (1020 :: u64)) (file_bytes demo_block demo_ino 2))
        @ drop (unat (1028 :: u64) - unat (e_block_size demo_volume)) (replicate 1028 9)
      = replicate 4 5 @ replicate 1024 9" unfolding demo_file_bytes by (simp add: demo_fields)
  show ?thesis
    using ext2_read_loses_last_block [OF demo_volume_ok p demo_file_blocks l, of 12] unfolding n b by simp
qed

theorem find_data_block_correct_witness:
  "\<exists>v'. find_data_block demo_io demo_ino 2 demo_volume = Inr (Inr 7, v') \<and> volume_ok demo_io demo_block v'"
  using find_data_block_correct [OF demo_volume_ok demo_file_blocks [of 3], of 2] by (simp add: demo_map_block)

theorem ext2_read_hides_disk_error_witness:
  "ext2_read broken_io (new_ext2_node demo_ino 12) 1030 4 [1, 2, 3, 4, 5] demo_volume
     = Inr (Inr 4, replicate 4 0xAA @ [5], demo_volume)"
proof -
  let ?B = "unat (e_block_size demo_volume)"
  have b: "i_block demo_ino ! (unat (1030 :: u64) div ?B) = 6" by (simp add: demo_fields(1)) (simp add: demo_ino_def)
  have f: "fresh_bytes (io_fresh broken_io) ?B = replicate 1024 0xAA"
    by (simp add: demo_fields(1) fresh_bytes_def broken_io_def map_replicate_const)
  have io: "io_read broken_io l n = (-1, [])" for l n by (simp add: broken_io_def)
  have p: "0 < ?B" "unat (1030 :: u64) div ?B < 12" "0 < unat (4 :: u64)" "unat (1030 :: u64) mod ?B + unat (4 :: u64) \<le> ?B"
    "unat (1030 :: u64) + unat (4 :: u64) \<le> unat (i_size demo_ino)" "unat (4 :: u64) \<le> length [1 :: u8, 2, 3, 4, 5]"
    "i_block demo_ino ! (unat (1030 :: u64) div ?B) \<le> sb_block_count (e_sb demo_volume)"
    "lru_get (i_block demo_ino ! (unat (1030 :: u64) div ?B)) (e_block_cache demo_volume) = None"
    unfolding b by (simp_all add: demo_fields)
  have d: "take (unat (4 :: u64)) (drop (unat (1030 :: u64) mod ?B) (replicate 1024 0xAA)) @ drop (unat (4 :: u64)) [1, 2, 3, 4, 5] = replicate 4 0xAA @ [5 :: u8]"
    by (simp add: demo_fields(1))
  have "(-1 :: int) < 0" by simp
  from ext2_read_hides_disk_error [OF p io this, of 12] show ?thesis unfolding f d .
qed

theorem double_indirect_shifted_witness:
  "\<exists>v'. find_data_block demo_io demo_ino 268 demo_volume = Inr (Inr (uint (dind_block demo_block demo_ino 256 256)), v')"
proof -
  let ?E = "unat (e_block_size demo_volume) div 4"
  have E: "?E = 256" by (simp add: demo_fields(1))
  have i: "i_block demo_ino ! 13 = 0" by (simp add: demo_ino_def)
  have "le_nat (replicate n 0) = 0" for n by (induction n) auto
  then have z: "get32 (demo_block 0) off = 0" for off by (simp add: get32_def demo_block_def)
  have p: "12 + ?E * ?E < 2 ^ 32" "0 + ?E < ?E * ?E" "i_block demo_ino ! 13 < sb_block_count (e_sb demo_volume)"
    "get32 (demo_block (i_block demo_ino ! 13)) (4 * ((0 + ?E) div ?E)) < sb_block_count (e_sb demo_volume)"
    unfolding i E z by (simp_all add: demo_fields(3))
  from double_indirect_shifted [OF demo_volume_ok p] show ?thesis unfolding E by simp
qed

end
