(* ===== verification/Ext2Dir.thy ===== *)
theory Ext2Dir
  imports Ext2Read
begin

text \<open>
  Directories of an ext2 volume: what a directory holds as a list of entries per block, and lookup and listing on it.
\<close>

section \<open>Entries as bytes\<close>

record dir_entry =
  x_inode :: u32
  x_name :: name
  x_type :: u8
  x_pad :: nat

definition entry_len :: "dir_entry \<Rightarrow> nat" where
  "entry_len d = 8 + length (x_name d) + x_pad d"

definition entry_bytes :: "dir_entry \<Rightarrow> u8 list" where
  "entry_bytes d = le_bytes 4 (unat (x_inode d)) @ le_bytes 2 (entry_len d) @ [of_nat (length (x_name d)), x_type d] @ x_name d @ replicate (x_pad d) 0"

definition entry_ok :: "dir_entry \<Rightarrow> bool" where
  "entry_ok d \<longleftrightarrow> length (x_name d) \<le> 255 \<and> entry_len d < 2 ^ 16"

lemma length_entry_bytes [simp]: "length (entry_bytes d) = entry_len d"
  by (simp add: entry_bytes_def entry_len_def)

lemma drop_entry: "length pre = off \<Longrightarrow> drop (off + k) (pre @ entry_bytes d @ post) = drop k (entry_bytes d @ post)"
  by simp

lemma dirent_at_entry:
  assumes "buf = pre @ entry_bytes d @ post" "length pre = off" "entry_ok d"
  shows "dirent_at buf off = Inr \<lparr>de_inode = x_inode d, de_rec_len = entry_len d, de_name_len = length (x_name d), de_file_type = x_type d\<rparr>"
proof -
  have w: "unat (of_nat (entry_len d) :: u16) = entry_len d" "unat (of_nat (length (x_name d)) :: u8) = length (x_name d)"
    using assms(3) by (auto simp: entry_ok_def intro!: unat_of_nat_small)
  have D: "drop (off + k) buf = drop k (entry_bytes d @ post)" for k using assms(1,2) by simp
  have "get32 buf off = x_inode d" using D [of 0] by (intro get32_encoded) (simp add: entry_bytes_def)
  moreover have "get16 buf (off + 4) = of_nat (entry_len d)"
    using D [of 4] w(1) by (intro get16_encoded) (simp add: entry_bytes_def)
  moreover have "buf ! (off + 6) = of_nat (length (x_name d))" "buf ! (off + 7) = x_type d"
    using assms(1,2) by (auto simp: nth_append entry_bytes_def)
  moreover have "off + 8 \<le> length buf" using assms(1,2) by (simp add: entry_len_def)
  ultimately show ?thesis using w by (simp add: dirent_at_def)
qed

lemma name_of_entry:
  assumes "buf = pre @ entry_bytes d @ post" "length pre = off"
  shows "take (length (x_name d)) (drop (off + 8) buf) = x_name d" "off + 8 + length (x_name d) \<le> length buf"
proof -
  have "drop (off + 8) buf = drop 8 (entry_bytes d @ post)" using assms by simp
  then show "take (length (x_name d)) (drop (off + 8) buf) = x_name d" by (simp add: entry_bytes_def)
  show "off + 8 + length (x_name d) \<le> length buf" using assms by (simp add: entry_len_def)
qed

lemma name_matches_entry:
  assumes "buf = pre @ entry_bytes d @ post" "length pre = off" "length nm \<le> 255" "de_name_len e = length (x_name d)"
  shows "name_matches nm buf off e = Inr (nm = x_name d)"
  using name_of_entry [OF assms(1,2)] assms(3,4) by (auto simp: name_matches_def NAME_MAX_def Let_def)

section \<open>Directories\<close>

text \<open>
  A directory of \<open>n\<close> blocks whose entries are \<open>dir 0\<close>, \<open>dir 1\<close> and so on: each block is filled by its entries, and the
  inode says so.
\<close>

definition dir_ok :: "(u32 \<Rightarrow> u8 list) \<Rightarrow> ext2_volume \<Rightarrow> ext2_inode \<Rightarrow> (nat \<Rightarrow> dir_entry list) \<Rightarrow> nat \<Rightarrow> bool" where
  "dir_ok img v ino dir n \<longleftrightarrow> 0 < n \<and> file_blocks_ok img v ino n
     \<and> (\<forall>k<n. map_block img ino k \<noteq> 0 \<and> img (map_block img ino k) = concat (map entry_bytes (dir k)) \<and> (\<forall>d\<in>set (dir k). entry_ok d))
     \<and> n * unat (e_block_size v) \<le> unat (i_size ino)
     \<and> unat (i_blocks ino div (e_block_size v div disk_block_size)) = n"

lemma dir_ok_cache [simp]: "dir_ok img (v\<lparr>e_block_cache := c\<rparr>) ino dir n = dir_ok img v ino dir n"
  by (simp add: dir_ok_def)

lemma load_dir_block_ok:
  assumes ok: "volume_ok io img v" and d: "dir_ok img v (n_ext2_inode node) dir n" and k: "k < n"
    and l: "length buf = unat (e_block_size v)"
  shows "\<exists>c. load_dir_block io node k cache buf v
      = Inr (True, concat (map entry_bytes (dir k)), v\<lparr>e_block_cache := c\<rparr>) \<and> volume_ok io img (v\<lparr>e_block_cache := c\<rparr>)"
proof -
  let ?ino = "n_ext2_inode node"
  have f: "file_blocks_ok img v ?ino n" using d by (simp add: dir_ok_def)
  obtain c where c: "find_data_block io ?ino (of_nat k) v = Inr (Inr (uint (map_block img ?ino k)), v\<lparr>e_block_cache := c\<rparr>)"
    "volume_ok io img (v\<lparr>e_block_cache := c\<rparr>)" using find_data_block_ok [OF ok f k] by metis
  have b: "map_block img ?ino k < sb_block_count (e_sb v)" "map_block img ?ino k \<noteq> 0"
    "img (map_block img ?ino k) = concat (map entry_bytes (dir k))" using d k by (auto simp: dir_ok_def file_blocks_ok_def)
  obtain e c' where r: "read_block io (map_block img ?ino k) cache buf (v\<lparr>e_block_cache := c\<rparr>)
      = Inr (e, img (map_block img ?ino k), v\<lparr>e_block_cache := c'\<rparr>)" "0 \<le> e" "volume_ok io img (v\<lparr>e_block_cache := c'\<rparr>)"
    using read_block_ex [OF c(2), of "map_block img ?ino k" buf cache] b(1) l by auto
  have "0 < map_block img ?ino k" using b(2) by (simp add: word_neq_0_conv)
  then have "\<not> uint (map_block img ?ino k) < 1" by (simp add: word_less_def)
  then show ?thesis using c(1) r b(3) by (auto simp: load_dir_block_def)
qed

section \<open>Lookup\<close>

definition entry_hit :: "name \<Rightarrow> dir_entry \<Rightarrow> bool" where
  "entry_hit nm d \<longleftrightarrow> x_inode d \<noteq> 0 \<and> x_name d = nm"

lemma search_loop_ok:
  assumes ok: "volume_ok io img v" and d: "dir_ok img v (n_ext2_inode node) dir n" and cb: "cb < n"
    and nm: "length nm \<le> 255"
    and buf: "buf = pre @ concat (map entry_bytes rest)" "length buf = unat (e_block_size v)" "rest \<noteq> []" "\<forall>d\<in>set rest. entry_ok d"
    and L: "L = rest @ concat (map dir [Suc cb..<n])"
  shows "\<exists>r buf' c. search_loop io node nm n (unat (e_block_size v)) cb (length pre) (of_nat (cb * unat (e_block_size v) + length pre)) buf v
      = Inr (r, buf', v\<lparr>e_block_cache := c\<rparr>) \<and> volume_ok io img (v\<lparr>e_block_cache := c\<rparr>)
    \<and> (case List.find (entry_hit nm) L of
         None \<Rightarrow> r = None
       | Some x \<Rightarrow> \<exists>pre post. r = Some (length pre) \<and> buf' = pre @ entry_bytes x @ post \<and> entry_ok x)"
  using assms
proof (induction "length L" arbitrary: v cb pre rest buf L rule: less_induct)
  case less
  let ?B = "unat (e_block_size v)" and ?ino = "n_ext2_inode node"
  obtain x ds where rest: "rest = x # ds" using less.prems(7) by (cases rest) auto
  have x: "entry_ok x" using less.prems(8) rest by simp
  have b: "buf = pre @ entry_bytes x @ concat (map entry_bytes ds)" using less.prems(5) rest by simp
  note de = dirent_at_entry [OF b refl x]
  have nx: "length pre + entry_len x \<le> ?B" using less.prems(6) b by (simp flip: less.prems(6))
  have tot: "(of_nat (cb * ?B + length pre) :: u32) + of_nat (entry_len x) = of_nat (cb * ?B + (length pre + entry_len x))" by simp
  have "cb * ?B + ?B \<le> n * ?B" using less.prems(3) by (metis Suc_leI add.commute mult_Suc mult_le_mono1)
  then have le: "cb * ?B + (length pre + entry_len x) \<le> unat (i_size ?ino)" using nx less.prems(2) by (simp add: dir_ok_def)
  have ts: "\<not> (of_nat (cb * ?B + (length pre + entry_len x)) :: u32) > i_size ?ino"
  proof -
    define t where "t = cb * ?B + (length pre + entry_len x)"
    have "unat (of_nat t :: u32) = t" using le unat_u32_less [of "i_size ?ino"] by (intro unat_of_nat_small) (simp add: t_def)
    then show ?thesis using le by (simp add: word_less_nat_alt t_def [symmetric])
  qed
  have l8: "\<not> entry_len x < 8" by (simp add: entry_len_def)
  note nmx = name_matches_entry [OF b refl less.prems(4)]
  let ?next = "\<lambda>bo. search_loop io node nm n ?B cb bo (of_nat (cb * ?B + bo)) buf v"
  define t0 t1 :: u32 where "t0 = of_nat (cb * ?B + length pre)" and "t1 = of_nat (cb * ?B + (length pre + entry_len x))"
  have t1: "t0 + of_nat (entry_len x) = t1" using tot by (simp only: t0_def t1_def)
  have "search_loop io node nm n ?B cb (length pre) t0 buf v =
     (if entry_hit nm x then Inr (Some (length pre), buf, v)
      else if length pre + entry_len x \<ge> ?B then
        if cb + 1 \<ge> n then Inr (None, buf, v)
        else kbind (load_dir_block io node (cb + 1) True buf v) (\<lambda>(ok, buf, v).
             if \<not> ok then Inr (None, buf, v) else search_loop io node nm n ?B (cb + 1) 0 t1 buf v)
      else search_loop io node nm n ?B cb (length pre + entry_len x) t1 buf v)"
    using less.prems(3) de l8 nmx ts t1 unfolding t1_def [symmetric]
    by (subst search_loop.simps) (auto simp: entry_hit_def Let_def word_neq_0_conv [symmetric])
  note step = this [unfolded t0_def t1_def]
  show ?case
  proof (cases "entry_hit nm x")
    case True
    then have "List.find (entry_hit nm) L = Some x" using less.prems(9) rest by simp
    moreover have "\<exists>p post. Some (length pre) = Some (length p) \<and> buf = p @ entry_bytes x @ post \<and> entry_ok x" using b x by blast
    ultimately show ?thesis using True step less.prems(1)
      by (intro exI [of _ "Some (length pre)"] exI [of _ buf] exI [of _ "e_block_cache v"]) simp
  next
    case False
    show ?thesis
    proof (cases "ds = []")
      case ds: True
      have full: "length pre + entry_len x = ?B" using less.prems(6) b ds by simp
      show ?thesis
      proof (cases "cb + 1 < n")
        case True
        have lb: "length buf = unat (e_block_size v)" by (rule less.prems(6))
        obtain c where c: "load_dir_block io node (cb + 1) True buf v = Inr (True, concat (map entry_bytes (dir (cb + 1))), v\<lparr>e_block_cache := c\<rparr>)"
          "volume_ok io img (v\<lparr>e_block_cache := c\<rparr>)" using load_dir_block_ok [OF less.prems(1,2) True lb] by blast
        let ?v = "v\<lparr>e_block_cache := c\<rparr>"
        have dk: "\<forall>d\<in>set (dir (cb + 1)). entry_ok d" "img (map_block img ?ino (cb + 1)) = concat (map entry_bytes (dir (cb + 1)))"
          "map_block img ?ino (cb + 1) < sb_block_count (e_sb v)"
          using less.prems(2) True by (auto simp: dir_ok_def file_blocks_ok_def)
        have "length (img (map_block img ?ino (cb + 1))) = ?B" using less.prems(1) dk(3) by (simp add: volume_ok_def)
        then have lk: "length (concat (map entry_bytes (dir (cb + 1)))) = ?B" using dk(2) by metis
        then have ne: "dir (cb + 1) \<noteq> []" using less.prems(1) by (auto simp: volume_ok_def)
        have L': "L = x # dir (cb + 1) @ concat (map dir [Suc (cb + 1)..<n])"
          using less.prems(9) rest ds True by (simp add: upt_conv_Cons)
        have IH: "\<exists>r buf' c'. search_loop io node nm n (unat (e_block_size ?v)) (cb + 1) (length ([] :: u8 list)) (of_nat ((cb + 1) * unat (e_block_size ?v) + length ([] :: u8 list)))
              (concat (map entry_bytes (dir (cb + 1)))) ?v
            = Inr (r, buf', ?v\<lparr>e_block_cache := c'\<rparr>) \<and> volume_ok io img (?v\<lparr>e_block_cache := c'\<rparr>)
          \<and> (case List.find (entry_hit nm) (dir (cb + 1) @ concat (map dir [Suc (cb + 1)..<n])) of
               None \<Rightarrow> r = None
             | Some x \<Rightarrow> \<exists>pre post. r = Some (length pre) \<and> buf' = pre @ entry_bytes x @ post \<and> entry_ok x)"
          using less.prems(2,4) True dk(1) lk ne c(2) L' by (intro less.hyps) auto
        have tt: "cb * ?B + (length pre + entry_len x) = (cb + 1) * ?B" using full by simp
        have "?next (length pre) = search_loop io node nm n ?B (cb + 1) 0 (of_nat ((cb + 1) * ?B)) (concat (map entry_bytes (dir (cb + 1)))) ?v"
          using step False full True c(1) unfolding tt by simp
        then show ?thesis using IH L' False by simp
      next
        case last: False
        then have "List.find (entry_hit nm) L = None" using less.prems(9) rest ds False by simp
        then show ?thesis using step False full last less.prems(1) by (auto intro!: exI [of _ "e_block_cache v"])
      qed
    next
      case ds: False
      then obtain y ds' where y: "ds = y # ds'" by (cases ds) auto
      have "length buf = length pre + entry_len x + (entry_len y + length (concat (map entry_bytes ds')))" using b y by simp
      then have lt: "length pre + entry_len x < ?B" using less.prems(6) by (simp add: entry_len_def)
      have IH: "\<exists>r buf' c'. search_loop io node nm n ?B cb (length (pre @ entry_bytes x)) (of_nat (cb * ?B + length (pre @ entry_bytes x))) buf v
            = Inr (r, buf', v\<lparr>e_block_cache := c'\<rparr>) \<and> volume_ok io img (v\<lparr>e_block_cache := c'\<rparr>)
          \<and> (case List.find (entry_hit nm) (ds @ concat (map dir [Suc cb..<n])) of
               None \<Rightarrow> r = None
             | Some x \<Rightarrow> \<exists>pre post. r = Some (length pre) \<and> buf' = pre @ entry_bytes x @ post \<and> entry_ok x)"
        using less.prems(1-4,6,8,9) rest b ds by (intro less.hyps) auto
      have "?next (length pre) = search_loop io node nm n ?B cb (length (pre @ entry_bytes x)) (of_nat (cb * ?B + length (pre @ entry_bytes x))) buf v"
        using step False lt by simp
      moreover have "List.find (entry_hit nm) L = List.find (entry_hit nm) (ds @ concat (map dir [Suc cb..<n]))" using less.prems(9) rest False by simp
      ultimately show ?thesis using IH by simp
    qed
  qed
qed

lemma dir_block_length:
  assumes "volume_ok io img v" "dir_ok img v ino dir n" "k < n"
  shows "length (concat (map entry_bytes (dir k))) = unat (e_block_size v)" "dir k \<noteq> []"
proof -
  have d: "map_block img ino k < sb_block_count (e_sb v)" "img (map_block img ino k) = concat (map entry_bytes (dir k))"
    using assms(2,3) by (auto simp: dir_ok_def file_blocks_ok_def)
  have "length (img (map_block img ino k)) = unat (e_block_size v)" using assms(1) d(1) by (simp add: volume_ok_def)
  then show l: "length (concat (map entry_bytes (dir k))) = unat (e_block_size v)" using d(2) by metis
  show "dir k \<noteq> []" using l assms(1) by (auto simp: volume_ok_def)
qed

lemma ext2_find_dir_entry:
  assumes ok: "volume_ok io img v" and d: "dir_ok img v (n_ext2_inode node) dir n"
    and node: "is_dir (n_flags node)" "n_inode node \<noteq> 0" and nm: "length nm \<le> 255"
  shows "\<exists>c. volume_ok io img (v\<lparr>e_block_cache := c\<rparr>) \<and> ext2_find_dir io node nm v =
    (case List.find (entry_hit nm) (concat (map dir [0..<n])) of
       None \<Rightarrow> Inr (None, v\<lparr>e_block_cache := c\<rparr>)
     | Some x \<Rightarrow> if x_inode x > sb_inode_count (e_sb v) then Inr (None, v\<lparr>e_block_cache := c\<rparr>)
                 else kbind (node_of_inode io (x_inode x) (v\<lparr>e_block_cache := c\<rparr>)) (\<lambda>(m, v). Inr (Some m, v)))"
proof -
  have n: "0 < n" "unat (i_blocks (n_ext2_inode node) div (e_block_size v div disk_block_size)) = n"
    "\<forall>d\<in>set (dir 0). entry_ok d" using d by (auto simp: dir_ok_def)
  obtain c where c: "load_dir_block io node 0 True (fresh_bytes (io_fresh io) (unat (e_block_size v))) v
      = Inr (True, concat (map entry_bytes (dir 0)), v\<lparr>e_block_cache := c\<rparr>)" "volume_ok io img (v\<lparr>e_block_cache := c\<rparr>)"
    using load_dir_block_ok [OF ok d n(1), of "fresh_bytes (io_fresh io) (unat (e_block_size v))" True] by auto
  let ?v = "v\<lparr>e_block_cache := c\<rparr>" and ?L = "concat (map dir [0..<n])"
  have d': "dir_ok img ?v (n_ext2_inode node) dir n" using d by simp
  note l0 = dir_block_length [OF c(2) d' n(1)]
  have L: "?L = dir 0 @ concat (map dir [Suc 0..<n])" using n(1) by (simp add: upt_conv_Cons)
  obtain r buf' c' where r: "search_loop io node nm n (unat (e_block_size v)) 0 0 0 (concat (map entry_bytes (dir 0))) ?v
      = Inr (r, buf', v\<lparr>e_block_cache := c'\<rparr>)" "volume_ok io img (v\<lparr>e_block_cache := c'\<rparr>)"
    "case List.find (entry_hit nm) ?L of None \<Rightarrow> r = None
       | Some x \<Rightarrow> \<exists>pre post. r = Some (length pre) \<and> buf' = pre @ entry_bytes x @ post \<and> entry_ok x"
    using search_loop_ok [OF c(2) d' n(1) nm, of "concat (map entry_bytes (dir 0))" "[]" "dir 0" ?L] l0 n(3) L by auto
  have "e_block_size v div disk_block_size \<noteq> 0" using n(1,2) by (metis div_by_0 less_irrefl unat_0)
  then have lim: "dir_blocks node ?v = Inr n" using n(2) by (simp add: dir_blocks_def)
  have F: "ext2_find_dir io node nm v =
     (case r of None \<Rightarrow> Inr (None, v\<lparr>e_block_cache := c'\<rparr>)
      | Some off \<Rightarrow> kbind (dirent_at buf' off) (\<lambda>d. kbind (name_matches nm buf' off d) (\<lambda>found.
          if \<not> found \<or> de_inode d = 0 \<or> de_inode d > sb_inode_count (e_sb (v\<lparr>e_block_cache := c'\<rparr>)) then Inr (None, v\<lparr>e_block_cache := c'\<rparr>)
          else kbind (node_of_inode io (de_inode d) (v\<lparr>e_block_cache := c'\<rparr>)) (\<lambda>(n, v). Inr (Some n, v)))))"
    using node c(1) lim r(1) by (simp add: ext2_find_dir_def)
  show ?thesis
  proof (cases "List.find (entry_hit nm) ?L")
    case None
    then show ?thesis using F r(2,3) by auto
  next
    case (Some x)
    then obtain pre post where p: "r = Some (length pre)" "buf' = pre @ entry_bytes x @ post" "entry_ok x" using r(3) by auto
    have h: "x_inode x \<noteq> 0" "x_name x = nm" using Some by (auto simp: find_Some_iff entry_hit_def)
    show ?thesis
      using F p(1) dirent_at_entry [OF p(2) refl p(3)] name_matches_entry [OF p(2) refl nm] h r(2) Some
      by (intro exI [of _ c']) simp
  qed
qed

section \<open>Inodes\<close>

text \<open>The place of an inode by the format: the byte offset of the inode in the table of its group.\<close>

definition inode_group :: "ext2_volume \<Rightarrow> u32 \<Rightarrow> nat" where
  "inode_group v num = (unat num - 1) div unat (sb_inodes_per_group (e_sb v))"

definition inode_offset :: "ext2_volume \<Rightarrow> u32 \<Rightarrow> nat" where
  "inode_offset v num = (unat num - 1) mod unat (sb_inodes_per_group (e_sb v)) * unat (e_inode_size v)"

definition inode_block :: "ext2_volume \<Rightarrow> u32 \<Rightarrow> u32" where
  "inode_block v num = get32 (e_groups v) (32 * inode_group v num + 8) + of_nat (inode_offset v num div unat (e_block_size v))"

definition disk_inode :: "(u32 \<Rightarrow> u8 list) \<Rightarrow> ext2_volume \<Rightarrow> u32 \<Rightarrow> ext2_inode" where
  "disk_inode img v num = inode_at (img (inode_block v num)) (inode_offset v num mod unat (e_block_size v))"

definition inodes_ok :: "(u32 \<Rightarrow> u8 list) \<Rightarrow> ext2_volume \<Rightarrow> bool" where
  "inodes_ok img v \<longleftrightarrow> 0 < unat (sb_inodes_per_group (e_sb v)) \<and> 128 \<le> unat (e_inode_size v) \<and> unat (e_inode_size v) dvd unat (e_block_size v)
     \<and> unat (sb_inodes_per_group (e_sb v)) * unat (e_inode_size v) < 2 ^ 32 \<and> lru_inv (e_inode_cache v)
     \<and> (\<forall>num. 0 < num \<and> num \<le> sb_inode_count (e_sb v) \<longrightarrow>
          32 * inode_group v num + 32 \<le> length (e_groups v) \<and> inode_block v num < sb_block_count (e_sb v)
          \<and> (\<forall>m. lru_get num (e_inode_cache v) = Some m \<longrightarrow> m = new_ext2_node (disk_inode img v num) num))"

lemma read_inode_ok:
  assumes ok: "volume_ok io img v" and i: "inodes_ok img v" and num: "0 < num" "num \<le> sb_inode_count (e_sb v)"
  shows "\<exists>c. read_inode io num v = Inr (0, Some (disk_inode img v num), v\<lparr>e_block_cache := c\<rparr>) \<and> volume_ok io img (v\<lparr>e_block_cache := c\<rparr>)"
proof -
  let ?g = "sb_inodes_per_group (e_sb v)" and ?s = "e_inode_size v" and ?B = "e_block_size v" and ?n = "(ucast num :: u64) - 1"
  let ?idx = "(unat num - 1) mod unat ?g"
  have I: "0 < unat ?g" "128 \<le> unat ?s" "unat ?s dvd unat ?B" "unat ?g * unat ?s < 2 ^ 32"
    "32 * inode_group v num + 32 \<le> length (e_groups v)" "inode_block v num < sb_block_count (e_sb v)"
    using i num by (auto simp: inodes_ok_def)
  have B: "0 < unat ?B" using ok by (simp add: volume_ok_def)
  have un: "unat ?n = unat num - 1" using num(1) unat_minus_no_wrap [of 1 "ucast num :: u64"] by (simp add: word_le_nat_alt word_less_nat_alt)
  have nl: "unat num - 1 < 2 ^ 32" using unat_u32_less [of num] by simp
  have g: "unat (ucast (?n div ucast ?g) :: u32) = inode_group v num"
    using un nl by (subst unat_ucast_64_32) (auto simp: unat_div inode_group_def intro: le_less_trans [OF div_le_dividend])
  have o: "unat (ucast (?n mod ucast ?g) :: u32) = ?idx"
    using un nl by (subst unat_ucast_64_32) (auto simp: unat_mod intro: le_less_trans [OF mod_less_eq_dividend])
  have il: "?idx * unat ?s < 2 ^ 32"
  proof -
    have "?idx \<le> unat ?g" using I(1) by (simp add: less_imp_le_nat)
    then show ?thesis using I(4) by (meson le_less_trans mult_le_mono1)
  qed
  have om: "unat (ucast (?n mod ucast ?g) * ?s) = ?idx * unat ?s" using o il unat_times_no_wrap [of "ucast (?n mod ucast ?g) :: u32" ?s] by simp
  obtain q where q: "unat ?B = unat ?s * q" using I(3) by (auto simp: dvd_def)
  have q0: "0 < q" "unat (?B div ?s) = q" using q B I(2) by (auto simp: unat_div)
  have place: "?idx * unat ?s mod unat ?B = unat ?s * (?idx mod q)" unfolding q by (metis mult.commute mult_mod_right)
  have om2: "unat (?s * (ucast (?n mod ucast ?g) mod (?B div ?s))) = ?idx * unat ?s mod unat ?B"
  proof -
    have "unat (ucast (?n mod ucast ?g) mod (?B div ?s) :: u32) = ?idx mod q" using o q0 by (simp add: unat_mod)
    moreover have "unat ?s * (?idx mod q) < 2 ^ 32"
      using place il mod_less_eq_dividend [of "?idx * unat ?s" "unat ?B"] by linarith
    ultimately show ?thesis using place unat_times_no_wrap [of ?s "ucast (?n mod ucast ?g) mod (?B div ?s) :: u32"] by simp
  qed
  have fit: "?idx * unat ?s mod unat ?B + 128 \<le> unat ?B"
  proof -
    have "?idx mod q + 1 \<le> q" using q0(1) by (simp add: Suc_leI)
    then have "unat ?s * (?idx mod q + 1) \<le> unat ?s * q" by (rule mult_le_mono2)
    then show ?thesis using place q I(2) by (simp add: algebra_simps)
  qed
  have bn: "ucast (?n mod ucast ?g) * ?s div ?B = (of_nat (inode_offset v num div unat ?B) :: u32)"
  proof (rule word_unat_eq_iff [THEN iffD2])
    have "inode_offset v num div unat ?B < 2 ^ 32" using il by (simp add: inode_offset_def) (meson div_le_dividend le_less_trans)
    then show "unat (ucast (?n mod ucast ?g) * ?s div ?B) = unat (of_nat (inode_offset v num div unat ?B) :: u32)"
      using om by (simp add: unat_div unat_of_nat_small) (simp add: inode_offset_def)
  qed
  have blk: "get32 (e_groups v) (32 * inode_group v num + 8) + ucast (?n mod ucast ?g) * ?s div ?B = inode_block v num"
    unfolding bn by (simp add: inode_block_def)
  obtain e c where r: "read_block io (inode_block v num) False (fresh_bytes (io_fresh io) (unat ?B)) v = Inr (e, img (inode_block v num), v\<lparr>e_block_cache := c\<rparr>)"
    "0 \<le> e" "volume_ok io img (v\<lparr>e_block_cache := c\<rparr>)"
    using read_block_ex [OF ok I(6), of "fresh_bytes (io_fresh io) (unat ?B)" False] by auto
  have li: "length (img (inode_block v num)) = unat ?B" using ok I(6) by (simp add: volume_ok_def)
  have nz: "?g \<noteq> 0" "?B \<noteq> 0" "?s \<noteq> 0" "?B div ?s \<noteq> 0" using I(1,2) B q0 by (auto simp: word_unat_eq_iff)
  have "read_inode io num v = Inr (0, Some (disk_inode img v num), v\<lparr>e_block_cache := c\<rparr>)"
    unfolding read_inode_def Let_def using nz I(5) r(1,2) fit om2 li
    by (simp add: blk g disk_inode_def inode_offset_def)
  then show ?thesis using r(3) by blast
qed

lemma inodes_ok_cache [simp]: "inodes_ok img (v\<lparr>e_block_cache := c\<rparr>) = inodes_ok img v"
  by (simp add: inodes_ok_def disk_inode_def inode_block_def inode_offset_def inode_group_def)

lemma inodes_ok_inode_cache:
  assumes i: "inodes_ok img v" and s: "lru_set num (new_ext2_node (disk_inode img v num) num) (e_inode_cache v) = Inr (vs, c)"
  shows "inodes_ok img (v\<lparr>e_inode_cache := c\<rparr>)"
proof -
  have inv: "lru_inv (e_inode_cache v)" using i by (simp add: inodes_ok_def)
  obtain vs' c' where c': "lru_set num (new_ext2_node (disk_inode img v num) num) (e_inode_cache v) = Inr (vs', c')" "lru_inv c'"
    "\<And>q b. lru_get q c' = Some b \<Longrightarrow> q = num \<and> b = new_ext2_node (disk_inode img v num) num \<or> lru_get q (e_inode_cache v) = Some b"
    using lru_set_ok [OF inv] by metis
  have "c' = c" using s c'(1) by simp
  moreover have "disk_inode img (v\<lparr>e_inode_cache := c\<rparr>) = disk_inode img v" "inode_group (v\<lparr>e_inode_cache := c\<rparr>) = inode_group v"
    "inode_block (v\<lparr>e_inode_cache := c\<rparr>) = inode_block v"
    by (auto simp: fun_eq_iff disk_inode_def inode_block_def inode_offset_def inode_group_def)
  ultimately show ?thesis using i c'(2,3) unfolding inodes_ok_def by fastforce
qed

lemma node_of_inode_ok:
  assumes ok: "volume_ok io img v" and i: "inodes_ok img v" and num: "0 < num" "num \<le> sb_inode_count (e_sb v)"
  shows "\<exists>v'. node_of_inode io num v = Inr (new_ext2_node (disk_inode img v num) num, v') \<and> volume_ok io img v' \<and> inodes_ok img v'"
proof (cases "lru_get num (e_inode_cache v)")
  case None
  obtain c where c: "read_inode io num v = Inr (0, Some (disk_inode img v num), v\<lparr>e_block_cache := c\<rparr>)" "volume_ok io img (v\<lparr>e_block_cache := c\<rparr>)"
    using read_inode_ok [OF assms] by blast
  let ?v = "v\<lparr>e_block_cache := c\<rparr>" and ?m = "new_ext2_node (disk_inode img v num) num"
  have m: "disk_inode img ?v num = disk_inode img v num" by (simp add: disk_inode_def inode_block_def inode_offset_def inode_group_def)
  have inv: "lru_inv (e_inode_cache v)" using i by (simp add: inodes_ok_def)
  obtain vs c' where c': "lru_set num ?m (e_inode_cache v) = Inr (vs, c')" using lru_set_ok [OF inv] by metis
  have "inodes_ok img (?v\<lparr>e_inode_cache := c'\<rparr>)" using i c' m by (intro inodes_ok_inode_cache [of _ _ num vs]) simp_all
  moreover have "volume_ok io img (?v\<lparr>e_inode_cache := c'\<rparr>)" using c(2) by (simp add: volume_ok_def)
  moreover have "node_of_inode io num v = Inr (?m, ?v\<lparr>e_inode_cache := c'\<rparr>)" using None c(1) c' by (simp add: node_of_inode_def)
  ultimately show ?thesis by blast
next
  case (Some m)
  then show ?thesis using i num ok by (auto simp: node_of_inode_def inodes_ok_def)
qed

text \<open>
  C23. Reading an inode by its number returns the one that the format places there: in the table of its group, at the byte
  offset of its index, wherever that lies in the blocks of the table.
\<close>

theorem read_inode_correct:
  assumes "volume_ok io img v" "inodes_ok img v" "0 < num" "num \<le> sb_inode_count (e_sb v)"
  shows "\<exists>v'. read_inode io num v = Inr (0, Some (disk_inode img v num), v') \<and> volume_ok io img v'"
  using read_inode_ok [OF assms] by blast

text \<open>
  C7. Lookup in a directory whose blocks hold the entries \<open>dir 0\<close>, \<open>dir 1\<close> and so on finds the first entry in use with the
  name and returns the node of its inode, from the cache or the disk; a name that no entry in use has is not found.
  The caches stay right.
\<close>

theorem ext2_find_dir_correct:
  assumes "volume_ok io img v" "inodes_ok img v" "dir_ok img v (n_ext2_inode node) dir n"
    "is_dir (n_flags node)" "n_inode node \<noteq> 0" "length nm \<le> 255"
    "\<forall>d\<in>set (concat (map dir [0..<n])). x_inode d \<le> sb_inode_count (e_sb v)"
  shows "\<exists>v'. ext2_find_dir io node nm v =
      Inr (map_option (\<lambda>d. new_ext2_node (disk_inode img v (x_inode d)) (x_inode d)) (List.find (entry_hit nm) (concat (map dir [0..<n]))), v')
    \<and> volume_ok io img v' \<and> inodes_ok img v'"
proof -
  obtain c where ok: "volume_ok io img (v\<lparr>e_block_cache := c\<rparr>)" and F: "ext2_find_dir io node nm v =
    (case List.find (entry_hit nm) (concat (map dir [0..<n])) of
       None \<Rightarrow> Inr (None, v\<lparr>e_block_cache := c\<rparr>)
     | Some x \<Rightarrow> if x_inode x > sb_inode_count (e_sb v) then Inr (None, v\<lparr>e_block_cache := c\<rparr>)
                 else kbind (node_of_inode io (x_inode x) (v\<lparr>e_block_cache := c\<rparr>)) (\<lambda>(m, v). Inr (Some m, v)))"
    using ext2_find_dir_entry [OF assms(1,3-6)] by blast
  have i: "inodes_ok img (v\<lparr>e_block_cache := c\<rparr>)" using assms(2) by simp
  show ?thesis
  proof (cases "List.find (entry_hit nm) (concat (map dir [0..<n]))")
    case None
    then show ?thesis using F ok i by auto
  next
    case (Some x)
    then have x: "x \<in> set (concat (map dir [0..<n]))" "x_inode x \<noteq> 0" by (metis find_Some_iff nth_mem, metis find_Some_iff entry_hit_def)
    then have "x_inode x \<le> sb_inode_count (e_sb v)" using assms(7) by blast
    then obtain v' where "node_of_inode io (x_inode x) (v\<lparr>e_block_cache := c\<rparr>)
        = Inr (new_ext2_node (disk_inode img (v\<lparr>e_block_cache := c\<rparr>) (x_inode x)) (x_inode x), v')" "volume_ok io img v'" "inodes_ok img v'"
      using node_of_inode_ok [OF ok i, of "x_inode x"] x(2) by (auto simp: word_neq_0_conv)
    moreover have "disk_inode img (v\<lparr>e_block_cache := c\<rparr>) (x_inode x) = disk_inode img v (x_inode x)"
      by (simp add: disk_inode_def inode_block_def inode_offset_def inode_group_def)
    ultimately show ?thesis using F Some \<open>x_inode x \<le> _\<close> by (auto simp: not_less [symmetric])
  qed
qed

section \<open>Listing\<close>

lemma list_loop_entries:
  assumes "\<forall>d\<in>set es. entry_ok d \<and> x_inode d \<noteq> 0" "buf = pre @ concat (map entry_bytes es) @ post"
    "length pre + length (concat (map entry_bytes es)) \<le> unat (e_block_size v)"
  shows "list_loop io node i (i + length es) cb (length pre) buf v = Inr (Inr (length pre + length (concat (map entry_bytes es))), buf, v)"
  using assms
proof (induction es arbitrary: i pre)
  case Nil
  then show ?case by (subst list_loop.simps) simp
next
  case (Cons x es)
  have b: "buf = pre @ entry_bytes x @ (concat (map entry_bytes es) @ post)" using Cons.prems(2) by simp
  have x: "entry_ok x" "x_inode x \<noteq> 0" using Cons.prems(1) by auto
  have "list_loop io node (i + 1) ((i + 1) + length es) cb (length (pre @ entry_bytes x)) buf v
      = Inr (Inr (length (pre @ entry_bytes x) + length (concat (map entry_bytes es))), buf, v)"
    using Cons.prems by (intro Cons.IH) auto
  moreover have "entry_len x \<noteq> 0" "\<not> entry_len x < 8" by (simp_all add: entry_len_def)
  moreover have "\<not> length pre + entry_len x > unat (e_block_size v)" using Cons.prems(3) by simp
  ultimately show ?case using dirent_at_entry [OF b refl x(1)] x(2) by (subst list_loop.simps) (simp add: Let_def add.assoc)
qed

text \<open>
  C40. Listing: the entries of the first block of a directory, none of them unused, are returned one by one, in order, with
  name and type; but the call after the last one reads past the end of the buffer, instead of going on to the next block
  or reporting the end.
\<close>

theorem ext2_read_dir_lists_and_overruns:
  assumes ok: "volume_ok io img v" and d: "dir_ok img v (n_ext2_inode node) dir n" and node: "is_dir (n_flags node)" "n_inode node \<noteq> 0"
    and used: "\<forall>d\<in>set (dir 0). x_inode d \<noteq> 0" and k: "k \<le> length (dir 0)" "k < 2 ^ 32"
  shows "(k < length (dir 0) \<longrightarrow> (\<exists>v'. ext2_read_dir io node (of_nat k) v
          = Inr (Inr 1, Some (x_name (dir 0 ! k), dirent_flags (x_type (dir 0 ! k))), v') \<and> volume_ok io img v'))
    \<and> (k = length (dir 0) \<longrightarrow> ext2_read_dir io node (of_nat k) v = Inl Out_of_bounds)"
proof -
  have n: "0 < n" "\<forall>d\<in>set (dir 0). entry_ok d" using d by (auto simp: dir_ok_def)
  let ?buf = "concat (map entry_bytes (dir 0))"
  obtain c where c: "load_dir_block io node 0 False (fresh_bytes (io_fresh io) (unat (e_block_size v))) v
      = Inr (True, ?buf, v\<lparr>e_block_cache := c\<rparr>)" "volume_ok io img (v\<lparr>e_block_cache := c\<rparr>)"
    using load_dir_block_ok [OF ok d n(1), of "fresh_bytes (io_fresh io) (unat (e_block_size v))" False] by auto
  let ?v = "v\<lparr>e_block_cache := c\<rparr>" and ?pre = "concat (map entry_bytes (take k (dir 0)))"
  note l0 = dir_block_length [OF ok d n(1)]
  have sp: "?buf = ?pre @ concat (map entry_bytes (drop k (dir 0)))" by (metis append_take_drop_id concat_append map_append)
  have uk: "unat (of_nat k :: u32) = k" using k(2) by (intro unat_of_nat_small) simp
  have "\<forall>d\<in>set (take k (dir 0)). entry_ok d \<and> x_inode d \<noteq> 0" using n(2) used by (meson in_set_takeD)
  then have "list_loop io node 0 (0 + length (take k (dir 0))) 0 (length ([] :: u8 list)) ?buf ?v
      = Inr (Inr (length ([] :: u8 list) + length ?pre), ?buf, ?v)"
    using sp l0(1) arg_cong [OF sp, of length] by (intro list_loop_entries [where post = "concat (map entry_bytes (drop k (dir 0)))"]) auto
  moreover have "length (take k (dir 0)) = k" using k(1) by simp
  ultimately have ll: "list_loop io node 0 k 0 0 ?buf ?v = Inr (Inr (length ?pre), ?buf, ?v)" by (simp only: add_0 list.size(3))
  have R: "ext2_read_dir io node (of_nat k) v = kbind (dirent_at ?buf (length ?pre)) (\<lambda>d.
      if length ?pre + 8 + de_name_len d \<le> length ?buf
      then Inr (Inr 1, Some (take (de_name_len d) (drop (length ?pre + 8) ?buf), dirent_flags (de_file_type d)), ?v) else Inl Out_of_bounds)"
    using node c(1) ll uk by (simp add: ext2_read_dir_def)
  have "ext2_read_dir io node (of_nat k) v = Inr (Inr 1, Some (x_name (dir 0 ! k), dirent_flags (x_type (dir 0 ! k))), ?v)"
    if "k < length (dir 0)"
  proof -
    have "drop k (dir 0) = dir 0 ! k # drop (Suc k) (dir 0)" using that by (simp add: Cons_nth_drop_Suc)
    then have b: "?buf = ?pre @ entry_bytes (dir 0 ! k) @ concat (map entry_bytes (drop (Suc k) (dir 0)))" using sp by simp
    have e: "entry_ok (dir 0 ! k)" using n(2) that by simp
    show ?thesis using R dirent_at_entry [OF b refl e] name_of_entry [OF b refl] by simp
  qed
  moreover have "ext2_read_dir io node (of_nat k) v = Inl Out_of_bounds" if "k = length (dir 0)"
    using that R by (simp add: dirent_at_def)
  ultimately show ?thesis using c(2) by blast
qed

section \<open>Witnesses\<close>

definition demo_dir :: "dir_entry list" where
  "demo_dir = [\<lparr>x_inode = 2, x_name = [46], x_type = 2, x_pad = 3\<rparr>, \<lparr>x_inode = 12, x_name = [97, 98], x_type = 1, x_pad = 1002\<rparr>]"

definition dir_image :: "u32 \<Rightarrow> u8 list" where
  "dir_image n = (if n = 5 then concat (map entry_bytes demo_dir) else replicate 1024 0)"

definition dir_io :: disk_io where
  "dir_io = \<lparr>io_read = (\<lambda>lba n. (2, dir_image (of_nat (unat lba div 2)))), io_fresh = (\<lambda>_. 0), io_inode = demo_ino\<rparr>"

definition dir_ino :: ext2_inode where
  "dir_ino = (inode_at [] 0)\<lparr>i_mode := 0x41ED, i_size := 1024, i_links_count := 2, i_blocks := 2, i_block := 5 # replicate 14 0\<rparr>"

lemma demo_dir_bytes: "length (concat (map entry_bytes demo_dir)) = 1024" "\<forall>d\<in>set demo_dir. entry_ok d \<and> x_inode d \<noteq> 0 \<and> x_inode d \<le> 16"
  by (simp_all add: demo_dir_def entry_len_def entry_ok_def)

lemma dir_volume_ok: "volume_ok dir_io dir_image demo_volume"
proof -
  have "(of_nat (unat (ucast (n * 2) :: u64) div 2) :: u32) = n" if "n < 64" for n :: u32
  proof -
    have "unat n < 64" using that by (simp add: word_less_nat_alt)
    then show ?thesis using unat_times_no_wrap [of n "2 :: u32"] by simp
  qed
  moreover have "length (dir_image n) = 1024" for n using demo_dir_bytes(1) by (simp add: dir_image_def)
  ultimately show ?thesis
    by (simp add: volume_ok_def demo_volume_def dir_io_def disk_block_size_def lru_inv_def lru_new_def lru_get_def)
qed

lemma dir_inodes_ok: "inodes_ok dir_image demo_volume"
proof -
  have z: "le_nat (replicate n 0) = 0" for n by (induction n) auto
  have "inode_block demo_volume num < 64" for num
  proof -
    have "(unat num - 1) mod 16 * 128 div 1024 < 16" using mod_less_divisor [of 16 "unat num - 1"] by simp
    then have "unat (of_nat ((unat num - 1) mod 16 * 128 div 1024) :: u32) < 64" by (subst unat_of_nat_small) simp_all
    then show ?thesis
      by (simp add: inode_block_def inode_offset_def inode_group_def demo_volume_def get32_def z word_less_nat_alt del: of_nat_mult of_nat_div)
  qed
  moreover have "inode_group demo_volume num = 0" if "num \<le> 16" for num
  proof -
    have "unat num - 1 < 16" using that by (simp add: word_le_nat_alt)
    then show ?thesis by (simp add: inode_group_def demo_volume_def)
  qed
  ultimately show ?thesis
    by (simp add: inodes_ok_def) (simp add: demo_volume_def lru_inv_def lru_new_def lru_get_def)
qed

lemma dir_dir_ok: "dir_ok dir_image demo_volume dir_ino (\<lambda>_. demo_dir) 1"
  using demo_dir_bytes(2)
  by (simp add: dir_ok_def file_blocks_ok_def map_block_def dir_ino_def dir_image_def demo_volume_def disk_block_size_def)

lemma dir_node: "n_ext2_inode (new_ext2_node dir_ino 2) = dir_ino" "n_inode (new_ext2_node dir_ino 2) \<noteq> 0"
  "is_dir (n_flags (new_ext2_node dir_ino 2))" "sb_inode_count (e_sb demo_volume) = 16"
  by (simp_all add: new_ext2_node_def dir_ino_def Let_def is_dir_def node_type_defs demo_volume_def)

theorem ext2_find_dir_correct_witness:
  "(\<exists>v'. ext2_find_dir dir_io (new_ext2_node dir_ino 2) [97, 98] demo_volume
      = Inr (Some (new_ext2_node (disk_inode dir_image demo_volume 12) 12), v'))
   \<and> (\<exists>v'. ext2_find_dir dir_io (new_ext2_node dir_ino 2) [99] demo_volume = Inr (None, v'))"
proof -
  have d: "dir_ok dir_image demo_volume (n_ext2_inode (new_ext2_node dir_ino 2)) (\<lambda>_. demo_dir) 1" using dir_dir_ok dir_node(1) by simp
  have e: "\<forall>d\<in>set (concat (map (\<lambda>_. demo_dir) [0..<1 :: nat])). x_inode d \<le> sb_inode_count (e_sb demo_volume)"
    using demo_dir_bytes(2) dir_node(4) by simp
  have f: "List.find (entry_hit [97, 98]) demo_dir = Some (demo_dir ! 1)" "List.find (entry_hit [99]) demo_dir = None" "x_inode (demo_dir ! 1) = 12"
    by (simp_all add: demo_dir_def entry_hit_def)
  note F = ext2_find_dir_correct [OF dir_volume_ok dir_inodes_ok d dir_node(3,2) _ e]
  have "\<exists>v'. ext2_find_dir dir_io (new_ext2_node dir_ino 2) [97, 98] demo_volume
      = Inr (Some (new_ext2_node (disk_inode dir_image demo_volume 12) 12), v')"
    using F [of "[97, 98]"] f(1,3) by auto
  moreover have "\<exists>v'. ext2_find_dir dir_io (new_ext2_node dir_ino 2) [99] demo_volume = Inr (None, v')"
    using F [of "[99]"] f(2) by auto
  ultimately show ?thesis by blast
qed

theorem read_inode_correct_witness:
  "\<exists>v'. read_inode dir_io 12 demo_volume = Inr (0, Some (disk_inode dir_image demo_volume 12), v')"
  using read_inode_correct [OF dir_volume_ok dir_inodes_ok, of 12] dir_node(4) by auto

theorem ext2_read_dir_lists_and_overruns_witness:
  "(\<exists>v'. ext2_read_dir dir_io (new_ext2_node dir_ino 2) 1 demo_volume = Inr (Inr 1, Some ([97, 98], Some 8), v'))
   \<and> ext2_read_dir dir_io (new_ext2_node dir_ino 2) 2 demo_volume = Inl Out_of_bounds"
proof -
  have d: "dir_ok dir_image demo_volume (n_ext2_inode (new_ext2_node dir_ino 2)) (\<lambda>_. demo_dir) 1" using dir_dir_ok dir_node(1) by simp
  have u: "\<forall>d\<in>set demo_dir. x_inode d \<noteq> 0" using demo_dir_bytes(2) by blast
  have l: "length demo_dir = 2" "x_name (demo_dir ! 1) = [97, 98]" "dirent_flags (x_type (demo_dir ! 1)) = Some 8"
    by (simp_all add: demo_dir_def dirent_flags_def)
  note R = ext2_read_dir_lists_and_overruns [OF dir_volume_ok d dir_node(3,2) u]
  have "\<exists>v'. ext2_read_dir dir_io (new_ext2_node dir_ino 2) 1 demo_volume = Inr (Inr 1, Some ([97, 98], Some 8), v')"
    using R [of 1] l by auto
  moreover have "ext2_read_dir dir_io (new_ext2_node dir_ino 2) 2 demo_volume = Inl Out_of_bounds" using R [of 2] l by simp
  ultimately show ?thesis by blast
qed

end
