(* ===== verification/Ext2Mount.thy ===== *)
theory Ext2Mount
  imports Ext2Dir
begin

text \<open>
  Mounting an ext2 volume from a partition, and the operations of a node that take its lock for writing.
\<close>

section \<open>Mounting\<close>

text \<open>The blocks of a volume on a partition that holds the bytes \<open>pimg\<close>.\<close>

definition partition_blocks :: "u8 list \<Rightarrow> u32 \<Rightarrow> u32 \<Rightarrow> u8 list" where
  "partition_blocks pimg B n = take (unat B) (drop (unat n * unat B) pimg)"

definition superblock_of :: "u8 list \<Rightarrow> u8 list" where
  "superblock_of pimg = take 1076 (drop 1024 pimg)"

definition group_count :: "u8 list \<Rightarrow> nat" where
  "group_count pimg = (let sb = super_block_at (superblock_of pimg) in
     (unat (sb_block_count sb) + unat (sb_blocks_per_group sb) - 1) div unat (sb_blocks_per_group sb))"

text \<open>
  The volume that a partition in revision 0 of the format holds: the descriptors of the groups are taken from the block
  with number 1.
\<close>

definition volume_of :: "u8 list \<Rightarrow> nat \<Rightarrow> ext2_volume" where
  "volume_of pimg pad =
     (let sb = super_block_at (superblock_of pimg); B = push_bit (unat (sb_log_block_size sb)) 1024 in
      \<lparr>e_sb = sb, e_file_type = False, e_large_files = False, e_sparse = False,
       e_groups = take (32 * group_count pimg) (drop (unat (B :: u32)) pimg) @ replicate pad 0, e_block_size = B, e_inode_size = 128,
       e_block_cache = lru_new 50, e_inode_cache = lru_new 1600, e_root = None, e_error = 0\<rparr>)"

definition ext2_partition :: "u8 list \<Rightarrow> bool" where
  "ext2_partition pimg \<longleftrightarrow>
     (let sb = super_block_at (superblock_of pimg); B = 1024 * 2 ^ unat (sb_log_block_size sb) in
      sb_magic sb = SUPER_MAGIC \<and> sb_rev_level sb = 0 \<and> unat (sb_log_block_size sb) \<le> 6
      \<and> 0 < unat (sb_block_count sb) \<and> 0 < unat (sb_blocks_per_group sb)
      \<and> unat (sb_block_count sb) * B \<le> length pimg \<and> length pimg < 2 ^ 41 \<and> 2560 \<le> length pimg
      \<and> unat (sb_block_count sb) + unat (sb_blocks_per_group sb) < 2 ^ 32
      \<and> 32 * group_count pimg + 512 < 2 ^ 32 \<and> B + 32 * group_count pimg + 512 \<le> length pimg)"

lemma get_superblock_take:
  assumes "1076 \<le> length bs"
  shows "super_block_at (take 1076 bs @ rest) = super_block_at (take 1076 bs)"
proof -
  have "get32 (take 1076 bs @ rest) k = get32 (take 1076 bs) k" if "k + 4 \<le> 1076" for k using that assms by (simp add: get32_def)
  moreover have "get16 (take 1076 bs @ rest) k = get16 (take 1076 bs) k" if "k + 2 \<le> 1076" for k using that assms by (simp add: get16_def)
  ultimately show ?thesis by (simp add: super_block_at_def)
qed

lemma reads_image_bytes:
  assumes "reads_image rd img" "0 < unat n" "unat n + 512 < 2 ^ 32" "512 * (unat lba + (unat n + 511) div 512) \<le> length img"
  shows "\<exists>k. read_bytes fresh rd lba n = Inr (Some (take (unat n) (drop (512 * unat lba) img) @ replicate k 0))"
  using whole.read_bytes_correct [of "(rd, img)" n lba fresh] assms by simp

lemma unat_block_size:
  assumes "k \<le> 6"
  shows "unat (push_bit k 1024 :: u32) = 1024 * 2 ^ k"
proof -
  have "(1024 :: nat) * 2 ^ k \<le> 1024 * 2 ^ 6" using assms by (intro mult_le_mono2 power_increasing) auto
  then have "unat (of_nat (1024 * 2 ^ k) :: u32) = 1024 * 2 ^ k" by (intro unat_of_nat_small) simp
  moreover have "push_bit k 1024 = (of_nat (1024 * 2 ^ k) :: u32)" by (simp add: push_bit_eq_mult)
  ultimately show ?thesis by simp
qed

text \<open>The blocks of the volume on the partition are those that the driver reads.\<close>

lemma volume_of_ok:
  assumes p: "ext2_partition pimg" and rd: "reads_image (io_read io) pimg"
  shows "volume_ok io (partition_blocks pimg (e_block_size (volume_of pimg pad))) (volume_of pimg pad)"
proof -
  let ?sb = "super_block_at (superblock_of pimg)" and ?v = "volume_of pimg pad"
  let ?k = "unat (sb_log_block_size ?sb)"
  define B where "B = (1024 :: nat) * 2 ^ ?k"
  have P: "?k \<le> 6" "unat (sb_block_count ?sb) * B \<le> length pimg" "length pimg < 2 ^ 41"
    using p by (auto simp: ext2_partition_def Let_def B_def)
  have v: "e_sb ?v = ?sb" "e_block_size ?v = push_bit ?k 1024" "e_block_cache ?v = lru_new 50" by (simp_all add: volume_of_def Let_def)
  have uB: "unat (e_block_size ?v) = B" using unat_block_size [OF P(1)] v(2) by (simp add: B_def)
  define m where "m = (2 :: nat) * 2 ^ ?k"
  have Bm: "B = 512 * m" "0 < m" by (simp_all add: B_def m_def)
  have um: "unat (e_block_size ?v div disk_block_size) = m" using uB Bm by (simp add: unat_div disk_block_size_def)
  have "m \<le> 2 * 2 ^ 6" unfolding m_def using P(1) by (intro mult_le_mono2 power_increasing) auto
  then have m31: "m < 2 ^ 31" by simp
  have blk: "length (partition_blocks pimg (e_block_size ?v) n) = B
      \<and> io_read io (ucast (n * (e_block_size ?v div disk_block_size))) (e_block_size ?v div disk_block_size)
        = (int m, partition_blocks pimg (e_block_size ?v) n)" if n: "n < sb_block_count ?sb" for n
  proof -
    have "unat n + 1 \<le> unat (sb_block_count ?sb)" using n by (simp add: word_less_nat_alt)
    then have "(unat n + 1) * B \<le> length pimg" using P(2) by (meson le_trans mult_le_mono1)
    then have r: "unat n * B + B \<le> length pimg" by simp
    have "unat n * B = 512 * (unat n * m)" by (simp add: Bm(1))
    then have "512 * (unat n * m) < 2 ^ 41" using r P(3) by linarith
    then have nm: "unat n * m < 2 ^ 32" by (simp add: mult.commute)
    have un: "unat (ucast (n * (e_block_size ?v div disk_block_size)) :: u64) = unat n * m"
      using unat_times_no_wrap [of n "e_block_size ?v div disk_block_size"] um nm by simp
    have "512 * (unat n * m + m) \<le> length pimg" using r Bm by (simp add: algebra_simps)
    then have "io_read io (ucast (n * (e_block_size ?v div disk_block_size))) (e_block_size ?v div disk_block_size)
        = (int m, take (512 * m) (drop (512 * (unat n * m)) pimg))"
      using rd um un Bm(2) m31 unfolding reads_image_def by auto
    then show ?thesis using r uB Bm(1) by (simp add: partition_blocks_def algebra_simps)
  qed
  have inv: "lru_inv (lru_new 50 :: (u32, u8 list) lru_cache)" "\<And>n. lru_get n (lru_new 50 :: (u32, u8 list) lru_cache) = None"
    by (simp_all add: lru_inv_def lru_new_def lru_get_def)
  show ?thesis unfolding volume_ok_def v(1,3) using blk uB Bm inv by fastforce
qed

text \<open>
  C22. Mounting a volume of revision 0 succeeds on a good partition: the blocks that the driver reads are those of the
  partition and the root node is made from the inode with number 2.  The group descriptors are always taken from block 1,
  which is right for blocks larger than 1024 bytes; with blocks of 1024 bytes they are the bytes of the superblock.
\<close>

theorem ext2_mount_correct:
  assumes p: "ext2_partition pimg" and rd: "reads_image (io_read io) pimg"
    and i: "\<forall>pad. inodes_ok (partition_blocks pimg (e_block_size (volume_of pimg pad))) (volume_of pimg pad)"
      "2 \<le> sb_inode_count (super_block_at (superblock_of pimg))"
  shows "\<exists>pad v. ext2_init io = Inr (Some v) \<and> e_error v = 0
    \<and> volume_ok io (partition_blocks pimg (e_block_size v)) v \<and> e_groups v = e_groups (volume_of pimg pad)
    \<and> e_root v = Some (new_ext2_node (disk_inode (partition_blocks pimg (e_block_size v)) v 2) 2)
    \<and> (e_block_size v = 1024 \<longrightarrow> take (32 * group_count pimg) (e_groups v) = take (32 * group_count pimg) (drop 1024 pimg))"
proof -
  let ?sb = "super_block_at (superblock_of pimg)"
  let ?k = "unat (sb_log_block_size ?sb)" and ?bpg = "sb_blocks_per_group ?sb" and ?g = "group_count pimg"
  define B where "B = (1024 :: nat) * 2 ^ ?k"
  have P: "sb_magic ?sb = SUPER_MAGIC" "sb_rev_level ?sb = 0" "?k \<le> 6" "0 < unat (sb_block_count ?sb)" "0 < unat ?bpg"
    "2560 \<le> length pimg" "unat (sb_block_count ?sb) + unat ?bpg < 2 ^ 32" "32 * ?g + 512 < 2 ^ 32" "B + 32 * ?g + 512 \<le> length pimg"
    using p by (auto simp: ext2_partition_def Let_def B_def)
  obtain k0 where r0: "read_bytes (io_fresh io) (io_read io) 2 (1024 + 52) = Inr (Some (superblock_of pimg @ replicate k0 0))"
    using reads_image_bytes [OF rd, of "1024 + 52" 2 "io_fresh io"] P(6) by (auto simp: superblock_of_def)
  have sb: "super_block_at (superblock_of pimg @ replicate k0 0) = ?sb"
    unfolding superblock_of_def using P(6) by (intro get_superblock_take) simp
  let ?B = "push_bit ?k 1024 :: u32"
  have uB: "unat ?B = B" using unat_block_size [OF P(3)] by (simp add: B_def)
  have "location_to_block 1024 (sb_log_block_size ?sb) = 0"
    by (simp add: location_to_block_def drop_bit_drop_bit)
  then have lba: "block_to_lba (ucast (location_to_block 1024 (sb_log_block_size ?sb)) + 1) ?B disk_block_size = Inr (ucast (?B div disk_block_size))"
    by (simp add: block_to_lba_def disk_block_size_def)
  have ul: "512 * unat (ucast (?B div disk_block_size) :: u64) = B"
  proof -
    have "B = 512 * (2 * 2 ^ ?k)" by (simp add: B_def)
    then show ?thesis using uB by (simp add: unat_div disk_block_size_def)
  qed
  have bgc: "unat ((sb_block_count ?sb + ?bpg - 1) div ?bpg) = ?g"
    using unat_ceil_div [of ?bpg "sb_block_count ?sb"] P(5,7) by (simp add: group_count_def Let_def)
  then have n: "unat ((sb_block_count ?sb + ?bpg - 1) div ?bpg * 32) = 32 * ?g"
    using unat_times_no_wrap [of "(sb_block_count ?sb + ?bpg - 1) div ?bpg" 32] P(8) by simp
  have g0: "0 < ?g" using P(4,5) by (simp add: group_count_def Let_def div_greater_zero_iff)
  have rng: "512 * (unat (ucast (?B div disk_block_size) :: u64) + (32 * ?g + 511) div 512) \<le> length pimg"
  proof -
    have "512 * ((32 * ?g + 511) div 512) \<le> 32 * ?g + 511" by simp
    then show ?thesis using ul P(9) by (simp add: distrib_left)
  qed
  obtain pad where r1: "read_bytes (io_fresh io) (io_read io) (ucast (?B div disk_block_size)) ((sb_block_count ?sb + ?bpg - 1) div ?bpg * 32)
      = Inr (Some (take (32 * ?g) (drop B pimg) @ replicate pad 0))"
    using reads_image_bytes [OF rd, of "(sb_block_count ?sb + ?bpg - 1) div ?bpg * 32" "ucast (?B div disk_block_size)" "io_fresh io"]
      n g0 P(8) rng ul by auto
  let ?v = "volume_of pimg pad"
  have vB: "e_block_size ?v = ?B" by (simp add: volume_of_def Let_def)
  note ok = volume_of_ok [OF p rd, of pad]
  obtain c where ri: "read_inode io 2 ?v = Inr (0, Some (disk_inode (partition_blocks pimg (e_block_size ?v)) ?v 2), ?v\<lparr>e_block_cache := c\<rparr>)"
    and ok': "volume_ok io (partition_blocks pimg (e_block_size ?v)) (?v\<lparr>e_block_cache := c\<rparr>)"
    using read_inode_ok [OF ok spec [OF i(1)], of 2] i(2) by (auto simp: volume_of_def Let_def)
  let ?w = "?v\<lparr>e_block_cache := c, e_root := Some (new_ext2_node (disk_inode (partition_blocks pimg (e_block_size ?v)) ?v 2) 2)\<rparr>"
  have vv: "\<lparr>e_sb = ?sb, e_file_type = False, e_large_files = False, e_sparse = False,
       e_groups = take (32 * ?g) (drop B pimg) @ replicate pad 0, e_block_size = ?B, e_inode_size = 128,
       e_block_cache = lru_new 50, e_inode_cache = lru_new 1600, e_root = None, e_error = 0\<rparr> = ?v"
    by (simp add: volume_of_def Let_def uB)
  have "ext2_init io = Inr (Some ?w)"
    using r0 sb P(1,2,5) lba r1 ri vv by (simp add: ext2_init_def new_ext2_volume_def Let_def ROOT_DIR_INODE_def unat_gt_0)
  moreover have "volume_ok io (partition_blocks pimg (e_block_size ?w)) ?w" using ok' by (simp add: volume_ok_def)
  moreover have "disk_inode (partition_blocks pimg (e_block_size ?w)) ?w 2 = disk_inode (partition_blocks pimg (e_block_size ?v)) ?v 2"
    by (simp add: disk_inode_def inode_block_def inode_offset_def inode_group_def)
  moreover have "e_error ?w = 0" "e_groups ?w = e_groups ?v" by (simp_all add: volume_of_def Let_def)
  moreover have "take (32 * ?g) (e_groups ?w) = take (32 * ?g) (drop 1024 pimg)" if "e_block_size ?w = 1024"
  proof -
    have "B = 1024" using that uB vB by simp
    then show ?thesis using P(9) uB by (simp add: volume_of_def Let_def)
  qed
  ultimately show ?thesis by (intro exI [of _ pad] exI [of _ ?w]) simp
qed

section \<open>Operations that change a directory\<close>

text \<open>
  Creating, linking, removing and truncating never return: they acquire the lock of the node for writing twice, so they
  wait for themselves, whether the lock was free or not.
\<close>

theorem ext2_changes_deadlock:
  "ext2_create l = Inl Loops \<and> ext2_create_dir l = Inl Loops \<and> ext2_unlink l = Inl Loops \<and> ext2_truncate l = Inl Loops
     \<and> ext2_link num l = (if num = 0 then Inr (Inl EINVAL, l) else Inl Loops)"
proof -
  have "locked_write r l = Inl Loops" for r :: "unit sysret" by (simp add: locked_write_def acquire_write_def)
  then show ?thesis by (simp add: ext2_create_def ext2_create_dir_def ext2_unlink_def ext2_truncate_def ext2_link_def)
qed

section \<open>Witness\<close>

definition demo_partition :: "u8 list" where
  "demo_partition = replicate 1024 0 @ le_bytes 4 16 @ le_bytes 4 8 @ replicate 16 0 @ le_bytes 4 1 @ replicate 4 0 @ le_bytes 4 8192
     @ replicate 4 0 @ le_bytes 4 16 @ replicate 12 0 @ le_bytes 2 0xEF53 @ replicate 18 0 @ le_bytes 4 0 @ replicate 944 0
     @ replicate 8 0 @ le_bytes 4 2 @ replicate 14324 0"

lemma demo_superblock:
  "sb_inode_count (super_block_at (superblock_of demo_partition)) = 16" "sb_block_count (super_block_at (superblock_of demo_partition)) = 8"
  "sb_log_block_size (super_block_at (superblock_of demo_partition)) = 1" "sb_blocks_per_group (super_block_at (superblock_of demo_partition)) = 8192"
  "sb_inodes_per_group (super_block_at (superblock_of demo_partition)) = 16" "sb_magic (super_block_at (superblock_of demo_partition)) = 0xEF53"
  "sb_rev_level (super_block_at (superblock_of demo_partition)) = 0"
proof -
  let ?s = "le_bytes 4 (unat (16 :: u32)) @ le_bytes 4 (unat (8 :: u32)) @ replicate 16 0 @ le_bytes 4 (unat (1 :: u32)) @ replicate 4 0
     @ le_bytes 4 (unat (8192 :: u32)) @ replicate 4 0 @ le_bytes 4 (unat (16 :: u32)) @ replicate 12 0
     @ le_bytes 2 (unat (0xEF53 :: u16)) @ replicate 18 0 @ le_bytes 4 (unat (0 :: u32)) @ replicate 944 0 @ replicate 8 0 @ le_bytes 4 2 @ replicate 40 0"
  have s: "superblock_of demo_partition = ?s" by (simp add: superblock_of_def demo_partition_def)
  show "sb_inode_count (super_block_at (superblock_of demo_partition)) = 16"
    unfolding s super_block_at_def super_block.simps by (rule get32_encoded) simp
  show "sb_block_count (super_block_at (superblock_of demo_partition)) = 8"
    unfolding s super_block_at_def super_block.simps by (rule get32_encoded) simp
  show "sb_log_block_size (super_block_at (superblock_of demo_partition)) = 1"
    unfolding s super_block_at_def super_block.simps by (rule get32_encoded) simp
  show "sb_blocks_per_group (super_block_at (superblock_of demo_partition)) = 8192"
    unfolding s super_block_at_def super_block.simps by (rule get32_encoded) simp
  show "sb_inodes_per_group (super_block_at (superblock_of demo_partition)) = 16"
    unfolding s super_block_at_def super_block.simps by (rule get32_encoded) simp
  show "sb_magic (super_block_at (superblock_of demo_partition)) = 0xEF53"
    unfolding s super_block_at_def super_block.simps by (rule get16_encoded) simp
  show "sb_rev_level (super_block_at (superblock_of demo_partition)) = 0"
    unfolding s super_block_at_def super_block.simps by (rule get32_encoded) simp
qed

lemma demo_group_count: "group_count demo_partition = 1"
  by (simp add: group_count_def demo_superblock Let_def)

lemma demo_partition_ok: "ext2_partition demo_partition"
  by (simp add: ext2_partition_def demo_superblock demo_group_count Let_def SUPER_MAGIC_def) (simp add: demo_partition_def)

lemma demo_partition_inodes:
  "inodes_ok (partition_blocks demo_partition (e_block_size (volume_of demo_partition pad))) (volume_of demo_partition pad)"
proof -
  let ?v = "volume_of demo_partition pad"
  have B: "unat (push_bit 1 1024 :: u32) = 2048" by simp
  have v: "sb_inode_count (e_sb ?v) = 16 \<and> sb_block_count (e_sb ?v) = 8 \<and> sb_inodes_per_group (e_sb ?v) = 16" "unat (e_block_size ?v) = 2048" "e_inode_size ?v = 128" "e_inode_cache ?v = lru_new 1600"
    "e_groups ?v = take 32 (drop 2048 demo_partition) @ replicate pad 0"
    using B by (simp_all add: volume_of_def demo_superblock demo_group_count Let_def)
  have g: "take 32 (drop 2048 demo_partition) = replicate 8 0 @ le_bytes 4 (unat (2 :: u32)) @ replicate 20 0"
    by (simp add: demo_partition_def)
  have t: "get32 (e_groups ?v) 8 = 2" unfolding v(5) g by (rule get32_encoded) simp
  have ib: "inode_group ?v num = 0 \<and> inode_block ?v num < 8" if "num \<le> 16" for num
  proof -
    have u: "unat num - 1 < 16" using that by (simp add: word_le_nat_alt)
    then have G: "inode_group ?v num = 0" by (simp add: inode_group_def v(1))
    have "inode_offset ?v num div 2048 = 0" using u by (simp add: inode_offset_def v(1,3))
    then show ?thesis using t G v(2) by (simp add: inode_block_def)
  qed
  have l: "32 \<le> length (e_groups ?v)" unfolding v(5) g by simp
  show ?thesis unfolding inodes_ok_def using ib l v(2)
    by (simp add: v(1,3,4)) (simp add: lru_inv_def lru_new_def lru_get_def)
qed

theorem ext2_mount_correct_witness:
  "\<exists>v. ext2_init (demo_io\<lparr>io_read := image_reader demo_partition\<rparr>) = Inr (Some v) \<and> e_error v = 0"
proof -
  have r: "reads_image (io_read (demo_io\<lparr>io_read := image_reader demo_partition\<rparr>)) demo_partition" by (simp add: image_reader_reads)
  have i: "\<forall>pad. inodes_ok (partition_blocks demo_partition (e_block_size (volume_of demo_partition pad))) (volume_of demo_partition pad)"
    using demo_partition_inodes by blast
  have s: "2 \<le> sb_inode_count (super_block_at (superblock_of demo_partition))" unfolding demo_superblock by simp
  from ext2_mount_correct [OF demo_partition_ok r i s] show ?thesis by blast
qed

end
