(* ===== verification/Elf.thy ===== *)
theory Elf
  imports AddressSpace KString Bytes
begin

unbundle bit_operations_syntax

text \<open>
  Executables, \<^verbatim>\<open>Kernel/src/arch/x86_64/elf.cpp\<close>: the test of the magic number and the loading of the segments
  of an ELF image into the address space of a new process.  Memory is the byte store of the string routines as
  the tables of the new process show it: the lower 512 GiB belong to the process, the image and everything else
  of the kernel lie in the upper half, which every process shares.  An access to a page below 512 GiB that the
  tables do not map ends the model with a fault: the handler would look it up in the running process, which is
  another one.  The lock of the run queue, taken around each copy, is released again and left out.
\<close>

section \<open>Model\<close>

definition load_bytes :: "mem \<Rightarrow> ptr \<Rightarrow> nat \<Rightarrow> u8 list" where
  "load_bytes m p n = map (\<lambda>i. m (p + i)) [0..<n]"

definition bswap32 :: "u32 \<Rightarrow> u32" where
  "bswap32 w = of_nat (le_nat (rev (le_bytes 4 (unat w))))"

definition ELF_MAGIC :: u32 where "ELF_MAGIC = 0x7f454c46"

definition PT_LOAD :: u32 where "PT_LOAD = 1"

definition PT_INTERP :: u32 where "PT_INTERP = 3"

definition PT_PHDR :: u32 where "PT_PHDR = 6"

text \<open>The fields of the two packed structures that the loader reads.\<close>

record ehdr =
  e_ident :: u32
  e_entry :: u64
  e_phoff :: u64
  e_phentsize :: u16
  e_phnum :: u16

record phdr =
  p_type :: u32
  p_offset :: u64
  p_vaddr :: u64
  p_filesz :: u64
  p_memsz :: u64

definition ehdr_at :: "mem \<Rightarrow> ptr \<Rightarrow> ehdr" where
  "ehdr_at m elf =
     (let bs = load_bytes m elf 64 in
      \<lparr>e_ident = get32 bs 0, e_entry = get64 bs 24, e_phoff = get64 bs 32, e_phentsize = get16 bs 54, e_phnum = get16 bs 56\<rparr>)"

definition phdr_at :: "mem \<Rightarrow> ptr \<Rightarrow> phdr" where
  "phdr_at m p =
     (let bs = load_bytes m p 56 in
      \<lparr>p_type = get32 bs 0, p_offset = get64 bs 8, p_vaddr = get64 bs 16, p_filesz = get64 bs 32, p_memsz = get64 bs 40\<rparr>)"

definition elf_verify :: "mem \<Rightarrow> ptr \<Rightarrow> bool" where
  "elf_verify m elf \<longleftrightarrow> bswap32 (e_ident (ehdr_at m elf)) = ELF_MAGIC"

text \<open>The link path is a new string; only whether there is one matters to the callers.\<close>

record elf_info =
  entry :: u64
  phdr_segment :: u64
  phdr_entry_size :: u64
  phdr_num :: u64
  linker_path :: "u8 list option"

definition no_info :: elf_info where
  "no_info = \<lparr>entry = 0, phdr_segment = 0, phdr_entry_size = 0, phdr_num = 0, linker_path = None\<rparr>"

text \<open>
  The memory while a process is built: its address space with the allocators, the bytes, and a number for the
  next memory object.
\<close>

record loading =
  ld_mm :: mm
  ld_mem :: mem
  ld_oid :: nat

definition header_of :: "mem \<Rightarrow> ptr \<Rightarrow> nat \<Rightarrow> phdr" where
  "header_of m elf i =
     (let h = ehdr_at m elf in phdr_at m (elf + unat (e_phoff h) + i * unat (e_phentsize h)))"

definition loadable :: "phdr \<Rightarrow> bool" where
  "loadable ph \<longleftrightarrow> p_type ph = PT_LOAD \<and> p_memsz ph \<noteq> 0"

text \<open>One round of the first loop; the result of \<open>map_vmo\<close> is not looked at.\<close>

definition PAGE_SIZE_4K_MASK :: u64 where "PAGE_SIZE_4K_MASK = 0xfffffffffffff000"

definition page_base :: "u64 \<Rightarrow> phdr \<Rightarrow> u64" where
  "page_base base ph = (base + p_vaddr ph) AND PAGE_SIZE_4K_MASK"

definition image_size :: "phdr \<Rightarrow> u64" where
  "image_size ph = (p_memsz ph + (p_vaddr ph AND (4096 - 1)) + 4096 - 1) AND PAGE_SIZE_4K_MASK"

definition map_segment :: "(nat \<Rightarrow> u64) \<Rightarrow> (nat \<Rightarrow> int) \<Rightarrow> u64 \<Rightarrow> phdr \<Rightarrow> loading \<Rightarrow> loading kres" where
  "map_segment tp uses base ph s =
     (if \<not> loadable ph then Inr s
      else let oid = ld_oid s; mm = ld_mm s in
        kbind (process_image_vm_object tp (uses oid) (page_base base ph) (image_size ph) True (mm_vm mm)) (\<lambda>(o1, vm).
        kbind (map_vmo tp oid (page_base base ph) True (mm\<lparr>mm_vmos := (mm_vmos mm)(oid \<mapsto> o1), mm_vm := vm\<rparr>)) (\<lambda>(_, mm).
        Inr (s\<lparr>ld_mm := mm, ld_oid := oid + 1\<rparr>))))"

primrec map_segments :: "(nat \<Rightarrow> u64) \<Rightarrow> (nat \<Rightarrow> int) \<Rightarrow> u64 \<Rightarrow> phdr list \<Rightarrow> loading \<Rightarrow> loading kres" where
  "map_segments tp uses base [] s = Inr s"
| "map_segments tp uses base (ph # phs) s = kbind (map_segment tp uses base ph s) (map_segments tp uses base phs)"

text \<open>The pages that can be accessed with the tables of the process loaded.\<close>

definition page_accessible :: "page_map \<Rightarrow> nat \<Rightarrow> bool" where
  "page_accessible pm q \<longleftrightarrow>
     (if q < 2 ^ 27 then (case walk pm q of Some e \<Rightarrow> present e | None \<Rightarrow> False) else 2 ^ 52 - 2 ^ 27 \<le> q)"

definition accessible :: "page_map \<Rightarrow> ptr \<Rightarrow> nat \<Rightarrow> bool" where
  "accessible pm p n \<longleftrightarrow> n = 0 \<or> list_all (page_accessible pm) [p div 4096..<Suc ((p + n - 1) div 4096)]"

text \<open>The second loop; \<open>memset\<close> and \<open>memcpy\<close> run with the tables of the new process.\<close>

definition load_segment :: "u64 \<Rightarrow> ptr \<Rightarrow> phdr \<Rightarrow> elf_info \<Rightarrow> loading \<Rightarrow> (elf_info \<times> loading) kres" where
  "load_segment base elf ph info s =
     (if p_type ph = PT_LOAD \<and> p_memsz ph > 0
      then let dst = unat (base + p_vaddr ph); pm = mm_pm (ld_mm s) in
        if accessible pm dst (unat (p_memsz ph)) \<and> accessible pm dst (unat (p_filesz ph))
        then let m = memset (ld_mem s) dst 0 (unat (p_memsz ph));
                 m = fst (memcpy m dst (elf + unat (p_offset ph)) (unat (p_filesz ph)))
             in Inr (info, s\<lparr>ld_mem := m\<rparr>)
        else Inl Out_of_bounds
      else if p_type ph = PT_PHDR then Inr (info\<lparr>phdr_segment := base + p_vaddr ph\<rparr>, s)
      else if p_type ph = PT_INTERP
      then Inr (info\<lparr>linker_path :=
             Some (takeWhile (\<lambda>c. c \<noteq> 0) (load_bytes (ld_mem s) (elf + unat (p_offset ph)) (unat (p_filesz ph))))\<rparr>, s)
      else Inr (info, s))"

text \<open>The program header is read from memory again in every round, the number of them once.\<close>

primrec load_segments :: "u64 \<Rightarrow> ptr \<Rightarrow> nat list \<Rightarrow> elf_info \<Rightarrow> loading \<Rightarrow> (elf_info \<times> loading) kres" where
  "load_segments base elf [] info s = Inr (info, s)"
| "load_segments base elf (i # is) info s =
     kbind (load_segment base elf (header_of (ld_mem s) elf i) info s) (\<lambda>(info, s). load_segments base elf is info s)"

definition load_elf_segments ::
  "(nat \<Rightarrow> u64) \<Rightarrow> (nat \<Rightarrow> int) \<Rightarrow> ptr \<Rightarrow> u64 \<Rightarrow> loading \<Rightarrow> (elf_info \<times> loading) kres" where
  "load_elf_segments tp uses elf base s =
     (if \<not> elf_verify (ld_mem s) elf then Inr (no_info, s)
      else let m = ld_mem s; h = ehdr_at m elf; n = unat (e_phnum h);
               info = no_info\<lparr>entry := base + e_entry h, phdr_entry_size := ucast (e_phentsize h), phdr_num := ucast (e_phnum h)\<rparr> in
        kbind (map_segments tp uses base (map (header_of m elf) [0..<n]) s) (\<lambda>s.
        load_segments base elf [0..<n] info s))"

section \<open>Page arithmetic\<close>

lemma unat_page_mask: "unat (x AND PAGE_SIZE_4K_MASK) = unat x div 4096 * 4096"
proof -
  have "PAGE_SIZE_4K_MASK = NOT (mask 12)" by (simp add: PAGE_SIZE_4K_MASK_def mask_eq_exp_minus_1)
  then have "x AND PAGE_SIZE_4K_MASK = push_bit 12 (drop_bit 12 x)"
    by (simp add: bit_eq_iff) (auto simp: bit_simps le_less_trans)
  moreover have "unat (push_bit 12 (drop_bit 12 x)) = unat x div 4096 * 4096"
  proof -
    have "unat (drop_bit 12 x) = unat x div 4096" by (simp add: unat_drop_bit_eq) (simp add: drop_bit_eq_div)
    moreover have "unat x div 4096 * 4096 < 2 ^ 64"
      using unsigned_less [of x, where 'a = nat] div_times_less_eq_dividend [of "unat x" 4096] by simp
    ultimately show ?thesis
      by (simp add: push_bit_eq_mult unat_word_ariths)
  qed
  ultimately show ?thesis by simp
qed

lemma aligned_page_mask: "aligned (x AND PAGE_SIZE_4K_MASK)"
  by (simp add: aligned_def PAGE_SIZE_4K_MASK_def and.assoc)

lemma unat_page_offset: "unat ((x :: u64) AND (4096 - 1)) = unat x mod 4096"
proof -
  have "x AND (4096 - 1) = take_bit 12 x" by (simp add: take_bit_eq_mask mask_eq_exp_minus_1)
  then show ?thesis by (simp add: unsigned_take_bit_eq) (simp add: take_bit_eq_mod)
qed

text \<open>The address range of a segment and the pages that hold it.\<close>

definition seg_start :: "u64 \<Rightarrow> phdr \<Rightarrow> nat" where
  "seg_start base ph = unat base + unat (p_vaddr ph)"

definition seg_lo :: "u64 \<Rightarrow> phdr \<Rightarrow> nat" where
  "seg_lo base ph = seg_start base ph div 4096 * 4096"

definition seg_hi :: "u64 \<Rightarrow> phdr \<Rightarrow> nat" where
  "seg_hi base ph = seg_lo base ph + (unat (p_memsz ph) + seg_start base ph mod 4096 + 4095) div 4096 * 4096"

text \<open>A segment the loader can place: whole pages above page 0 and below 512 GiB, and no more bytes than memory.\<close>

definition seg_ok :: "u64 \<Rightarrow> phdr \<Rightarrow> bool" where
  "seg_ok base ph \<longleftrightarrow> aligned base \<and> 4096 \<le> seg_start base ph \<and> seg_start base ph + unat (p_memsz ph) + 8192 \<le> 2 ^ 39
     \<and> p_filesz ph \<le> p_memsz ph"

lemma seg_end_le_hi: "seg_start base ph + unat (p_memsz ph) \<le> seg_hi base ph"
proof -
  have "seg_start base ph = seg_lo base ph + seg_start base ph mod 4096" by (simp add: seg_lo_def)
  moreover have "x \<le> (x + 4095) div 4096 * 4096" for x :: nat
    using mult_div_mod_eq [of 4096 "x + 4095"] mod_less_divisor [of 4096 "x + 4095"] by linarith
  then have "unat (p_memsz ph) + seg_start base ph mod 4096
      \<le> (unat (p_memsz ph) + seg_start base ph mod 4096 + 4095) div 4096 * 4096" .
  ultimately show ?thesis unfolding seg_hi_def by linarith
qed

lemma seg_hi_bound: "seg_hi base ph \<le> seg_start base ph + unat (p_memsz ph) + 4095"
proof -
  have "seg_start base ph = seg_lo base ph + seg_start base ph mod 4096" by (simp add: seg_lo_def)
  moreover have "x div 4096 * 4096 \<le> x" for x :: nat by simp
  then have "(unat (p_memsz ph) + seg_start base ph mod 4096 + 4095) div 4096 * 4096
      \<le> unat (p_memsz ph) + seg_start base ph mod 4096 + 4095" .
  ultimately show ?thesis unfolding seg_hi_def by linarith
qed

lemma unat_seg_start: "seg_ok base ph \<Longrightarrow> unat (base + p_vaddr ph) = seg_start base ph"
  unfolding seg_ok_def seg_start_def by (subst unat_plus_no_wrap) simp_all

lemma unat_page_base: "seg_ok base ph \<Longrightarrow> unat (page_base base ph) = seg_lo base ph"
  by (simp add: page_base_def unat_page_mask unat_seg_start seg_lo_def)

lemma unat_image_size:
  assumes "seg_ok base ph"
  shows "unat (image_size ph) = seg_hi base ph - seg_lo base ph"
proof -
  have "unat base mod 4096 = 0" using assms unat_page_offset [of base] by (simp add: seg_ok_def aligned_def)
  then have v: "unat (p_vaddr ph) mod 4096 = seg_start base ph mod 4096"
    by (metis add_0 mod_add_left_eq seg_start_def)
  have m: "unat (p_memsz ph) < 2 ^ 40" "seg_start base ph mod 4096 < 4096" using assms by (simp_all add: seg_ok_def)
  let ?x = "p_memsz ph + (p_vaddr ph AND (4096 - 1))"
  have "unat ?x = unat (p_memsz ph) + seg_start base ph mod 4096"
    using m v unat_page_offset [of "p_vaddr ph"] by (subst unat_plus_no_wrap) simp_all
  moreover from this have "unat (?x + 4095) = unat (p_memsz ph) + seg_start base ph mod 4096 + 4095"
    using m by (subst unat_plus_no_wrap) simp_all
  moreover have "?x + 4096 - 1 = ?x + 4095" by simp
  ultimately show ?thesis by (simp only: image_size_def unat_page_mask seg_hi_def)
qed

section \<open>Mapping the segments\<close>

definition backed :: "page_map \<Rightarrow> nat \<Rightarrow> bool" where
  "backed pm q \<longleftrightarrow> (case walk pm q of Some e \<Rightarrow> present e | None \<Rightarrow> False)"

lemma map_block_backed:
  assumes "pm_inv pm" "phys_inv (vm_phys vm)" "unat virt + 4096 \<le> 2 ^ 39" "present flags"
    "map_virtual_memory_4k tp 1 phys virt flags pm vm = Inr (pm', vm')"
  shows "pm_inv pm' \<and> phys_inv (vm_phys vm') \<and> backed pm' (unat virt div 4096) \<and> (\<forall>q. backed pm q \<longrightarrow> backed pm' q)"
proof -
  have c: "pm_inv pm'" "walk pm' (unat virt div 4096) = Some (set_page_frame flags phys)"
      "\<And>q. q \<noteq> unat virt div 4096 \<Longrightarrow> walk pm q \<noteq> None \<Longrightarrow> walk pm' q = walk pm q"
    using map_pages_correct [OF assms(1) _ assms(5)] assms(3) by (simp_all add: nat_neq_iff Suc_le_eq) blast
  have here: "backed pm' (unat virt div 4096)" using c(2) assms(4) by (simp add: backed_def)
  moreover have "backed pm' q" if "backed pm q" for q
    using c(3) [of q] here that by (cases "q = unat virt div 4096") (auto simp: backed_def split: option.splits)
  ultimately show ?thesis using c(1) map_virtual_memory_invs [OF assms(5,1,2)] by blast
qed

lemma hit_backed:
  assumes "pm_inv pm" "phys_inv (vm_phys vm)" "unat (base + offset) + 4096 \<le> 2 ^ 39"
    "hit tp cr3 o1 base offset pm vm = Inr (status, o2, pm', vm')"
  shows "pm_inv pm' \<and> phys_inv (vm_phys vm') \<and> backed pm' (unat (base + offset) div 4096) \<and> (\<forall>q. backed pm q \<longrightarrow> backed pm' q)"
proof -
  have fl: "present (TABLE_PRESENT OR TABLE_WRITEABLE OR PAGE_USER)" by (simp add: present_iff bit_or_iff flag_defs)
  obtain phys vm0 vm1 where "phys_inv (vm_phys vm0)"
      "map_virtual_memory_4k tp 1 phys (base + offset) (TABLE_PRESENT OR TABLE_WRITEABLE OR PAGE_USER) pm vm0 = Inr (pm', vm1)"
      "vm_phys vm' = vm_phys vm1"
  proof (cases "physical_blocks o1 ! unat (ucast (drop_bit 12 offset) :: u32) = 0")
    case False
    then show ?thesis using that [of vm] assms(2,4) by (auto simp: hit_def Let_def split: if_splits)
  next
    case True
    then obtain phys p where s: "allocate_physical_block (vm_phys vm) = Inr (phys, p)"
        "phys \<noteq> 0 \<Longrightarrow> \<exists>vm1. map_virtual_memory_4k tp 1 phys (base + offset) (TABLE_PRESENT OR TABLE_WRITEABLE OR PAGE_USER)
           pm (vm\<lparr>vm_phys := p\<rparr>) = Inr (pm', vm1) \<and> vm_phys vm' = vm_phys vm1"
      using assms(4) by (auto simp: hit_def Let_def split: if_splits)
    note a = pa.alloc_Inr [OF assms(2) s(1)]
    then have "phys \<noteq> 0" using managed_frame_block(4) [OF assms(2)] by blast
    moreover have "phys_inv (vm_phys (vm\<lparr>vm_phys := p\<rparr>))" using a by simp
    ultimately show ?thesis using that s(2) by blast
  qed
  then show ?thesis using map_block_backed [OF assms(1) _ assms(3) fl] by metis
qed

lemma image_entry_present:
  assumes "image o1 = Some (b, True)" "\<not> cow o1" "block_entry o1 blk = Inr (phys, flags)"
  shows "present flags"
  using assms by (auto simp: block_entry_def present_iff bit_or_iff flag_defs split: if_splits)

lemma map_blocks_backed:
  assumes "image o1 = Some (b, True)" "\<not> cow o1"
  shows "map_blocks tp o1 bs virt pm vm = Inr (pm', vm') \<Longrightarrow> pm_inv pm \<Longrightarrow> phys_inv (vm_phys vm) \<Longrightarrow>
    unat virt + 4096 * length bs \<le> 2 ^ 39 \<Longrightarrow>
    pm_inv pm' \<and> phys_inv (vm_phys vm') \<and> (\<forall>k < length bs. backed pm' (unat virt div 4096 + k))
    \<and> (\<forall>q. backed pm q \<longrightarrow> backed pm' q)"
proof (induction bs arbitrary: virt pm vm)
  case (Cons blk bs)
  then obtain phys flags pm1 vm1 where e: "block_entry o1 blk = Inr (phys, flags)"
      and m: "map_virtual_memory_4k tp 1 phys virt flags pm vm = Inr (pm1, vm1)"
      and rest: "map_blocks tp o1 bs (virt + 4096) pm1 vm1 = Inr (pm', vm')" by auto
  have "unat virt + 4096 \<le> 2 ^ 39" using Cons.prems(4) by simp
  note one = map_block_backed [OF Cons.prems(2,3) this image_entry_present [OF assms e] m]
  have v: "unat (virt + 4096) = unat virt + 4096" using Cons.prems(4) by (subst unat_plus_no_wrap) simp_all
  then have d: "unat (virt + 4096) div 4096 = Suc (unat virt div 4096)" by simp
  have "unat (virt + 4096) + 4096 * length bs \<le> 2 ^ 39" using v Cons.prems(4) by simp
  then have ih: "pm_inv pm' \<and> phys_inv (vm_phys vm') \<and> (\<forall>k < length bs. backed pm' (Suc (unat virt div 4096) + k))
      \<and> (\<forall>q. backed pm1 q \<longrightarrow> backed pm' q)"
    using Cons.IH [OF rest, unfolded d] one by blast
  have "backed pm' (unat virt div 4096 + k)" if "k < length (blk # bs)" for k
    using that ih one by (cases k) auto
  then show ?case using ih one by blast
qed auto

text \<open>A state of the loader in which the structures it works on are well formed.\<close>

definition loading_inv :: "loading \<Rightarrow> bool" where
  "loading_inv s \<longleftrightarrow> as_inv (mm_regions (ld_mm s)) \<and> pm_inv (mm_pm (ld_mm s)) \<and> phys_inv (vm_phys (mm_vm (ld_mm s)))"

lemma process_image_correct:
  assumes "process_image_vm_object tp u base sz True vm = Inr (o1, vm')" "phys_inv (vm_phys vm)" "unat sz < 2 ^ 44"
  shows "image o1 = Some (base, True) \<and> \<not> cow o1 \<and> vmo_size o1 = sz \<and> length (physical_blocks o1) = block_count o1
    \<and> aligned sz \<and> phys_inv (vm_phys vm')"
proof -
  obtain mapping h bs vm0 where s: "aligned sz"
      "back_blocks (unat (PAGE_COUNT_4K sz)) mapping (vm\<lparr>vm_heap := h\<rparr>) = Inr (bs, vm0)"
      "physical_blocks o1 = bs" "vmo_size o1 = sz" "image o1 = Some (base, True)" "\<not> cow o1" "vm_phys vm' = vm_phys vm0"
    using assms(1) by (auto simp: process_image_vm_object_def physical_vm_object_def Let_def vm_free_page_def split: if_splits)
  show ?thesis using back_blocks_correct [OF s(2)] assms(2) page_count_block_count [OF s(1) assms(3)] s
    by (simp add: block_count_def)
qed

lemma map_vmo_fixed:
  assumes "map_vmo tp oid base True s = Inr (res, s')" "mm_vmos s oid = Some o1" "base \<noteq> 0"
    "as_inv (mm_regions s)" "unat base + unat (vmo_size o1) < 2 ^ 64"
    "\<not> (\<exists>r \<in> set (mm_regions s). overlaps (unat base) (unat base + unat (vmo_size o1)) r)"
  shows "as_inv (mm_regions s')" "set (mm_regions s') \<subseteq> insert \<lparr>r_base = base, r_size = vmo_size o1, r_vmo = Some oid\<rparr> (set (mm_regions s))"
    "map_allocated_blocks tp (o1\<lparr>use_count := use_count o1 + 1\<rparr>) base (mm_pm s) (mm_vm s) = Inr (mm_pm s', mm_vm s')"
proof -
  let ?r = "mapped_region base (vmo_size o1)" and ?o = "o1\<lparr>use_count := use_count o1 + 1\<rparr>"
  obtain i where i: "i \<le> length (mm_regions s)"
      "allocate_region_at base (vmo_size o1) (mm_regions s) = Some (i, insert_at i ?r (mm_regions s))"
      "as_inv (insert_at i ?r (mm_regions s))"
    using allocate_region_at_correct [OF assms(4,5)] assms(6) by auto
  let ?rs = "insert_at i ?r (mm_regions s)"
  have n: "?rs ! i = ?r" using i(1) by (simp add: insert_at_def nth_append)
  have "place_region (vmo_size o1) base True (mm_regions s) = Inr (Some (i, ?rs))"
    using i(2) assms(3) by (simp add: place_region_def)
  then have at: "attach tp oid o1 i ?rs s = Inr (res, s')"
    using assms(1,2) by (auto simp: map_vmo_def split: if_splits)
  then have rs: "mm_regions s' = ?rs[i := ?r\<lparr>r_vmo := Some oid\<rparr>]"
      and m: "map_allocated_blocks tp ?o base (mm_pm s) (mm_vm s) = Inr (mm_pm s', mm_vm s')"
    by (auto simp: attach_def Let_def n) (auto simp: mapped_region_def)
  have "as_inv (mm_regions s')" unfolding rs using as_inv_set_vmo [of ?rs i "Some oid"] i n by simp
  moreover have "?r\<lparr>r_vmo := Some oid\<rparr> = \<lparr>r_base = base, r_size = vmo_size o1, r_vmo = Some oid\<rparr>"
    by (simp add: mapped_region_def)
  moreover have "?rs[i := x] = insert_at i x (mm_regions s)" for x using i(1) by (simp add: insert_at_def list_update_append)
  ultimately show "as_inv (mm_regions s')"
    "set (mm_regions s') \<subseteq> insert \<lparr>r_base = base, r_size = vmo_size o1, r_vmo = Some oid\<rparr> (set (mm_regions s))"
    using rs by (auto simp: insert_at_def dest: in_set_takeD in_set_dropD)
  show "map_allocated_blocks tp ?o base (mm_pm s) (mm_vm s) = Inr (mm_pm s', mm_vm s')" by (fact m)
qed

definition no_overlap :: "u64 \<Rightarrow> phdr \<Rightarrow> loading \<Rightarrow> bool" where
  "no_overlap base ph s \<longleftrightarrow> \<not> (\<exists>r \<in> set (mm_regions (ld_mm s)). overlaps (seg_lo base ph) (seg_hi base ph) r)"

text \<open>Every page of the segment is mapped.\<close>

definition seg_backed :: "u64 \<Rightarrow> page_map \<Rightarrow> phdr \<Rightarrow> bool" where
  "seg_backed base pm ph \<longleftrightarrow> (\<forall>q. seg_lo base ph \<le> 4096 * q \<and> 4096 * q < seg_hi base ph \<longrightarrow> backed pm q)"

lemma map_segment_correct:
  assumes s': "map_segment tp uses base ph s = Inr s'" and l: "loadable ph"
    and inv: "loading_inv s" and ok: "seg_ok base ph" and free: "no_overlap base ph s"
  shows "loading_inv s' \<and> ld_mem s' = ld_mem s \<and> seg_backed base (mm_pm (ld_mm s')) ph
    \<and> (\<forall>q. backed (mm_pm (ld_mm s)) q \<longrightarrow> backed (mm_pm (ld_mm s')) q)
    \<and> (\<forall>r \<in> set (mm_regions (ld_mm s')). r \<in> set (mm_regions (ld_mm s)) \<or> r_lo r = seg_lo base ph \<and> r_hi r = seg_hi base ph)"
proof -
  let ?mm = "ld_mm s" and ?b = "page_base base ph" and ?sz = "image_size ph" and ?oid = "ld_oid s"
  note b = unat_page_base [OF ok] and sz = unat_image_size [OF ok]
  have lohi: "seg_lo base ph \<le> seg_hi base ph" by (simp add: seg_hi_def)
  have lim: "seg_hi base ph + 4096 \<le> 2 ^ 39" using seg_hi_bound [of base ph] ok by (simp add: seg_ok_def)
  obtain o1 vm res mm' where
      o1: "process_image_vm_object tp (uses ?oid) ?b ?sz True (mm_vm ?mm) = Inr (o1, vm)"
    and m: "map_vmo tp ?oid ?b True (?mm\<lparr>mm_vmos := (mm_vmos ?mm)(?oid \<mapsto> o1), mm_vm := vm\<rparr>) = Inr (res, mm')"
    and eq: "s' = s\<lparr>ld_mm := mm', ld_oid := ?oid + 1\<rparr>"
    using s' l by (auto simp: map_segment_def Let_def)
  have img: "image o1 = Some (?b, True)" "\<not> cow o1" "vmo_size o1 = ?sz" "length (physical_blocks o1) = block_count o1"
      "aligned ?sz" "phys_inv (vm_phys vm)"
    using process_image_correct [OF o1] inv sz lim by (simp_all add: loading_inv_def)
  have nz: "?b \<noteq> 0"
  proof -
    have "4096 \<le> seg_lo base ph" using ok by (simp add: seg_ok_def seg_lo_def Suc_le_eq div_greater_zero_iff)
    then show ?thesis using b by auto
  qed
  note mv = map_vmo_fixed [OF m, of o1]
  have pre: "unat ?b + unat (vmo_size o1) < 2 ^ 64"
      "\<not> (\<exists>r \<in> set (mm_regions ?mm). overlaps (unat ?b) (unat ?b + unat (vmo_size o1)) r)"
    using free lohi lim b sz img(3) by (simp_all add: no_overlap_def)
  have rs: "as_inv (mm_regions mm')" "set (mm_regions mm') \<subseteq> insert \<lparr>r_base = ?b, r_size = ?sz, r_vmo = Some ?oid\<rparr> (set (mm_regions ?mm))"
    and mb: "map_allocated_blocks tp (o1\<lparr>use_count := use_count o1 + 1\<rparr>) ?b (mm_pm ?mm) vm = Inr (mm_pm mm', mm_vm mm')"
    using mv nz inv pre img(3) by (simp_all add: loading_inv_def)
  let ?o = "o1\<lparr>use_count := use_count o1 + 1\<rparr>"
  have "unat (drop_bit 12 ?sz) = unat ?sz div 4096" by (simp add: unat_drop_bit_eq) (simp add: drop_bit_eq_div)
  then have n: "length (physical_blocks o1) = (seg_hi base ph - seg_lo base ph) div 4096"
    using img(3,4) sz by (simp add: block_count_def)
  have "unat ?sz mod 4096 = 0" using img(5) unat_page_offset [of ?sz] by (simp add: aligned_def)
  then have n': "4096 * length (physical_blocks o1) = seg_hi base ph - seg_lo base ph" using n sz by auto
  have "map_blocks tp ?o (physical_blocks o1) ?b (mm_pm ?mm) vm = Inr (mm_pm mm', mm_vm mm')"
    using mb img(1,4) by (simp add: map_allocated_blocks_def block_count_def)
  from map_blocks_backed [OF _ _ this] have bk: "pm_inv (mm_pm mm') \<and> phys_inv (vm_phys (mm_vm mm'))
      \<and> (\<forall>k < length (physical_blocks o1). backed (mm_pm mm') (unat ?b div 4096 + k))
      \<and> (\<forall>q. backed (mm_pm ?mm) q \<longrightarrow> backed (mm_pm mm') q)"
    using img inv b n' lohi lim by (simp add: loading_inv_def)
  have "seg_backed base (mm_pm mm') ph"
    unfolding seg_backed_def
  proof (intro allI impI)
    fix q
    assume q: "seg_lo base ph \<le> 4096 * q \<and> 4096 * q < seg_hi base ph"
    moreover have "unat ?b div 4096 * 4096 = seg_lo base ph" by (simp add: b seg_lo_def)
    ultimately have "q = unat ?b div 4096 + (q - unat ?b div 4096)" "q - unat ?b div 4096 < length (physical_blocks o1)"
      using n' by linarith+
    then show "backed (mm_pm mm') q" using bk by metis
  qed
  moreover have "r \<in> set (mm_regions ?mm) \<or> r_lo r = seg_lo base ph \<and> r_hi r = seg_hi base ph"
    if "r \<in> set (mm_regions mm')" for r
    using that rs(2) b sz lohi by (auto simp: r_lo_def r_hi_def)
  ultimately show ?thesis using rs(1) bk eq by (auto simp: loading_inv_def)
qed

definition apart :: "u64 \<Rightarrow> phdr \<Rightarrow> phdr \<Rightarrow> bool" where
  "apart base a b \<longleftrightarrow> (loadable a \<and> loadable b \<longrightarrow> seg_hi base a \<le> seg_lo base b \<or> seg_hi base b \<le> seg_lo base a)"

lemma map_segments_correct:
  "map_segments tp uses base phs s = Inr s' \<Longrightarrow> loading_inv s \<Longrightarrow> \<forall>ph \<in> set phs. loadable ph \<longrightarrow> seg_ok base ph \<and> no_overlap base ph s \<Longrightarrow>
   sorted_wrt (apart base) phs \<Longrightarrow>
   loading_inv s' \<and> ld_mem s' = ld_mem s \<and> (\<forall>ph \<in> set phs. loadable ph \<longrightarrow> seg_backed base (mm_pm (ld_mm s')) ph)
   \<and> (\<forall>q. backed (mm_pm (ld_mm s)) q \<longrightarrow> backed (mm_pm (ld_mm s')) q)"
proof (induction phs arbitrary: s)
  case (Cons ph phs)
  obtain s1 where s1: "map_segment tp uses base ph s = Inr s1" "map_segments tp uses base phs s1 = Inr s'"
    using Cons.prems(1) by auto
  show ?case
  proof (cases "loadable ph")
    case True
    then have one: "loading_inv s1 \<and> ld_mem s1 = ld_mem s \<and> seg_backed base (mm_pm (ld_mm s1)) ph
      \<and> (\<forall>q. backed (mm_pm (ld_mm s)) q \<longrightarrow> backed (mm_pm (ld_mm s1)) q)
      \<and> (\<forall>r \<in> set (mm_regions (ld_mm s1)). r \<in> set (mm_regions (ld_mm s)) \<or> r_lo r = seg_lo base ph \<and> r_hi r = seg_hi base ph)"
      using map_segment_correct [OF s1(1)] Cons.prems by simp
    have "no_overlap base a s1" if "a \<in> set phs" "loadable a" for a
    proof -
      have "apart base ph a" "no_overlap base a s" using Cons.prems that by auto
      then have "\<not> overlaps (seg_lo base a) (seg_hi base a) r" if "r \<in> set (mm_regions (ld_mm s1))" for r
        using one that True \<open>loadable a\<close> unfolding no_overlap_def apart_def overlaps_def
        by (metis not_less)
      then show ?thesis by (simp add: no_overlap_def)
    qed
    then have "loading_inv s' \<and> ld_mem s' = ld_mem s1 \<and> (\<forall>ph \<in> set phs. loadable ph \<longrightarrow> seg_backed base (mm_pm (ld_mm s')) ph)
      \<and> (\<forall>q. backed (mm_pm (ld_mm s1)) q \<longrightarrow> backed (mm_pm (ld_mm s')) q)"
      using Cons.IH [OF s1(2)] one Cons.prems by simp
    then show ?thesis using one by (auto simp: seg_backed_def)
  next
    case False
    then show ?thesis using Cons.IH [OF s1(2)] s1(1) Cons.prems by (auto simp: map_segment_def)
  qed
qed simp

section \<open>Copying the segments\<close>

lemma load_bytes_cong: "(\<And>a. p \<le> a \<Longrightarrow> m a = m' a) \<Longrightarrow> load_bytes m p n = load_bytes m' p n"
  by (simp add: load_bytes_def)

lemma header_of_cong:
  assumes "\<And>a. elf \<le> a \<Longrightarrow> m a = m' a"
  shows "header_of m elf i = header_of m' elf i"
proof -
  have "load_bytes m p n = load_bytes m' p n" if "elf \<le> p" for p n
    using assms that by (intro load_bytes_cong) simp
  then show ?thesis by (simp add: header_of_def ehdr_at_def phdr_at_def)
qed

lemma seg_accessible:
  assumes "seg_ok base ph" "seg_backed base pm ph" "n \<le> unat (p_memsz ph)"
  shows "accessible pm (seg_start base ph) n"
proof -
  have "page_accessible pm q" if q: "q \<in> set [seg_start base ph div 4096..<Suc ((seg_start base ph + n - 1) div 4096)]" "n \<noteq> 0" for q
  proof -
    have "seg_start base ph div 4096 \<le> q" "q \<le> (seg_start base ph + n - 1) div 4096" using q(1) by auto
    then have "seg_lo base ph \<le> 4096 * q" "4096 * q \<le> seg_start base ph + n - 1"
      unfolding seg_lo_def by linarith+
    then have "4096 * q < seg_start base ph + unat (p_memsz ph)" using q(2) assms(3) by linarith
    then have "backed pm q" "q < 2 ^ 27"
      using \<open>seg_lo base ph \<le> 4096 * q\<close> assms(1,2) seg_end_le_hi [of base ph]
      by (auto simp: seg_backed_def seg_ok_def)
    then show ?thesis by (simp add: page_accessible_def backed_def)
  qed
  then show ?thesis by (auto simp: accessible_def list_all_iff simp del: upt_Suc)
qed

text \<open>The bytes of a segment in memory \<open>m'\<close> are those of the image in \<open>m\<close>, filled up with zeros.\<close>

definition in_segment :: "u64 \<Rightarrow> phdr \<Rightarrow> nat \<Rightarrow> bool" where
  "in_segment base ph a \<longleftrightarrow> loadable ph \<and> seg_start base ph \<le> a \<and> a < seg_start base ph + unat (p_memsz ph)"

definition seg_byte :: "u64 \<Rightarrow> ptr \<Rightarrow> mem \<Rightarrow> phdr \<Rightarrow> nat \<Rightarrow> u8" where
  "seg_byte base elf m ph a =
     (let k = a - seg_start base ph in if k < unat (p_filesz ph) then m (elf + unat (p_offset ph) + k) else 0)"

lemma load_segment_memory:
  assumes ok: "loadable ph \<longrightarrow> seg_ok base ph \<and> seg_backed base (mm_pm (ld_mm s)) ph" and elf: "2 ^ 39 \<le> elf"
  obtains info' s' where "load_segment base elf ph info s = Inr (info', s')"
    "s' = s\<lparr>ld_mem := (\<lambda>a. if in_segment base ph a then seg_byte base elf (ld_mem s) ph a else ld_mem s a)\<rparr>"
    "entry info' = entry info" "phdr_entry_size info' = phdr_entry_size info" "phdr_num info' = phdr_num info"
    "phdr_segment info' = (if p_type ph = PT_PHDR then base + p_vaddr ph else phdr_segment info)"
    "linker_path info' \<noteq> None \<longleftrightarrow> p_type ph = PT_INTERP \<or> linker_path info \<noteq> None"
proof (cases "loadable ph")
  case True
  then have sg: "seg_ok base ph" "seg_backed base (mm_pm (ld_mm s)) ph" using ok by auto
  let ?d = "seg_start base ph" and ?n = "unat (p_memsz ph)" and ?f = "unat (p_filesz ph)" and ?src = "elf + unat (p_offset ph)"
  have fn: "?f \<le> ?n" using sg(1) by (simp add: seg_ok_def word_le_nat_alt)
  have acc: "accessible (mm_pm (ld_mm s)) ?d ?n" "accessible (mm_pm (ld_mm s)) ?d ?f"
    using seg_accessible [OF sg] fn by auto
  have lo: "?d + ?n \<le> 2 ^ 39" using sg(1) by (simp add: seg_ok_def)
  then have "forward ?d ?src ?f" using elf by (simp add: forward_def)
  then have "fst (memcpy (memset (ld_mem s) ?d 0 ?n) ?d ?src ?f)
      = (\<lambda>a. if in_segment base ph a then seg_byte base elf (ld_mem s) ph a else ld_mem s a)"
    using fn lo elf True
    by (auto simp: memcpy_moved moved_def memset_eq in_segment_def seg_byte_def fun_eq_iff Let_def)
  moreover have "p_type ph = PT_LOAD" "p_memsz ph > 0" using True by (auto simp: loadable_def word_neq_0_conv)
  ultimately show ?thesis
    using that acc unat_seg_start [OF sg(1)] by (auto simp: load_segment_def Let_def PT_LOAD_def PT_PHDR_def PT_INTERP_def)
next
  case False
  then have "s\<lparr>ld_mem := (\<lambda>a. if in_segment base ph a then seg_byte base elf (ld_mem s) ph a else ld_mem s a)\<rparr> = s"
    by (simp add: in_segment_def)
  moreover have "\<not> (p_type ph = PT_LOAD \<and> p_memsz ph > 0)" using False by (auto simp: loadable_def)
  ultimately show ?thesis
    using that by (cases "p_type ph = PT_PHDR"; cases "p_type ph = PT_INTERP") (auto simp: load_segment_def PT_PHDR_def PT_INTERP_def)
qed

text \<open>Segments with their pages apart do not share an address.\<close>

lemma apart_addresses: "apart base a b \<Longrightarrow> in_segment base a x \<Longrightarrow> \<not> in_segment base b x"
  using seg_end_le_hi [of base a] seg_end_le_hi [of base b]
  by (auto simp: apart_def in_segment_def seg_lo_def)

lemma load_segments_correct:
  assumes elf: "2 ^ 39 \<le> elf"
  shows "phs = map (header_of (ld_mem s) elf) is \<Longrightarrow>
    \<forall>ph \<in> set phs. loadable ph \<longrightarrow> seg_ok base ph \<and> seg_backed base (mm_pm (ld_mm s)) ph \<Longrightarrow> sorted_wrt (apart base) phs \<Longrightarrow>
    \<exists>info' m'. load_segments base elf is info s = Inr (info', s\<lparr>ld_mem := m'\<rparr>)
      \<and> entry info' = entry info \<and> phdr_entry_size info' = phdr_entry_size info \<and> phdr_num info' = phdr_num info
      \<and> (linker_path info' \<noteq> None \<longleftrightarrow> linker_path info \<noteq> None \<or> (\<exists>ph \<in> set phs. p_type ph = PT_INTERP))
      \<and> phdr_segment info' = fold (\<lambda>ph v. if p_type ph = PT_PHDR then base + p_vaddr ph else v) phs (phdr_segment info)
      \<and> (\<forall>ph \<in> set phs. \<forall>a. in_segment base ph a \<longrightarrow> m' a = seg_byte base elf (ld_mem s) ph a)
      \<and> (\<forall>a. (\<forall>ph \<in> set phs. \<not> in_segment base ph a) \<longrightarrow> m' a = ld_mem s a)"
proof (induction "is" arbitrary: phs info s)
  case Nil
  show ?case using Nil by (intro exI [of _ info] exI [of _ "ld_mem s"]) simp
next
  case (Cons i "is")
  let ?ph = "header_of (ld_mem s) elf i" and ?phs = "map (header_of (ld_mem s) elf) is"
  obtain info1 s1 where one: "load_segment base elf ?ph info s = Inr (info1, s1)"
      "s1 = s\<lparr>ld_mem := (\<lambda>a. if in_segment base ?ph a then seg_byte base elf (ld_mem s) ?ph a else ld_mem s a)\<rparr>"
      "entry info1 = entry info" "phdr_entry_size info1 = phdr_entry_size info" "phdr_num info1 = phdr_num info"
      "phdr_segment info1 = (if p_type ?ph = PT_PHDR then base + p_vaddr ?ph else phdr_segment info)"
      "linker_path info1 \<noteq> None \<longleftrightarrow> p_type ?ph = PT_INTERP \<or> linker_path info \<noteq> None"
    using load_segment_memory [OF _ elf, of ?ph base s info] Cons.prems(1,2) by auto
  have "\<not> in_segment base ?ph a" if "2 ^ 39 \<le> a" for a
  proof (cases "loadable ?ph")
    case True
    then have "seg_ok base ?ph" using Cons.prems(1,2) by simp
    then show ?thesis using that by (auto simp: in_segment_def seg_ok_def)
  qed (simp add: in_segment_def)
  then have high: "ld_mem s1 a = ld_mem s a" if "elf \<le> a" for a using that elf one(2) by simp
  then have hd: "header_of (ld_mem s1) elf j = header_of (ld_mem s) elf j" for j by (intro header_of_cong) auto
  have sb: "seg_byte base elf (ld_mem s1) ph a = seg_byte base elf (ld_mem s) ph a" for ph a
    using high by (simp add: seg_byte_def Let_def)
  have "?phs = map (header_of (ld_mem s1) elf) is" by (simp add: hd)
  moreover have "\<forall>ph \<in> set ?phs. loadable ph \<longrightarrow> seg_ok base ph \<and> seg_backed base (mm_pm (ld_mm s1)) ph"
    using Cons.prems(1,2) one(2) by simp
  moreover have ap: "sorted_wrt (apart base) ?phs" "\<forall>b \<in> set ?phs. apart base ?ph b" using Cons.prems(1,3) by auto
  ultimately obtain info' m' where ih: "load_segments base elf is info1 s1 = Inr (info', s1\<lparr>ld_mem := m'\<rparr>)"
      "entry info' = entry info1" "phdr_entry_size info' = phdr_entry_size info1" "phdr_num info' = phdr_num info1"
      "linker_path info' \<noteq> None \<longleftrightarrow> linker_path info1 \<noteq> None \<or> (\<exists>ph \<in> set ?phs. p_type ph = PT_INTERP)"
      "phdr_segment info' = fold (\<lambda>ph v. if p_type ph = PT_PHDR then base + p_vaddr ph else v) ?phs (phdr_segment info1)"
      "\<forall>ph \<in> set ?phs. \<forall>a. in_segment base ph a \<longrightarrow> m' a = seg_byte base elf (ld_mem s1) ph a"
      "\<forall>a. (\<forall>ph \<in> set ?phs. \<not> in_segment base ph a) \<longrightarrow> m' a = ld_mem s1 a"
    using Cons.IH [of ?phs s1 info1] by blast
  have phs: "phs = ?ph # ?phs" using Cons.prems(1) by simp
  have "m' a = seg_byte base elf (ld_mem s) ?ph a" if "in_segment base ?ph a" for a
  proof -
    have "\<forall>b \<in> set ?phs. \<not> in_segment base b a" using ap(2) apart_addresses [OF _ that] by blast
    then have "m' a = ld_mem s1 a" using ih(8) by blast
    then show ?thesis using that one(2) by simp
  qed
  then have "\<forall>ph \<in> set phs. \<forall>a. in_segment base ph a \<longrightarrow> m' a = seg_byte base elf (ld_mem s) ph a"
    using ih(7) sb phs by auto
  moreover have "\<forall>a. (\<forall>ph \<in> set phs. \<not> in_segment base ph a) \<longrightarrow> m' a = ld_mem s a"
    using ih(8) phs one(2) by auto
  moreover have "load_segments base elf (i # is) info s = Inr (info', s\<lparr>ld_mem := m'\<rparr>)"
    using one(1,2) ih(1) by simp
  ultimately show ?case using ih(2-6) one(3-7) phs by (intro exI [of _ info'] exI [of _ m']) auto
qed

text \<open>What the loader expects of an image: it lies above the process, and its segments can be placed.\<close>

definition image_headers :: "mem \<Rightarrow> ptr \<Rightarrow> phdr list" where
  "image_headers m elf = map (header_of m elf) [0..<unat (e_phnum (ehdr_at m elf))]"

definition image_ok :: "u64 \<Rightarrow> ptr \<Rightarrow> loading \<Rightarrow> bool" where
  "image_ok base elf s \<longleftrightarrow> elf_verify (ld_mem s) elf \<and> 2 ^ 39 \<le> elf
     \<and> (\<forall>ph \<in> set (image_headers (ld_mem s) elf). loadable ph \<longrightarrow> seg_ok base ph \<and> no_overlap base ph s)
     \<and> sorted_wrt (apart base) (image_headers (ld_mem s) elf)"

lemma load_elf_segments_correct:
  assumes "image_ok base elf s" "loading_inv s" "map_segments tp uses base (image_headers (ld_mem s) elf) s = Inr s1"
  shows "\<exists>info s'. load_elf_segments tp uses elf base s = Inr (info, s') \<and> ld_mm s' = ld_mm s1 \<and> loading_inv s'
    \<and> entry info = base + e_entry (ehdr_at (ld_mem s) elf)
    \<and> phdr_num info = ucast (e_phnum (ehdr_at (ld_mem s) elf))
    \<and> (linker_path info \<noteq> None \<longleftrightarrow> (\<exists>ph \<in> set (image_headers (ld_mem s) elf). p_type ph = PT_INTERP))
    \<and> (\<forall>ph \<in> set (image_headers (ld_mem s) elf). \<forall>a. in_segment base ph a \<longrightarrow>
         backed (mm_pm (ld_mm s')) (a div 4096) \<and> ld_mem s' a = seg_byte base elf (ld_mem s) ph a)
    \<and> (\<forall>a. (\<forall>ph \<in> set (image_headers (ld_mem s) elf). \<not> in_segment base ph a) \<longrightarrow> ld_mem s' a = ld_mem s a)"
proof -
  let ?h = "ehdr_at (ld_mem s) elf" and ?phs = "image_headers (ld_mem s) elf"
  let ?is = "[0..<unat (e_phnum ?h)]"
  let ?info = "no_info\<lparr>entry := base + e_entry ?h, phdr_entry_size := ucast (e_phentsize ?h), phdr_num := ucast (e_phnum ?h)\<rparr>"
  have ok: "elf_verify (ld_mem s) elf" "2 ^ 39 \<le> elf" "sorted_wrt (apart base) ?phs"
      "\<forall>ph \<in> set ?phs. loadable ph \<longrightarrow> seg_ok base ph \<and> no_overlap base ph s"
    using assms(1) by (simp_all add: image_ok_def)
  note mp = map_segments_correct [OF assms(3,2) ok(4,3)]
  have "?phs = map (header_of (ld_mem s1) elf) ?is" using mp by (simp add: image_headers_def)
  then obtain info m' where ld: "load_segments base elf ?is ?info s1 = Inr (info, s1\<lparr>ld_mem := m'\<rparr>)"
      "entry info = base + e_entry ?h" "phdr_num info = ucast (e_phnum ?h)"
      "linker_path info \<noteq> None \<longleftrightarrow> (\<exists>ph \<in> set ?phs. p_type ph = PT_INTERP)"
      "\<forall>ph \<in> set ?phs. \<forall>a. in_segment base ph a \<longrightarrow> m' a = seg_byte base elf (ld_mem s) ph a"
      "\<forall>a. (\<forall>ph \<in> set ?phs. \<not> in_segment base ph a) \<longrightarrow> m' a = ld_mem s a"
    using load_segments_correct [OF ok(2), of ?phs s1 ?is base ?info] mp ok(3,4) by (auto simp: no_info_def)
  have "load_elf_segments tp uses elf base s = Inr (info, s1\<lparr>ld_mem := m'\<rparr>)"
    using ok(1) assms(3) ld(1) by (simp add: load_elf_segments_def Let_def image_headers_def)
  moreover have "backed (mm_pm (ld_mm s1)) (a div 4096)" if "ph \<in> set ?phs" "in_segment base ph a" for ph a
  proof -
    have "seg_backed base (mm_pm (ld_mm s1)) ph" using that mp by (auto simp: in_segment_def)
    moreover have "seg_lo base ph \<le> 4096 * (a div 4096)"
      using that(2) div_le_mono [of "seg_start base ph" a 4096] by (simp add: in_segment_def seg_lo_def)
    moreover have "4096 * (a div 4096) < seg_hi base ph"
      using that(2) seg_end_le_hi [of base ph] times_div_less_eq_dividend [of 4096 a] unfolding in_segment_def by linarith
    ultimately show ?thesis by (simp add: seg_backed_def)
  qed
  ultimately show ?thesis
    using ld mp by (intro exI [of _ info] exI [of _ "s1\<lparr>ld_mem := m'\<rparr>"]) (auto simp: loading_inv_def)
qed

text \<open>
  C10. Loading an executable.  If its segments lie on pages of their own, above page 0, below 512 GiB and off the
  regions in use, and the allocators had memory to map them, loading succeeds: every segment holds the bytes of
  the file followed by zeros, no other byte of memory changes, the address space stays well formed, and the
  result carries the entry point, the shape of the program headers and whether a dynamic linker is asked for.
\<close>

theorem elf_segments_loaded:
  assumes "image_ok base elf s" "loading_inv s" "map_segments tp uses base (image_headers (ld_mem s) elf) s = Inr s1"
  shows "\<exists>info s'. load_elf_segments tp uses elf base s = Inr (info, s') \<and> loading_inv s'
    \<and> entry info = base + e_entry (ehdr_at (ld_mem s) elf)
    \<and> phdr_num info = ucast (e_phnum (ehdr_at (ld_mem s) elf))
    \<and> (linker_path info \<noteq> None \<longleftrightarrow> (\<exists>ph \<in> set (image_headers (ld_mem s) elf). p_type ph = PT_INTERP))
    \<and> (\<forall>ph \<in> set (image_headers (ld_mem s) elf). \<forall>a. in_segment base ph a \<longrightarrow>
         backed (mm_pm (ld_mm s')) (a div 4096) \<and> ld_mem s' a = seg_byte base elf (ld_mem s) ph a)
    \<and> (\<forall>a. (\<forall>ph \<in> set (image_headers (ld_mem s) elf). \<not> in_segment base ph a) \<longrightarrow> ld_mem s' a = ld_mem s a)"
  using load_elf_segments_correct [OF assms] by blast

text \<open>An image with one segment of two bytes of content and four bytes of memory at \<open>0x400000\<close>, and a state to load it in.\<close>

definition demo_bytes :: "u8 list" where
  "demo_bytes =
    [127, 69, 76, 70, 0, 0, 0, 0, 0, 0, 0, 0, 0, 0, 0, 0, 0, 0, 0, 0, 0, 0, 0, 0,
     0, 0, 64, 0, 0, 0, 0, 0, 64, 0, 0, 0, 0, 0, 0, 0, 0, 0, 0, 0, 0, 0, 0, 0,
     0, 0, 0, 0, 0, 0, 56, 0, 1, 0, 0, 0, 0, 0, 0, 0, 1, 0, 0, 0, 0, 0, 0, 0,
     120, 0, 0, 0, 0, 0, 0, 0, 0, 0, 64, 0, 0, 0, 0, 0, 0, 0, 0, 0, 0, 0, 0, 0,
     2, 0, 0, 0, 0, 0, 0, 0, 4, 0, 0, 0, 0, 0, 0, 0, 0, 0, 0, 0, 0, 0, 0, 0,
     170, 187]"

definition demo_mem :: mem where
  "demo_mem a = (if 2 ^ 40 \<le> a \<and> a < 2 ^ 40 + 122 then demo_bytes ! (a - 2 ^ 40) else if a < 2 ^ 41 then 7 else 0)"

definition demo_loading :: loading where
  "demo_loading = \<lparr>ld_mm = \<lparr>mm_regions = [], mm_vmos = (\<lambda>_. None),
       mm_pm = \<lparr>page_dirs = (\<lambda>_ _. 7), page_dirs_phys = (\<lambda>_. 0), page_dirs_virt = (\<lambda>_. 4096),
         page_tables = (\<lambda>_ _. Some (0, (\<lambda>_. 0))), pm_pdpt = (\<lambda>_. 0), pm_pml4 = (\<lambda>_. 0), pdpt_phys = 0, pml4_phys = 0\<rparr>,
       mm_vm = \<lparr>vm_heap = \<lparr>kernel_heap_dir = (\<lambda>_. 3), kernel_heap_dir_tables = (\<lambda>_ _. 0)\<rparr>,
         vm_phys = \<lparr>phys_mem_bitmap = [- 1, 0], used_blocks = 0, max_blocks = 64, next_chunk = 1\<rparr>\<rparr>\<rparr>,
     ld_mem = demo_mem, ld_oid = 0\<rparr>"

lemma demo_load_bytes: "k + n \<le> 122 \<Longrightarrow> load_bytes demo_mem (1099511627776 + k) n = take n (drop k demo_bytes)"
proof -
  have "length demo_bytes = 122" by (simp add: demo_bytes_def)
  then show "k + n \<le> 122 \<Longrightarrow> ?thesis" by (auto simp: load_bytes_def demo_mem_def intro!: nth_equalityI)
qed

lemma demo_image_fields:
  "get32 (take 64 demo_bytes) 0 = 0x464c457f" "get64 (take 64 demo_bytes) 24 = 0x400000" "get64 (take 64 demo_bytes) 32 = 64"
  "get16 (take 64 demo_bytes) 54 = 56" "get16 (take 64 demo_bytes) 56 = 1"
  "get32 (take 56 (drop 64 demo_bytes)) 0 = 1" "get64 (take 56 (drop 64 demo_bytes)) 8 = 120"
  "get64 (take 56 (drop 64 demo_bytes)) 16 = 0x400000" "get64 (take 56 (drop 64 demo_bytes)) 32 = 2"
  "get64 (take 56 (drop 64 demo_bytes)) 40 = 4"
  by (simp_all add: get16_def get32_def get64_def demo_bytes_def)

lemma demo_headers:
  "ehdr_at demo_mem 1099511627776 = \<lparr>e_ident = 0x464c457f, e_entry = 0x400000, e_phoff = 64, e_phentsize = 56, e_phnum = 1\<rparr>"
  "phdr_at demo_mem 1099511627840 = \<lparr>p_type = 1, p_offset = 120, p_vaddr = 0x400000, p_filesz = 2, p_memsz = 4\<rparr>"
  using demo_load_bytes [of 0 64] demo_load_bytes [of 64 56] by (simp_all add: ehdr_at_def phdr_at_def Let_def demo_image_fields)

lemma demo_image_headers:
  "image_headers demo_mem 1099511627776 = [\<lparr>p_type = 1, p_offset = 120, p_vaddr = 0x400000, p_filesz = 2, p_memsz = 4\<rparr>]"
  by (simp add: image_headers_def header_of_def demo_headers Let_def)

lemma le_bytes_numeral: "le_bytes (numeral k) n = of_nat (n mod 256) # le_bytes (pred_numeral k) (n div 256)"
  by (simp only: numeral_eq_Suc [of k] le_bytes.simps)

lemma demo_verify: "elf_verify demo_mem 1099511627776"
proof -
  have "le_bytes 4 0x464c457f = [0x7f, 0x45, 0x4c, 0x46]" by (simp add: le_bytes_numeral)
  then have "bswap32 0x464c457f = 0x7f454c46" by (simp add: bswap32_def)
  then show ?thesis by (simp add: elf_verify_def demo_headers ELF_MAGIC_def)
qed

lemma demo_image_ok: "image_ok 0 1099511627776 demo_loading"
  by (simp add: image_ok_def demo_loading_def demo_image_headers demo_verify no_overlap_def seg_ok_def aligned_def
      seg_start_def loadable_def)

lemma demo_map_segments:
  "\<exists>s1. map_segments (\<lambda>_. 0) (\<lambda>_. 0) 0 (image_headers (ld_mem demo_loading) 1099511627776) demo_loading = Inr s1"
proof -
  let ?vm = "mm_vm (ld_mm demo_loading)"
  have "\<exists>h. kernel_allocate_4k_pages (\<lambda>_. 0) 1 (vm_heap ?vm) = Inr (0xFFFFFFFFC0000000, h)"
    by (simp add: demo_loading_def kernel_allocate_4k_pages_def scan_dir.simps [of _ _ 0] scan_table.simps [of _ _ 0 0]
        present_def flag_defs set_entry_def heap_address_def)
  then obtain h where h: "kernel_allocate_4k_pages (\<lambda>_. 0) 1 (vm_heap ?vm) = Inr (0xFFFFFFFFC0000000, h)" by blast
  have o1: "\<exists>vm. process_image_vm_object (\<lambda>_. 0) 0 0x400000 4096 True ?vm = Inr (\<lparr>vmo_size = 4096, use_count = 0,
      anonymous = False, shared = False, cow = False, physical_blocks = [32], image = Some (0x400000, True)\<rparr>, vm)"
    using h by (simp add: demo_loading_def process_image_vm_object_def physical_vm_object_def aligned_def PAGE_COUNT_4K_def Let_def
        small_allocation [simplified] set_entry_def vm_free_page_def)
  have "page_base 0 \<lparr>p_type = 1, p_offset = 120, p_vaddr = 0x400000, p_filesz = 2, p_memsz = 4\<rparr> = 0x400000"
    "image_size \<lparr>p_type = 1, p_offset = 120, p_vaddr = 0x400000, p_filesz = 2, p_memsz = 4\<rparr> = 4096"
    by (simp_all add: page_base_def image_size_def PAGE_SIZE_4K_MASK_def)
  then show ?thesis
    using o1 by (elim exE) (simp del: kbind_Inr_iff add: demo_loading_def demo_image_headers map_segment_def loadable_def PT_LOAD_def Let_def map_vmo_def
        aligned_def place_region_def allocate_region_at_def mapped_region_def attach_def map_allocated_blocks_def
        block_count_def block_entry_def index_defs present_def flag_defs)
qed

lemma elf_segments_loaded_witness:
  "\<exists>info s'. load_elf_segments (\<lambda>_. 0) (\<lambda>_. 0) 1099511627776 0 demo_loading = Inr (info, s')
     \<and> entry info = 0x400000 \<and> ld_mem s' 0x400001 = 0xBB \<and> ld_mem s' 0x400002 = 0 \<and> ld_mem s' 0x400004 = 7"
proof -
  let ?ph = "\<lparr>p_type = 1, p_offset = 120, p_vaddr = 0x400000, p_filesz = 2, p_memsz = 4\<rparr> :: phdr"
  obtain s1 where s1: "map_segments (\<lambda>_. 0) (\<lambda>_. 0) 0 (image_headers (ld_mem demo_loading) 1099511627776) demo_loading = Inr s1"
    using demo_map_segments by blast
  have inv: "loading_inv demo_loading" by (simp add: demo_loading_def loading_inv_def as_inv_def pm_inv_def phys_inv_def)
  have m: "ld_mem demo_loading = demo_mem" by (simp add: demo_loading_def)
  obtain info s' where r: "load_elf_segments (\<lambda>_. 0) (\<lambda>_. 0) 1099511627776 0 demo_loading = Inr (info, s')"
      "entry info = 0x400000"
      "\<And>a. in_segment 0 ?ph a \<Longrightarrow> ld_mem s' a = seg_byte 0 1099511627776 demo_mem ?ph a"
      "\<And>a. \<not> in_segment 0 ?ph a \<Longrightarrow> ld_mem s' a = demo_mem a"
    using elf_segments_loaded [OF demo_image_ok inv s1] by (auto simp: m demo_image_headers demo_headers)
  have "demo_bytes ! 121 = 0xBB" by (simp add: demo_bytes_def)
  then have "ld_mem s' 0x400001 = 0xBB" "ld_mem s' 0x400002 = 0" "ld_mem s' 0x400004 = 7"
    using r(3) [of "0x400001"] r(3) [of "0x400002"] r(4) [of "0x400004"]
    by (simp_all add: in_segment_def loadable_def PT_LOAD_def seg_start_def seg_byte_def demo_mem_def)
  then show ?thesis using r(1,2) by blast
qed

end
