(* ===== verification/ElfStack.thy ===== *)
theory ElfStack
  imports Elf Filesystem
begin

unbundle bit_operations_syntax

text \<open>
  The initial stack of a new process, the second half of \<open>load_elf\<close> in \<^verbatim>\<open>Kernel/src/arch/x86_64/scheduler.cpp\<close>:
  the argument and environment strings are copied below the top of the stack, then the vector of auxiliary
  values, the two vectors of pointers and the argument count are pushed below them, so that the stack pointer is
  aligned to 16 bytes.  All of it runs with the tables of the new process; as in the loading of the segments, an
  access to a page of the process that is not mapped ends the model.  The arrays \<open>argv\<close> and \<open>envp\<close> are lists of the
  pointers they hold.
\<close>

section \<open>Model\<close>

definition AT_PHDR :: u64 where "AT_PHDR = 3"

definition AT_PHENT :: u64 where "AT_PHENT = 4"

definition AT_PHNUM :: u64 where "AT_PHNUM = 5"

definition AT_ENTRY :: u64 where "AT_ENTRY = 9"

definition write_bytes :: "mem \<Rightarrow> ptr \<Rightarrow> u8 list \<Rightarrow> mem" where
  "write_bytes m p bs = (\<lambda>a. if p \<le> a \<and> a < p + length bs then bs ! (a - p) else m a)"

primrec store_words :: "mem \<Rightarrow> ptr \<Rightarrow> u64 list \<Rightarrow> mem" where
  "store_words m p [] = m"
| "store_words m p (w # ws) = store_words (write_bytes m p (le_bytes 8 (unat w))) (p + 8) ws"

text \<open>One string: room for it and its end is made below the stack pointer, and it is copied there.\<close>

definition push_string :: "page_map \<Rightarrow> ptr \<Rightarrow> mem \<times> ptr \<Rightarrow> (mem \<times> ptr) kres" where
  "push_string pm str st =
     (let (m, sp) = st; len = strnlen m str NAME_MAX + 1; dst = sp - len in
      if len \<le> sp \<and> accessible pm dst len \<and> accessible pm str len
      then Inr (fst (strncpy m dst str len), dst) else Inl Out_of_bounds)"

primrec push_strings :: "page_map \<Rightarrow> ptr list \<Rightarrow> mem \<times> ptr \<Rightarrow> (u64 list \<times> mem \<times> ptr) kres" where
  "push_strings pm [] st = Inr ([], st)"
| "push_strings pm (p # ps) st =
     kbind (push_string pm p st) (\<lambda>st1.
     kbind (push_strings pm ps st1) (\<lambda>(qs, st2). Inr (of_nat (snd st1) # qs, st2)))"

text \<open>\<open>stack -= n\<close> and the stores \<open>stack[0]\<close> to \<open>stack[n - 1]\<close>.\<close>

definition push_words :: "page_map \<Rightarrow> u64 list \<Rightarrow> mem \<times> ptr \<Rightarrow> (mem \<times> ptr) kres" where
  "push_words pm ws st =
     (let (m, sp) = st; n = 8 * length ws in
      if n \<le> sp \<and> accessible pm (sp - n) n then Inr (store_words m (sp - n) ws, sp - n) else Inl Out_of_bounds)"

text \<open>The pushes below the strings, in the order of the source: the auxiliary vector, the pointers, the count.\<close>

definition push_vectors :: "page_map \<Rightarrow> elf_info \<Rightarrow> nat \<Rightarrow> u64 list \<Rightarrow> u64 list \<Rightarrow> mem \<times> ptr \<Rightarrow> (mem \<times> ptr) kres" where
  "push_vectors pm info argc temp_argv temp_envp st =
     kbind (push_words pm [0] st) (\<lambda>st.
     kbind (push_words pm [AT_PHDR, phdr_segment info] st) (\<lambda>st.
     kbind (push_words pm [AT_PHENT, phdr_entry_size info] st) (\<lambda>st.
     kbind (push_words pm [AT_PHNUM, phdr_num info] st) (\<lambda>st.
     kbind (push_words pm [AT_ENTRY, entry info] st) (\<lambda>st.
     kbind (push_words pm [0] st) (\<lambda>st.
     kbind (push_words pm temp_envp st) (\<lambda>st.
     kbind (push_words pm [0] st) (\<lambda>st.
     kbind (push_words pm temp_argv st) (\<lambda>st.
     push_words pm [of_nat argc] st)))))))))"

text \<open>
  \<open>junk\<close> is what the array \<open>temp_envp\<close> holds when \<open>envp\<close> is null.  The path of the executable is copied from
  the variable that is to receive the copy, which is null at that point.
\<close>

definition build_stack ::
  "page_map \<Rightarrow> (nat \<Rightarrow> u64) \<Rightarrow> elf_info \<Rightarrow> ptr list \<Rightarrow> nat \<Rightarrow> ptr list option \<Rightarrow> ptr option \<Rightarrow> mem \<times> ptr \<Rightarrow> (mem \<times> ptr) kres" where
  "build_stack pm junk info argv envc envp exec_path st =
     kbind (push_strings pm argv st) (\<lambda>(temp_argv, st).
     kbind (case envp of None \<Rightarrow> Inr (map junk [0..<envc], st)
            | Some es \<Rightarrow> if length es < envc then Inl Out_of_bounds else push_strings pm (take envc es) st) (\<lambda>(temp_envp, st).
     kbind (case exec_path of None \<Rightarrow> Inr st | Some path \<Rightarrow> Inl Null_deref) (\<lambda>(m, stack_str).
     let argc = length argv;
         stack = stack_str - stack_str mod 16 - 8 * ((argc + envc) mod 2) in
     push_vectors pm info argc temp_argv temp_envp (m, stack))))"

section \<open>Words in memory\<close>

definition word_at :: "mem \<Rightarrow> ptr \<Rightarrow> u64" where
  "word_at m p = get64 (load_bytes m p 8) 0"

definition words_at :: "mem \<Rightarrow> ptr \<Rightarrow> u64 list \<Rightarrow> bool" where
  "words_at m p ws \<longleftrightarrow> (\<forall>i < length ws. word_at m (p + 8 * i) = ws ! i)"

lemma load_written: "load_bytes (write_bytes m p bs) p (length bs) = bs"
  by (auto simp: load_bytes_def write_bytes_def intro!: nth_equalityI)

lemma write_outside: "a < p \<or> p + length bs \<le> a \<Longrightarrow> write_bytes m p bs a = m a"
  by (auto simp: write_bytes_def)

lemma store_words_outside: "a < p \<or> p + 8 * length ws \<le> a \<Longrightarrow> store_words m p ws a = m a"
  by (induction ws arbitrary: m p) (auto simp: write_outside)

lemma word_at_cong:
  assumes "\<And>a. p \<le> a \<Longrightarrow> a < p + 8 \<Longrightarrow> m a = m' a"
  shows "word_at m p = word_at m' p"
proof -
  have "load_bytes m p 8 = load_bytes m' p 8" unfolding load_bytes_def by (intro map_cong) (auto intro: assms)
  then show ?thesis by (simp add: word_at_def)
qed

lemma word_at_written: "word_at (write_bytes m p (le_bytes 8 (unat w))) p = w"
proof -
  have "load_bytes (write_bytes m p (le_bytes 8 (unat w))) p 8 = le_bytes 8 (unat w) @ []"
    using load_written [of m p "le_bytes 8 (unat w)"] by simp
  then show ?thesis unfolding word_at_def by (intro get64_encoded) simp
qed

lemma words_at_store: "words_at (store_words m p ws) p ws"
proof (induction ws arbitrary: m p)
  case (Cons w ws)
  let ?m = "write_bytes m p (le_bytes 8 (unat w))"
  have "word_at (store_words ?m (p + 8) ws) p = word_at ?m p"
    by (intro word_at_cong store_words_outside) simp
  then have 0: "word_at (store_words m p (w # ws)) p = w" by (simp add: word_at_written)
  show ?case
    unfolding words_at_def
  proof (intro allI impI)
    fix i
    assume i: "i < length (w # ws)"
    show "word_at (store_words m p (w # ws)) (p + 8 * i) = (w # ws) ! i"
    proof (cases i)
      case 0
      then show ?thesis using \<open>word_at (store_words m p (w # ws)) p = w\<close> by simp
    next
      case (Suc j)
      then have "word_at (store_words ?m (p + 8) ws) (p + 8 + 8 * j) = ws ! j" using Cons [of ?m "p + 8"] i by (simp add: words_at_def)
      moreover have "p + 8 * i = p + 8 + 8 * j" using Suc by simp
      ultimately show ?thesis using Suc by (simp only: store_words.simps nth_Cons_Suc)
    qed
  qed
qed (simp add: words_at_def)

lemma store_words_append: "store_words m p (xs @ ys) = store_words (store_words m p xs) (p + 8 * length xs) ys"
  by (induction xs arbitrary: m p) (simp_all add: algebra_simps)

lemma write_bytes_commute:
  "p + length bs \<le> q \<or> q + length cs \<le> p \<Longrightarrow> write_bytes (write_bytes m p bs) q cs = write_bytes (write_bytes m q cs) p bs"
  by (auto simp: write_bytes_def fun_eq_iff)

lemma store_words_write: "p + length bs \<le> q \<Longrightarrow> store_words (write_bytes m p bs) q ws = write_bytes (store_words m q ws) p bs"
proof (induction ws arbitrary: m q)
  case (Cons w ws)
  have "write_bytes (write_bytes m p bs) q (le_bytes 8 (unat w)) = write_bytes (write_bytes m q (le_bytes 8 (unat w))) p bs"
    using Cons.prems by (intro write_bytes_commute) simp
  then show ?case using Cons by simp
qed simp

lemma store_words_commute:
  "p + 8 * length xs \<le> q \<Longrightarrow> store_words (store_words m p xs) q ys = store_words (store_words m q ys) p xs"
  by (induction xs arbitrary: m p) (simp_all add: store_words_write)

section \<open>Accessible ranges\<close>

lemma accessible_sub:
  assumes "accessible pm p n" "p \<le> q" "q + k \<le> p + n"
  shows "accessible pm q k"
proof (cases "k = 0")
  case False
  have "page_accessible pm j" if "q div 4096 \<le> j" "j \<le> (q + k - 1) div 4096" for j
  proof -
    have "p div 4096 \<le> j" using that(1) assms(2) div_le_mono le_trans by blast
    moreover have "q + k - 1 \<le> p + n - 1" using assms(3) by simp
    then have "j \<le> (p + n - 1) div 4096" using that(2) div_le_mono le_trans by blast
    moreover have "n \<noteq> 0" using False assms(2,3) by simp
    ultimately show ?thesis using assms(1) by (auto simp: accessible_def list_all_iff simp del: upt_Suc)
  qed
  then show ?thesis by (auto simp: accessible_def list_all_iff simp del: upt_Suc)
qed (simp add: accessible_def)

text \<open>Consecutive pushes are one push of the words in the order of their addresses.\<close>

lemma push_words_push:
  assumes "8 * (length xs + length ys) \<le> sp" "accessible pm (sp - 8 * (length xs + length ys)) (8 * (length xs + length ys))"
  shows "kbind (push_words pm xs (m, sp)) (push_words pm ys) = push_words pm (ys @ xs) (m, sp)"
proof -
  let ?n = "8 * length xs" and ?k = "8 * length ys"
  have "accessible pm (sp - ?n) ?n" "accessible pm (sp - ?n - ?k) ?k"
    using assms by (auto intro: accessible_sub)
  moreover have "store_words (store_words m (sp - ?n) xs) (sp - ?n - ?k) ys = store_words m (sp - (?n + ?k)) (ys @ xs)"
  proof -
    have "sp - (?n + ?k) + ?k = sp - ?n" "sp - ?n - ?k = sp - (?n + ?k)" using assms(1) by simp_all
    then show ?thesis using store_words_commute [of "sp - (?n + ?k)" ys "sp - ?n" m xs] by (simp add: store_words_append)
  qed
  ultimately show ?thesis using assms by (simp add: push_words_def Let_def add.commute)
qed

section \<open>The strings\<close>

text \<open>The kernel's part of memory, where the strings come from.\<close>

definition kernel_string :: "mem \<Rightarrow> ptr \<Rightarrow> u8 list \<Rightarrow> bool" where
  "kernel_string m p s \<longleftrightarrow> cstr m p s \<and> length s \<le> NAME_MAX \<and> 2 ^ 64 - 2 ^ 39 \<le> p"

definition room :: "u8 list list \<Rightarrow> nat" where
  "room ss = (\<Sum>s\<leftarrow>ss. length s + 1)"

lemma kernel_accessible: "2 ^ 64 - 2 ^ 39 \<le> p \<Longrightarrow> accessible pm p n"
  by (auto simp: accessible_def list_all_iff page_accessible_def simp del: upt_Suc)

lemma strncpy_string:
  assumes "cstr m p s" "disjoint d p (length s + 1)"
  shows "cstr (fst (strncpy m d p (length s + 1))) d s"
    "a < d \<or> d + length s < a \<Longrightarrow> fst (strncpy m d p (length s + 1)) a = m a"
proof -
  have eq: "fst (strncpy m d p (length s + 1)) = ncopied m d p (length s + 1)"
    by (rule strncpy_eq_bytewise [OF assms(2)])
  have nz: "\<forall>j < length s. m (p + j) \<noteq> 0" "m (p + length s) = 0"
    using cstr_nonzero [OF assms(1)] cstr_end [OF assms(1)] by auto
  then show "cstr (fst (strncpy m d p (length s + 1))) d s"
    using assms(1) unfolding eq by (auto simp: cstr_def ncopied_def)
  show "a < d \<or> d + length s < a \<Longrightarrow> fst (strncpy m d p (length s + 1)) a = m a" unfolding eq by (auto simp: ncopied_def)
qed

lemma push_string_correct:
  assumes "kernel_string m p s" "length s + 1 \<le> sp" "sp \<le> 2 ^ 39" "accessible pm (sp - (length s + 1)) (length s + 1)"
  obtains m' where "push_string pm p (m, sp) = Inr (m', sp - (length s + 1))" "cstr m' (sp - (length s + 1)) s"
    "\<And>a. a < sp - (length s + 1) \<or> sp \<le> a \<Longrightarrow> m' a = m a"
proof -
  let ?d = "sp - (length s + 1)"
  have c: "cstr m p s" "length s \<le> NAME_MAX" "2 ^ 64 - 2 ^ 39 \<le> p" using assms(1) by (simp_all add: kernel_string_def)
  have dj: "disjoint ?d p (length s + 1)" using c(3) assms(2,3) by (simp add: disjoint_def)
  have "strnlen m p NAME_MAX + 1 = length s + 1" using strnlen_cstr [OF c(1)] c(2) by simp
  then have "push_string pm p (m, sp) = Inr (fst (strncpy m ?d p (length s + 1)), ?d)"
    using assms(2,4) kernel_accessible [OF c(3)] by (simp add: push_string_def Let_def)
  moreover have "fst (strncpy m ?d p (length s + 1)) a = m a" if "a < ?d \<or> sp \<le> a" for a
    using that assms(2) by (intro strncpy_string(2) [OF c(1) dj]) auto
  ultimately show ?thesis using that strncpy_string(1) [OF c(1) dj] by blast
qed

lemma kernel_strings_frame:
  assumes "list_all2 (kernel_string m) ps ss" "\<And>a. 2 ^ 39 \<le> a \<Longrightarrow> m' a = m a"
  shows "list_all2 (kernel_string m') ps ss"
proof -
  have "kernel_string m' q t" if k: "kernel_string m q t" for q t
  proof -
    have "cstr m' q t"
      by (rule cstr_frame [of m]) (use k assms(2) in \<open>auto simp: kernel_string_def\<close>)
    then show ?thesis using k by (simp add: kernel_string_def)
  qed
  then show ?thesis using assms(1) list_all2_mono by blast
qed

lemma push_strings_correct:
  "list_all2 (kernel_string m) ps ss \<Longrightarrow> room ss \<le> sp \<Longrightarrow> sp \<le> 2 ^ 39 \<Longrightarrow> accessible pm (sp - room ss) (room ss) \<Longrightarrow>
   \<exists>qs m'. push_strings pm ps (m, sp) = Inr (qs, m', sp - room ss)
     \<and> list_all2 (\<lambda>q s. cstr m' (unat q) s \<and> sp - room ss \<le> unat q \<and> unat q + length s < sp) qs ss
     \<and> (\<forall>a. a < sp - room ss \<or> sp \<le> a \<longrightarrow> m' a = m a)"
proof (induction ss arbitrary: ps m sp)
  case (Cons s ss)
  then obtain p ps' where ps: "ps = p # ps'" "kernel_string m p s" "list_all2 (kernel_string m) ps' ss"
    by (auto simp: list_all2_Cons2)
  let ?d = "sp - (length s + 1)"
  have r: "room (s # ss) = length s + 1 + room ss" by (simp add: room_def)
  then have sp: "length s + 1 \<le> sp" "room ss \<le> ?d" "?d - room ss = sp - room (s # ss)" using Cons.prems(2) by simp_all
  have "accessible pm ?d (length s + 1)" using Cons.prems(2,4) r by (auto intro: accessible_sub)
  then obtain m1 where m1: "push_string pm p (m, sp) = Inr (m1, ?d)" "cstr m1 ?d s"
      "\<And>a. a < ?d \<or> sp \<le> a \<Longrightarrow> m1 a = m a"
    using push_string_correct [OF ps(2) sp(1) Cons.prems(3)] by blast
  have l: "list_all2 (kernel_string m1) ps' ss"
    by (rule kernel_strings_frame [OF ps(3)]) (use m1(3) Cons.prems(3) in simp)
  have "accessible pm (?d - room ss) (room ss)" using Cons.prems(2,4) r by (auto intro: accessible_sub)
  moreover have "?d \<le> 2 ^ 39" using Cons.prems(3) by simp
  ultimately obtain qs m' where ih: "push_strings pm ps' (m1, ?d) = Inr (qs, m', ?d - room ss)"
      "list_all2 (\<lambda>q s. cstr m' (unat q) s \<and> ?d - room ss \<le> unat q \<and> unat q + length s < ?d) qs ss"
      "\<forall>a. a < ?d - room ss \<or> ?d \<le> a \<longrightarrow> m' a = m1 a"
    using Cons.IH [OF l sp(2)] by blast
  define q0 :: u64 where "q0 = of_nat ?d"
  have u: "unat q0 = ?d" unfolding q0_def using Cons.prems(3) by (intro unat_of_nat_small) simp
  have "cstr m' ?d s" by (rule cstr_frame [OF m1(2)]) (use ih(3) in blast)
  moreover have "list_all2 (\<lambda>q t. cstr m' (unat q) t \<and> sp - room (s # ss) \<le> unat q \<and> unat q + length t < sp) qs ss"
    using ih(2) by (rule list_all2_mono) (use sp in auto)
  ultimately have "list_all2 (\<lambda>q t. cstr m' (unat q) t \<and> sp - room (s # ss) \<le> unat q \<and> unat q + length t < sp) (q0 # qs) (s # ss)"
    using u sp(1) r by simp
  moreover have "m' a = m a" if h: "a < sp - room (s # ss) \<or> sp \<le> a" for a
  proof -
    have "a < ?d - room ss \<or> ?d \<le> a" "a < ?d \<or> sp \<le> a" using h sp by linarith+
    then show ?thesis using ih(3) m1(3) by metis
  qed
  moreover have "push_strings pm ps (m, sp) = Inr (q0 # qs, m', sp - room (s # ss))"
    using m1(1) ih(1) ps(1) by (simp add: sp(3) [symmetric] q0_def)
  ultimately show ?case by blast
qed (simp add: room_def)

section \<open>The whole stack\<close>

text \<open>
  What the ABI promises a new process: at the aligned stack pointer the argument count, the argument pointers and
  a zero, the environment pointers and a zero, and the auxiliary vector with a zero at its end.
\<close>

definition aux_words :: "elf_info \<Rightarrow> u64 list" where
  "aux_words info = [AT_ENTRY, entry info, AT_PHNUM, phdr_num info, AT_PHENT, phdr_entry_size info, AT_PHDR, phdr_segment info, 0]"

definition initial_stack :: "mem \<Rightarrow> ptr \<Rightarrow> elf_info \<Rightarrow> u8 list list \<Rightarrow> u8 list list \<Rightarrow> bool" where
  "initial_stack m sp info args envs \<longleftrightarrow> sp mod 16 = 0
     \<and> (\<exists>ap ep. list_all2 (\<lambda>p s. cstr m (unat p) s) ap args \<and> list_all2 (\<lambda>p s. cstr m (unat p) s) ep envs
          \<and> words_at m sp ([of_nat (length args)] @ ap @ [0] @ ep @ [0] @ aux_words info))"

definition stack_room :: "u8 list list \<Rightarrow> u8 list list \<Rightarrow> nat" where
  "stack_room args envs = room args + room envs + 8 * (length args + length envs + 12) + 23"

lemma stack_aligned: "(sp - sp mod 16 - 8 * (n mod 2) - 8 * (n + 12)) mod 16 = (0 :: nat)" if "8 * (n + 12) + 23 \<le> sp"
proof -
  have "even (n mod 2 + (n + 12))" by simp
  then obtain k where "n mod 2 + (n + 12) = 2 * k" by blast
  then have k: "8 * (n mod 2) + 8 * (n + 12) = 16 * k" by simp
  have "sp - sp mod 16 = 16 * (sp div 16)" by (simp add: minus_mod_eq_mult_div)
  then have "sp - sp mod 16 - 8 * (n mod 2) - 8 * (n + 12) = 16 * (sp div 16) - 16 * k" using k by simp
  also have "\<dots> = 16 * (sp div 16 - k)" by (simp add: diff_mult_distrib2)
  finally show ?thesis by simp
qed

lemma stack_bounds:
  "(x :: nat) < 16 \<Longrightarrow> y < 2 \<Longrightarrow> k + 23 \<le> sp \<Longrightarrow> k \<le> sp - x - 8 * y \<and> sp - (k + 23) \<le> sp - x - 8 * y - k"
  by linarith

lemma list_all2_cstr_frame:
  assumes "list_all2 (\<lambda>q s. cstr m (unat q) s \<and> lo \<le> unat q \<and> unat q + length s < hi) qs ss"
    "\<And>a. lo \<le> a \<Longrightarrow> a < hi \<Longrightarrow> m' a = m a"
  shows "list_all2 (\<lambda>q s. cstr m' (unat q) s) qs ss"
  using assms(1) by (rule list_all2_mono) (auto intro!: cstr_frame [of m] assms(2))

text \<open>Both groups of strings, one below the other.\<close>

lemma push_both_correct:
  assumes args: "list_all2 (kernel_string m) argv args" and envs: "list_all2 (kernel_string m) envp envs"
    and sp: "room args + room envs \<le> sp" "sp \<le> 2 ^ 39"
    and acc: "accessible pm (sp - (room args + room envs)) (room args + room envs)"
  obtains ap m1 ep m2 where
    "push_strings pm argv (m, sp) = Inr (ap, m1, sp - room args)"
    "push_strings pm envp (m1, sp - room args) = Inr (ep, m2, sp - room args - room envs)"
    "list_all2 (\<lambda>q s. cstr m2 (unat q) s \<and> sp - room args - room envs \<le> unat q \<and> unat q + length s < sp) (ap @ ep) (args @ envs)"
    "length ap = length args" "length ep = length envs"
    "\<forall>a. a < sp - room args - room envs \<or> sp \<le> a \<longrightarrow> m2 a = m a"
proof -
  let ?sp1 = "sp - room args"
  have rm: "room args \<le> sp" "room envs \<le> ?sp1" "?sp1 \<le> 2 ^ 39" using sp by simp_all
  have "accessible pm ?sp1 (room args)" "accessible pm (?sp1 - room envs) (room envs)"
    using sp(1) by (auto intro!: accessible_sub [OF acc])
  note acc = this
  from push_strings_correct [OF args rm(1) sp(2) acc(1)] obtain ap m1 where
      a: "push_strings pm argv (m, sp) = Inr (ap, m1, ?sp1)"
         "list_all2 (\<lambda>q s. cstr m1 (unat q) s \<and> ?sp1 \<le> unat q \<and> unat q + length s < sp) ap args"
         "\<forall>a. a < ?sp1 \<or> sp \<le> a \<longrightarrow> m1 a = m a" by blast
  have e1: "list_all2 (kernel_string m1) envp envs"
    by (rule kernel_strings_frame [OF envs]) (use a(3) sp(2) in simp)
  from push_strings_correct [OF e1 rm(2,3) acc(2)] obtain ep m2 where
      e: "push_strings pm envp (m1, ?sp1) = Inr (ep, m2, ?sp1 - room envs)"
         "list_all2 (\<lambda>q s. cstr m2 (unat q) s \<and> ?sp1 - room envs \<le> unat q \<and> unat q + length s < ?sp1) ep envs"
         "\<forall>a. a < ?sp1 - room envs \<or> ?sp1 \<le> a \<longrightarrow> m2 a = m1 a" by blast
  have "list_all2 (\<lambda>q s. cstr m2 (unat q) s) ap args" by (rule list_all2_cstr_frame [OF a(2)]) (use e(3) in simp)
  then have "list_all2 (\<lambda>q s. cstr m2 (unat q) s \<and> ?sp1 - room envs \<le> unat q \<and> unat q + length s < sp) ap args"
    using a(2) by (auto simp: list_all2_conv_all_nth)
  moreover have "list_all2 (\<lambda>q s. cstr m2 (unat q) s \<and> ?sp1 - room envs \<le> unat q \<and> unat q + length s < sp) ep envs"
    using e(2) by (rule list_all2_mono) auto
  moreover have "m2 x = m x" if "x < ?sp1 - room envs \<or> sp \<le> x" for x
  proof -
    have "m2 x = m1 x" "m1 x = m x" using that a(3) e(3) by auto
    then show ?thesis by simp
  qed
  ultimately show ?thesis
    using that a(1) e(1) a(2) e(2) by (meson list_all2_appendI list_all2_lengthD)
qed

lemma push_vectors_eq:
  assumes "ws = [of_nat argc] @ ap @ [0] @ ep @ [0] @ aux_words info"
    "8 * length ws \<le> stack" "accessible pm (stack - 8 * length ws) (8 * length ws)"
  shows "push_vectors pm info argc ap ep (m, stack) = Inr (store_words m (stack - 8 * length ws) ws, stack - 8 * length ws)"
proof -
  have step: "kbind (push_words pm xs (m, stack)) (\<lambda>st. kbind (push_words pm ys st) f) = kbind (push_words pm (ys @ xs) (m, stack)) f"
    if "length xs + length ys \<le> length ws" for xs ys f
  proof -
    have "8 * (length xs + length ys) \<le> 8 * length ws" using that by simp
    then have "8 * (length xs + length ys) \<le> stack" "accessible pm (stack - 8 * (length xs + length ys)) (8 * (length xs + length ys))"
      using assms(2) by (simp, intro accessible_sub [OF assms(3)]) simp_all
    note p = push_words_push [OF this, of m]
    show ?thesis unfolding p [symmetric] by (cases "push_words pm xs (m, stack)") simp_all
  qed
  have fin: "kbind (push_words pm xs (m, stack)) (\<lambda>st. push_words pm ys st) = push_words pm (ys @ xs) (m, stack)"
    if "length xs + length ys = length ws" for xs ys
    using push_words_push [of xs ys stack pm m] that assms(2,3) by simp
  have "push_words pm ws (m, stack) = Inr (store_words m (stack - 8 * length ws) ws, stack - 8 * length ws)"
    using assms(2,3) by (simp add: push_words_def Let_def)
  then show ?thesis using assms(1) by (simp add: push_vectors_def step fin aux_words_def)
qed

lemma build_stack_correct:
  assumes args: "list_all2 (kernel_string m) argv args" and envs: "list_all2 (kernel_string m) envp envs"
    and sp: "stack_room args envs \<le> sp" "sp \<le> 2 ^ 39"
    and acc: "accessible pm (sp - stack_room args envs) (stack_room args envs)"
  shows "\<exists>m' r. build_stack pm junk info argv (length envp) (Some envp) None (m, sp) = Inr (m', r)
    \<and> initial_stack m' r info args envs \<and> sp - stack_room args envs \<le> r \<and> r \<le> sp
    \<and> (\<forall>a. a < r \<or> sp \<le> a \<longrightarrow> m' a = m a)"
proof -
  let ?n = "length args + length envs" and ?sp1 = "sp - room args"
  let ?sp2 = "?sp1 - room envs"
  define stack where "stack = ?sp2 - ?sp2 mod 16 - 8 * (?n mod 2)"
  let ?r = "stack - 8 * (?n + 12)"
  have len: "length argv = length args" "length envp = length envs" using args envs by (simp_all add: list_all2_lengthD)
  have rm: "room args \<le> sp" "room envs \<le> ?sp1" "?sp1 \<le> 2 ^ 39" "8 * (?n + 12) + 23 \<le> ?sp2"
    using sp by (simp_all add: stack_room_def)
  have "sp - stack_room args envs = ?sp2 - (8 * (?n + 12) + 23)" by (simp add: stack_room_def)
  then have lo: "8 * (?n + 12) \<le> stack" "sp - stack_room args envs \<le> ?r" "stack \<le> ?sp2"
    using stack_bounds [OF _ _ rm(4), of "?sp2 mod 16" "?n mod 2"] by (simp_all add: stack_def)
  have acc': "accessible pm q k" if "sp - stack_room args envs \<le> q" "q + k \<le> sp" for q k
    using that sp(1) by (intro accessible_sub [OF acc]) simp_all
  have fits: "room args + room envs \<le> sp" "accessible pm (sp - (room args + room envs)) (room args + room envs)"
    using rm by (simp, intro acc') (simp_all add: stack_room_def)
  obtain ap m1 ep m2 where
      a: "push_strings pm argv (m, sp) = Inr (ap, m1, ?sp1)" and e: "push_strings pm envp (m1, ?sp1) = Inr (ep, m2, ?sp2)"
      and strs: "list_all2 (\<lambda>q s. cstr m2 (unat q) s \<and> ?sp2 \<le> unat q \<and> unat q + length s < sp) (ap @ ep) (args @ envs)"
      and l: "length ap = length args" "length ep = length envs"
      and out: "\<forall>a. a < ?sp2 \<or> sp \<le> a \<longrightarrow> m2 a = m a"
    using push_both_correct [OF args envs fits(1) sp(2) fits(2)] by blast
  define ws where "ws = [of_nat (length args)] @ ap @ [0] @ ep @ [0] @ aux_words info"
  have lw: "length ws = ?n + 12" by (simp add: ws_def l aux_words_def)
  let ?m = "store_words m2 ?r ws"
  have "accessible pm (stack - 8 * length ws) (8 * length ws)" using lo lw rm by (intro acc') simp_all
  then have "push_vectors pm info (length args) ap ep (m2, stack) = Inr (?m, ?r)"
    using push_vectors_eq [OF ws_def] lo(1) lw by simp
  moreover have "build_stack pm junk info argv (length envp) (Some envp) None (m, sp)
      = push_vectors pm info (length args) ap ep (m2, stack)"
    using a e by (simp add: build_stack_def Let_def len stack_def add.assoc)
  ultimately have "build_stack pm junk info argv (length envp) (Some envp) None (m, sp) = Inr (?m, ?r)" by simp
  moreover have "initial_stack ?m ?r info args envs"
    unfolding initial_stack_def
  proof (intro conjI exI)
    show "?r mod 16 = 0" unfolding stack_def by (rule stack_aligned [OF rm(4)])
    have up: "?m x = m2 x" if "?sp2 \<le> x" for x using that lo lw by (intro store_words_outside) simp
    have "list_all2 (\<lambda>p s. cstr ?m (unat p) s) (ap @ ep) (args @ envs)"
      by (rule list_all2_cstr_frame [OF strs]) (use up in simp)
    then show "list_all2 (\<lambda>p s. cstr ?m (unat p) s) ap args" "list_all2 (\<lambda>p s. cstr ?m (unat p) s) ep envs"
      using l by (simp_all add: list_all2_append)
    show "words_at ?m ?r ([of_nat (length args)] @ ap @ [0] @ ep @ [0] @ aux_words info)"
      using words_at_store [of m2 ?r ws] by (simp only: ws_def)
  qed
  moreover have "?m x = m x" if "x < ?r \<or> sp \<le> x" for x
  proof -
    have "?m x = m2 x" using that lo lw by (intro store_words_outside) auto
    then show ?thesis using that out lo by auto
  qed
  moreover have "?r \<le> sp" using lo(3) by simp
  ultimately show ?thesis using lo(2) by blast
qed

text \<open>
  C11. The stack of a new process.  With arguments and environment given as strings of at most 255 bytes, no path of
  the executable and enough mapped room below the stack pointer, the stack is built as the ABI requires: the
  stack pointer is a multiple of 16, the vectors are in place, every pointer leads to a copy of its string, and
  no byte outside the stack changes.
\<close>

theorem initial_stack_built:
  assumes args: "list_all2 (kernel_string m) argv args" and envs: "list_all2 (kernel_string m) envp envs"
    and sp: "stack_room args envs \<le> sp" "sp \<le> 2 ^ 39"
    and acc: "accessible pm (sp - stack_room args envs) (stack_room args envs)"
  shows "\<exists>m' r. build_stack pm junk info argv (length envp) (Some envp) None (m, sp) = Inr (m', r)
    \<and> initial_stack m' r info args envs \<and> sp - stack_room args envs \<le> r \<and> r \<le> sp
    \<and> (\<forall>a. a < r \<or> sp \<le> a \<longrightarrow> m' a = m a)"
  by (rule build_stack_correct [OF assms])

lemma initial_stack_built_witness:
  "let pm = \<lparr>page_dirs = (\<lambda>_ _. 7), page_dirs_phys = (\<lambda>_. 0), page_dirs_virt = (\<lambda>_. 4096),
         page_tables = (\<lambda>_ _. Some (0, (\<lambda>_. 7))), pm_pdpt = (\<lambda>_. 0), pm_pml4 = (\<lambda>_. 0), pdpt_phys = 0, pml4_phys = 0\<rparr>;
       p = 2 ^ 64 - 2 ^ 39; m = ((\<lambda>_. 0) :: mem)(p := 108, p + 1 := 115)
   in \<exists>m' r. build_stack pm (\<lambda>_. 0) no_info [p] 0 (Some []) None (m, 0x201000) = Inr (m', r)
        \<and> initial_stack m' r no_info [[108, 115]] []"
proof -
  let ?pm = "\<lparr>page_dirs = (\<lambda>_ _. 7), page_dirs_phys = (\<lambda>_. 0), page_dirs_virt = (\<lambda>_. 4096),
         page_tables = (\<lambda>_ _. Some (0, (\<lambda>_. 7))), pm_pdpt = (\<lambda>_. 0), pm_pml4 = (\<lambda>_. 0), pdpt_phys = 0, pml4_phys = 0\<rparr>"
  let ?p = "2 ^ 64 - 2 ^ 39 :: nat"
  let ?m = "((\<lambda>_. 0) :: mem)(?p := 108, ?p + 1 := 115)"
  have "list_all2 (kernel_string ?m) [?p] [[108, 115]]" by (simp add: kernel_string_def NAME_MAX_def)
  moreover have "stack_room [[108, 115]] [] = 130" by (simp add: stack_room_def room_def)
  moreover have "accessible ?pm (0x201000 - 130) 130"
    by (simp add: accessible_def page_accessible_def walk_def present_def flag_defs upt_rec)
  ultimately have "\<exists>m' r. build_stack ?pm (\<lambda>_. 0) no_info [?p] (length ([] :: nat list)) (Some []) None (?m, 0x201000) = Inr (m', r)
      \<and> initial_stack m' r no_info [[108, 115]] []"
    using initial_stack_built [of ?m "[?p]" "[[108, 115]]" "[]" "[]" "0x201000" ?pm "\<lambda>_. 0" no_info] by auto
  then show ?thesis unfolding Let_def by (simp only: list.size)
qed

text \<open>With a path of the executable the kernel copies from the null pointer.\<close>

theorem exec_path_faults:
  assumes "list_all2 (kernel_string m) argv args" "list_all2 (kernel_string m) envp envs" "stack_room args envs \<le> sp" "sp \<le> 2 ^ 39"
    "accessible pm (sp - stack_room args envs) (stack_room args envs)"
  shows "build_stack pm junk info argv (length envp) (Some envp) (Some path) (m, sp) = Inl Null_deref"
proof -
  have "room args + room envs \<le> sp" "accessible pm (sp - (room args + room envs)) (room args + room envs)"
    using assms(3) by (auto simp: stack_room_def intro!: accessible_sub [OF assms(5)])
  then obtain ap m1 ep m2 where
      "push_strings pm argv (m, sp) = Inr (ap, m1, sp - room args)"
      "push_strings pm envp (m1, sp - room args) = Inr (ep, m2, sp - room args - room envs)"
    by (rule push_both_correct [OF assms(1,2) _ assms(4)])
  then show ?thesis by (simp add: build_stack_def)
qed

end
