(* ===== verification/Loader.thy ===== *)
theory Loader
  imports ElfStack Scheduler Filesystem
begin

unbundle bit_operations_syntax

text \<open>
  The making of processes, \<^verbatim>\<open>Kernel/src/arch/x86_64/scheduler.cpp\<close>: kernel processes, processes from an executable,
  and the start of the scheduler with its idle processes.  A process and its first thread get the same unused
  number.  The lower half of memory is kept per process, the upper half once.  What the code takes from its
  surroundings (table pages, uninitialised memory, the floating point state of the processor, path lookup, opening
  and reading a node, the address \<open>malloc\<close> returns) is a record of parameters.  The creation time of a process and the
  contents of the kernel stacks and of the saved floating point state, pages that are zeroed when they are mapped,
  are left out.
\<close>

section \<open>Model\<close>

record ('f, 'w) env =
  env_tp :: "nat \<Rightarrow> u64"
  env_uses :: "nat \<Rightarrow> int"
  env_pml4 :: "nat \<Rightarrow> u64"
  env_pdpt :: "nat \<Rightarrow> u64"
  env_cr3 :: u64
  env_fx :: 'f
  env_junk :: "nat \<Rightarrow> u64"
  env_lookup :: "name \<Rightarrow> 'w \<Rightarrow> nat option"
  env_open :: "nat \<Rightarrow> 'w \<Rightarrow> file_desc option \<times> 'w"
  env_file :: "nat \<Rightarrow> 'w \<Rightarrow> u8 list"
  env_malloc :: ptr

record space =
  sp_regions :: "region list"
  sp_pm :: page_map

record identity =
  i_uid :: int
  i_euid :: int
  i_gid :: int
  i_egid :: int
  i_name :: name
  i_working_dir :: name

record ('f, 'w) kernel =
  k_sched :: "'f sched"
  k_ident :: "nat \<Rightarrow> identity option"
  k_spaces :: "nat \<Rightarrow> space option"
  k_vmos :: "nat \<Rightarrow> vmo option"
  k_vm :: vmm
  k_mem :: mem
  k_user :: "nat \<Rightarrow> mem"
  k_next_pid :: int
  k_next :: nat
  k_oid :: nat
  k_world :: 'w

definition GDT_SELECTOR_KERNEL_CODE :: u64 where "GDT_SELECTOR_KERNEL_CODE = push_bit 3 1"

definition GDT_SELECTOR_KERNEL_DATA :: u64 where "GDT_SELECTOR_KERNEL_DATA = push_bit 3 2"

definition GDT_SELECTOR_USER_CODE :: u64 where "GDT_SELECTOR_USER_CODE = push_bit 3 5"

definition GDT_SELECTOR_USER_DATA :: u64 where "GDT_SELECTOR_USER_DATA = push_bit 3 4"

definition LINKER_BASE_ADDR :: u64 where "LINKER_BASE_ADDR = 0x7FC0000000"

definition zero_context :: register_context where
  "zero_context = \<lparr>r15 = 0, r14 = 0, r13 = 0, r12 = 0, r11 = 0, r10 = 0, r9 = 0, r8 = 0, rbp = 0, rdi = 0, rsi = 0, rdx = 0,
     rcx = 0, rbx = 0, rax = 0, rip = 0, cs = 0, rflags = 0, rsp = 0, ss = 0\<rparr>"

subsection \<open>Kernel memory of a thread\<close>

text \<open>A stack of 32 pages; the result is its lowest address.\<close>

definition allocate_stack :: "(nat \<Rightarrow> u64) \<Rightarrow> vmm \<Rightarrow> (u64 \<times> vmm) kres" where
  "allocate_stack tp vm =
     kbind (kernel_allocate_4k_pages tp 32 (vm_heap vm)) (\<lambda>(virt, h).
     kbind (map_kernel_pages 32 virt (vm\<lparr>vm_heap := h\<rparr>)) (\<lambda>vm. Inr (virt, vm)))"

subsection \<open>Processes\<close>

definition new_thread :: "nat \<Rightarrow> 'f \<Rightarrow> u64 \<Rightarrow> 'f thread" where
  "new_thread p fx kstack =
     \<lparr>th_lock = False, parent = p, stack = 0, kernel_stack = kstack + 4096 * 32, time_slice = 1, time_slice_default = 1,
      registers = zero_context\<lparr>rflags := 0x202, cs := GDT_SELECTOR_KERNEL_CODE, ss := GDT_SELECTOR_KERNEL_DATA\<rparr>,
      fx_state = fx, priority = 1, th_state = Running, fs_base = 0, blocked_timeout = False, blocker = False\<rparr>"

definition unknown_name :: name where "unknown_name = [117, 110, 107, 110, 111, 119, 110]"

definition initialize_process :: "('f, 'w) env \<Rightarrow> ('f, 'w) kernel \<Rightarrow> (nat \<times> ('f, 'w) kernel) kres" where
  "initialize_process env k =
     (let n = k_next k; s = k_sched k;
          p = \<lparr>p_pid = k_next_pid k, p_threads = [n], p_files = [], active_ticks = 0, p_pml4 = 0\<rparr>;
          ident = \<lparr>i_uid = 0, i_euid = 0, i_gid = 0, i_egid = 0, i_name = unknown_name, i_working_dir = [47]\<rparr> in
      kbind (allocate_mapped_page (env_tp env) (k_vm k)) (\<lambda>(fx_page, _, vm).
      kbind (allocate_stack (env_tp env) vm) (\<lambda>(kstack, vm).
      Inr (n, k\<lparr>k_sched := s\<lparr>procs := (procs s)(n \<mapsto> p), threads := (threads s)(n \<mapsto> new_thread n (env_fx env) kstack)\<rparr>,
                k_ident := (k_ident k)(n \<mapsto> ident), k_vm := vm,
                k_next_pid := k_next_pid k + 1, k_next := n + 1\<rparr>))))"

text \<open>\<open>new mm::address_space(memory::create_page_map())\<close>\<close>

definition new_address_space :: "('f, 'w) env \<Rightarrow> nat \<Rightarrow> ('f, 'w) kernel \<Rightarrow> ('f, 'w) kernel kres" where
  "new_address_space env p k =
     kbind (get_proc (k_sched k) p) (\<lambda>x.
     kbind (create_page_map (env_tp env) (env_pml4 env) (env_pdpt env) (k_vm k)) (\<lambda>(pm, vm).
     Inr (k\<lparr>k_spaces := (k_spaces k)(p \<mapsto> \<lparr>sp_regions = [], sp_pm = pm\<rparr>), k_vm := vm,
            k_sched := (k_sched k)\<lparr>procs := (procs (k_sched k))(p \<mapsto> x\<lparr>p_pml4 := pml4_phys pm\<rparr>)\<rparr>\<rparr>)))"

text \<open>A change of the first thread of a process and of the list of processes.\<close>

definition update_thread :: "nat \<Rightarrow> ('f thread \<Rightarrow> 'f thread) \<Rightarrow> ('f, 'w) kernel \<Rightarrow> ('f, 'w) kernel kres" where
  "update_thread p f k =
     kbind (first_thread (k_sched k) p) (\<lambda>t.
     kbind (get_thread (k_sched k) t) (\<lambda>x. Inr (k\<lparr>k_sched := put_thread t (f x) (k_sched k)\<rparr>)))"

definition add_process :: "nat \<Rightarrow> ('f, 'w) kernel \<Rightarrow> ('f, 'w) kernel" where
  "add_process p k = k\<lparr>k_sched := (k_sched k)\<lparr>processes := processes (k_sched k) @ [p]\<rparr>\<rparr>"

definition kernel_registers :: "u64 \<Rightarrow> u64 \<Rightarrow> 'f thread \<Rightarrow> 'f thread" where
  "kernel_registers stk entry_point t =
     t\<lparr>stack := stk, registers := (registers t)\<lparr>rsp := stk + 4096 * 32, rbp := stk + 4096 * 32, rip := entry_point\<rparr>\<rparr>"

definition create_process :: "('f, 'w) env \<Rightarrow> u64 \<Rightarrow> bool \<Rightarrow> ('f, 'w) kernel \<Rightarrow> (nat \<times> ('f, 'w) kernel) kres" where
  "create_process env entry_point no_queue k =
     kbind (initialize_process env k) (\<lambda>(p, k).
     kbind (new_address_space env p k) (\<lambda>k.
     kbind (allocate_stack (env_tp env) (k_vm k)) (\<lambda>(stk, vm).
     kbind (update_thread p (kernel_registers stk entry_point) (k\<lparr>k_vm := vm\<rparr>)) (\<lambda>k.
     kbind (if no_queue then Inr (k_sched k) else start_process p (k_sched k)) (\<lambda>s.
     Inr (p, add_process p (k\<lparr>k_sched := s\<rparr>)))))))"

subsection \<open>Processes from executables\<close>

text \<open>The memory as the new process sees it, and its way back into the state.\<close>

definition process_view :: "nat \<Rightarrow> space \<Rightarrow> ('f, 'w) kernel \<Rightarrow> loading" where
  "process_view p sp k =
     \<lparr>ld_mm = \<lparr>mm_regions = sp_regions sp, mm_vmos = k_vmos k, mm_pm = sp_pm sp, mm_vm = k_vm k\<rparr>,
      ld_mem = (\<lambda>a. if a < 2 ^ 39 then k_user k p a else k_mem k a), ld_oid = k_oid k\<rparr>"

definition put_view :: "nat \<Rightarrow> loading \<Rightarrow> ('f, 'w) kernel \<Rightarrow> ('f, 'w) kernel" where
  "put_view p l k =
     k\<lparr>k_spaces := (k_spaces k)(p \<mapsto> \<lparr>sp_regions = mm_regions (ld_mm l), sp_pm = mm_pm (ld_mm l)\<rparr>),
       k_vmos := mm_vmos (ld_mm l), k_vm := mm_vm (ld_mm l), k_oid := ld_oid l,
       k_user := (k_user k)(p := ld_mem l), k_mem := (\<lambda>a. if a < 2 ^ 39 then k_mem k a else ld_mem l a)\<rparr>"

definition LD_SO :: name where "LD_SO = [47, 108, 105, 98, 47, 108, 100, 46, 115, 111]"

text \<open>
  \<open>load_elf\<close>: \<open>None\<close> is the result 0 after a dynamic linker that is no executable.  Otherwise the entry address
  and the stack pointer.
\<close>

definition load_linker ::
  "('f, 'w) env \<Rightarrow> 'w \<Rightarrow> elf_info \<Rightarrow> loading \<Rightarrow> (u64 option \<times> loading) kres" where
  "load_linker env w info l =
     (if linker_path info = None then Inr (Some (entry info), l)
      else (case env_lookup env LD_SO w of None \<Rightarrow> Inl Assert_failed
            | Some node \<Rightarrow>
                let elf = env_malloc env; l = l\<lparr>ld_mem := write_bytes (ld_mem l) elf (env_file env node w)\<rparr> in
                if \<not> elf_verify (ld_mem l) elf then Inr (None, l)
                else kbind (load_elf_segments (env_tp env) (env_uses env) elf LINKER_BASE_ADDR l) (\<lambda>(linker, l).
                     Inr (Some (entry linker), l))))"

definition load_elf ::
  "('f, 'w) env \<Rightarrow> 'w \<Rightarrow> ptr \<Rightarrow> ptr list \<Rightarrow> nat \<Rightarrow> ptr list option \<Rightarrow> ptr option \<Rightarrow> u64 \<Rightarrow> loading
     \<Rightarrow> ((u64 \<times> u64) option \<times> loading) kres" where
  "load_elf env w elf argv envc envp exec_path stack_pointer l =
     kbind (load_elf_segments (env_tp env) (env_uses env) elf 0 l) (\<lambda>(info, l).
     kbind (load_linker env w info l) (\<lambda>(r, l).
     case r of None \<Rightarrow> Inr (None, l)
     | Some rip_val \<Rightarrow>
         kbind (build_stack (mm_pm (ld_mm l)) (env_junk env) info argv envc envp exec_path (ld_mem l, unat stack_pointer)) (\<lambda>(m, sp).
         Inr (Some (rip_val, of_nat sp), l\<lparr>ld_mem := m\<rparr>))))"

text \<open>The stack region with its two topmost pages; the results of \<open>hit\<close> are not looked at.\<close>

definition stack_pages :: "('f, 'w) env \<Rightarrow> loading \<Rightarrow> (u64 \<times> loading) kres" where
  "stack_pages env l =
     (let oid = ld_oid l in
      kbind (allocate_anonymous_vmo (env_tp env) oid (env_uses env oid) 0x200000 0 False (ld_mm l)) (\<lambda>(r, mm).
      case r of None \<Rightarrow> Inl Null_deref
      | Some i \<Rightarrow>
          (case mm_vmos mm oid of None \<Rightarrow> Inl Null_deref
           | Some o1 \<Rightarrow>
               let base = r_base (mm_regions mm ! i) in
               kbind (hit (env_tp env) (env_cr3 env) o1 base (0x200000 - 0x1000) (mm_pm mm) (mm_vm mm)) (\<lambda>(_, o1, pm, vm).
               kbind (hit (env_tp env) (env_cr3 env) o1 base (0x200000 - 0x2000) pm vm) (\<lambda>(_, o1, pm, vm).
               Inr (base, l\<lparr>ld_oid := oid + 1,
                     ld_mm := mm\<lparr>mm_vmos := (mm_vmos mm)(oid \<mapsto> o1), mm_pm := pm, mm_vm := vm\<rparr>\<rparr>))))))"

definition user_registers :: "'f thread \<Rightarrow> 'f thread" where
  "user_registers t =
     t\<lparr>registers := (registers t)\<lparr>cs := GDT_SELECTOR_USER_CODE OR 3, ss := GDT_SELECTOR_USER_DATA OR 3\<rparr>,
       time_slice_default := DEFAULT_TIMESLICE, time_slice := DEFAULT_TIMESLICE, priority := 4\<rparr>"

definition DEV_NULL :: name where "DEV_NULL = [47, 100, 101, 118, 47, 110, 117, 108, 108]"

definition DEV_KLOG :: name where "DEV_KLOG = [47, 100, 101, 118, 47, 107, 108, 111, 103]"

text \<open>One of the three standard descriptors: the node opened, or a null descriptor when it was not found.\<close>

definition standard_file :: "('f, 'w) env \<Rightarrow> nat option \<Rightarrow> fd_table \<times> 'w \<Rightarrow> fd_table \<times> 'w" where
  "standard_file env node fw =
     (let (t, w) = fw in
      case node of None \<Rightarrow> (snd (allocate_file_desc None t), w)
      | Some n \<Rightarrow> (let (f, w) = env_open env n w in (snd (allocate_file_desc f t), w)))"

definition standard_files :: "('f, 'w) env \<Rightarrow> fd_table \<Rightarrow> 'w \<Rightarrow> fd_table \<times> 'w" where
  "standard_files env t w =
     (let null_dev = env_lookup env DEV_NULL w; log_dev = env_lookup env DEV_KLOG w
      in standard_file env log_dev (standard_file env log_dev (standard_file env null_dev (t, w))))"

text \<open>The end of a process whose executable could not be loaded; its thread is not deleted.\<close>

definition discard_process :: "nat \<Rightarrow> loading \<Rightarrow> ('f, 'w) kernel \<Rightarrow> ('f, 'w) kernel kres" where
  "discard_process p l k =
     kbind (destroy_address_space (ld_mm l)) (\<lambda>mm.
     let k = put_view p (l\<lparr>ld_mm := mm\<rparr>) k in
     Inr (k\<lparr>k_spaces := (k_spaces k)(p := None), k_ident := (k_ident k)(p := None),
            k_sched := (k_sched k)\<lparr>procs := (procs (k_sched k))(p := None)\<rparr>\<rparr>))"

definition finish_process :: "('f, 'w) env \<Rightarrow> nat \<Rightarrow> u64 \<Rightarrow> u64 \<Rightarrow> u64 \<Rightarrow> ('f, 'w) kernel \<Rightarrow> ('f, 'w) kernel kres" where
  "finish_process env p base rip_val rsp_val k =
     kbind (update_thread p (\<lambda>t. t\<lparr>stack := base, registers := (registers t)\<lparr>rip := rip_val, rsp := rsp_val, rbp := rsp_val\<rparr>\<rparr>) k) (\<lambda>k.
     if rsp_val AND 0xF \<noteq> 0 then Inl Assert_failed
     else kbind (get_proc (k_sched k) p) (\<lambda>x.
       let (files, w) = standard_files env (p_files x) (k_world k) in
       Inr (add_process p (k\<lparr>k_world := w,
              k_sched := (k_sched k)\<lparr>procs := (procs (k_sched k))(p \<mapsto> x\<lparr>p_files := files\<rparr>)\<rparr>\<rparr>))))"

text \<open>The stack, the segments and the descriptors of a process whose address space is new.\<close>

definition populate_process ::
  "('f, 'w) env \<Rightarrow> nat \<Rightarrow> ptr \<Rightarrow> ptr list \<Rightarrow> nat \<Rightarrow> ptr list option \<Rightarrow> ptr option \<Rightarrow> ('f, 'w) kernel
     \<Rightarrow> (nat option \<times> ('f, 'w) kernel) kres" where
  "populate_process env p elf argv envc envp exec_path k =
     (case k_spaces k p of None \<Rightarrow> Inl Null_deref
      | Some sp \<Rightarrow>
          kbind (stack_pages env (process_view p sp k)) (\<lambda>(base, l).
          kbind (load_elf env (k_world k) elf argv envc envp exec_path (base + 0x200000) l) (\<lambda>(r, l).
          case r of Some (rip_val, rsp_val) \<Rightarrow>
              if rip_val = 0 then kbind (discard_process p l k) (\<lambda>k. Inr (None, k))
              else kbind (finish_process env p base rip_val rsp_val (put_view p l k)) (\<lambda>k. Inr (Some p, k))
          | None \<Rightarrow> kbind (discard_process p l k) (\<lambda>k. Inr (None, k)))))"

text \<open>The first result is the process, or none for the null pointer.\<close>

definition create_elf_process ::
  "('f, 'w) env \<Rightarrow> ptr \<Rightarrow> ptr list \<Rightarrow> nat \<Rightarrow> ptr list option \<Rightarrow> ptr option \<Rightarrow> ('f, 'w) kernel
     \<Rightarrow> (nat option \<times> ('f, 'w) kernel) kres" where
  "create_elf_process env elf argv envc envp exec_path k =
     (if \<not> elf_verify (k_mem k) elf then Inr (None, k)
      else kbind (initialize_process env k) (\<lambda>(p, k).
        kbind (new_address_space env p k) (\<lambda>k.
        kbind (update_thread p user_registers k) (\<lambda>k.
        populate_process env p elf argv envc envp exec_path k))))"

subsection \<open>The start of the scheduler\<close>

definition idle_name :: name where "idle_name = [73, 100, 108, 101, 80, 114, 111, 99, 101, 115, 115]"

definition kernel_name :: name where "kernel_name = [75, 101, 114, 110, 101, 108]"

definition set_name :: "nat \<Rightarrow> name \<Rightarrow> ('f, 'w) kernel \<Rightarrow> ('f, 'w) kernel" where
  "set_name p nm k = k\<lparr>k_ident := (k_ident k)(p := map_option (\<lambda>x. x\<lparr>i_name := nm\<rparr>) (k_ident k p))\<rparr>"

text \<open>One idle process per processor, for the processors below the number given.\<close>

primrec create_idle :: "('f, 'w) env \<Rightarrow> u64 \<Rightarrow> nat \<Rightarrow> ('f, 'w) kernel \<Rightarrow> ('f, 'w) kernel kres" where
  "create_idle env idle_entry 0 k = Inr k"
| "create_idle env idle_entry (Suc i) k =
     kbind (create_idle env idle_entry i k) (\<lambda>k.
     kbind (create_process env idle_entry True k) (\<lambda>(p, k).
     kbind (update_thread p (\<lambda>t. t\<lparr>time_slice_default := 0, time_slice := 0\<rparr>) (set_name p idle_name k)) (\<lambda>k.
     let c = cpus (k_sched k) ! i in
     Inr (k\<lparr>k_sched := put_cpu i (c\<lparr>idle_process := p, run_queue := [], run_queue_count := 0\<rparr>) (k_sched k)\<rparr>))))"

text \<open>\<open>initialize\<close> on processor \<open>me\<close>, up to the loop that waits for interrupts.\<close>

definition initialize_scheduler :: "('f, 'w) env \<Rightarrow> u64 \<Rightarrow> u64 \<Rightarrow> nat \<Rightarrow> ('f, 'w) kernel \<Rightarrow> ('f, 'w) kernel kres" where
  "initialize_scheduler env idle_entry kernel_entry me k =
     (let k = k\<lparr>k_sched := (k_sched k)\<lparr>processes := [], dead_processes := []\<rparr>\<rparr> in
      kbind (create_idle env idle_entry (length (cpus (k_sched k))) k) (\<lambda>k.
      kbind (create_process env kernel_entry False k) (\<lambda>(kp, k).
      let k = set_name kp kernel_name k; s = k_sched k in
      Inr (k\<lparr>k_sched := (put_cpu me ((cpus s ! me)\<lparr>current_thread := None\<rparr>) s)\<lparr>scheduler_ready := True\<rparr>\<rparr>))))"

section \<open>The start of the scheduler\<close>

text \<open>The scheduler's view of a process under construction: the process \<open>p\<close> with its thread \<open>p\<close> is new, nothing else changed.\<close>

definition new_process :: "'f sched \<Rightarrow> 'f sched \<Rightarrow> nat \<Rightarrow> bool" where
  "new_process s s' p \<longleftrightarrow> (\<exists>x th. procs s' = (procs s)(p \<mapsto> x) \<and> threads s' = (threads s)(p \<mapsto> th)
     \<and> p_threads x = [p] \<and> parent th = p \<and> th_state th = Running)
     \<and> cpus s' = cpus s \<and> processes s' = processes s"

lemma new_processI:
  "procs s' = (procs s)(p \<mapsto> x) \<Longrightarrow> threads s' = (threads s)(p \<mapsto> th) \<Longrightarrow> p_threads x = [p] \<Longrightarrow> parent th = p \<Longrightarrow>
   th_state th = Running \<Longrightarrow> cpus s' = cpus s \<Longrightarrow> processes s' = processes s \<Longrightarrow> new_process s s' p"
  by (auto simp: new_process_def)

lemma new_processE:
  assumes "new_process s s' p"
  obtains x th where "procs s' = (procs s)(p \<mapsto> x)" "threads s' = (threads s)(p \<mapsto> th)" "p_threads x = [p]" "parent th = p"
    "th_state th = Running" "cpus s' = cpus s" "processes s' = processes s"
  using assms by (auto simp: new_process_def)

lemma initialize_process_Inr:
  assumes "initialize_process env k = Inr (p, k')"
  shows "p = k_next k \<and> k_next k' = p + 1 \<and> new_process (k_sched k) (k_sched k') p"
  using assms by (auto simp: initialize_process_def Let_def new_thread_def intro!: new_processI)

lemma new_address_space_Inr:
  assumes "new_address_space env p k = Inr k'" "new_process s (k_sched k) p"
  shows "k_next k' = k_next k \<and> new_process s (k_sched k') p"
  using assms(2)
proof (rule new_processE)
  fix x th
  assume x: "procs (k_sched k) = (procs s)(p \<mapsto> x)" "threads (k_sched k) = (threads s)(p \<mapsto> th)"
      "p_threads x = [p]" "parent th = p" "th_state th = Running" "cpus (k_sched k) = cpus s" "processes (k_sched k) = processes s"
  have "get_proc (k_sched k) p = Inr x" using x(1) by (simp add: get_proc_def)
  then obtain pm vm where "k' = k\<lparr>k_spaces := (k_spaces k)(p \<mapsto> \<lparr>sp_regions = [], sp_pm = pm\<rparr>), k_vm := vm,
      k_sched := (k_sched k)\<lparr>procs := (procs (k_sched k))(p \<mapsto> x\<lparr>p_pml4 := pml4_phys pm\<rparr>)\<rparr>\<rparr>"
    using assms(1) by (auto simp: new_address_space_def)
  then show ?thesis using x by (auto intro!: new_processI [where x = "x\<lparr>p_pml4 := pml4_phys pm\<rparr>" and th = th])
qed

lemma update_thread_Inr:
  assumes "update_thread p f k = Inr k'" "new_process s (k_sched k) p" "\<And>t. parent (f t) = parent t \<and> th_state (f t) = th_state t"
  shows "k_next k' = k_next k \<and> new_process s (k_sched k') p"
  using assms(2)
proof (rule new_processE)
  fix x th
  assume x: "procs (k_sched k) = (procs s)(p \<mapsto> x)" "threads (k_sched k) = (threads s)(p \<mapsto> th)"
      "p_threads x = [p]" "parent th = p" "th_state th = Running" "cpus (k_sched k) = cpus s" "processes (k_sched k) = processes s"
  then have "k' = k\<lparr>k_sched := put_thread p (f th) (k_sched k)\<rparr>"
    using assms(1) by (simp add: update_thread_def first_thread_def get_proc_def get_thread_def)
  then show ?thesis using x assms(3) by (auto simp: put_thread_def intro!: new_processI [where x = x and th = "f th"])
qed

lemma create_process_Inr:
  assumes "create_process env e no_queue k = Inr (p, k')"
  obtains s s2 where "p = k_next k" "k_next k' = p + 1" "new_process (k_sched k) s p"
    "(if no_queue then Inr s else start_process p s) = Inr s2" "k_sched k' = s2\<lparr>processes := processes s2 @ [p]\<rparr>"
proof -
  obtain k1 k2 stk vm k3 s2 where 1: "initialize_process env k = Inr (p, k1)" and 2: "new_address_space env p k1 = Inr k2"
      and 3: "update_thread p (kernel_registers stk e) (k2\<lparr>k_vm := vm\<rparr>) = Inr k3"
      and 4: "(if no_queue then Inr (k_sched k3) else start_process p (k_sched k3)) = Inr s2" "k' = add_process p (k3\<lparr>k_sched := s2\<rparr>)"
    using assms by (auto simp: create_process_def)
  have n1: "p = k_next k" "k_next k1 = p + 1" "new_process (k_sched k) (k_sched k1) p" using initialize_process_Inr [OF 1] by auto
  have n2: "k_next k2 = k_next k1" "new_process (k_sched k) (k_sched (k2\<lparr>k_vm := vm\<rparr>)) p" using new_address_space_Inr [OF 2 n1(3)] by simp_all
  have "k_next k3 = k_next k2 \<and> new_process (k_sched k) (k_sched k3) p"
    using update_thread_Inr [OF 3 n2(2)] by (simp add: kernel_registers_def)
  then have "k_next k3 = p + 1 \<and> p = k_next k \<and> new_process (k_sched k) (k_sched k3) p" using n1 n2 by simp
  then show ?thesis using that [of "k_sched k3" s2] 4 by (auto simp: add_process_def)
qed

text \<open>The state after the idle processes of the first \<open>i\<close> processors are made, from a state whose next number is \<open>n\<close>.\<close>

definition idle_made :: "nat \<Rightarrow> nat \<Rightarrow> cpu list \<Rightarrow> 'f sched \<Rightarrow> bool" where
  "idle_made n i cl s \<longleftrightarrow> length (cpus s) = length cl \<and> processes s = map ((+) n) [0..<i]
     \<and> (\<forall>j<length cl. current_thread (cpus s ! j) = current_thread (cl ! j))
     \<and> (\<forall>j<i. idle_process (cpus s ! j) = n + j \<and> run_queue (cpus s ! j) = [] \<and> run_queue_count (cpus s ! j) = 0)
     \<and> (\<forall>j<i. \<exists>x th. procs s (n + j) = Some x \<and> p_threads x = [n + j] \<and> threads s (n + j) = Some th
           \<and> parent th = n + j \<and> th_state th = Running)"

lemma create_idle_made:
  "create_idle env e i k = Inr k' \<Longrightarrow> processes (k_sched k) = [] \<Longrightarrow> i \<le> length (cpus (k_sched k)) \<Longrightarrow>
   k_next k' = k_next k + i \<and> idle_made (k_next k) i (cpus (k_sched k)) (k_sched k')"
proof (induction i arbitrary: k')
  case (Suc i)
  then obtain k1 p k2 k3 where 1: "create_idle env e i k = Inr k1" and 2: "create_process env e True k1 = Inr (p, k2)"
      and 3: "update_thread p (\<lambda>t. t\<lparr>time_slice_default := 0, time_slice := 0\<rparr>) (set_name p idle_name k2) = Inr k3"
      and k': "k' = k3\<lparr>k_sched := put_cpu i ((cpus (k_sched k3) ! i)\<lparr>idle_process := p, run_queue := [], run_queue_count := 0\<rparr>) (k_sched k3)\<rparr>"
    by (auto simp: Let_def)
  have ih: "k_next k1 = k_next k + i" "idle_made (k_next k) i (cpus (k_sched k)) (k_sched k1)" using Suc.IH [OF 1] Suc.prems by simp_all
  obtain s where s: "p = k_next k1" "k_next k2 = p + 1" "new_process (k_sched k1) s p" "k_sched k2 = s\<lparr>processes := processes s @ [p]\<rparr>"
    using create_process_Inr [OF 2] by (metis (full_types) old.sum.inject(2))
  let ?s1 = "(k_sched k1)\<lparr>processes := processes (k_sched k1) @ [p]\<rparr>"
  have "new_process ?s1 (k_sched (set_name p idle_name k2)) p"
    using s(3) by (rule new_processE) (auto simp: s(4) set_name_def intro!: new_processI)
  from update_thread_Inr [OF 3 this] have n3: "k_next k3 = p + 1" "new_process ?s1 (k_sched k3) p" using s(2) by (simp_all add: set_name_def)
  then obtain x th where x: "procs (k_sched k3) = (procs (k_sched k1))(p \<mapsto> x)" "threads (k_sched k3) = (threads (k_sched k1))(p \<mapsto> th)"
      "p_threads x = [p]" "parent th = p" "th_state th = Running" "cpus (k_sched k3) = cpus (k_sched k1)"
      "processes (k_sched k3) = processes (k_sched k1) @ [p]"
    by (auto elim!: new_processE)
  have "idle_made (k_next k) (Suc i) (cpus (k_sched k)) (k_sched k')"
    using ih x s(1) Suc.prems(3) by (auto simp: idle_made_def k' put_cpu_def nth_list_update less_Suc_eq)
  then show ?case using n3(1) s(1) ih(1) k' by simp
qed (simp add: idle_made_def)

text \<open>
  The start of the scheduler establishes its invariant: when \<open>initialize\<close> reaches the loop that waits for the first
  tick, every processor has an idle process of its own, only the thread of the kernel process is queued, on the
  first processor, and the processes are in the list once each.
\<close>

theorem initialize_establishes_invariant:
  assumes "initialize_scheduler env ie ke me k = Inr k'" "cpus (k_sched k) \<noteq> []" "\<forall>c \<in> set (cpus (k_sched k)). current_thread c = None"
  shows "sched_inv (k_sched k') \<and> scheduler_ready (k_sched k') \<and> distinct (processes (k_sched k'))
    \<and> length (processes (k_sched k')) = length (cpus (k_sched k)) + 1
    \<and> run_queue (cpus (k_sched k') ! 0) = [k_next k + length (cpus (k_sched k))]"
proof -
  let ?k = "k\<lparr>k_sched := (k_sched k)\<lparr>processes := [], dead_processes := []\<rparr>\<rparr>" and ?N = "length (cpus (k_sched k))" and ?n = "k_next k"
  obtain k1 p k2 where 1: "create_idle env ie ?N ?k = Inr k1" and 2: "create_process env ke False k1 = Inr (p, k2)"
      and k': "k_sched k' = (put_cpu me ((cpus (k_sched k2) ! me)\<lparr>current_thread := None\<rparr>) (k_sched k2))\<lparr>scheduler_ready := True\<rparr>"
    using assms(1) by (auto simp: initialize_scheduler_def Let_def set_name_def)
  have id: "k_next k1 = ?n + ?N" "idle_made ?n ?N (cpus (k_sched k)) (k_sched k1)" using create_idle_made [OF 1] by simp_all
  obtain s s2 where s: "p = ?n + ?N" "new_process (k_sched k1) s p" "start_process p s = Inr s2" "k_sched k2 = s2\<lparr>processes := processes s2 @ [p]\<rparr>"
    using create_process_Inr [OF 2] id(1) by (metis (full_types))
  obtain x th where x: "procs s = (procs (k_sched k1))(p \<mapsto> x)" "threads s = (threads (k_sched k1))(p \<mapsto> th)"
      "p_threads x = [p]" "parent th = p" "th_state th = Running" "cpus s = cpus (k_sched k1)" "processes s = processes (k_sched k1)"
    using s(2) by (rule new_processE)
  have N: "0 < ?N" using assms(2) by simp
  let ?c = "cpus (k_sched k1) ! 0"
  have c0: "run_queue ?c = []" "run_queue_count ?c = 0" using id(2) N by (simp_all add: idle_made_def)
  then have "least_loaded (cpus s) 1 0 = 0" using x(6) by (subst least_loaded.simps) simp
  then have s2: "s2 = s\<lparr>cpus := (cpus s)[0 := ?c\<lparr>run_queue := [p], run_queue_count := 1\<rparr>]\<rparr>"
    using s(3) x(1,3,6) c0 N id(2)
    by (auto simp: start_process_def first_thread_def get_proc_def insert_new_thread_def put_cpu_def Let_def idle_made_def split: if_splits)
  let ?cs = "cpus (k_sched k')"
  have cs: "?cs = ((cpus (k_sched k1))[0 := ?c\<lparr>run_queue := [p], run_queue_count := 1\<rparr>])
      [me := (((cpus (k_sched k1))[0 := ?c\<lparr>run_queue := [p], run_queue_count := 1\<rparr>]) ! me)\<lparr>current_thread := None\<rparr>]"
    using k' s(4) s2 x(6) by (simp add: put_cpu_def)
  have len: "length ?cs = ?N" using cs id(2) by (simp add: idle_made_def)
  have cpu: "current_thread (?cs ! j) = None \<and> idle_process (?cs ! j) = ?n + j
      \<and> run_queue (?cs ! j) = (if j = 0 then [p] else []) \<and> run_queue_count (?cs ! j) = (if j = 0 then 1 else 0)" if "j < ?N" for j
  proof -
    have "current_thread (cpus (k_sched k1) ! j) = None" "idle_process (cpus (k_sched k1) ! j) = ?n + j"
        "run_queue (cpus (k_sched k1) ! j) = []" "run_queue_count (cpus (k_sched k1) ! j) = 0" "length (cpus (k_sched k1)) = ?N"
      using that id(2) assms(3) by (simp_all add: idle_made_def)
    then show ?thesis unfolding cs by (cases "j = me"; cases "j = 0") (use that in simp_all)
  qed
  have st: "procs (k_sched k') = procs s" "threads (k_sched k') = threads s" "processes (k_sched k') = processes (k_sched k1) @ [p]"
    using k' s(4) s2 x(7) by (simp_all add: put_cpu_def)
  have idle: "idle_ok (k_sched k') (?cs ! j) (?n + j)" if "j < ?N" for j
    using id(2) that cpu [OF that] st x(1,2) s(1) by (auto simp: idle_made_def idle_ok_def)
  have kt: "thread_ok (k_sched k') (?cs ! 0) p" using cpu [OF N] st x s(1) N by (auto simp: thread_ok_def)
  have "cpu_ok (k_sched k') (?cs ! j)" if "j < ?N" for j
    using cpu [OF that] idle [OF that] kt by (auto simp: cpu_ok_def queue_ok_def)
  then have "sched_inv (k_sched k')"
    using cpu len by (auto simp: sched_inv_def disjoint_queues_def in_set_conv_nth)
  moreover have "processes (k_sched k') = map ((+) ?n) [0..<?N] @ [p]" using st(3) id(2) by (simp add: idle_made_def)
  ultimately show ?thesis
    using cpu [OF N] s(1) k' by (auto simp: distinct_map)
qed

section \<open>A process from an executable\<close>

lemma stack_pages_correct:
  assumes sp: "stack_pages env l = Inr (base, l')" and empty: "mm_regions (ld_mm l) = []"
    and inv: "pm_inv (mm_pm (ld_mm l))" "phys_inv (vm_phys (mm_vm (ld_mm l)))"
  shows "base = 4096 \<and> loading_inv l' \<and> ld_mem l' = ld_mem l
    \<and> mm_regions (ld_mm l') = [\<lparr>r_base = 4096, r_size = 0x200000, r_vmo = Some (ld_oid l)\<rparr>]
    \<and> backed (mm_pm (ld_mm l')) 0x1ff \<and> backed (mm_pm (ld_mm l')) 0x200"
proof -
  let ?r = "\<lparr>r_base = 4096, r_size = 0x200000, r_vmo = Some (ld_oid l)\<rparr>"
  have place: "place_region 0x200000 0 False [] = Inr (Some (0, [mapped_region 4096 0x200000]))"
    by (simp add: place_region_def find_available_region_def KERNEL_VIRTUAL_BASE_def mapped_region_def)
  obtain o0 pm0 vm0 where an: "allocate_anonymous_vmo (env_tp env) (ld_oid l) (env_uses env (ld_oid l)) 0x200000 0 False (ld_mm l)
        = Inr (Some 0, (ld_mm l)\<lparr>mm_regions := [?r], mm_vmos := (mm_vmos (ld_mm l))(ld_oid l \<mapsto> o0), mm_pm := pm0, mm_vm := vm0\<rparr>)"
      and i0: "pm_inv pm0" "phys_inv (vm_phys vm0)"
  proof -
    obtain r mm where a: "allocate_anonymous_vmo (env_tp env) (ld_oid l) (env_uses env (ld_oid l)) 0x200000 0 False (ld_mm l) = Inr (r, mm)"
      using sp by (auto simp: stack_pages_def Let_def)
    then obtain o0 pm0 vm0 where
        m: "map_allocated_blocks (env_tp env) o0 4096 (mm_pm (ld_mm l)) (mm_vm (ld_mm l)) = Inr (pm0, vm0)"
        and e: "r = Some 0" "mm = (ld_mm l)\<lparr>mm_regions := [?r], mm_vmos := (mm_vmos (ld_mm l))(ld_oid l \<mapsto> o0), mm_pm := pm0, mm_vm := vm0\<rparr>"
      using empty by (auto simp: allocate_anonymous_vmo_def place physical_vm_object_def attach_def mapped_region_def Let_def split: if_splits)
    then show ?thesis using that a map_allocated_blocks_invs [OF m inv] by blast
  qed
  obtain st1 o1 pm1 vm1 st2 o2 pm2 vm2 where
      h1: "hit (env_tp env) (env_cr3 env) o0 4096 0x1ff000 pm0 vm0 = Inr (st1, o1, pm1, vm1)"
      and h2: "hit (env_tp env) (env_cr3 env) o1 4096 0x1fe000 pm1 vm1 = Inr (st2, o2, pm2, vm2)"
      and l': "base = 4096" "l' = l\<lparr>ld_oid := ld_oid l + 1, ld_mm := (ld_mm l)\<lparr>mm_regions := [?r],
          mm_vmos := (mm_vmos (ld_mm l))(ld_oid l \<mapsto> o2), mm_pm := pm2, mm_vm := vm2\<rparr>\<rparr>"
    using sp an by (auto simp: stack_pages_def Let_def)
  have b1: "pm_inv pm1" "phys_inv (vm_phys vm1)" "backed pm1 0x200"
    using hit_backed [OF i0 _ h1] by simp_all
  have "pm_inv pm2 \<and> phys_inv (vm_phys vm2) \<and> backed pm2 0x1ff \<and> backed pm2 0x200"
    using hit_backed [OF b1(1,2) _ h2] b1(3) by simp
  then show ?thesis using l' by (simp add: loading_inv_def as_inv_def r_hi_def)
qed

text \<open>An executable that a new process can hold: its segments lie above the stack, apart, and it needs no linker.\<close>

definition image_fits :: "ptr \<Rightarrow> mem \<Rightarrow> bool" where
  "image_fits elf m \<longleftrightarrow> elf_verify m elf \<and> 2 ^ 39 \<le> elf \<and> e_entry (ehdr_at m elf) \<noteq> 0
     \<and> (\<forall>ph \<in> set (image_headers m elf). p_type ph \<noteq> PT_INTERP \<and> (loadable ph \<longrightarrow> seg_ok 0 ph \<and> 0x201000 \<le> seg_lo 0 ph))
     \<and> sorted_wrt (apart 0) (image_headers m elf)"

lemma image_headers_cong:
  assumes "\<And>a. elf \<le> a \<Longrightarrow> m a = m' a"
  shows "ehdr_at m elf = ehdr_at m' elf" "image_headers m elf = image_headers m' elf"
proof -
  have "load_bytes m elf n = load_bytes m' elf n" for n by (intro load_bytes_cong assms)
  then show e: "ehdr_at m elf = ehdr_at m' elf" by (simp add: ehdr_at_def)
  have "header_of m elf i = header_of m' elf i" for i by (intro header_of_cong assms)
  then show "image_headers m elf = image_headers m' elf" by (simp add: image_headers_def e)
qed

lemma allocate_standard: "length t \<le> 2 \<Longrightarrow> allocate_file_desc f t = (length t, t @ [f])"
proof -
  assume "length t \<le> 2"
  then have "free_slot 0 t = None" using free_slot_Some [of 0 t] by (cases "free_slot 0 t") force+
  then show ?thesis by (simp add: allocate_file_desc_def)
qed

lemma standard_file_length: "length t \<le> 2 \<Longrightarrow> length (fst (standard_file env node (t, w))) = Suc (length t)"
  by (auto simp: standard_file_def allocate_standard split: option.splits prod.splits)

lemma standard_files_length: "length (fst (standard_files env [] w)) = 3"
proof -
  have step: "length (fst (standard_file env node fw)) = Suc (length (fst fw))" if "length (fst fw) \<le> 2" for node fw
    using standard_file_length [of "fst fw" env node "snd fw"] that by simp
  show ?thesis by (simp add: standard_files_def Let_def step)
qed

lemma update_thread_eq:
  "procs (k_sched k) p = Some x \<Longrightarrow> p_threads x = t # ts \<Longrightarrow> threads (k_sched k) t = Some th \<Longrightarrow>
   update_thread p f k = Inr (k\<lparr>k_sched := put_thread t (f th) (k_sched k)\<rparr>)"
  by (simp add: update_thread_def first_thread_def get_proc_def get_thread_def)

lemma finish_process_correct:
  assumes "procs (k_sched k) p = Some x" "p_threads x = [t]" "p_files x = []" "threads (k_sched k) t = Some th" "unat rsp_val mod 16 = 0"
  shows "\<exists>k' x'. finish_process env p base rip_val rsp_val k = Inr k' \<and> k_user k' = k_user k
    \<and> threads (k_sched k') t = Some (th\<lparr>stack := base, registers := (registers th)\<lparr>rip := rip_val, rsp := rsp_val, rbp := rsp_val\<rparr>\<rparr>)
    \<and> procs (k_sched k') p = Some x' \<and> p_threads x' = [t] \<and> length (p_files x') = 3
    \<and> processes (k_sched k') = processes (k_sched k) @ [p] \<and> cpus (k_sched k') = cpus (k_sched k)"
proof -
  have "rsp_val AND 0xF = take_bit 4 rsp_val" by (simp add: take_bit_eq_mask mask_eq_exp_minus_1)
  moreover have "unat (take_bit 4 rsp_val) = 0"
    using assms(5) by (simp add: unsigned_take_bit_eq) (simp add: take_bit_eq_mod)
  ultimately have "rsp_val AND 0xF = 0" by (simp add: unat_eq_zero)
  then show ?thesis
    using standard_files_length [of env "k_world k"]
    by (auto simp: finish_process_def update_thread_eq [OF assms(1,2,4)] assms(1,3) get_proc_def put_thread_def add_process_def assms(2)
        split: prod.splits)
qed

text \<open>Loading into an address space that holds the stack, with the kernel's part of memory given by \<open>m\<close>.\<close>

lemma load_elf_correct:
  assumes image: "image_fits elf m" and high: "\<And>a. 2 ^ 39 \<le> a \<Longrightarrow> ld_mem l a = m a"
    and strs: "list_all2 (kernel_string m) argv args" "list_all2 (kernel_string m) envp envs" "stack_room args envs \<le> 8192"
    and l: "loading_inv l" "mm_regions (ld_mm l) = [\<lparr>r_base = 4096, r_size = 0x200000, r_vmo = v\<rparr>]"
      "backed (mm_pm (ld_mm l)) 0x1ff" "backed (mm_pm (ld_mm l)) 0x200"
    and memory: "map_segments (env_tp env) (env_uses env) 0 (image_headers m elf) l = Inr l1"
  shows "\<exists>r info l2. load_elf env w elf argv (length envp) (Some envp) None 0x201000 l = Inr (Some (e_entry (ehdr_at m elf), of_nat r), l2)
    \<and> initial_stack (ld_mem l2) r info args envs \<and> entry info = e_entry (ehdr_at m elf) \<and> r \<le> 0x201000
    \<and> (\<forall>ph \<in> set (image_headers m elf). \<forall>a. in_segment 0 ph a \<longrightarrow> ld_mem l2 a = seg_byte 0 elf m ph a)"
proof -
  let ?phs = "image_headers m elf"
  have img: "elf_verify m elf" "2 ^ 39 \<le> elf" "sorted_wrt (apart 0) ?phs"
      "\<forall>ph \<in> set ?phs. p_type ph \<noteq> PT_INTERP \<and> (loadable ph \<longrightarrow> seg_ok 0 ph \<and> 0x201000 \<le> seg_lo 0 ph)"
    using image by (simp_all add: image_fits_def)
  have hd: "ehdr_at (ld_mem l) elf = ehdr_at m elf" "image_headers (ld_mem l) elf = ?phs"
    using image_headers_cong [of elf "ld_mem l" m] high img(2) by auto
  have ok: "image_ok 0 elf l"
    using img hd l(2) by (auto simp: image_ok_def elf_verify_def no_overlap_def overlaps_def r_hi_def r_lo_def)
  obtain info s' where
      seg: "load_elf_segments (env_tp env) (env_uses env) elf 0 l = Inr (info, s')" "ld_mm s' = ld_mm l1"
        "entry info = e_entry (ehdr_at m elf)" "linker_path info \<noteq> None \<longleftrightarrow> (\<exists>ph \<in> set ?phs. p_type ph = PT_INTERP)"
        "\<forall>ph \<in> set ?phs. \<forall>a. in_segment 0 ph a \<longrightarrow> backed (mm_pm (ld_mm s')) (a div 4096) \<and> ld_mem s' a = seg_byte 0 elf (ld_mem l) ph a"
        "\<forall>a. (\<forall>ph \<in> set ?phs. \<not> in_segment 0 ph a) \<longrightarrow> ld_mem s' a = ld_mem l a"
    using load_elf_segments_correct [OF ok l(1), unfolded hd add_0, OF memory] by blast
  have nolink: "linker_path info = None" using seg(4) img(4) by auto
  have "\<forall>q. backed (mm_pm (ld_mm l)) q \<longrightarrow> backed (mm_pm (ld_mm s')) q"
    using map_segments_correct [OF memory l(1)] img(3) ok hd seg(2) by (simp add: image_ok_def)
  then have "accessible (mm_pm (ld_mm s')) 0x1ff000 8192"
    using l(3,4) by (simp add: accessible_def page_accessible_def backed_def [symmetric] upt_rec)
  then have acc: "accessible (mm_pm (ld_mm s')) (0x201000 - stack_room args envs) (stack_room args envs)"
    by (rule accessible_sub) (use strs(3) in simp_all)
  have "\<not> in_segment 0 ph a" if "ph \<in> set ?phs" "2 ^ 39 \<le> a" for ph a
    using img(4) that by (auto simp: in_segment_def seg_ok_def)
  then have "ld_mem s' a = m a" if "2 ^ 39 \<le> a" for a using that seg(6) high by metis
  then have ks: "list_all2 (kernel_string (ld_mem s')) argv args" "list_all2 (kernel_string (ld_mem s')) envp envs"
    by (auto intro: kernel_strings_frame [OF strs(1)] kernel_strings_frame [OF strs(2)])
  have "stack_room args envs \<le> 0x201000" "(0x201000 :: nat) \<le> 2 ^ 39" using strs(3) by simp_all
  from build_stack_correct [OF ks this acc] obtain m' r where
      st: "build_stack (mm_pm (ld_mm s')) (env_junk env) info argv (length envp) (Some envp) None (ld_mem s', 0x201000) = Inr (m', r)"
        "initial_stack m' r info args envs" "r \<le> 0x201000" "\<forall>a. a < r \<or> 0x201000 \<le> a \<longrightarrow> m' a = ld_mem s' a"
    by blast
  have "load_elf env w elf argv (length envp) (Some envp) None 0x201000 l = Inr (Some (e_entry (ehdr_at m elf), of_nat r), s'\<lparr>ld_mem := m'\<rparr>)"
    using seg(1,3) nolink st(1) by (simp add: load_elf_def load_linker_def)
  moreover have "m' a = seg_byte 0 elf m ph a" if "ph \<in> set ?phs" "in_segment 0 ph a" for ph a
  proof -
    have "0x201000 \<le> seg_lo 0 ph" using img(4) that by (auto simp: in_segment_def)
    moreover have "seg_lo 0 ph \<le> a" using that(2) by (auto simp: in_segment_def seg_lo_def intro: order_trans [OF div_times_less_eq_dividend])
    ultimately have "m' a = ld_mem s' a" using st(4) by simp
    then show ?thesis using seg(5) that high img(2) by (simp add: seg_byte_def Let_def)
  qed
  ultimately show ?thesis using st(2,3) seg(3) by (intro exI [of _ r] exI [of _ info] exI [of _ "s'\<lparr>ld_mem := m'\<rparr>"]) simp
qed

text \<open>
  C2. A process made from an executable is ready to run.  Its address space is new, the executable needs no linker and
  lies above the stack, the arguments and the environment fit into the two pages that are mapped in advance, and the
  allocators had memory for the stack and the segments.  Then the process is made: its thread starts at the entry
  point with an aligned stack laid out as the ABI requires, every segment holds the bytes of the file, three
  descriptors are there, and the process is in the list of processes but on no run queue yet.
\<close>

theorem elf_process_ready:
  assumes space: "k_spaces k p = Some \<lparr>sp_regions = [], sp_pm = pm\<rparr>" "pm_inv pm" "phys_inv (vm_phys (k_vm k))"
    and proc: "procs (k_sched k) p = Some x" "p_threads x = [t]" "p_files x = []" "threads (k_sched k) t = Some th"
    and image: "image_fits elf (k_mem k)"
    and strs: "list_all2 (kernel_string (k_mem k)) argv args" "list_all2 (kernel_string (k_mem k)) envp envs"
      "stack_room args envs \<le> 8192"
    and memory: "stack_pages env (process_view p \<lparr>sp_regions = [], sp_pm = pm\<rparr> k) = Inr (base, l)"
      "map_segments (env_tp env) (env_uses env) 0 (image_headers (k_mem k) elf) l = Inr l1"
  shows "\<exists>k' th' info. populate_process env p elf argv (length envp) (Some envp) None k = Inr (Some p, k')
    \<and> threads (k_sched k') t = Some th' \<and> rip (registers th') = e_entry (ehdr_at (k_mem k) elf)
    \<and> rbp (registers th') = rsp (registers th') \<and> cs (registers th') = cs (registers th)
    \<and> initial_stack (k_user k' p) (unat (rsp (registers th'))) info args envs \<and> entry info = rip (registers th')
    \<and> (\<forall>ph \<in> set (image_headers (k_mem k) elf). \<forall>a. in_segment 0 ph a \<longrightarrow> k_user k' p a = seg_byte 0 elf (k_mem k) ph a)
    \<and> (\<exists>x'. procs (k_sched k') p = Some x' \<and> length (p_files x') = 3)
    \<and> processes (k_sched k') = processes (k_sched k) @ [p] \<and> cpus (k_sched k') = cpus (k_sched k)"
proof -
  let ?sp = "\<lparr>sp_regions = [], sp_pm = pm\<rparr>" and ?e = "e_entry (ehdr_at (k_mem k) elf)"
  have l: "base = 4096" "loading_inv l" "ld_mem l = ld_mem (process_view p ?sp k)"
      "mm_regions (ld_mm l) = [\<lparr>r_base = 4096, r_size = 0x200000, r_vmo = Some (k_oid k)\<rparr>]"
      "backed (mm_pm (ld_mm l)) 0x1ff" "backed (mm_pm (ld_mm l)) 0x200"
    using stack_pages_correct [OF memory(1)] space(2,3) by (simp_all add: process_view_def)
  have high: "ld_mem l a = k_mem k a" if "2 ^ 39 \<le> a" for a using that l(3) by (simp add: process_view_def)
  obtain r info l2 where
      le: "load_elf env (k_world k) elf argv (length envp) (Some envp) None 0x201000 l = Inr (Some (?e, of_nat r), l2)"
        "initial_stack (ld_mem l2) r info args envs" "entry info = ?e" "r \<le> 0x201000"
        "\<forall>ph \<in> set (image_headers (k_mem k) elf). \<forall>a. in_segment 0 ph a \<longrightarrow> ld_mem l2 a = seg_byte 0 elf (k_mem k) ph a"
    using load_elf_correct [OF image high strs l(2,4-6) memory(2)] by blast
  have r: "unat (of_nat r :: u64) = r" using le(4) by (intro unat_of_nat_small) simp
  let ?k = "put_view p l2 k" and ?th = "th\<lparr>stack := base, registers := (registers th)\<lparr>rip := ?e, rsp := of_nat r, rbp := of_nat r\<rparr>\<rparr>"
  have same: "k_sched ?k = k_sched k" "k_user ?k p = ld_mem l2" by (simp_all add: put_view_def)
  have "unat (of_nat r :: u64) mod 16 = 0" using r le(2) by (simp add: initial_stack_def)
  with finish_process_correct [of ?k p x t th "of_nat r" env base ?e] proc same obtain k' x' where
      fin: "finish_process env p base ?e (of_nat r) ?k = Inr k'" "k_user k' p = ld_mem l2" "threads (k_sched k') t = Some ?th"
        "procs (k_sched k') p = Some x'" "length (p_files x') = 3"
        "processes (k_sched k') = processes (k_sched k) @ [p]" "cpus (k_sched k') = cpus (k_sched k)"
    by auto
  have "?e \<noteq> 0" using image by (simp add: image_fits_def)
  then have "populate_process env p elf argv (length envp) (Some envp) None k = Inr (Some p, k')"
    using space(1) memory(1) le(1) fin(1) l(1) by (simp add: populate_process_def)
  then show ?thesis
    using fin(2-7) le(2,3,5) r by (intro exI [of _ k'] exI [of _ ?th] exI [of _ info]) auto
qed

subsection \<open>An example\<close>

text \<open>A page map that has all its tables takes new entries without an allocation.\<close>

definition full_tables :: "page_map \<Rightarrow> bool" where
  "full_tables pm \<longleftrightarrow> pml4_phys pm = 0 \<and> (\<forall>i. page_dirs_virt pm i \<noteq> 0) \<and> (\<forall>i j. present (page_dirs pm i j) \<and> page_tables pm i j \<noteq> None)"

lemma map_one_full:
  assumes "full_tables pm" "unat virt < 2 ^ 39"
  shows "\<exists>pm'. full_tables pm' \<and> map_virtual_memory_4k tp 1 phys virt flags pm vm = Inr (pm', vm)"
proof -
  obtain tv entries where "page_tables pm (PDPT_GET_INDEX virt) (PDE_GET_INDEX virt) = Some (tv, entries)"
    using assms(1) by (force simp: full_tables_def)
  moreover have "PML4_GET_INDEX virt = 0" "\<not> PDPT_GET_INDEX virt > 511"
    using index_of_page [OF assms(2)] index_bound(2) [of virt] by simp_all
  ultimately show ?thesis using assms(1) by (simp add: Let_def full_tables_def)
qed

lemma map_unbacked_full:
  assumes "image o1 = None"
  shows "full_tables pm \<Longrightarrow> unat virt + 4096 * n \<le> 2 ^ 39 \<Longrightarrow>
    \<exists>pm'. full_tables pm' \<and> map_blocks tp o1 (replicate n 0) virt pm vm = Inr (pm', vm)"
proof (induction n arbitrary: virt pm)
  case (Suc n)
  have e: "block_entry o1 0 = Inr (0, PAGE_USER)" using assms by (simp add: block_entry_def)
  have "unat virt < 2 ^ 39" using Suc.prems(2) by simp
  from map_one_full [OF Suc.prems(1) this] obtain pm1 where
    1: "full_tables pm1" "map_virtual_memory_4k tp 1 0 virt PAGE_USER pm vm = Inr (pm1, vm)" by blast
  have "unat (virt + 4096) + 4096 * n \<le> 2 ^ 39" using Suc.prems(2) by (subst unat_plus_no_wrap) simp_all
  with Suc.IH 1(1) obtain pm2 where "full_tables pm2" "map_blocks tp o1 (replicate n 0) (virt + 4096) pm1 vm = Inr (pm2, vm)" by blast
  then show ?case using e 1(2) by (auto simp del: map_virtual_memory_4k.simps)
qed simp

lemma next_allocations:
  "allocate_physical_block \<lparr>phys_mem_bitmap = [- 1, 1], used_blocks = 1, max_blocks = 64, next_chunk = 1\<rparr>
     = Inr (0x21000, \<lparr>phys_mem_bitmap = [- 1, 3], used_blocks = 2, max_blocks = 64, next_chunk = 1\<rparr>)"
  "allocate_physical_block \<lparr>phys_mem_bitmap = [- 1, 3], used_blocks = 2, max_blocks = 64, next_chunk = 1\<rparr>
     = Inr (0x22000, \<lparr>phys_mem_bitmap = [- 1, 7], used_blocks = 3, max_blocks = 64, next_chunk = 1\<rparr>)"
  by (simp_all add: allocate_physical_block_def get_first_free_block_def search_chunks.simps search_chunk_def
      first_clear_bit.simps set_bit_def)

definition demo_env :: "(unit, unit) env" where
  "demo_env = \<lparr>env_tp = (\<lambda>_. 0), env_uses = (\<lambda>_. 0), env_pml4 = (\<lambda>_. 0), env_pdpt = (\<lambda>_. 0), env_cr3 = 0, env_fx = (),
     env_junk = (\<lambda>_. 0), env_lookup = (\<lambda>_ _. None), env_open = (\<lambda>_ w. (None, w)), env_file = (\<lambda>_ _. []), env_malloc = 2 ^ 63\<rparr>"

definition demo_kernel :: "(unit, unit) kernel" where
  "demo_kernel =
     \<lparr>k_sched = \<lparr>threads = [5 \<mapsto> user_registers (new_thread 5 () 0)],
        procs = [5 \<mapsto> \<lparr>p_pid = 1, p_threads = [5], p_files = [], active_ticks = 0, p_pml4 = 0\<rparr>],
        cpus = [], processes = [], dead_processes = [], scheduler_ready = False\<rparr>,
      k_ident = (\<lambda>_. None), k_spaces = [5 \<mapsto> \<lparr>sp_regions = [], sp_pm = mm_pm (ld_mm demo_loading)\<rparr>],
      k_vmos = (\<lambda>_. None), k_vm = mm_vm (ld_mm demo_loading), k_mem = demo_mem, k_user = (\<lambda>_ _. 0),
      k_next_pid = 2, k_next = 6, k_oid = 0, k_world = ()\<rparr>"

lemma hit_full:
  assumes "full_tables pm" "physical_blocks o1 ! i = 0" "i = unat (ucast (drop_bit 12 offset) :: u32)" "i < block_count o1"
    "i < length (physical_blocks o1)" "anonymous o1" "allocate_physical_block (vm_phys vm) = Inr (phys, p)" "phys < 0xfffff000"
    "phys \<noteq> 0" "unat (base + offset) < 2 ^ 39"
  shows "\<exists>pm'. full_tables pm' \<and> hit tp 0 o1 base offset pm vm
    = Inr (0, o1\<lparr>physical_blocks := (physical_blocks o1)[i := ucast (drop_bit 12 phys)]\<rparr>, pm', vm\<lparr>vm_phys := p\<rparr>)"
proof -
  obtain pm' where "full_tables pm'" "map_virtual_memory_4k tp 1 phys (base + offset) (TABLE_PRESENT OR TABLE_WRITEABLE OR PAGE_USER)
      pm (vm\<lparr>vm_phys := p\<rparr>) = Inr (pm', vm\<lparr>vm_phys := p\<rparr>)"
    using map_one_full [OF assms(1,10)] by blast
  then show ?thesis using assms
    by (intro exI [of _ pm']) (simp add: hit_def Let_def full_tables_def del: map_virtual_memory_4k.simps One_nat_def)
qed

lemma stack_pages_eq:
  assumes "allocate_anonymous_vmo (env_tp env) (ld_oid l) (env_uses env (ld_oid l)) 0x200000 0 False (ld_mm l) = Inr (Some i, mm)"
    "mm_vmos mm (ld_oid l) = Some o0" "r_base (mm_regions mm ! i) = base"
    "hit (env_tp env) (env_cr3 env) o0 base 0x1ff000 (mm_pm mm) (mm_vm mm) = Inr (st1, o1, pm1, vm1)"
    "hit (env_tp env) (env_cr3 env) o1 base 0x1fe000 pm1 vm1 = Inr (st2, o2, pm2, vm2)"
  shows "stack_pages env l = Inr (base, l\<lparr>ld_oid := ld_oid l + 1,
      ld_mm := mm\<lparr>mm_vmos := (mm_vmos mm)(ld_oid l \<mapsto> o2), mm_pm := pm2, mm_vm := vm2\<rparr>\<rparr>)"
  using assms by (simp add: stack_pages_def Let_def)

lemma demo_stack_pages:
  "\<exists>l'. stack_pages demo_env (process_view 5 \<lparr>sp_regions = [], sp_pm = mm_pm (ld_mm demo_loading)\<rparr> demo_kernel) = Inr (4096, l')
     \<and> full_tables (mm_pm (ld_mm l')) \<and> ld_oid l' = 1
     \<and> mm_regions (ld_mm l') = [\<lparr>r_base = 4096, r_size = 0x200000, r_vmo = Some 0\<rparr>]
     \<and> mm_vm (ld_mm l') = \<lparr>vm_heap = \<lparr>kernel_heap_dir = (\<lambda>_. 3), kernel_heap_dir_tables = (\<lambda>_ _. 0)\<rparr>,
         vm_phys = \<lparr>phys_mem_bitmap = [- 1, 3], used_blocks = 2, max_blocks = 64, next_chunk = 1\<rparr>\<rparr>"
proof -
  let ?h = "\<lparr>kernel_heap_dir = (\<lambda>_. 3), kernel_heap_dir_tables = (\<lambda>_ _. 0)\<rparr> :: kheap"
  let ?vm = "\<lambda>p. \<lparr>vm_heap = ?h, vm_phys = p\<rparr>"
  let ?pm = "mm_pm (ld_mm demo_loading)" and ?p0 = "\<lparr>phys_mem_bitmap = [- 1, 0], used_blocks = 0, max_blocks = 64, next_chunk = 1\<rparr>"
  define o0 where "o0 = \<lparr>vmo_size = 0x200000, use_count = 1, anonymous = True, shared = False, cow = False,
      physical_blocks = replicate 512 0, image = None\<rparr>"
  have full: "full_tables ?pm" by (simp add: full_tables_def demo_loading_def present_def TABLE_PRESENT_def)
  have vm: "mm_vm (ld_mm demo_loading) = ?vm ?p0" by (simp add: demo_loading_def)
  have bc: "block_count o0 = 512" "anonymous o0" "length (physical_blocks o0) = 512"
    and z: "i < 512 \<Longrightarrow> physical_blocks o0 ! i = 0" for i
    by (simp_all add: o0_def block_count_def)
  have "\<exists>pm'. full_tables pm' \<and> map_blocks (\<lambda>_. 0) o0 (replicate 512 0) 4096 ?pm (?vm ?p0) = Inr (pm', ?vm ?p0)"
    by (rule map_unbacked_full) (simp_all add: o0_def full)
  then obtain pm1 where 1: "full_tables pm1" "map_blocks (\<lambda>_. 0) o0 (replicate 512 0) 4096 ?pm (?vm ?p0) = Inr (pm1, ?vm ?p0)" by blast
  have an: "allocate_anonymous_vmo (\<lambda>_. 0) 0 0 0x200000 0 False \<lparr>mm_regions = [], mm_vmos = (\<lambda>_. None), mm_pm = ?pm, mm_vm = ?vm ?p0\<rparr>
      = Inr (Some 0, \<lparr>mm_regions = [\<lparr>r_base = 4096, r_size = 0x200000, r_vmo = Some 0\<rparr>], mm_vmos = [0 \<mapsto> o0], mm_pm = pm1, mm_vm = ?vm ?p0\<rparr>)"
    using 1(2) bc by (simp add: allocate_anonymous_vmo_def aligned_def place_region_def find_available_region_def KERNEL_VIRTUAL_BASE_def
        mapped_region_def physical_vm_object_def PAGE_COUNT_4K_def attach_def map_allocated_blocks_def o0_def block_count_def)
  let ?o1 = "o0\<lparr>physical_blocks := (physical_blocks o0)[511 := 32]\<rparr>"
  have "\<exists>pm'. full_tables pm' \<and> hit (\<lambda>_. 0) 0 o0 4096 0x1ff000 pm1 (?vm ?p0)
      = Inr (0, o0\<lparr>physical_blocks := (physical_blocks o0)[511 := ucast (drop_bit 12 (0x20000 :: u64))]\<rparr>, pm',
          (?vm ?p0)\<lparr>vm_phys := \<lparr>phys_mem_bitmap = [- 1, 1], used_blocks = 1, max_blocks = 64, next_chunk = 1\<rparr>\<rparr>)"
    by (rule hit_full) (simp_all add: 1(1) bc z small_allocation [simplified])
  then obtain pm2 where 2: "full_tables pm2" "hit (\<lambda>_. 0) 0 o0 4096 0x1ff000 pm1 (?vm ?p0)
      = Inr (0, ?o1, pm2, ?vm \<lparr>phys_mem_bitmap = [- 1, 1], used_blocks = 1, max_blocks = 64, next_chunk = 1\<rparr>)" by auto
  have "\<exists>pm'. full_tables pm' \<and> hit (\<lambda>_. 0) 0 ?o1 4096 0x1fe000 pm2 (?vm \<lparr>phys_mem_bitmap = [- 1, 1], used_blocks = 1, max_blocks = 64, next_chunk = 1\<rparr>)
      = Inr (0, ?o1\<lparr>physical_blocks := (physical_blocks ?o1)[510 := ucast (drop_bit 12 (0x21000 :: u64))]\<rparr>, pm',
          (?vm \<lparr>phys_mem_bitmap = [- 1, 1], used_blocks = 1, max_blocks = 64, next_chunk = 1\<rparr>)
            \<lparr>vm_phys := \<lparr>phys_mem_bitmap = [- 1, 3], used_blocks = 2, max_blocks = 64, next_chunk = 1\<rparr>\<rparr>)"
    by (rule hit_full) (simp_all add: 2(1) bc bc(1) [unfolded block_count_def] block_count_def z next_allocations [simplified])
  then obtain pm3 o3 where 3: "full_tables pm3" "hit (\<lambda>_. 0) 0 ?o1 4096 0x1fe000 pm2 (?vm \<lparr>phys_mem_bitmap = [- 1, 1], used_blocks = 1, max_blocks = 64, next_chunk = 1\<rparr>)
      = Inr (0, o3, pm3, ?vm \<lparr>phys_mem_bitmap = [- 1, 3], used_blocks = 2, max_blocks = 64, next_chunk = 1\<rparr>)" by auto
  let ?l = "process_view 5 \<lparr>sp_regions = [], sp_pm = ?pm\<rparr> demo_kernel"
  have l: "ld_mm ?l = \<lparr>mm_regions = [], mm_vmos = (\<lambda>_. None), mm_pm = ?pm, mm_vm = ?vm ?p0\<rparr>" "ld_oid ?l = 0"
    by (simp_all add: process_view_def demo_kernel_def vm)
  let ?mm = "\<lparr>mm_regions = [\<lparr>r_base = 4096, r_size = 0x200000, r_vmo = Some 0\<rparr>], mm_vmos = [0 \<mapsto> o0], mm_pm = pm1, mm_vm = ?vm ?p0\<rparr>"
  have env: "env_tp demo_env = (\<lambda>_. 0)" "env_uses demo_env = (\<lambda>_. 0)" "env_cr3 demo_env = 0" by (simp_all add: demo_env_def)
  have "stack_pages demo_env ?l = Inr (4096, ?l\<lparr>ld_oid := ld_oid ?l + 1, ld_mm := ?mm\<lparr>mm_vmos := (mm_vmos ?mm)(ld_oid ?l \<mapsto> o3), mm_pm := pm3,
      mm_vm := ?vm \<lparr>phys_mem_bitmap = [- 1, 3], used_blocks = 2, max_blocks = 64, next_chunk = 1\<rparr>\<rparr>\<rparr>)"
  proof (rule stack_pages_eq)
    show "allocate_anonymous_vmo (env_tp demo_env) (ld_oid ?l) (env_uses demo_env (ld_oid ?l)) 0x200000 0 False (ld_mm ?l) = Inr (Some 0, ?mm)"
      unfolding l env by (rule an)
    show "hit (env_tp demo_env) (env_cr3 demo_env) o0 4096 0x1ff000 (mm_pm ?mm) (mm_vm ?mm)
        = Inr (0, ?o1, pm2, ?vm \<lparr>phys_mem_bitmap = [- 1, 1], used_blocks = 1, max_blocks = 64, next_chunk = 1\<rparr>)"
      using 2(2) by (simp add: env)
    show "hit (env_tp demo_env) (env_cr3 demo_env) ?o1 4096 0x1fe000 pm2 (?vm \<lparr>phys_mem_bitmap = [- 1, 1], used_blocks = 1, max_blocks = 64, next_chunk = 1\<rparr>)
        = Inr (0, o3, pm3, ?vm \<lparr>phys_mem_bitmap = [- 1, 3], used_blocks = 2, max_blocks = 64, next_chunk = 1\<rparr>)"
      using 3(2) by (simp add: env)
  qed (simp_all add: l)
  then show ?thesis using 3(1) by (simp add: l)
qed

text \<open>The single segment of the example goes to a page of its own behind the stack.\<close>

lemma demo_map_image:
  assumes "full_tables (mm_pm (ld_mm l))" "mm_regions (ld_mm l) = [\<lparr>r_base = 4096, r_size = 0x200000, r_vmo = Some 0\<rparr>]"
    "mm_vm (ld_mm l) = \<lparr>vm_heap = \<lparr>kernel_heap_dir = (\<lambda>_. 3), kernel_heap_dir_tables = (\<lambda>_ _. 0)\<rparr>,
       vm_phys = \<lparr>phys_mem_bitmap = [- 1, 3], used_blocks = 2, max_blocks = 64, next_chunk = 1\<rparr>\<rparr>"
  shows "\<exists>l1. map_segments (\<lambda>_. 0) (\<lambda>_. 0) 0 (image_headers demo_mem 1099511627776) l = Inr l1"
proof -
  let ?ph = "\<lparr>p_type = 1, p_offset = 120, p_vaddr = 0x400000, p_filesz = 2, p_memsz = 4\<rparr> :: phdr"
  have "\<exists>h. kernel_allocate_4k_pages (\<lambda>_. 0) 1 \<lparr>kernel_heap_dir = (\<lambda>_. 3), kernel_heap_dir_tables = (\<lambda>_ _. 0)\<rparr> = Inr (0xFFFFFFFFC0000000, h)"
    by (simp add: kernel_allocate_4k_pages_def scan_dir.simps [of _ _ 0] scan_table.simps [of _ _ 0 0]
        present_def flag_defs set_entry_def heap_address_def)
  then obtain h where h: "kernel_allocate_4k_pages (\<lambda>_. 0) 1 \<lparr>kernel_heap_dir = (\<lambda>_. 3), kernel_heap_dir_tables = (\<lambda>_ _. 0)\<rparr> = Inr (0xFFFFFFFFC0000000, h)" by blast
  define o1 where "o1 = \<lparr>vmo_size = 4096, use_count = 0, anonymous = False, shared = False, cow = False,
      physical_blocks = [34], image = Some (0x400000, True)\<rparr>"
  have "\<exists>vm. process_image_vm_object (\<lambda>_. 0) 0 0x400000 4096 True (mm_vm (ld_mm l)) = Inr (o1, vm)"
    using h by (simp add: assms(3) process_image_vm_object_def physical_vm_object_def aligned_def PAGE_COUNT_4K_def Let_def o1_def
        next_allocations [simplified] set_entry_def vm_free_page_def)
  then obtain vm where o1: "process_image_vm_object (\<lambda>_. 0) 0 0x400000 4096 True (mm_vm (ld_mm l)) = Inr (o1, vm)" by blast
  obtain pm' where pm': "map_virtual_memory_4k (\<lambda>_. 0) 1 0x22000 0x400000 (PAGE_USER OR TABLE_PRESENT OR TABLE_WRITEABLE) (mm_pm (ld_mm l)) vm = Inr (pm', vm)"
    using map_one_full [OF assms(1), of "0x400000" "\<lambda>_. 0" "0x22000" "PAGE_USER OR TABLE_PRESENT OR TABLE_WRITEABLE" vm]
    by (simp del: map_virtual_memory_4k.simps One_nat_def) blast
  let ?o = "o1\<lparr>use_count := 1\<rparr>"
  have e: "block_count ?o = 1" "block_entry ?o 34 = Inr (0x22000, PAGE_USER OR TABLE_PRESENT OR TABLE_WRITEABLE)"
    by (simp_all add: o1_def block_count_def block_entry_def block_address_def)
  have mb: "map_allocated_blocks (\<lambda>_. 0) ?o 0x400000 (mm_pm (ld_mm l)) vm = Inr (pm', vm)"
    using pm' e by (simp add: map_allocated_blocks_def o1_def del: map_virtual_memory_4k.simps One_nat_def)
  have "page_base 0 ?ph = 0x400000" "image_size ?ph = 4096" by (simp_all add: page_base_def image_size_def PAGE_SIZE_4K_MASK_def)
  moreover have "\<exists>mm. map_vmo (\<lambda>_. 0) (ld_oid l) 0x400000 True ((ld_mm l)\<lparr>mm_vmos := (mm_vmos (ld_mm l))(ld_oid l \<mapsto> o1), mm_vm := vm\<rparr>) = Inr mm"
    using mb assms(2) by (simp del: kbind_Inr_iff add: map_vmo_def o1_def aligned_def place_region_def
        allocate_region_at_def r_end_def insert_at_def mapped_region_def attach_def Let_def)
  ultimately show ?thesis
    using o1 by (auto simp: demo_image_headers map_segment_def loadable_def PT_LOAD_def Let_def)
qed

lemma elf_process_ready_witness:
  "\<exists>k' th' info. populate_process demo_env 5 1099511627776 [2 ^ 64 - 2 ^ 39] 0 (Some []) None demo_kernel = Inr (Some 5, k')
     \<and> threads (k_sched k') 5 = Some th' \<and> rip (registers th') = 0x400000
     \<and> initial_stack (k_user k' 5) (unat (rsp (registers th'))) info [[]] []"
proof -
  let ?pm = "mm_pm (ld_mm demo_loading)"
  obtain l where l: "stack_pages demo_env (process_view 5 \<lparr>sp_regions = [], sp_pm = ?pm\<rparr> demo_kernel) = Inr (4096, l)"
      "full_tables (mm_pm (ld_mm l))" "mm_regions (ld_mm l) = [\<lparr>r_base = 4096, r_size = 0x200000, r_vmo = Some 0\<rparr>]"
      "mm_vm (ld_mm l) = \<lparr>vm_heap = \<lparr>kernel_heap_dir = (\<lambda>_. 3), kernel_heap_dir_tables = (\<lambda>_ _. 0)\<rparr>,
         vm_phys = \<lparr>phys_mem_bitmap = [- 1, 3], used_blocks = 2, max_blocks = 64, next_chunk = 1\<rparr>\<rparr>"
    using demo_stack_pages by blast
  obtain l1 where l1: "map_segments (\<lambda>_. 0) (\<lambda>_. 0) 0 (image_headers demo_mem 1099511627776) l = Inr l1"
    using demo_map_image [OF l(2-4)] by blast
  have k: "k_mem demo_kernel = demo_mem" by (simp add: demo_kernel_def)
  have fits: "image_fits 1099511627776 (k_mem demo_kernel)"
    by (simp add: k image_fits_def demo_verify demo_headers demo_image_headers PT_INTERP_def seg_ok_def aligned_def seg_start_def seg_lo_def)
  have strs: "list_all2 (kernel_string (k_mem demo_kernel)) [2 ^ 64 - 2 ^ 39] [[]]" "stack_room [[]] [] \<le> 8192"
    by (simp_all add: k kernel_string_def demo_mem_def NAME_MAX_def stack_room_def room_def)
  have inv: "pm_inv ?pm" "phys_inv (vm_phys (k_vm demo_kernel))"
    by (simp_all add: demo_loading_def demo_kernel_def pm_inv_def phys_inv_def)
  have "\<exists>k' th' info. populate_process demo_env 5 1099511627776 [2 ^ 64 - 2 ^ 39] (length ([] :: ptr list)) (Some []) None demo_kernel = Inr (Some 5, k')
    \<and> threads (k_sched k') 5 = Some th' \<and> rip (registers th') = e_entry (ehdr_at (k_mem demo_kernel) 1099511627776)
    \<and> initial_stack (k_user k' 5) (unat (rsp (registers th'))) info [[]] []"
    using elf_process_ready [OF _ inv _ _ _ _ fits strs(1) list_all2_Nil [THEN iffD2] strs(2) l(1), of _ 5 _ l1] l1 k
    by (fastforce simp: demo_kernel_def demo_env_def)
  then show ?thesis by (simp add: k demo_headers)
qed

end
