(* ===== verification/Liballoc.thy ===== *)
theory Liballoc
  imports Paging KString
begin

unbundle bit_operations_syntax

text \<open>
  The kernel heap, \<^verbatim>\<open>Kernel/src/liballoc/liballoc.c\<close> with the page functions of
  \<^verbatim>\<open>Kernel/src/liballoc/liballoc_internal.cpp\<close>.  Every block of memory starts with a boundary tag.  The tags of pages
  allocated together form a chain in the order of their addresses; the tags of free blocks are kept in doubly
  linked lists, one for each power of two.  A field of the tags is a function from addresses, so that reading and
  writing a field of a tag is application and update; pointers are natural numbers, 0 is null.  Sizes are 32-bit
  words as in the structure.  A number of rounds bounds the loops over the lists: a list that does not end is the
  fault \<open>Loops\<close>.  The lock is held for the whole of \<open>malloc\<close> and \<open>free\<close>.
\<close>

section \<open>Model\<close>

record heap =
  h_magic :: "ptr \<Rightarrow> u32"
  h_size :: "ptr \<Rightarrow> u32"
  h_real :: "ptr \<Rightarrow> u32"
  h_index :: "ptr \<Rightarrow> int"
  h_left :: "ptr \<Rightarrow> ptr"
  h_right :: "ptr \<Rightarrow> ptr"
  h_next :: "ptr \<Rightarrow> ptr"
  h_prev :: "ptr \<Rightarrow> ptr"
  l_freePages :: "nat \<Rightarrow> ptr"
  l_completePages :: "nat \<Rightarrow> int"
  l_initialized :: bool

definition LIBALLOC_MAGIC :: u32 where "LIBALLOC_MAGIC = 0xc001c0de"

definition MAXCOMPLETE :: int where "MAXCOMPLETE = 5"

definition MINEXP :: int where "MINEXP = 8"

text \<open>The size of a boundary tag: four 32-bit integers and four pointers.\<close>

abbreviation tag_size :: nat where "tag_size \<equiv> 48"

function getexp_loop :: "nat \<Rightarrow> nat \<Rightarrow> nat" where
  "getexp_loop shift sz = (if shift < 32 \<and> \<not> 2 ^ shift > sz then getexp_loop (shift + 1) sz else shift)"
  by pat_completeness auto
termination by (relation "measure (\<lambda>(shift, sz). 32 - shift)") auto

declare getexp_loop.simps [simp del]

definition getexp :: "u32 \<Rightarrow> int" where
  "getexp sz = (if unat sz < 2 ^ 8 then - 1 else int (getexp_loop 8 (unat sz)) - 1)"

definition list_index :: "u32 \<Rightarrow> int" where
  "list_index sz = (if getexp sz < MINEXP then MINEXP else getexp sz)"

definition insert_tag :: "ptr \<Rightarrow> int \<Rightarrow> heap \<Rightarrow> heap" where
  "insert_tag tag index h =
     (let realIndex = (if index < 0 then list_index (h_real h tag - 48) else index); i = nat realIndex;
          h = h\<lparr>h_index := (h_index h)(tag := realIndex)\<rparr>;
          h = (if l_freePages h i \<noteq> 0
               then h\<lparr>h_prev := (h_prev h)(l_freePages h i := tag), h_next := (h_next h)(tag := l_freePages h i)\<rparr> else h)
      in h\<lparr>l_freePages := (l_freePages h)(i := tag)\<rparr>)"

definition remove_tag :: "ptr \<Rightarrow> heap \<Rightarrow> heap kres" where
  "remove_tag tag h =
     (if h_index h tag < 0 then Inl Out_of_bounds
      else let i = nat (h_index h tag);
               h = (if l_freePages h i = tag then h\<lparr>l_freePages := (l_freePages h)(i := h_next h tag)\<rparr> else h);
               h = (if h_prev h tag \<noteq> 0 then h\<lparr>h_next := (h_next h)(h_prev h tag := h_next h tag)\<rparr> else h);
               h = (if h_next h tag \<noteq> 0 then h\<lparr>h_prev := (h_prev h)(h_next h tag := h_prev h tag)\<rparr> else h)
           in Inr (h\<lparr>h_next := (h_next h)(tag := 0), h_prev := (h_prev h)(tag := 0), h_index := (h_index h)(tag := - 1)\<rparr>))"

text \<open>\<open>tag\<close> becomes part of its left neighbour, which is the result.\<close>

definition melt_left :: "ptr \<Rightarrow> heap \<Rightarrow> ptr \<times> heap" where
  "melt_left tag h =
     (let left = h_left h tag;
          h = h\<lparr>h_real := (h_real h)(left := h_real h left + h_real h tag), h_right := (h_right h)(left := h_right h tag)\<rparr>;
          h = (if h_right h tag \<noteq> 0 then h\<lparr>h_left := (h_left h)(h_right h tag := left)\<rparr> else h)
      in (left, h))"

definition absorb_right :: "ptr \<Rightarrow> heap \<Rightarrow> heap kres" where
  "absorb_right tag h =
     (let right = h_right h tag in
      kbind (remove_tag right h) (\<lambda>h.
        let h = h\<lparr>h_real := (h_real h)(tag := h_real h tag + h_real h right), h_right := (h_right h)(tag := h_right h right)\<rparr>
        in Inr (if h_right h right \<noteq> 0 then h\<lparr>h_left := (h_left h)(h_right h right := tag)\<rparr> else h)))"

text \<open>The space behind the requested size becomes a free block; the size of the new tag is not set.\<close>

definition split_tag :: "ptr \<Rightarrow> heap \<Rightarrow> heap" where
  "split_tag tag h =
     (let remainder = h_real h tag - 48 - h_size h tag; new_tag = tag + tag_size + unat (h_size h tag);
          h = h\<lparr>h_magic := (h_magic h)(new_tag := LIBALLOC_MAGIC), h_real := (h_real h)(new_tag := remainder),
                h_next := (h_next h)(new_tag := 0), h_prev := (h_prev h)(new_tag := 0),
                h_left := (h_left h)(new_tag := tag), h_right := (h_right h)(new_tag := h_right h tag)\<rparr>;
          h = (if h_right h new_tag \<noteq> 0 then h\<lparr>h_left := (h_left h)(h_right h new_tag := new_tag)\<rparr> else h);
          h = h\<lparr>h_right := (h_right h)(tag := new_tag)\<rparr>;
          h = h\<lparr>h_real := (h_real h)(tag := h_real h tag - h_real h new_tag)\<rparr>
      in insert_tag new_tag (- 1) h)"

definition new_pages :: "u32 \<Rightarrow> nat" where
  "new_pages sz =
     (let usage = unat (sz + 48); pages = usage div 4096 + (if usage mod 4096 \<noteq> 0 then 1 else 0)
      in if pages < 16 then 16 else pages)"

definition new_tag :: "ptr \<Rightarrow> u32 \<Rightarrow> nat \<Rightarrow> heap \<Rightarrow> heap" where
  "new_tag tag sz n h =
     h\<lparr>h_magic := (h_magic h)(tag := LIBALLOC_MAGIC), h_size := (h_size h)(tag := sz),
       h_real := (h_real h)(tag := of_nat n * 4096), h_index := (h_index h)(tag := - 1),
       h_next := (h_next h)(tag := 0), h_prev := (h_prev h)(tag := 0),
       h_left := (h_left h)(tag := 0), h_right := (h_right h)(tag := 0)\<rparr>"

definition allocate_new_tag :: "(nat \<Rightarrow> 'p \<Rightarrow> (ptr \<times> 'p) kres) \<Rightarrow> u32 \<Rightarrow> heap \<Rightarrow> 'p \<Rightarrow> (ptr \<times> heap \<times> 'p) kres" where
  "allocate_new_tag alloc sz h w =
     kbind (alloc (new_pages sz) w) (\<lambda>(tag, w).
     Inr (tag, if tag = 0 then h else new_tag tag sz (new_pages sz) h, w))"

text \<open>The search for a block with room for the request and one more tag; the comparison is one of 64-bit integers.\<close>

primrec find_tag :: "nat \<Rightarrow> u64 \<Rightarrow> heap \<Rightarrow> ptr \<Rightarrow> ptr kres" where
  "find_tag 0 sz h tag = Inl Loops"
| "find_tag (Suc n) sz h tag =
     (if tag = 0 then Inr 0
      else if ucast (h_real h tag) - 48 \<ge> sz + 48 then Inr tag else find_tag n sz h (h_next h tag))"

text \<open>The end of \<open>malloc\<close>: the size is noted and the rest of the block split off if it is worth it.\<close>

definition place_block :: "ptr \<Rightarrow> u64 \<Rightarrow> heap \<Rightarrow> ptr \<times> heap" where
  "place_block tag sz h =
     (let h = h\<lparr>h_size := (h_size h)(tag := ucast sz)\<rparr>;
          remainder = ucast (ucast (h_real h tag) - sz - 48 * 2 :: u64) :: u32
      in (tag + tag_size,
          if remainder \<noteq> 0 \<and> unat remainder < 2 ^ 31 \<and> getexp remainder \<ge> 0 then split_tag tag h else h))"

definition malloc ::
  "nat \<Rightarrow> (nat \<Rightarrow> 'p \<Rightarrow> (ptr \<times> 'p) kres) \<Rightarrow> u64 \<Rightarrow> heap \<Rightarrow> 'p \<Rightarrow> (ptr \<times> heap \<times> 'p) kres" where
  "malloc rounds alloc sz h w =
     (let h = (if l_initialized h then h
               else h\<lparr>l_freePages := (\<lambda>_. 0), l_completePages := (\<lambda>_. 0), l_initialized := True\<rparr>);
          index = nat (list_index (ucast sz)) in
      kbind (find_tag rounds sz h (l_freePages h index)) (\<lambda>tag.
      if tag = 0
      then kbind (allocate_new_tag alloc (ucast sz) h w) (\<lambda>(tag, h, w).
        if tag = 0 then Inr (0, h, w) else let (p, h) = place_block tag sz h in Inr (p, h, w))
      else kbind (remove_tag tag h) (\<lambda>h.
        let h = (if h_left h tag = 0 \<and> h_right h tag = 0
                 then h\<lparr>l_completePages := (l_completePages h)(index := l_completePages h index - 1)\<rparr> else h);
            (p, h) = place_block tag sz h
        in Inr (p, h, w))))"

primrec melt_lefts :: "nat \<Rightarrow> ptr \<Rightarrow> heap \<Rightarrow> (ptr \<times> heap) kres" where
  "melt_lefts 0 tag h = Inl Loops"
| "melt_lefts (Suc n) tag h =
     (if h_left h tag \<noteq> 0 \<and> h_index h (h_left h tag) \<ge> 0
      then let (left, h) = melt_left tag h in kbind (remove_tag left h) (melt_lefts n left)
      else Inr (tag, h))"

primrec absorb_rights :: "nat \<Rightarrow> ptr \<Rightarrow> heap \<Rightarrow> heap kres" where
  "absorb_rights 0 tag h = Inl Loops"
| "absorb_rights (Suc n) tag h =
     (if h_right h tag \<noteq> 0 \<and> h_index h (h_right h tag) \<ge> 0
      then kbind (absorb_right tag h) (absorb_rights n tag)
      else Inr h)"

definition free_pages :: "u32 \<Rightarrow> nat" where
  "free_pages real =
     (let pages = unat real div 4096 + (if unat real mod 4096 \<noteq> 0 then 1 else 0) in if pages < 16 then 16 else pages)"

definition free_block ::
  "nat \<Rightarrow> (ptr \<Rightarrow> nat \<Rightarrow> 'p \<Rightarrow> 'p kres) \<Rightarrow> ptr \<Rightarrow> heap \<Rightarrow> 'p \<Rightarrow> (heap \<times> 'p) kres" where
  "free_block rounds release p h w =
     (if p = 0 \<or> h_magic h (p - tag_size) \<noteq> LIBALLOC_MAGIC then Inr (h, w)
      else kbind (melt_lefts rounds (p - tag_size) h) (\<lambda>(tag, h).
        kbind (absorb_rights rounds tag h) (\<lambda>h.
          let index = list_index (h_real h tag - 48); i = nat index in
          if h_left h tag = 0 \<and> h_right h tag = 0
          then if l_completePages h i = MAXCOMPLETE
               then kbind (release tag (free_pages (h_real h tag)) w) (\<lambda>w. Inr (h, w))
               else Inr (insert_tag tag index (h\<lparr>l_completePages := (l_completePages h)(i := l_completePages h i + 1)\<rparr>), w)
          else Inr (insert_tag tag index h, w))))"

subsection \<open>Pages\<close>

definition liballoc_alloc :: "(nat \<Rightarrow> u64) \<Rightarrow> nat \<Rightarrow> vmm \<Rightarrow> (ptr \<times> vmm) kres" where
  "liballoc_alloc tp n vm =
     kbind (kernel_allocate_4k_pages tp n (vm_heap vm)) (\<lambda>(addr, h).
     kbind (map_kernel_pages n addr (vm\<lparr>vm_heap := h\<rparr>)) (\<lambda>vm. Inr (unat addr, vm)))"

primrec release_frames :: "nat \<Rightarrow> u64 \<Rightarrow> vmm \<Rightarrow> vmm kres" where
  "release_frames 0 addr vm = Inr vm"
| "release_frames (Suc n) addr vm =
     kbind (vm_free_phys (virtual_to_physical_addr (vm_heap vm) addr) vm) (release_frames n (addr + 4096))"

definition liballoc_free :: "ptr \<Rightarrow> nat \<Rightarrow> vmm \<Rightarrow> vmm kres" where
  "liballoc_free addr n vm =
     kbind (release_frames n (of_nat addr) vm) (\<lambda>vm.
     kbind (kernel_free_4k_pages n (of_nat addr) (vm_heap vm)) (\<lambda>h. Inr (vm\<lparr>vm_heap := h\<rparr>)))"

section \<open>Doubly linked lists\<close>

text \<open>The elements \<open>xs\<close> are linked by the functions \<open>nx\<close> and \<open>pv\<close>, between \<open>b\<close> before them and \<open>e\<close> behind them.\<close>

fun linked :: "(ptr \<Rightarrow> ptr) \<Rightarrow> (ptr \<Rightarrow> ptr) \<Rightarrow> ptr \<Rightarrow> ptr list \<Rightarrow> ptr \<Rightarrow> bool" where
  "linked nx pv b [] e \<longleftrightarrow> True"
| "linked nx pv b (x # xs) e \<longleftrightarrow> pv x = b \<and> nx x = hd (xs @ [e]) \<and> linked nx pv x xs e"

lemma linked_append:
  "linked nx pv b (xs @ ys) e \<longleftrightarrow> linked nx pv b xs (hd (ys @ [e])) \<and> linked nx pv (last (b # xs)) ys e"
  by (induction xs arbitrary: b) (auto simp: hd_append)

lemma linked_cong:
  "(\<And>x. x \<in> set xs \<Longrightarrow> nx x = nx' x \<and> pv x = pv' x) \<Longrightarrow> linked nx pv b xs e = linked nx' pv' b xs e"
  by (induction xs arbitrary: b) auto

lemma linked_update [simp]:
  "p \<notin> set xs \<Longrightarrow> linked (nx(p := v)) pv b xs e = linked nx pv b xs e"
  "p \<notin> set xs \<Longrightarrow> linked nx (pv(p := v)) b xs e = linked nx pv b xs e"
  by (auto intro!: linked_cong)

text \<open>The end of a segment is known to its last element only, the beginning to its first.\<close>

lemma linked_redirect:
  assumes "linked nx pv b xs e" "distinct xs" "b \<notin> set xs" "e \<notin> set xs"
  shows "linked (nx(last (b # xs) := e')) pv b xs e'" and "linked nx (pv(hd (xs @ [e]) := b')) b' xs e"
proof -
  show "linked (nx(last (b # xs) := e')) pv b xs e'" using assms(1-3) by (induction xs arbitrary: b) auto
  show "linked nx (pv(hd (xs @ [e]) := b')) b' xs e" using assms by (cases xs) auto
qed

lemma linked_remove:
  assumes "linked nx pv 0 (xs @ p # ys) 0" "distinct (xs @ p # ys)" "0 \<notin> set (xs @ p # ys)"
    and f: "f = (if pv p \<noteq> 0 then nx(pv p := nx p) else nx)" and g: "g = (if nx p \<noteq> 0 then pv(nx p := pv p) else pv)"
  shows "linked (f(p := 0)) (g(p := 0)) 0 (xs @ ys) 0" and "nx p = hd (ys @ [0])" and "pv p = last (0 # xs)"
proof -
  have l: "linked nx pv 0 xs p" "linked nx pv p ys 0" and p: "pv p = last (0 # xs)" "nx p = hd (ys @ [0])"
    using assms(1) by (simp_all add: linked_append)
  have "last (0 # xs) \<in> set (0 # xs)" "hd (ys @ [0]) \<in> set (ys @ [0])" by (rule last_in_set hd_in_set, simp)+
  then have n: "last (0 # xs) \<notin> set ys" "hd (ys @ [0]) \<notin> set xs" "p \<notin> set xs" "p \<notin> set ys" using assms(2,3) by auto
  have "linked f pv 0 xs (hd (ys @ [0]))"
    using linked_redirect(1) [OF l(1), of "hd (ys @ [0])"] assms(2,3) unfolding f p by (cases xs) auto
  moreover have "linked nx g (last (0 # xs)) ys 0"
    using linked_redirect(2) [OF l(2), of "last (0 # xs)"] assms(2,3) unfolding g p by (cases ys) auto
  moreover have "linked f pv' b ys 0 = linked nx pv' b ys 0" "linked nx' g b xs e = linked nx' pv b xs e" for pv' nx' b e
    using n unfolding f g p by simp_all
  ultimately show "linked (f(p := 0)) (g(p := 0)) 0 (xs @ ys) 0" using n by (simp add: linked_append)
  show "nx p = hd (ys @ [0])" "pv p = last (0 # xs)" by (fact p)+
qed

lemma linked_insert:
  assumes "linked nx pv 0 xs 0" "distinct (p # xs)" "0 \<notin> set (p # xs)" "pv p = 0" "nx p = 0"
  shows "xs \<noteq> [] \<Longrightarrow> linked (nx(p := hd xs)) (pv(hd xs := p)) 0 (p # xs) 0" and "xs = [] \<Longrightarrow> linked nx pv 0 [p] 0"
  using linked_redirect(2) [OF assms(1), of p] assms(2-5) by (cases xs; auto)+

section \<open>Free lists\<close>

text \<open>
  \<open>F i\<close> are the tags in the list of exponent \<open>i\<close>: the live tags \<open>L\<close> with that index.  A tag outside the lists has
  index \<open>-1\<close> and no neighbours.
\<close>

definition free_lists :: "heap \<Rightarrow> ptr set \<Rightarrow> (nat \<Rightarrow> ptr list) \<Rightarrow> bool" where
  "free_lists h L F \<longleftrightarrow> finite L \<and> 0 \<notin> L
     \<and> (\<forall>i. linked (h_next h) (h_prev h) 0 (F i) 0 \<and> l_freePages h i = hd (F i @ [0]) \<and> distinct (F i)
          \<and> set (F i) = {p \<in> L. h_index h p = int i})
     \<and> (\<forall>p \<in> L. h_index h p = - 1 \<and> h_next h p = 0 \<and> h_prev h p = 0 \<or> 8 \<le> h_index h p \<and> h_index h p < 32)"

lemma free_listsD:
  assumes "free_lists h L F"
  shows "linked (h_next h) (h_prev h) 0 (F i) 0" "l_freePages h i = hd (F i @ [0])" "distinct (F i)"
    "set (F i) = {p \<in> L. h_index h p = int i}" "0 \<notin> set (F i)" "finite L" "0 \<notin> L"
  using assms by (auto simp: free_lists_def)

text \<open>The functions that remove a tag and insert one change no field of the splits.\<close>

lemma remove_tag_correct:
  assumes "free_lists h L F" "p \<in> L" "0 \<le> h_index h p"
  shows "\<exists>h'. remove_tag p h = Inr h' \<and> free_lists h' L (F(nat (h_index h p) := remove1 p (F (nat (h_index h p)))))
    \<and> h_index h' = (h_index h)(p := - 1) \<and> h_real h' = h_real h \<and> h_size h' = h_size h \<and> h_magic h' = h_magic h
    \<and> h_left h' = h_left h \<and> h_right h' = h_right h \<and> l_initialized h' = l_initialized h"
proof -
  let ?i = "nat (h_index h p)"
  note D = free_listsD [OF assms(1)]
  have "p \<in> set (F ?i)" using D(4) [of ?i] assms(2,3) by simp
  then obtain xs ys where F: "F ?i = xs @ p # ys" by (auto simp: in_set_conv_decomp)
  let ?f = "if h_prev h p \<noteq> 0 then (h_next h)(h_prev h p := h_next h p) else h_next h"
  let ?g = "if h_next h p \<noteq> 0 then (h_prev h)(h_next h p := h_prev h p) else h_prev h"
  have r: "linked (?f(p := 0)) (?g(p := 0)) 0 (xs @ ys) 0" "h_next h p = hd (ys @ [0])" "h_prev h p = last (0 # xs)"
    using linked_remove [of "h_next h" "h_prev h" xs p ys] D(1) [of ?i] D(3) [of ?i] D(5) [of ?i] by (simp_all add: F)
  have d: "distinct (xs @ p # ys)" "0 \<notin> set (xs @ p # ys)" using D(3,5) [of ?i] by (simp_all add: F)
  have e: "h_prev h p \<in> insert 0 (set xs)" "h_next h p \<in> insert 0 (set ys)"
    using last_in_set [of "0 # xs"] hd_in_set [of "ys @ [0]"] unfolding r(2,3) by auto
  then have "h_prev h p \<noteq> p" "h_next h p \<noteq> p" using d by auto
  define h' where "h' = h\<lparr>l_freePages := (if l_freePages h ?i = p then (l_freePages h)(?i := h_next h p) else l_freePages h),
    h_next := ?f(p := 0), h_prev := ?g(p := 0), h_index := (h_index h)(p := - 1)\<rparr>"
  have "remove_tag p h = Inr h'"
    using assms(3) \<open>h_prev h p \<noteq> p\<close> by (simp add: remove_tag_def h'_def Let_def)
  moreover have "free_lists h' L (F(?i := remove1 p (F ?i)))"
  proof -
    have one: "remove1 p (F ?i) = xs @ ys" using d(1) by (simp add: F remove1_append)
    have same: "linked (h_next h') (h_prev h') 0 (F j) 0" if "j \<noteq> ?i" for j
    proof -
      have "set (F j) \<inter> set (F ?i) = {}" using that D(4) [of j] D(4) [of ?i] by auto
      then have "p \<notin> set (F j)" "h_prev h p \<notin> set (F j)" "h_next h p \<notin> set (F j)" using e D(5) [of j] by (auto simp: F)
      then show ?thesis using D(1) [of j] by (simp add: h'_def)
    qed
    have sets: "set (F j) = {q \<in> L. h_index h' q = int j}" if "j \<noteq> ?i" for j
      using D(4) [of j] that assms(3) by (auto simp: h'_def)
    have seti: "set (xs @ ys) = {q \<in> L. h_index h' q = int ?i}"
      using D(4) [of ?i] d(1) assms(3) by (auto simp: h'_def F)
    have head: "l_freePages h' ?i = hd ((xs @ ys) @ [0])"
      using D(2) [of ?i] r(2) d by (cases xs) (auto simp: h'_def F)
    have "h_index h' q = - 1 \<and> h_next h' q = 0 \<and> h_prev h' q = 0 \<or> 8 \<le> h_index h' q \<and> h_index h' q < 32" if "q \<in> L" for q
    proof (cases "q = p \<or> h_index h q \<noteq> - 1")
      case False
      then have "q \<notin> set (F ?i)" "q \<noteq> 0" using D(4) [of ?i] D(7) that assms(3) by auto
      then have "q \<noteq> h_prev h p" "q \<noteq> h_next h p" using e by (auto simp: F)
      then show ?thesis using assms(1) that False by (auto simp: free_lists_def h'_def)
    qed (use assms(1) that in \<open>auto simp: free_lists_def h'_def\<close>)
    moreover have "l_freePages h' j = hd (F j @ [0])" if "j \<noteq> ?i" for j using D(2) [of j] that by (simp add: h'_def)
    moreover have "linked (h_next h') (h_prev h') 0 (xs @ ys) 0" using r(1) by (simp add: h'_def)
    moreover have "distinct (xs @ ys)" using d(1) by simp
    ultimately show ?thesis unfolding free_lists_def one using same sets seti head D(3,6,7) by (auto simp del: set_append)
  qed
  ultimately show ?thesis by (simp add: h'_def)
qed


lemma insert_tag_correct:
  assumes "free_lists h L F" "p \<in> L" "h_index h p = - 1" "8 \<le> i" "i < 32"
    and h': "h' = insert_tag p (int i) h"
  shows "free_lists h' L (F(i := p # F i))"
    and "h_index h' = (h_index h)(p := int i)" "h_real h' = h_real h" "h_size h' = h_size h" "h_magic h' = h_magic h"
      "h_left h' = h_left h" "h_right h' = h_right h" "l_initialized h' = l_initialized h"
proof -
  note D = free_listsD [OF assms(1)]
  have f: "h_index h' = (h_index h)(p := int i)" "l_freePages h' = (l_freePages h)(i := p)"
    "h_prev h' = (if F i \<noteq> [] then (h_prev h)(hd (F i) := p) else h_prev h)"
    "h_next h' = (if F i \<noteq> [] then (h_next h)(p := hd (F i)) else h_next h)"
    using D(2) [of i] D(5) [of i] by (cases "F i"; auto simp: h' insert_tag_def Let_def)+
  have p: "h_next h p = 0" "h_prev h p = 0" "p \<noteq> 0" "p \<notin> set (F j)" for j using assms(1-3) D(4) [of j] D(7) by (auto simp: free_lists_def)
  have "linked (h_next h') (h_prev h') 0 (p # F i) 0"
    using linked_insert [of "h_next h" "h_prev h" "F i" p] D(1) [of i] D(3) [of i] D(5) [of i] p f(3,4) by (cases "F i = []") auto
  moreover have "linked (h_next h') (h_prev h') 0 (F j) 0" if "j \<noteq> i" for j
  proof -
    have "set (F j) \<inter> set (F i) = {}" using that D(4) [of j] D(4) [of i] by auto
    then have "F i \<noteq> [] \<Longrightarrow> hd (F i) \<notin> set (F j)" using hd_in_set by blast
    then show ?thesis using D(1) [of j] p(4) [of j] f(3,4) by simp
  qed
  moreover have "h_index h' q = - 1 \<and> h_next h' q = 0 \<and> h_prev h' q = 0 \<or> 8 \<le> h_index h' q \<and> h_index h' q < 32" if "q \<in> L" for q
  proof (cases "q = p \<or> h_index h q \<noteq> - 1")
    case False
    then have "q \<notin> set (F i)" using D(4) [of i] by auto
    then have "F i \<noteq> [] \<Longrightarrow> q \<noteq> hd (F i)" using hd_in_set by blast
    then show ?thesis using assms(1) that False by (auto simp: free_lists_def f)
  qed (use assms(1,4,5) that in \<open>auto simp: free_lists_def f\<close>)
  moreover have "set (F j) = {q \<in> L. h_index h' q = int j}" if "j \<noteq> i" for j using D(4) [of j] that assms(3) by (auto simp: f)
  moreover have "set (p # F i) = {q \<in> L. h_index h' q = int i}" using D(4) [of i] assms(2) by (auto simp: f)
  ultimately show "free_lists h' L (F(i := p # F i))"
    unfolding free_lists_def using D(2,3,6,7) p(4) by (simp add: f(2))
  show "h_index h' = (h_index h)(p := int i)" "h_real h' = h_real h" "h_size h' = h_size h" "h_magic h' = h_magic h"
    "h_left h' = h_left h" "h_right h' = h_right h" "l_initialized h' = l_initialized h"
    using f(1) by (simp_all add: h' insert_tag_def Let_def)
qed

text \<open>Fields of tags that are not live do not matter, nor do the fields of the splits.\<close>

lemma free_lists_cong:
  assumes "free_lists h L F" "L' \<subseteq> L" "\<forall>p \<in> L - L'. h_index h p < 0" "l_freePages h' = l_freePages h"
    "\<And>p. p \<in> L' \<Longrightarrow> h_index h' p = h_index h p \<and> h_next h' p = h_next h p \<and> h_prev h' p = h_prev h p"
  shows "free_lists h' L' F"
proof -
  note D = free_listsD [OF assms(1)]
  have s: "set (F i) = {p \<in> L'. h_index h' p = int i}" for i using D(4) [of i] assms(2,3,5) by force
  then have "linked (h_next h') (h_prev h') 0 (F i) 0" for i
    using D(1) [of i] assms(5) linked_cong [of "F i" "h_next h'" "h_next h" "h_prev h'" "h_prev h"] by auto
  then show ?thesis using assms D(2,3) s finite_subset [OF assms(2)] unfolding free_lists_def by auto
qed

lemma free_lists_new:
  assumes "free_lists h L F" "a \<notin> L" "a \<noteq> 0" "l_freePages h' = l_freePages h"
    "\<And>p. p \<in> L \<Longrightarrow> h_index h' p = h_index h p \<and> h_next h' p = h_next h p \<and> h_prev h' p = h_prev h p"
    "h_index h' a = - 1" "h_next h' a = 0" "h_prev h' a = 0"
  shows "free_lists h' (insert a L) F"
proof -
  note D = free_listsD [OF assms(1)]
  have s: "set (F i) = {p \<in> insert a L. h_index h' p = int i}" for i using D(4) [of i] assms(2,5,6) by auto
  then have "linked (h_next h') (h_prev h') 0 (F i) 0" for i
    using D(1) [of i] D(4) [of i] assms(2,5) linked_cong [of "F i" "h_next h'" "h_next h" "h_prev h'" "h_prev h"] by auto
  then show ?thesis using assms D(2,3,6) s unfolding free_lists_def by auto
qed

text \<open>The search ends after as many rounds as the list has tags, with the first tag that has the room asked for.\<close>

lemma find_tag_first:
  assumes "linked (h_next h) (h_prev h) b xs 0" "0 \<notin> set xs" "length xs < rounds"
  shows "find_tag rounds sz h (hd (xs @ [0])) = Inr (hd (filter (\<lambda>p. sz + 48 \<le> ucast (h_real h p) - 48) xs @ [0]))"
  using assms
proof (induction rounds arbitrary: xs b)
  case (Suc rounds)
  then show ?case
  proof (cases xs)
    case (Cons x ys)
    then show ?thesis using Suc.IH [of x ys] Suc.prems by auto
  qed simp
qed simp

section \<open>Splits\<close>

text \<open>
  \<open>R\<close> are the arenas, first address and number of pages.  The live tags tile them: a block lies in an arena, blocks do
  not overlap, the right neighbour of a tag starts where its block ends, the last block of an arena ends with it and
  the first starts with it.
\<close>

abbreviation rl :: "heap \<Rightarrow> ptr \<Rightarrow> nat" where "rl h p \<equiv> unat (h_real h p)"

definition arenas :: "(ptr \<times> nat) set \<Rightarrow> bool" where
  "arenas R \<longleftrightarrow> (\<forall>(s, n) \<in> R. 0 < s \<and> 16 \<le> n \<and> 4096 * n < 2 ^ 31
     \<and> (\<forall>(t, m) \<in> R. (s, n) = (t, m) \<or> s + 4096 * n \<le> t \<or> t + 4096 * m \<le> s))"

definition in_arena :: "heap \<Rightarrow> ptr \<Rightarrow> ptr \<times> nat \<Rightarrow> bool" where
  "in_arena h p a \<longleftrightarrow> fst a \<le> p \<and> p + rl h p \<le> fst a + 4096 * snd a
     \<and> (h_right h p = 0 \<longleftrightarrow> p + rl h p = fst a + 4096 * snd a)"

definition splits :: "heap \<Rightarrow> ptr set \<Rightarrow> (ptr \<times> nat) set \<Rightarrow> bool" where
  "splits h L R \<longleftrightarrow> arenas R
     \<and> (\<forall>p \<in> L. 48 \<le> rl h p \<and> (\<exists>a \<in> R. in_arena h p a) \<and> (h_left h p = 0 \<longrightarrow> (\<exists>n. (p, n) \<in> R)))
     \<and> (\<forall>p \<in> L. \<forall>q \<in> L. p < q \<longrightarrow> p + rl h p \<le> q)
     \<and> (\<forall>p \<in> L. h_right h p \<noteq> 0 \<longrightarrow> h_right h p \<in> L \<and> h_right h p = p + rl h p \<and> h_left h (h_right h p) = p)
     \<and> (\<forall>p \<in> L. h_left h p \<noteq> 0 \<longrightarrow> h_left h p \<in> L \<and> h_right h (h_left h p) = p)"

lemma arena_unique:
  assumes "arenas R" "a \<in> R" "b \<in> R" "fst a \<le> x" "x < fst a + 4096 * snd a" "fst b \<le> x" "x < fst b + 4096 * snd b"
  shows "a = b"
  using assms unfolding arenas_def by (cases a; cases b) fastforce

lemma splitsD:
  assumes "splits h L R" "p \<in> L"
  shows "48 \<le> rl h p" "\<exists>a \<in> R. in_arena h p a" "h_left h p = 0 \<Longrightarrow> \<exists>n. (p, n) \<in> R" "p \<noteq> 0"
    "q \<in> L \<Longrightarrow> p < q \<Longrightarrow> p + rl h p \<le> q"
    "h_right h p \<noteq> 0 \<Longrightarrow> h_right h p \<in> L" "h_right h p \<noteq> 0 \<Longrightarrow> h_right h p = p + rl h p"
    "h_right h p \<noteq> 0 \<Longrightarrow> h_left h (h_right h p) = p"
    "h_left h p \<noteq> 0 \<Longrightarrow> h_left h p \<in> L" "h_left h p \<noteq> 0 \<Longrightarrow> h_right h (h_left h p) = p"
proof -
  show "48 \<le> rl h p" "\<exists>a \<in> R. in_arena h p a" "h_left h p = 0 \<Longrightarrow> \<exists>n. (p, n) \<in> R" "q \<in> L \<Longrightarrow> p < q \<Longrightarrow> p + rl h p \<le> q"
    "h_right h p \<noteq> 0 \<Longrightarrow> h_right h p \<in> L" "h_right h p \<noteq> 0 \<Longrightarrow> h_right h p = p + rl h p"
    "h_right h p \<noteq> 0 \<Longrightarrow> h_left h (h_right h p) = p"
    "h_left h p \<noteq> 0 \<Longrightarrow> h_left h p \<in> L" "h_left h p \<noteq> 0 \<Longrightarrow> h_right h (h_left h p) = p"
    using assms by (simp_all add: splits_def)
  then obtain a where "a \<in> R" "fst a \<le> p" by (auto simp: in_arena_def)
  moreover have "arenas R" using assms(1) by (simp add: splits_def)
  ultimately show "p \<noteq> 0" by (fastforce simp: arenas_def)
qed

lemma splits_cong:
  assumes "splits h L R" "\<And>p. p \<in> L \<Longrightarrow> h_real h' p = h_real h p \<and> h_left h' p = h_left h p \<and> h_right h' p = h_right h p"
  shows "splits h' L R"
  using assms unfolding splits_def in_arena_def by auto

lemma splitsI:
  assumes "arenas R"
    "\<And>p. p \<in> L \<Longrightarrow> 48 \<le> rl h p \<and> (\<exists>a \<in> R. in_arena h p a) \<and> (h_left h p = 0 \<longrightarrow> (\<exists>n. (p, n) \<in> R))"
    "\<And>p q. p \<in> L \<Longrightarrow> q \<in> L \<Longrightarrow> p < q \<Longrightarrow> p + rl h p \<le> q"
    "\<And>p. p \<in> L \<Longrightarrow> h_right h p \<noteq> 0 \<Longrightarrow> h_right h p \<in> L \<and> h_right h p = p + rl h p \<and> h_left h (h_right h p) = p"
    "\<And>p. p \<in> L \<Longrightarrow> h_left h p \<noteq> 0 \<Longrightarrow> h_left h p \<in> L \<and> h_right h (h_left h p) = p"
  shows "splits h L R"
  using assms by (simp add: splits_def)

text \<open>Two neighbours become one block.\<close>

definition merge_tags :: "ptr \<Rightarrow> ptr \<Rightarrow> heap \<Rightarrow> heap" where
  "merge_tags p q h = h\<lparr>h_real := (h_real h)(p := h_real h p + h_real h q), h_right := (h_right h)(p := h_right h q),
     h_left := (if h_right h q \<noteq> 0 then (h_left h)(h_right h q := p) else h_left h)\<rparr>"

lemma splits_same_arena:
  assumes "splits h L R" "p \<in> L" "h_right h p \<noteq> 0" "a \<in> R" "in_arena h p a"
  shows "in_arena h (h_right h p) a"
proof -
  let ?q = "h_right h p"
  have q: "?q \<in> L" "?q = p + rl h p" using splitsD [OF assms(1,2)] assms(3) by auto
  obtain b where b: "b \<in> R" "in_arena h ?q b" using splitsD(2) [OF assms(1) q(1)] by blast
  have "?q < fst a + 4096 * snd a" "fst a \<le> ?q" using assms(3,5) q(2) by (auto simp: in_arena_def)
  moreover have "fst b \<le> ?q" "?q < fst b + 4096 * snd b"
    using b(2) splitsD(1) [OF assms(1) q(1)] by (auto simp: in_arena_def)
  ultimately have "a = b" using arena_unique [of R a b ?q] assms(1,4) b(1) by (auto simp: splits_def)
  then show ?thesis using b(2) by simp
qed

lemma splits_merge:
  assumes "splits h L R" "p \<in> L" "h_right h p = q" "q \<noteq> 0"
  shows "splits (merge_tags p q h) (L - {q}) R" and "rl (merge_tags p q h) p = rl h p + rl h q"
proof -
  let ?h = "merge_tags p q h"
  note D = splitsD [OF assms(1)]
  have q: "q \<in> L" "q = p + rl h p" "h_left h q = p" "p \<noteq> 0" "48 \<le> rl h q" "48 \<le> rl h p" using D [OF assms(2)] D(1) assms(3,4) by auto
  obtain a where a: "a \<in> R" "in_arena h p a" using D(2) [OF assms(2)] by blast
  have aq: "in_arena h q a" using splits_same_arena [OF assms(1,2) _ a] assms(3,4) by simp
  have "4096 * snd a < 2 ^ 31" using assms(1) a(1) by (auto simp: splits_def arenas_def)
  then have "rl h p + rl h q < 2 ^ 32" using a(2) aq q(2) by (auto simp: in_arena_def)
  then show r: "rl ?h p = rl h p + rl h q" by (simp add: merge_tags_def unat_plus_no_wrap)
  have o: "rl ?h r = rl h r" "h_right ?h r = h_right h r" if "r \<noteq> p" for r using that by (simp_all add: merge_tags_def)
  have rp: "h_right ?h p = h_right h q" by (simp add: merge_tags_def)
  have l: "h_left ?h r = (if r = h_right h q \<and> r \<noteq> 0 then p else h_left h r)" for r by (simp add: merge_tags_def)
  have qq: "h_right h q \<noteq> 0 \<Longrightarrow> h_right h q \<in> L \<and> h_right h q = q + rl h q \<and> h_left h (h_right h q) = q" using D(6-8) [OF q(1)] by auto
  have t1: "48 \<le> rl ?h r \<and> (\<exists>a \<in> R. in_arena ?h r a) \<and> (h_left ?h r = 0 \<longrightarrow> (\<exists>n. (r, n) \<in> R))" if "r \<in> L - {q}" for r
  proof -
    have "in_arena ?h p a" using a(2) aq q(2) r rp by (simp add: in_arena_def add.assoc)
    then have "\<exists>a \<in> R. in_arena ?h r a" using D(2) [of r] that a(1) o [of r] by (cases "r = p") (auto simp: in_arena_def)
    moreover have "48 \<le> rl ?h r" using D(1) [of r] that r o [of r] by (cases "r = p") auto
    ultimately show ?thesis using D(3) [of r] that q(4) by (auto simp: l split: if_splits)
  qed
  have t2: "r + rl ?h r \<le> s" if "r \<in> L - {q}" "s \<in> L - {q}" "r < s" for r s
  proof (cases "r = p")
    case True
    then have "q < s" using D(5) [of p s] that assms(2) q(2) by (cases "q = s") auto
    then show ?thesis using D(5) [of q s] that q(1,2) True r by simp
  qed (use D(5) [of r s] that o in auto)
  have t3: "h_right ?h r \<in> L - {q} \<and> h_right ?h r = r + rl ?h r \<and> h_left ?h (h_right ?h r) = r"
    if "r \<in> L - {q}" "h_right ?h r \<noteq> 0" for r
  proof (cases "r = p")
    case True
    then show ?thesis using qq that q(2,5) r rp l by auto
  next
    case False
    then have "h_right h r \<in> L" "h_right h r = r + rl h r" "h_left h (h_right h r) = r" using D(6-8) [of r] that o by auto
    then show ?thesis using False that q(3) qq o [OF False] by (auto simp: l)
  qed
  have t4: "h_left ?h r \<in> L - {q} \<and> h_right ?h (h_left ?h r) = r" if "r \<in> L - {q}" "h_left ?h r \<noteq> 0" for r
  proof (cases "r = h_right h q")
    case True
    then have "h_left ?h r = p" using l [of r] that(1) D(4) [of r] by simp
    moreover have "p \<noteq> q" using q(2,6) by simp
    ultimately show ?thesis using True assms(2) rp by simp
  next
    case False
    then have "h_left h r \<in> L" "h_right h (h_left h r) = r" using D(9,10) [of r] that by (auto simp: l)
    moreover from this have "h_left h r \<noteq> p" "h_left h r \<noteq> q" using False that(1) assms(3) by auto
    ultimately show ?thesis using False o by (simp add: l)
  qed
  have ar: "arenas R" using assms(1) by (simp add: splits_def)
  show "splits ?h (L - {q}) R" by (rule splitsI [OF ar t1 t2 t3 t4])
qed

text \<open>A block is cut in two.\<close>

lemma splits_split:
  assumes "splits h L R" "p \<in> L" "48 \<le> k" "k + 48 \<le> rl h p" "q = p + k"
    and h': "rl h' p = k" "rl h' q = rl h p - k" "h_right h' p = q" "h_right h' q = h_right h p" "h_left h' p = h_left h p"
      "h_left h' q = p" "h_right h p \<noteq> 0 \<Longrightarrow> h_left h' (h_right h p) = q"
    and same: "\<And>r. r \<in> L \<Longrightarrow> r \<noteq> p \<Longrightarrow> rl h' r = rl h r \<and> h_right h' r = h_right h r"
      "\<And>r. r \<in> L \<Longrightarrow> r \<noteq> h_right h p \<Longrightarrow> h_left h' r = h_left h r"
  shows "splits h' (insert q L) R" and "q \<notin> L"
proof -
  note D = splitsD [OF assms(1)]
  show new: "q \<notin> L" using D(5) [OF assms(2), of q] assms(3-5) by auto
  have p0: "p \<noteq> 0" using D(4) [OF assms(2)] .
  have rp: "h_right h p \<noteq> 0 \<Longrightarrow> h_right h p \<in> L \<and> h_right h p = p + rl h p \<and> h_left h (h_right h p) = p" using D(6-8) [OF assms(2)] by auto
  obtain a where a: "a \<in> R" "in_arena h p a" using D(2) [OF assms(2)] by blast
  then have pq: "in_arena h' p a" "in_arena h' q a" using h'(1-4) assms(3-5) p0 by (auto simp: in_arena_def)
  have t1: "48 \<le> rl h' r \<and> (\<exists>a \<in> R. in_arena h' r a) \<and> (h_left h' r = 0 \<longrightarrow> (\<exists>n. (r, n) \<in> R))" if "r \<in> insert q L" for r
  proof (cases "r = q \<or> r = p")
    case True
    then show ?thesis using a(1) pq h' p0 assms(3-5) D(3) [OF assms(2)] by auto
  next
    case False
    then have r: "r \<in> L" "rl h' r = rl h r" "h_right h' r = h_right h r" using that same(1) [of r] by auto
    have "h_left h' r = 0 \<Longrightarrow> h_left h r = 0" using r(1) same(2) [of r] h'(7) assms(5) p0 D(4) [OF r(1)] by (cases "r = h_right h p") auto
    then show ?thesis using D(1-3) [OF r(1)] r(2,3) by (auto simp: in_arena_def)
  qed
  have t2: "r + rl h' r \<le> s" if "r \<in> insert q L" "s \<in> insert q L" "r < s" for r s
  proof -
    have "q + (rl h p - k) \<le> s" if "s \<in> L" "q < s" for s using D(5) [OF assms(2) that(1)] that(2) assms(4,5) by simp
    moreover have "r + rl h r \<le> q" if "r \<in> L" "r < q" "r \<noteq> p" for r
    proof (cases "r < p")
      case True
      then show ?thesis using D(5) [OF that(1) assms(2)] assms(5) by simp
    next
      case False
      then show ?thesis using D(5) [OF assms(2) that(1)] that assms(4,5) by simp
    qed
    moreover have "q \<le> s" if "s \<in> L" "p < s" for s using D(5) [OF assms(2) that] assms(4,5) by simp
    ultimately show ?thesis using that D(5) [of r s] same(1) [of r] h'(1,2) assms(5) by (cases "r = p"; cases "r = q"; cases "s = q") auto
  qed
  have t3: "h_right h' r \<in> insert q L \<and> h_right h' r = r + rl h' r \<and> h_left h' (h_right h' r) = r"
    if "r \<in> insert q L" "h_right h' r \<noteq> 0" for r
  proof (cases "r = q \<or> r = p")
    case True
    then show ?thesis using that h' rp assms(3-5) by auto
  next
    case False
    then have r: "r \<in> L" "rl h' r = rl h r" "h_right h' r = h_right h r" using that same(1) [of r] by auto
    then have rr: "h_right h r \<in> L" "h_right h r = r + rl h r" "h_left h (h_right h r) = r" using D(6-8) [OF r(1)] that(2) by auto
    then have "h_right h r \<noteq> h_right h p" using False rp that(2) r(3) by auto
    then show ?thesis using rr r same(2) [of "h_right h r"] by simp
  qed
  have t4: "h_left h' r \<in> insert q L \<and> h_right h' (h_left h' r) = r" if "r \<in> insert q L" "h_left h' r \<noteq> 0" for r
  proof (cases "r = q \<or> r = h_right h p")
    case True
    then show ?thesis using that h' rp assms(2) new D(4) by auto
  next
    case False
    then have r: "r \<in> L" "h_left h' r = h_left h r" using that same(2) [of r] by auto
    then have rr: "h_left h r \<in> L" "h_right h (h_left h r) = r" using D(9,10) [OF r(1)] that(2) by auto
    then have "h_left h r \<noteq> p" using False by auto
    then show ?thesis using rr r(2) same(1) [of "h_left h r"] by simp
  qed
  have ar: "arenas R" using assms(1) by (simp add: splits_def)
  show "splits h' (insert q L) R" by (rule splitsI [OF ar t1 t2 t3 t4])
qed

lemma arenas_insert:
  assumes "arenas R" "0 < a" "16 \<le> n" "4096 * n < 2 ^ 31" "\<forall>(s, m) \<in> R. s + 4096 * m \<le> a \<or> a + 4096 * n \<le> s"
  shows "arenas (insert (a, n) R)"
  using assms unfolding arenas_def by fastforce

lemma splits_outside:
  assumes "splits h L R" "\<forall>(s, m) \<in> R. s + 4096 * m \<le> a \<or> a + 4096 * n \<le> s" "r \<in> L"
  shows "r + rl h r \<le> a \<or> a + 4096 * n \<le> r"
  using splitsD(2) [OF assms(1,3)] assms(2) by (fastforce simp: in_arena_def)

lemma splits_fresh:
  assumes "splits h L R" "16 \<le> n" "\<forall>(s, m) \<in> R. s + 4096 * m \<le> a \<or> a + 4096 * n \<le> s"
  shows "a \<notin> L"
  using splits_outside [OF assms(1,3), of a] splitsD(1) [OF assms(1), of a] assms(2) by auto

lemma splits_new:
  assumes "splits h L R" "arenas (insert (a, n) R)" "\<forall>(s, m) \<in> R. s + 4096 * m \<le> a \<or> a + 4096 * n \<le> s"
    and h': "rl h' a = 4096 * n" "h_left h' a = 0" "h_right h' a = 0"
    and same: "\<And>r. r \<in> L \<Longrightarrow> rl h' r = rl h r \<and> h_left h' r = h_left h r \<and> h_right h' r = h_right h r"
  shows "splits h' (insert a L) (insert (a, n) R)"
proof -
  note D = splitsD [OF assms(1)] and out = splits_outside [OF assms(1,3)]
  have n: "16 \<le> n" using assms(2) by (simp add: arenas_def)
  have t1: "48 \<le> rl h' r \<and> (\<exists>b \<in> insert (a, n) R. in_arena h' r b) \<and> (h_left h' r = 0 \<longrightarrow> (\<exists>m. (r, m) \<in> insert (a, n) R))"
    if "r \<in> insert a L" for r
  proof (cases "r = a")
    case False
    then show ?thesis using that D(1-3) [of r] same [of r] by (auto simp: in_arena_def)
  qed (use h' n in \<open>auto simp: in_arena_def\<close>)
  have t2: "r + rl h' r \<le> s" if "r \<in> insert a L" "s \<in> insert a L" "r < s" for r s
    using that out [of r] out [of s] D(5) [of r s] same [of r] h'(1) by auto
  have t3: "h_right h' r \<in> insert a L \<and> h_right h' r = r + rl h' r \<and> h_left h' (h_right h' r) = r"
    if "r \<in> insert a L" "h_right h' r \<noteq> 0" for r
    using that h' D(6-8) [of r] same [of r] same [of "h_right h r"] by auto
  have t4: "h_left h' r \<in> insert a L \<and> h_right h' (h_left h' r) = r" if "r \<in> insert a L" "h_left h' r \<noteq> 0" for r
    using that h' D(9,10) [of r] same [of r] same [of "h_left h r"] by auto
  show "splits h' (insert a L) (insert (a, n) R)" by (rule splitsI [OF assms(2) t1 t2 t3 t4])
qed

text \<open>A tag with no neighbours is a whole arena.\<close>

lemma splits_drop:
  assumes "splits h L R" "p \<in> L" "h_left h p = 0" "h_right h p = 0"
  shows "\<exists>n. (p, n) \<in> R \<and> rl h p = 4096 * n \<and> 16 \<le> n \<and> splits h (L - {p}) (R - {(p, n)})"
proof -
  note D = splitsD [OF assms(1)]
  have ar: "arenas R" using assms(1) by (simp add: splits_def)
  obtain n where n: "(p, n) \<in> R" using D(3) [OF assms(2,3)] by blast
  obtain a where a: "a \<in> R" "in_arena h p a" using D(2) [OF assms(2)] by blast
  have n16: "16 \<le> n" using ar n by (auto simp: arenas_def)
  have "a = (p, n)"
    using arena_unique [OF ar a(1) n, of p] a(2) n16 D(1) [OF assms(2)] by (simp add: in_arena_def)
  then have r: "rl h p = 4096 * n" using a(2) assms(4) by (simp add: in_arena_def)
  have "arenas (R - {(p, n)})" using ar unfolding arenas_def by blast
  moreover have "\<exists>b \<in> R - {(p, n)}. in_arena h s b" if s: "s \<in> L - {p}" for s
  proof -
    obtain b where b: "b \<in> R" "in_arena h s b" using D(2) [of s] s by blast
    have "s + rl h s \<le> p \<or> p + 4096 * n \<le> s" using D(5) [of s p] D(5) [of p s] s assms(2) r by (cases "s < p") auto
    then have "b \<noteq> (p, n)" using b(2) D(1) [of s] s by (auto simp: in_arena_def)
    then show ?thesis using b by blast
  qed
  moreover have "h_right h s \<noteq> p" "h_left h s \<noteq> p" if "s \<in> L" for s
    using D(4,8,10) [OF that] D(4) [OF assms(2)] assms(3,4) by auto
  ultimately have "splits h (L - {p}) (R - {(p, n)})" using assms(1) unfolding splits_def by auto
  then show ?thesis using n r n16 by blast
qed

end
