(* ===== verification/Malloc.thy ===== *)
theory Malloc
  imports Liballoc
begin

unbundle bit_operations_syntax

text \<open>
  The correctness of the kernel heap modelled in \<open>Liballoc\<close>: the invariant of the heap, what the steps of \<open>malloc\<close>
  and \<open>free\<close> do to it, and the two functions as operations on the finite map from addresses to sizes that their
  callers see.  The interface \<open>page_source\<close> is what the heap asks of the functions that give it pages.
\<close>

section \<open>The heap\<close>

text \<open>
  The invariant.  Live tags carry the magic number; an allocated block has room for the size asked for, except
  those in \<open>X\<close>, which the running operation has taken out; two neighbours are never both free.
\<close>

definition tags_ok :: "ptr set \<Rightarrow> heap \<Rightarrow> ptr set \<Rightarrow> (ptr \<times> nat) set \<Rightarrow> (nat \<Rightarrow> ptr list) \<Rightarrow> bool" where
  "tags_ok X h L R F \<longleftrightarrow> free_lists h L F \<and> splits h L R
     \<and> (\<forall>p \<in> L. h_magic h p = LIBALLOC_MAGIC \<and> (h_index h p < 0 \<and> p \<notin> X \<longrightarrow> unat (h_size h p) + 48 \<le> rl h p))
     \<and> (\<forall>p \<in> L. h_right h p \<noteq> 0 \<and> 0 \<le> h_index h p \<longrightarrow> h_index h (h_right h p) < 0)"

text \<open>The allocated blocks: the addresses given to the callers, with the sizes they asked for.\<close>

definition blocks :: "ptr set \<Rightarrow> heap \<Rightarrow> ptr set \<Rightarrow> ptr \<rightharpoonup> nat" where
  "blocks X h L = (\<lambda>a. if 48 \<le> a \<and> a - 48 \<in> L - X \<and> h_index h (a - 48) < 0 then Some (unat (h_size h (a - 48))) else None)"

lemma tags_okD:
  assumes "tags_ok X h L R F"
  shows "free_lists h L F" "splits h L R" "p \<in> L \<Longrightarrow> h_magic h p = LIBALLOC_MAGIC"
    "p \<in> L \<Longrightarrow> h_index h p < 0 \<Longrightarrow> p \<notin> X \<Longrightarrow> unat (h_size h p) + 48 \<le> rl h p"
    "p \<in> L \<Longrightarrow> h_right h p \<noteq> 0 \<Longrightarrow> 0 \<le> h_index h p \<Longrightarrow> h_index h (h_right h p) < 0"
  using assms by (simp_all add: tags_ok_def)

lemma index_cases: "free_lists h L F \<Longrightarrow> p \<in> L \<Longrightarrow> h_index h p = - 1 \<or> 8 \<le> h_index h p \<and> h_index h p < 32"
  by (auto simp: free_lists_def)

lemma tags_remove:
  assumes "tags_ok X h L R F" "p \<in> L" "0 \<le> h_index h p"
  shows "\<exists>h' F'. remove_tag p h = Inr h' \<and> tags_ok (insert p X) h' L R F' \<and> blocks (insert p X) h' L = blocks X h L
    \<and> h_index h' = (h_index h)(p := - 1) \<and> h_real h' = h_real h \<and> h_left h' = h_left h \<and> h_right h' = h_right h
    \<and> l_initialized h' = l_initialized h"
proof -
  note D = tags_okD [OF assms(1)]
  obtain h' F' where h': "remove_tag p h = Inr h'" "free_lists h' L F'" "h_index h' = (h_index h)(p := - 1)"
      "h_real h' = h_real h" "h_size h' = h_size h" "h_magic h' = h_magic h" "h_left h' = h_left h" "h_right h' = h_right h"
      "l_initialized h' = l_initialized h"
    using remove_tag_correct [OF D(1) assms(2,3)] by blast
  have "splits h' L R" using splits_cong [OF D(2)] h' by simp
  then have "tags_ok (insert p X) h' L R F'" using h' D(3-5) by (auto simp: tags_ok_def)
  moreover have "blocks (insert p X) h' L = blocks X h L" using h'(3,5) assms(3) by (auto simp: blocks_def fun_eq_iff)
  ultimately show ?thesis using h' by blast
qed

lemma tags_insert:
  assumes "tags_ok (insert p X) h L R F" "p \<in> L" "h_index h p < 0" "p \<notin> X" "8 \<le> i" "i < 32"
    and "h_right h p = 0 \<or> h_index h (h_right h p) < 0" "h_left h p = 0 \<or> h_index h (h_left h p) < 0"
  shows "tags_ok X (insert_tag p (int i) h) L R (F(i := p # F i))" and "blocks X (insert_tag p (int i) h) L = blocks (insert p X) h L"
proof -
  let ?h = "insert_tag p (int i) h"
  note D = tags_okD [OF assms(1)]
  have "h_index h p = - 1" using index_cases [OF D(1) assms(2)] assms(3) by auto
  note I = insert_tag_correct [OF D(1) assms(2) this assms(5,6) refl]
  have "splits ?h L R" using splits_cong [OF D(2)] I by simp
  moreover have "h_index ?h (h_right ?h q) < 0" if "q \<in> L" "h_right ?h q \<noteq> 0" "0 \<le> h_index ?h q" for q
  proof (cases "q = p")
    case True
    then have "h_right h p \<noteq> p" using splitsD(1,7) [OF D(2) assms(2)] that(2) I by fastforce
    then show ?thesis using True assms(7) that I by simp
  next
    case False
    then have "h_right h q \<noteq> p" using splitsD(4,8) [OF D(2) that(1)] assms(8) that I by auto
    then show ?thesis using False D(5) [of q] that I by simp
  qed
  ultimately show "tags_ok X ?h L R (F(i := p # F i))" using I D(3,4) by (auto simp: tags_ok_def)
  show "blocks X ?h L = blocks (insert p X) h L" using I(2,4) assms(3) by (auto simp: blocks_def fun_eq_iff)
qed

lemma tags_merge:
  assumes "tags_ok X h L R F" "p \<in> L" "h_right h p = q" "q \<noteq> 0" "h_index h p < 0" "h_index h q < 0" "p \<in> X"
  shows "tags_ok (X - {q}) (merge_tags p q h) (L - {q}) R F" and "blocks (X - {q}) (merge_tags p q h) (L - {q}) = blocks (insert q X) h L"
proof -
  let ?h = "merge_tags p q h"
  note D = tags_okD [OF assms(1)]
  note M = splits_merge [OF D(2) assms(2-4)]
  have same: "h_index ?h = h_index h" "h_size ?h = h_size h" "h_magic ?h = h_magic h" "h_next ?h = h_next h" "h_prev ?h = h_prev h"
    "l_freePages ?h = l_freePages h" by (simp_all add: merge_tags_def)
  have o: "h_real ?h r = h_real h r" "h_right ?h r = h_right h r" if "r \<noteq> p" for r using that by (simp_all add: merge_tags_def)
  have "free_lists ?h (L - {q}) F" using assms(6) same by (intro free_lists_cong [OF D(1)]) auto
  moreover have "unat (h_size ?h r) + 48 \<le> rl ?h r" if "r \<in> L - {q}" "h_index ?h r < 0" "r \<notin> X - {q}" for r
    using D(4) [of r] that o [of r] same assms(7) by (cases "r = p") auto
  moreover have "h_index ?h (h_right ?h r) < 0" if "r \<in> L - {q}" "h_right ?h r \<noteq> 0" "0 \<le> h_index ?h r" for r
    using D(5) [of r] that o [of r] same assms(5) by (cases "r = p") auto
  ultimately show "tags_ok (X - {q}) ?h (L - {q}) R F" using M(1) D(3) same by (simp add: tags_ok_def)
  show "blocks (X - {q}) ?h (L - {q}) = blocks (insert q X) h L" by (auto simp: blocks_def fun_eq_iff same)
qed

section \<open>Exponents and sizes\<close>

lemma getexp_loop_bounds: "shift \<le> 32 \<Longrightarrow> shift \<le> getexp_loop shift n \<and> getexp_loop shift n \<le> 32"
  by (induction shift n rule: getexp_loop.induct) (subst (1 2) getexp_loop.simps, auto)

text \<open>As the comment in the source says: \<open>n\<close> with \<open>2 ^ n \<le> size < 2 ^ (n + 1)\<close>.\<close>

lemma getexp_loop_power:
  "2 ^ (shift - 1) \<le> n \<Longrightarrow> 0 < shift \<Longrightarrow> shift \<le> 32 \<Longrightarrow> n < 2 ^ 32 \<Longrightarrow>
   2 ^ (getexp_loop shift n - 1) \<le> n \<and> n < 2 ^ getexp_loop shift n"
proof (induction shift n rule: getexp_loop.induct)
  case (1 shift n)
  then show ?case by (subst (1 2) getexp_loop.simps) (auto simp: not_less)
qed

lemma getexp_nonneg: "0 \<le> getexp x \<longleftrightarrow> 256 \<le> unat x"
  using getexp_loop_bounds [of 8 "unat x"] by (auto simp: getexp_def)

lemma list_index_bounds: "8 \<le> list_index x" "list_index x < 32"
  using getexp_loop_bounds [of 8 "unat x"] by (auto simp: list_index_def getexp_def MINEXP_def)

lemma insert_tag_default: "insert_tag q (- 1) h = insert_tag q (int (nat (list_index (h_real h q - 48)))) h"
  using list_index_bounds(1) [of "h_real h q - 48"] by (simp add: insert_tag_def)

lemma fits_iff:
  assumes "48 \<le> unat (r :: u32)" "unat (sz :: u64) \<le> 0x7FFFE000"
  shows "sz + 48 \<le> ucast r - 48 \<longleftrightarrow> unat sz + 96 \<le> unat r"
proof -
  have "unat (sz + 48) = unat sz + 48" using assms(2) by (simp add: unat_plus_no_wrap)
  moreover have "unat (ucast r - 48 :: u64) = unat r - 48" using assms(1) by (simp add: unat_minus_no_wrap word_le_nat_alt)
  ultimately show ?thesis using assms(1) unfolding word_le_nat_alt by linarith
qed

text \<open>The test whether the rest of a block is worth a tag of its own.\<close>

lemma remainder_test:
  assumes "unat sz + 48 \<le> unat r" "unat r < 2 ^ 31"
    and x: "x = (ucast (ucast (r :: u32) - sz - 48 * 2 :: u64) :: u32)"
  shows "x \<noteq> 0 \<and> unat x < 2 ^ 31 \<and> 0 \<le> getexp x \<longleftrightarrow> unat sz + 352 \<le> unat r"
proof -
  have u: "unat (ucast r - sz :: u64) = unat r - unat sz" using assms(1) by (simp add: unat_minus_no_wrap word_le_nat_alt unat_ucast_u32_u64)
  show ?thesis
  proof (cases "unat sz + 96 \<le> unat r")
    case True
    then have "unat (ucast r - sz - 48 * 2 :: u64) = unat r - unat sz - 96" using u by (simp add: unat_minus_no_wrap word_le_nat_alt)
    then have "unat x = unat r - unat sz - 96" using assms(2) unfolding x by (subst unat_ucast_64_32) auto
    then show ?thesis using assms(2) True unfolding getexp_nonneg by (auto simp: unat_eq_0 [symmetric])
  next
    case False
    then have k: "unat (ucast r - sz :: u64) < 96" "48 \<le> unat (ucast r - sz :: u64)" using u assms(1) by auto
    let ?k = "unat (ucast r - sz :: u64)"
    have "unat (ucast r - sz - 48 * 2 :: u64) = 2 ^ 64 + ?k - 96" using k by (simp add: unat_sub_if_size word_size)
    then have "unat x = (2 ^ 64 + ?k - 96) mod 2 ^ 32" by (simp add: x unsigned_ucast_eq take_bit_eq_mod)
    also have "2 ^ 64 + ?k - 96 = 2 ^ 32 + ?k - 96 + (2 ^ 32 - 1) * 2 ^ 32" using k by simp
    also have "\<dots> mod 2 ^ 32 = (2 ^ 32 + ?k - 96) mod 2 ^ 32" by (rule mod_mult_self1)
    also have "\<dots> = 2 ^ 32 + ?k - 96" using k by simp
    finally show ?thesis using k False by simp
  qed
qed

section \<open>The steps of malloc\<close>

lemma tags_set_size:
  assumes "tags_ok {p} h L R F"
  shows "tags_ok {p} (h\<lparr>h_size := (h_size h)(p := v)\<rparr>) L R F" and "blocks {p} (h\<lparr>h_size := (h_size h)(p := v)\<rparr>) L = blocks {p} h L"
proof -
  let ?h = "h\<lparr>h_size := (h_size h)(p := v)\<rparr>"
  note D = tags_okD [OF assms]
  have "free_lists ?h L F" by (rule free_lists_cong [OF D(1)]) simp_all
  moreover have "splits ?h L R" by (rule splits_cong [OF D(2)]) simp
  ultimately show "tags_ok {p} ?h L R F" using D(3-5) by (simp add: tags_ok_def)
  show "blocks {p} ?h L = blocks {p} h L" by (auto simp: blocks_def fun_eq_iff)
qed

lemma blocks_close:
  assumes "p \<in> L" "h_index h p < 0"
  shows "blocks {} h L = (blocks {p} h L)(p + 48 \<mapsto> unat (h_size h p))" and "blocks {p} h L (p + 48) = None"
  using assms by (auto simp: blocks_def fun_eq_iff)

lemma tags_close:
  assumes "tags_ok {p} h L R F" "p \<in> L \<Longrightarrow> h_index h p < 0 \<Longrightarrow> unat (h_size h p) + 48 \<le> rl h p"
  shows "tags_ok {} h L R F"
  using assms by (auto simp: tags_ok_def)

text \<open>The heap of \<open>split_tag\<close> just before the new tag is put into its list.\<close>

definition cut_tag :: "ptr \<Rightarrow> ptr \<Rightarrow> heap \<Rightarrow> heap" where
  "cut_tag p q h = h\<lparr>h_magic := (h_magic h)(q := LIBALLOC_MAGIC), h_next := (h_next h)(q := 0), h_prev := (h_prev h)(q := 0),
     h_left := (if h_right h p \<noteq> 0 then (h_left h)(q := p, h_right h p := q) else (h_left h)(q := p)),
     h_right := (h_right h)(q := h_right h p, p := q),
     h_real := (h_real h)(q := h_real h p - 48 - h_size h p, p := h_real h p - (h_real h p - 48 - h_size h p)),
     h_index := (h_index h)(q := - 1)\<rparr>"

lemma insert_tag_index: "insert_tag q i (h\<lparr>h_index := (h_index h)(q := v)\<rparr>) = insert_tag q i h"
  by (simp add: insert_tag_def Let_def)

lemma split_tag_cut:
  assumes "q = p + 48 + unat (h_size h p)"
  shows "split_tag p h = insert_tag q (- 1) (cut_tag p q h)"
proof -
  have "q \<noteq> p" using assms by simp
  define h1 where "h1 = h\<lparr>h_magic := (h_magic h)(q := LIBALLOC_MAGIC), h_next := (h_next h)(q := 0), h_prev := (h_prev h)(q := 0),
     h_left := (if h_right h p \<noteq> 0 then (h_left h)(q := p, h_right h p := q) else (h_left h)(q := p)),
     h_right := (h_right h)(q := h_right h p, p := q),
     h_real := (h_real h)(q := h_real h p - 48 - h_size h p, p := h_real h p - (h_real h p - 48 - h_size h p))\<rparr>"
  have "split_tag p h = insert_tag q (- 1) h1"
    using \<open>q \<noteq> p\<close> by (simp add: split_tag_def h1_def Let_def flip: assms)
  also have "\<dots> = insert_tag q (- 1) (cut_tag p q h)"
    using insert_tag_index [of q "- 1" h1 "- 1"] by (simp add: h1_def cut_tag_def)
  finally show ?thesis .
qed

lemma tags_cut:
  assumes "tags_ok {p} h L R F" "p \<in> L" "h_index h p < 0" "unat (h_size h p) + 96 \<le> rl h p" "q = p + 48 + unat (h_size h p)"
  shows "tags_ok {q} (cut_tag p q h) (insert q L) R F" and "q \<notin> L"
    and "blocks {q} (cut_tag p q h) (insert q L) = (blocks {p} h L)(p + 48 \<mapsto> unat (h_size h p))"
proof -
  let ?h = "cut_tag p q h" and ?k = "48 + unat (h_size h p)"
  note D = tags_okD [OF assms(1)]
  have qp: "q \<noteq> p" "q \<noteq> 0" using assms(5) by simp_all
  have r: "unat (h_real h p - 48 - h_size h p) = rl h p - ?k"
    using assms(4) by (simp add: unat_minus_no_wrap word_le_nat_alt)
  have r': "unat (h_real h p - (h_real h p - 48 - h_size h p)) = ?k"
    using assms(4) unat_u32_less [of "h_real h p"] by (simp add: unat_plus_no_wrap)
  have rp: "h_right h p \<noteq> 0 \<Longrightarrow> h_right h p \<in> L" "h_right h p \<noteq> 0 \<Longrightarrow> h_right h p = p + rl h p" using splitsD [OF D(2) assms(2)] by auto
  have h: "rl ?h p = ?k" "rl ?h q = rl h p - ?k" "h_right ?h p = q" "h_right ?h q = h_right h p"
    "h_index ?h = (h_index h)(q := - 1)" "h_size ?h = h_size h" "h_magic ?h = (h_magic h)(q := LIBALLOC_MAGIC)"
    "\<And>x. x \<noteq> p \<Longrightarrow> x \<noteq> q \<Longrightarrow> h_real ?h x = h_real h x \<and> h_right ?h x = h_right h x"
    using qp(1) r r' by (simp_all add: cut_tag_def)
  have sp: "splits ?h (insert q L) R" "q \<notin> L"
  proof -
    have "q \<notin> L" using splitsD(5) [OF D(2) assms(2), of q] assms(4,5) by auto
    moreover have "h_right h p \<noteq> p" "h_right h p \<noteq> q" using rp splitsD(1,4) [OF D(2) assms(2)] qp(2) \<open>q \<notin> L\<close> by fastforce+
    ultimately have "h_left ?h p = h_left h p" "h_left ?h q = p" "h_right h p \<noteq> 0 \<Longrightarrow> h_left ?h (h_right h p) = q"
      "\<And>x. x \<in> L \<Longrightarrow> x \<noteq> h_right h p \<Longrightarrow> h_left ?h x = h_left h x"
      "\<And>x. x \<in> L \<Longrightarrow> x \<noteq> p \<Longrightarrow> rl ?h x = rl h x \<and> h_right ?h x = h_right h x"
      using qp by (auto simp: cut_tag_def)
    then show "splits ?h (insert q L) R" "q \<notin> L"
      using splits_split [OF D(2) assms(2), of ?k q ?h] assms(4,5) h(1-4) by simp_all
  qed
  show "q \<notin> L" by (fact sp(2))
  have ne: "x \<noteq> q" if "x \<in> L" for x using that sp(2) by blast
  have "free_lists ?h (insert q L) F" using sp(2) qp by (intro free_lists_new [OF D(1)]) (auto simp: cut_tag_def)
  moreover have "unat (h_size ?h x) + 48 \<le> rl ?h x" if "x \<in> L" "h_index ?h x < 0" for x
    using that D(4) [of x] h(1,5,6) h(8) [of x] ne [of x] by (cases "x = p") auto
  moreover have "h_index ?h (h_right ?h x) < 0" if "x \<in> insert q L" "h_right ?h x \<noteq> 0" "0 \<le> h_index ?h x" for x
  proof -
    have x: "x \<in> L" "x \<noteq> q" "x \<noteq> p" using that assms(3) qp(1) by (auto simp: h(5))
    then have "h_right h x \<in> L" using that splitsD(6) [OF D(2) x(1)] h(8) [of x] by simp
    then show ?thesis using that x D(5) [OF x(1)] h(5) h(8) [of x] ne by simp
  qed
  ultimately show "tags_ok {q} ?h (insert q L) R F" using sp(1) D(3) h by (simp add: tags_ok_def)
  show "blocks {q} ?h (insert q L) = (blocks {p} h L)(p + 48 \<mapsto> unat (h_size h p))"
    using sp(2) assms(2,3) qp(1) by (auto simp: blocks_def fun_eq_iff h)
qed

text \<open>The end of \<open>malloc\<close> gives the tag that was taken out to the caller.\<close>

lemma place_block_correct:
  assumes "tags_ok {p} h L R F" "p \<in> L" "h_index h p < 0" "unat sz + 48 \<le> rl h p" "rl h p < 2 ^ 31"
    and "h_right h p = 0 \<or> h_index h (h_right h p) < 0"
  shows "\<exists>h' L' F'. place_block p sz h = (p + 48, h') \<and> tags_ok {} h' L' R F'
    \<and> blocks {} h' L' = (blocks {p} h L)(p + 48 \<mapsto> unat sz) \<and> l_initialized h' = l_initialized h"
proof -
  define h1 where "h1 = h\<lparr>h_size := (h_size h)(p := ucast sz)\<rparr>"
  have t: "tags_ok {p} h1 L R F" "blocks {p} h1 L = blocks {p} h L" using tags_set_size [OF assms(1)] by (simp_all add: h1_def)
  have f: "h_real h1 = h_real h" "h_index h1 = h_index h" "h_right h1 = h_right h" "h_left h1 = h_left h"
    "l_initialized h1 = l_initialized h" by (simp_all add: h1_def)
  have u: "unat (ucast sz :: u32) = unat sz" using assms(4,5) by (intro unat_ucast_64_32) simp
  then have sz: "unat (h_size h1 p) = unat sz" by (simp add: h1_def)
  have e: "place_block p sz h = (p + 48, if unat sz + 352 \<le> rl h p then split_tag p h1 else h1)"
    using remainder_test [OF assms(4,5) refl] by (simp add: place_block_def Let_def h1_def)
  show ?thesis
  proof (cases "unat sz + 352 \<le> rl h p")
    case False
    then show ?thesis using e t tags_close [OF t(1)] blocks_close(1) [of p L h1] assms(2-4) f sz by auto
  next
    case True
    let ?q = "p + 48 + unat (h_size h1 p)" let ?h = "cut_tag p ?q h1" let ?i = "nat (list_index (h_real ?h ?q - 48))"
    have c: "tags_ok {?q} ?h (insert ?q L) R F" "?q \<notin> L"
        "blocks {?q} ?h (insert ?q L) = (blocks {p} h1 L)(p + 48 \<mapsto> unat (h_size h1 p))"
      using tags_cut [OF t(1) assms(2) _ _ refl] True assms(3) f sz by auto
    have q: "h_index ?h ?q < 0" "h_right ?h ?q = h_right h p" "h_left ?h ?q = p" "h_index ?h p < 0"
      "h_right h p \<noteq> ?q" using c(2) assms(3) f splitsD(6) [OF tags_okD(2) [OF assms(1)] assms(2)] by (auto simp: cut_tag_def)
    then have "h_right ?h ?q = 0 \<or> h_index ?h (h_right ?h ?q) < 0" using assms(6) f by (auto simp: cut_tag_def)
    moreover have "8 \<le> ?i" "?i < 32" using list_index_bounds [of "h_real ?h ?q - 48"] by auto
    ultimately have "tags_ok {} (insert_tag ?q (int ?i) ?h) (insert ?q L) R (F(?i := ?q # F ?i))"
        "blocks {} (insert_tag ?q (int ?i) ?h) (insert ?q L) = blocks {?q} ?h (insert ?q L)"
      using tags_insert [of ?q "{}" ?h "insert ?q L" R F ?i] c(1) q by auto
    moreover have "split_tag p h1 = insert_tag ?q (int ?i) ?h" using split_tag_cut [OF refl] insert_tag_default by metis
    then have "place_block p sz h = (p + 48, insert_tag ?q (int ?i) ?h)" using e True by simp
    moreover have "l_initialized (insert_tag ?q (int ?i) ?h) = l_initialized h" by (simp add: insert_tag_def cut_tag_def Let_def f)
    moreover have "blocks {?q} ?h (insert ?q L) = (blocks {p} h L)(p + 48 \<mapsto> unat sz)" using c(3) t(2) sz by simp
    ultimately show ?thesis by metis
  qed
qed

text \<open>New pages.\<close>

lemma new_pages_bounds:
  assumes "unat sz \<le> 0x7FFFE000"
  shows "16 \<le> new_pages sz" "unat sz + 48 \<le> 4096 * new_pages sz" "4096 * new_pages sz < 2 ^ 31"
proof -
  have u: "unat (sz + 48) = unat sz + 48" using assms by (simp add: unat_plus_no_wrap)
  define d r where "d = (unat sz + 48) div 4096" and "r = (unat sz + 48) mod 4096"
  define m where "m = d + (if r \<noteq> 0 then 1 else 0)"
  have "unat sz + 48 = 4096 * d + r" "r < 4096" by (simp_all add: d_def r_def)
  then have "unat sz + 48 \<le> 4096 * m" "4096 * m < unat sz + 48 + 4096" by (auto simp: m_def)
  moreover have "new_pages sz = (if m < 16 then 16 else m)" by (simp add: new_pages_def u m_def d_def r_def Let_def)
  ultimately show "16 \<le> new_pages sz" "unat sz + 48 \<le> 4096 * new_pages sz" "4096 * new_pages sz < 2 ^ 31" using assms by auto
qed

lemma tags_new:
  assumes "tags_ok {} h L R F" "0 < a" "16 \<le> n" "4096 * n < 2 ^ 31" "\<forall>(s, m) \<in> R. s + 4096 * m \<le> a \<or> a + 4096 * n \<le> s"
  shows "tags_ok {a} (new_tag a sz n h) (insert a L) (insert (a, n) R) F" and "a \<notin> L"
    and "blocks {a} (new_tag a sz n h) (insert a L) = blocks {} h L" and "rl (new_tag a sz n h) a = 4096 * n"
proof -
  let ?h = "new_tag a sz n h"
  note D = tags_okD [OF assms(1)]
  have "unat (of_nat n * 4096 :: u32) = n * 4096" using assms(4) by (simp add: unat_times_no_wrap unat_of_nat_small)
  then show r: "rl ?h a = 4096 * n" by (simp add: new_tag_def)
  have "arenas R" using D(2) by (simp add: splits_def)
  note ar = arenas_insert [OF this assms(2-5)]
  have new: "a \<notin> L" using splits_fresh [OF D(2) assms(3,5)] .
  show "a \<notin> L" by (fact new)
  then have ne: "x \<noteq> a" if "x \<in> L" for x using that by blast
  have "splits ?h (insert a L) (insert (a, n) R)" using r ne by (intro splits_new [OF D(2) ar assms(5)]) (auto simp: new_tag_def)
  moreover have "free_lists ?h (insert a L) F" using new assms(2) ne by (intro free_lists_new [OF D(1)]) (auto simp: new_tag_def)
  moreover have "h_index ?h (h_right ?h x) < 0" if "x \<in> insert a L" "h_right ?h x \<noteq> 0" "0 \<le> h_index ?h x" for x
  proof -
    have x: "x \<in> L" using that by (auto simp: new_tag_def)
    then have "h_right h x \<in> L" using that ne splitsD(6) [OF D(2) x] by (auto simp: new_tag_def)
    then show ?thesis using that x D(5) [OF x] ne by (auto simp: new_tag_def)
  qed
  ultimately show "tags_ok {a} ?h (insert a L) (insert (a, n) R) F" using D(3,4) ne by (auto simp: tags_ok_def new_tag_def)
  show "blocks {a} ?h (insert a L) = blocks {} h L" using new by (auto simp: blocks_def fun_eq_iff new_tag_def)
qed

lemma tags_complete [simp]: "tags_ok X (h\<lparr>l_completePages := f\<rparr>) L R F = tags_ok X h L R F"
  by (simp add: tags_ok_def free_lists_def splits_def in_arena_def)

lemma blocks_complete [simp]: "blocks X (h\<lparr>l_completePages := f\<rparr>) L = blocks X h L"
  by (simp add: blocks_def cong: if_cong)

lemma real_bound:
  assumes "splits h L R" "p \<in> L"
  shows "rl h p < 2 ^ 31"
proof -
  obtain a where "a \<in> R" "in_arena h p a" using splitsD(2) [OF assms] by blast
  moreover have "arenas R" using assms(1) by (simp add: splits_def)
  ultimately show ?thesis by (fastforce simp: arenas_def in_arena_def)
qed

section \<open>The steps of free\<close>

lemma tags_take_out:
  assumes "tags_ok {} h L R F" "p \<in> L" "h_index h p < 0"
  shows "tags_ok {p} h L R F" and "blocks {p} h L = (blocks {} h L)(p + 48 := None)"
  using assms by (auto simp: tags_ok_def blocks_def fun_eq_iff)

lemma melt_left_merge: "h_left h t = l \<Longrightarrow> l \<noteq> t \<Longrightarrow> melt_left t h = (l, merge_tags l t h)"
  by (auto simp: melt_left_def merge_tags_def Let_def intro!: heap.equality)

lemma remove_tag_merge:
  assumes "remove_tag x h = Inr h'"
  shows "remove_tag x (merge_tags p q h) = Inr (merge_tags p q h')"
  using assms by (auto simp: remove_tag_def merge_tags_def Let_def split: if_splits intro!: heap.equality)

lemma absorb_right_merge:
  assumes "h_right h t = r" "r \<noteq> t" "remove_tag r h = Inr h'" "h_right h' = h_right h"
  shows "absorb_right t h = Inr (merge_tags t r h')"
  using assms by (auto simp: absorb_right_def merge_tags_def Let_def intro!: heap.equality)

text \<open>A tag that the running operation has taken out of the heap.\<close>

definition taken_out :: "ptr \<Rightarrow> heap \<Rightarrow> ptr set \<Rightarrow> (ptr \<times> nat) set \<Rightarrow> bool" where
  "taken_out t h L R \<longleftrightarrow> (\<exists>F. tags_ok {t} h L R F) \<and> t \<in> L \<and> h_index h t < 0"

lemma melt_lefts_correct:
  assumes "taken_out t h L R" "2 \<le> rounds"
  shows "\<exists>t' h' L'. melt_lefts rounds t h = Inr (t', h') \<and> taken_out t' h' L' R \<and> blocks {t'} h' L' = blocks {t} h L
    \<and> (h_left h' t' = 0 \<or> h_index h' (h_left h' t') < 0) \<and> l_initialized h' = l_initialized h"
proof -
  obtain n where n: "rounds = Suc (Suc n)" using assms(2) by (metis Suc_le_D add_2_eq_Suc le_Suc_ex)
  obtain F where F: "tags_ok {t} h L R F" "t \<in> L" "h_index h t < 0" using assms(1) by (auto simp: taken_out_def)
  note D = tags_okD [OF F(1)] note S = splitsD [OF D(2)]
  show ?thesis
  proof (cases "h_left h t \<noteq> 0 \<and> 0 \<le> h_index h (h_left h t)")
    case False
    then show ?thesis using assms(1) by (auto simp: n)
  next
    case True
    let ?l = "h_left h t"
    have l: "?l \<in> L" "h_right h ?l = t" "?l \<noteq> t" using S(9,10) [OF F(2)] True F(3) by auto
    obtain h1 F1 where h1: "remove_tag ?l h = Inr h1" "tags_ok {?l, t} h1 L R F1" "blocks {?l, t} h1 L = blocks {t} h L"
        "h_index h1 = (h_index h)(?l := - 1)" "h_real h1 = h_real h" "h_left h1 = h_left h" "h_right h1 = h_right h"
        "l_initialized h1 = l_initialized h"
      using tags_remove [OF F(1) l(1)] True by blast
    let ?h = "merge_tags ?l t h1"
    have t0: "t \<noteq> 0" using S(4) [OF F(2)] .
    have m: "tags_ok {?l} ?h (L - {t}) R F1" "blocks {?l} ?h (L - {t}) = blocks {t} h L"
      using tags_merge [OF h1(2) l(1), of t] l t0 F(3) h1(3,4,7) by (auto simp: insert_commute insert_Diff_if)
    have ll: "h_left ?h ?l = h_left h ?l" using l S(7) [OF l(1)] S(7) [OF F(2)] t0 h1(6,7) by (auto simp: merge_tags_def)
    have idx: "h_index ?h = (h_index h)(?l := - 1)" by (simp add: merge_tags_def h1(4))
    have "h_index h (h_left h ?l) < 0" if "h_left h ?l \<noteq> 0"
      using D(5) [OF S(9) [OF l(1) that]] S(10) [OF l(1) that] S(4) [OF l(1)] True by fastforce
    then have stop: "h_left ?h ?l = 0 \<or> h_index ?h (h_left ?h ?l) < 0" by (auto simp: ll idx)
    have "melt_lefts rounds t h = Inr (?l, ?h)"
      using True melt_left_merge [OF refl l(3)] remove_tag_merge [OF h1(1), of ?l t] stop by (auto simp: n)
    moreover have "taken_out ?l ?h (L - {t}) R" using m(1) l idx by (auto simp: taken_out_def)
    moreover have "l_initialized ?h = l_initialized h" by (simp add: merge_tags_def h1(8))
    ultimately show ?thesis using m(2) stop by blast
  qed
qed

lemma absorb_rights_correct:
  assumes "taken_out t h L R" "2 \<le> rounds" "h_left h t = 0 \<or> h_index h (h_left h t) < 0"
  shows "\<exists>h' L'. absorb_rights rounds t h = Inr h' \<and> taken_out t h' L' R \<and> blocks {t} h' L' = blocks {t} h L
    \<and> (h_left h' t = 0 \<or> h_index h' (h_left h' t) < 0) \<and> (h_right h' t = 0 \<or> h_index h' (h_right h' t) < 0)
    \<and> l_initialized h' = l_initialized h"
proof -
  obtain n where n: "rounds = Suc (Suc n)" using assms(2) by (metis Suc_le_D add_2_eq_Suc le_Suc_ex)
  obtain F where F: "tags_ok {t} h L R F" "t \<in> L" "h_index h t < 0" using assms(1) by (auto simp: taken_out_def)
  note D = tags_okD [OF F(1)] note S = splitsD [OF D(2)]
  show ?thesis
  proof (cases "h_right h t \<noteq> 0 \<and> 0 \<le> h_index h (h_right h t)")
    case False
    then show ?thesis using assms(1,3) by (auto simp: n)
  next
    case True
    let ?r = "h_right h t"
    have r: "?r \<in> L" "?r \<noteq> t" "?r = t + rl h t" using S(1,6,7) [OF F(2)] True F(3) by auto
    obtain h1 F1 where h1: "remove_tag ?r h = Inr h1" "tags_ok {?r, t} h1 L R F1" "blocks {?r, t} h1 L = blocks {t} h L"
        "h_index h1 = (h_index h)(?r := - 1)" "h_real h1 = h_real h" "h_left h1 = h_left h" "h_right h1 = h_right h"
        "l_initialized h1 = l_initialized h"
      using tags_remove [OF F(1) r(1)] True by blast
    let ?h = "merge_tags t ?r h1"
    have m: "tags_ok {t} ?h (L - {?r}) R F1" "blocks {t} ?h (L - {?r}) = blocks {t} h L"
      using tags_merge [OF h1(2) F(2), of ?r] True r(2) F(3) h1(3,4,7) by (auto simp: insert_Diff_if)
    have tr: "h_right ?h t = h_right h ?r" by (simp add: merge_tags_def h1(7))
    have tl: "h_left ?h t = h_left h t" using S(7) [OF r(1)] S(1) [OF F(2)] r(3) by (auto simp: merge_tags_def h1)
    have idx: "h_index ?h = (h_index h)(?r := - 1)" by (simp add: merge_tags_def h1(4))
    have "h_right h ?r \<noteq> 0 \<Longrightarrow> h_index h (h_right h ?r) < 0" using D(5) [OF r(1)] True by simp
    then have stop: "h_right ?h t = 0 \<or> h_index ?h (h_right ?h t) < 0" by (auto simp: tr idx)
    have "absorb_rights rounds t h = Inr ?h"
      using True absorb_right_merge [OF refl r(2) h1(1,7)] stop by (auto simp: n)
    moreover have "taken_out t ?h (L - {?r}) R" using m(1) F(2,3) r(2) idx by (auto simp: taken_out_def)
    moreover have "l_initialized ?h = l_initialized h" by (simp add: merge_tags_def h1(8))
    moreover have "h_left ?h t = 0 \<or> h_index ?h (h_left ?h t) < 0" using assms(3) by (auto simp: tl idx)
    ultimately show ?thesis using m(2) stop by blast
  qed
qed

text \<open>The pages of an arena without neighbours are given back.\<close>

lemma tags_drop:
  assumes "taken_out t h L R" "h_left h t = 0" "h_right h t = 0"
  shows "\<exists>n F. (t, n) \<in> R \<and> free_pages (h_real h t) = n \<and> tags_ok {} h (L - {t}) (R - {(t, n)}) F" and "blocks {} h (L - {t}) = blocks {t} h L"
proof -
  obtain F where F: "tags_ok {t} h L R F" "t \<in> L" "h_index h t < 0" using assms(1) by (auto simp: taken_out_def)
  note D = tags_okD [OF F(1)]
  obtain n where n: "(t, n) \<in> R" "rl h t = 4096 * n" "16 \<le> n" "splits h (L - {t}) (R - {(t, n)})"
    using splits_drop [OF D(2) F(2) assms(2,3)] by blast
  have "free_lists h (L - {t}) F" using F(3) by (intro free_lists_cong [OF D(1)]) auto
  then have "tags_ok {} h (L - {t}) (R - {(t, n)}) F" using n(4) D(3-5) by (auto simp: tags_ok_def)
  moreover have "free_pages (h_real h t) = n" using n(2,3) by (simp add: free_pages_def)
  ultimately show "\<exists>n F. (t, n) \<in> R \<and> free_pages (h_real h t) = n \<and> tags_ok {} h (L - {t}) (R - {(t, n)}) F" using n(1) by blast
  show "blocks {} h (L - {t}) = blocks {t} h L" by (auto simp: blocks_def fun_eq_iff)
qed

section \<open>The heap over a source of pages\<close>

text \<open>
  What the allocator asks of \<open>liballoc_alloc\<close> and \<open>liballoc_free\<close>: pages that are granted are not granted again
  before they are given back, and giving back granted pages works and leaves the others alone.
\<close>

locale page_source =
  fixes alloc :: "nat \<Rightarrow> 'p \<Rightarrow> (ptr \<times> 'p) kres" and release :: "ptr \<Rightarrow> nat \<Rightarrow> 'p \<Rightarrow> 'p kres"
    and pinv :: "'p \<Rightarrow> bool" and granted :: "'p \<Rightarrow> ptr \<Rightarrow> nat \<Rightarrow> bool"
  assumes alloc_granted: "pinv w \<Longrightarrow> 0 < n \<Longrightarrow> alloc n w = Inr (a, w') \<Longrightarrow>
      pinv w' \<and> (\<forall>b m. granted w b m \<longrightarrow> granted w' b m)
      \<and> (a \<noteq> 0 \<longrightarrow> granted w' a n \<and> (\<forall>b m. granted w b m \<and> 0 < m \<longrightarrow> b + 4096 * m \<le> a \<or> a + 4096 * n \<le> b))"
    and release_granted: "pinv w \<Longrightarrow> granted w a n \<Longrightarrow> 0 < n \<Longrightarrow>
      \<exists>w'. release a n w = Inr w' \<and> pinv w' \<and> (\<forall>b m. granted w b m \<and> (b + 4096 * m \<le> a \<or> a + 4096 * n \<le> b) \<longrightarrow> granted w' b m)"

text \<open>The heap \<open>h\<close> over the pages \<open>w\<close> holds the allocated blocks \<open>B\<close>.\<close>

definition heap_state :: "('p \<Rightarrow> bool) \<Rightarrow> ('p \<Rightarrow> ptr \<Rightarrow> nat \<Rightarrow> bool) \<Rightarrow> heap \<Rightarrow> 'p \<Rightarrow> (ptr \<rightharpoonup> nat) \<Rightarrow> bool" where
  "heap_state pinv granted h w B \<longleftrightarrow> pinv w
     \<and> (if l_initialized h
        then \<exists>L R F. tags_ok {} h L R F \<and> (\<forall>(s, n) \<in> R. granted w s n) \<and> B = blocks {} h L
        else B = Map.empty)"

lemma heap_stateI:
  assumes "tags_ok {} h L R F" "\<forall>(s, n) \<in> R. granted w s n" "pinv w" "l_initialized h" "B = blocks {} h L"
  shows "heap_state pinv granted h w B"
  using assms unfolding heap_state_def by metis

text \<open>Allocated blocks do not overlap, and neither do their tags with other blocks.\<close>

lemma heap_state_disjoint:
  assumes "heap_state pinv granted h w B" "B a = Some n" "B b = Some m" "a \<noteq> b"
  shows "a + n \<le> b - 48 \<or> b + m \<le> a - 48"
proof -
  obtain L R F where t: "tags_ok {} h L R F" "B = blocks {} h L" using assms by (auto simp: heap_state_def split: if_splits)
  note D = tags_okD [OF t(1)]
  have a: "48 \<le> a" "a - 48 \<in> L" "n + 48 \<le> rl h (a - 48)" "48 \<le> b" "b - 48 \<in> L" "m + 48 \<le> rl h (b - 48)"
    using assms(2,3) D(4) [of "a - 48"] D(4) [of "b - 48"] unfolding t(2) by (auto simp: blocks_def split: if_splits)
  show ?thesis
  proof (cases "a < b")
    case True
    then show ?thesis using splitsD(5) [OF D(2) a(2,5)] a(1,3,4) by linarith
  next
    case False
    then show ?thesis using splitsD(5) [OF D(2) a(5,2)] a(1,4,6) assms(4) by linarith
  qed
qed

lemma heap_state_address: "heap_state pinv granted h w B \<Longrightarrow> B a = Some n \<Longrightarrow> 48 \<le> a"
  by (auto simp: heap_state_def blocks_def split: if_splits)

lemma heap_state_size:
  assumes "heap_state pinv granted h w B" "B a = Some n"
  shows "unat (h_size h (a - 48)) = n" "n < 2 ^ 31"
proof -
  obtain L R F where t: "tags_ok {} h L R F" "B = blocks {} h L" using assms by (auto simp: heap_state_def split: if_splits)
  then show "unat (h_size h (a - 48)) = n" using assms(2) by (auto simp: blocks_def split: if_splits)
  have "a - 48 \<in> L" "n + 48 \<le> rl h (a - 48)" using assms(2) tags_okD(4) [OF t(1), of "a - 48"] unfolding t(2) by (auto simp: blocks_def split: if_splits)
  then show "n < 2 ^ 31" using real_bound [OF tags_okD(2) [OF t(1)], of "a - 48"] by simp
qed

text \<open>The first call initialises the lists.\<close>

definition started :: "heap \<Rightarrow> heap" where
  "started h = (if l_initialized h then h else h\<lparr>l_freePages := (\<lambda>_. 0), l_completePages := (\<lambda>_. 0), l_initialized := True\<rparr>)"

lemma started_tags:
  assumes "heap_state pinv granted h w B"
  shows "\<exists>L R F. tags_ok {} (started h) L R F \<and> (\<forall>(s, n) \<in> R. granted w s n) \<and> B = blocks {} (started h) L"
proof (cases "l_initialized h")
  case False
  then have "B = blocks {} (started h) {}" using assms by (simp add: heap_state_def blocks_def)
  moreover have "tags_ok {} (started h) {} {} (\<lambda>_. [])"
    using False by (simp add: started_def tags_ok_def free_lists_def splits_def arenas_def)
  ultimately show ?thesis by (intro exI [of _ "{}"] exI [of _ "\<lambda>_. []"]) auto
qed (use assms in \<open>auto simp: heap_state_def started_def\<close>)

text \<open>
  \<open>malloc\<close> without its search: it takes the first tag with enough room from the list of its exponent, or new pages.
\<close>

lemma malloc_cases:
  assumes "free_lists (started h) L F" "i = nat (list_index (ucast sz))" "length (F i) < rounds"
    and p: "p = hd (filter (\<lambda>p. sz + 48 \<le> ucast (h_real (started h) p) - 48) (F i) @ [0])"
  shows "p = 0 \<Longrightarrow> malloc rounds alloc sz h w = kbind (allocate_new_tag alloc (ucast sz) (started h) w) (\<lambda>(tag, h, w).
        if tag = 0 then Inr (0, h, w) else let (p, h) = place_block tag sz h in Inr (p, h, w))"
    and "p \<noteq> 0 \<Longrightarrow> remove_tag p (started h) = Inr h1 \<Longrightarrow>
      f = (if h_left h1 p = 0 \<and> h_right h1 p = 0 then (l_completePages h1)(i := l_completePages h1 i - 1) else l_completePages h1) \<Longrightarrow>
      malloc rounds alloc sz h w = (let (r, h') = place_block p sz (h1\<lparr>l_completePages := f\<rparr>) in Inr (r, h', w))"
proof -
  note G = free_listsD [OF assms(1)]
  have found: "find_tag rounds sz (started h) (l_freePages (started h) i) = Inr p"
    using find_tag_first [OF G(1) G(5) assms(3)] by (simp add: p G(2))
  note m = malloc_def [of rounds alloc sz h w, folded started_def assms(2)]
  show "p = 0 \<Longrightarrow> malloc rounds alloc sz h w = kbind (allocate_new_tag alloc (ucast sz) (started h) w) (\<lambda>(tag, h, w).
        if tag = 0 then Inr (0, h, w) else let (p, h) = place_block tag sz h in Inr (p, h, w))"
    using found by (simp add: m Let_def)
  show "malloc rounds alloc sz h w = (let (r, h') = place_block p sz (h1\<lparr>l_completePages := f\<rparr>) in Inr (r, h', w))"
    if "p \<noteq> 0" "remove_tag p (started h) = Inr h1"
      "f = (if h_left h1 p = 0 \<and> h_right h1 p = 0 then (l_completePages h1)(i := l_completePages h1 i - 1) else l_completePages h1)"
    using found that by (simp add: m Let_def)
qed

context page_source
begin

lemma arenas_granted:
  assumes "tags_ok X h L R F" "\<forall>(s, n) \<in> R. granted w s n" "pinv w" "16 \<le> n" "alloc n w = Inr (a, w')" "a \<noteq> 0"
  shows "\<forall>(s, m) \<in> R. s + 4096 * m \<le> a \<or> a + 4096 * n \<le> s"
proof -
  have "arenas R" using tags_okD(2) [OF assms(1)] by (simp add: splits_def)
  then show ?thesis using alloc_granted [OF assms(3) _ assms(5)] assms(2,4,6) by (fastforce simp: arenas_def)
qed

text \<open>The blocks a call may add to the map.\<close>

lemma malloc_new_arena:
  assumes t: "tags_ok {} h L R F" "\<forall>(s, n) \<in> R. granted w s n" "pinv w" "l_initialized h" and sz: "unat sz \<le> 0x7FFFE000"
    and al: "alloc (new_pages (ucast sz)) w = Inr (a, w')" "a \<noteq> 0"
  shows "\<exists>h'. place_block a sz (new_tag a (ucast sz) (new_pages (ucast sz)) h) = (a + 48, h')
    \<and> heap_state pinv granted h' w' ((blocks {} h L)(a + 48 \<mapsto> unat sz)) \<and> blocks {} h L (a + 48) = None"
proof -
  let ?n = "new_pages (ucast sz)" let ?h = "new_tag a (ucast sz) ?n h"
  have u: "unat (ucast sz :: u32) = unat sz" using sz by (intro unat_ucast_64_32) simp
  note n = new_pages_bounds [of "ucast sz :: u32", unfolded u, OF sz]
  have d: "\<forall>(s, m) \<in> R. s + 4096 * m \<le> a \<or> a + 4096 * ?n \<le> s" using arenas_granted [OF t(1-3) n(1) al] .
  note N = tags_new [OF t(1) _ n(1,3) d]
  have i: "h_index ?h a < 0" "h_right ?h a = 0" "l_initialized ?h" using t(4) by (simp_all add: new_tag_def)
  obtain h' L' F' where h': "place_block a sz ?h = (a + 48, h')" "tags_ok {} h' L' (insert (a, ?n) R) F'"
      "blocks {} h' L' = (blocks {} h L)(a + 48 \<mapsto> unat sz)" "l_initialized h'"
    using place_block_correct [OF N(1) _ i(1), of sz] N(3,4) n al(2) i by auto
  have "\<forall>(s, m) \<in> insert (a, ?n) R. granted w' s m" "pinv w'"
    using alloc_granted [OF t(3) _ al(1)] t(2) al(2) n(1) by auto
  then have "heap_state pinv granted h' w' ((blocks {} h L)(a + 48 \<mapsto> unat sz))" using heap_stateI [OF h'(2)] h'(3,4) by simp
  moreover have "blocks {} h L (a + 48) = None" using N(2) al(2) by (simp add: blocks_def)
  ultimately show ?thesis using h'(1) by blast
qed

lemma malloc_from_list:
  assumes t: "tags_ok {} h L R F" "\<forall>(s, n) \<in> R. granted w s n" "pinv w" "l_initialized h"
    and p: "p \<in> L" "0 \<le> h_index h p" "unat sz + 96 \<le> rl h p"
  shows "\<exists>h1. remove_tag p h = Inr h1 \<and> h_left h1 = h_left h \<and> h_right h1 = h_right h
    \<and> (\<forall>f. \<exists>h'. place_block p sz (h1\<lparr>l_completePages := f\<rparr>) = (p + 48, h')
         \<and> heap_state pinv granted h' w ((blocks {} h L)(p + 48 \<mapsto> unat sz)))
    \<and> blocks {} h L (p + 48) = None"
proof -
  note D = tags_okD [OF t(1)]
  obtain h1 F1 where h1: "remove_tag p h = Inr h1" "tags_ok {p} h1 L R F1" "blocks {p} h1 L = blocks {} h L"
      "h_index h1 = (h_index h)(p := - 1)" "h_real h1 = h_real h" "h_left h1 = h_left h" "h_right h1 = h_right h"
      "l_initialized h1 = l_initialized h"
    using tags_remove [OF t(1) p(1,2)] by blast
  have r: "h_right h1 p = 0 \<or> h_index h1 (h_right h1 p) < 0" using D(5) [OF p(1)] p(2) by (auto simp: h1)
  have "\<exists>h'. place_block p sz (h1\<lparr>l_completePages := f\<rparr>) = (p + 48, h')
      \<and> heap_state pinv granted h' w ((blocks {} h L)(p + 48 \<mapsto> unat sz))" for f
  proof -
    obtain h' L' F' where "place_block p sz (h1\<lparr>l_completePages := f\<rparr>) = (p + 48, h')" "tags_ok {} h' L' R F'"
        "blocks {} h' L' = (blocks {} h L)(p + 48 \<mapsto> unat sz)" "l_initialized h'"
      using place_block_correct [of p "h1\<lparr>l_completePages := f\<rparr>" L R F1 sz] h1 p real_bound [OF D(2) p(1)] r t(4) by auto
    then show ?thesis using heap_stateI [where pinv = pinv and granted = granted and w = w and R = R] t(2,3) by metis
  qed
  moreover have "blocks {} h L (p + 48) = None" using p(2) by (simp add: blocks_def)
  ultimately show ?thesis using h1 by blast
qed

text \<open>
  \<open>malloc\<close> is the allocation of a fresh block: either the source of pages faults or has none, or the result is the
  address of a new block of the size asked for that overlaps no other block, and the others stay.
\<close>

lemma malloc_allocates:
  assumes "heap_state pinv granted h w B" "unat sz \<le> 0x7FFFE000"
  shows "\<exists>N. (\<exists>e. alloc (new_pages (ucast sz)) w = Inl e \<and> (\<forall>rounds \<ge> N. malloc rounds alloc sz h w = Inl e))
    \<or> (\<exists>h' w'. (\<forall>rounds \<ge> N. malloc rounds alloc sz h w = Inr (0, h', w'))
         \<and> alloc (new_pages (ucast sz)) w = Inr (0, w') \<and> heap_state pinv granted h' w' B)
    \<or> (\<exists>p h' w'. (\<forall>rounds \<ge> N. malloc rounds alloc sz h w = Inr (p, h', w'))
         \<and> B p = None \<and> heap_state pinv granted h' w' (B(p \<mapsto> unat sz)))"
proof -
  obtain L R F where t: "tags_ok {} (started h) L R F" "\<forall>(s, n) \<in> R. granted w s n" "B = blocks {} (started h) L"
    using started_tags [OF assms(1)] by blast
  have w: "pinv w" "l_initialized (started h)" using assms(1) by (auto simp: heap_state_def started_def)
  note D = tags_okD [OF t(1)] note G = free_listsD [OF D(1)]
  define i where "i = nat (list_index (ucast sz))"
  define p where "p = hd (filter (\<lambda>p. sz + 48 \<le> ucast (h_real (started h) p) - 48) (F i) @ [0])"
  let ?N = "Suc (length (F i))" let ?n = "new_pages (ucast sz)"
  note M = malloc_cases [OF D(1) i_def Suc_le_lessD p_def]
  show ?thesis
  proof (cases "p = 0")
    case True
    note M1 = M(1) [OF _ True, of _ alloc w]
    consider e where "alloc ?n w = Inl e" | w' where "alloc ?n w = Inr (0, w')" | a w' where "alloc ?n w = Inr (a, w')" "a \<noteq> 0"
      by (cases "alloc ?n w") auto
    then show ?thesis
    proof cases
      case 1
      then have "\<forall>rounds \<ge> ?N. malloc rounds alloc sz h w = Inl e" using M1 by (simp add: allocate_new_tag_def)
      then show ?thesis using 1 by blast
    next
      case 2
      have "0 < ?n" by (simp add: new_pages_def Let_def)
      then have "\<forall>(s, n) \<in> R. granted w' s n" "pinv w'" using t(2) alloc_granted [OF w(1) _ 2] by auto
      then have "heap_state pinv granted (started h) w' B" by (rule heap_stateI [OF t(1) _ _ w(2) t(3)])
      moreover have "\<forall>rounds \<ge> ?N. malloc rounds alloc sz h w = Inr (0, started h, w')" using M1 2 by (simp add: allocate_new_tag_def)
      ultimately show ?thesis using 2 by blast
    next
      case 3
      obtain h' where h': "place_block a sz (new_tag a (ucast sz) ?n (started h)) = (a + 48, h')"
          "heap_state pinv granted h' w' (B(a + 48 \<mapsto> unat sz))" "B (a + 48) = None"
        using malloc_new_arena [OF t(1,2) w assms(2) 3] t(3) by blast
      have "\<forall>rounds \<ge> ?N. malloc rounds alloc sz h w = Inr (a + 48, h', w')" using M1 3 h'(1) by (simp add: allocate_new_tag_def)
      then show ?thesis using h'(2,3) by blast
    qed
  next
    case False
    then have "p \<in> set (filter (\<lambda>p. sz + 48 \<le> ucast (h_real (started h) p) - 48) (F i))"
      unfolding p_def by (cases "filter (\<lambda>p. sz + 48 \<le> ucast (h_real (started h) p) - 48) (F i)") auto
    then have p: "p \<in> L" "h_index (started h) p = int i" "sz + 48 \<le> ucast (h_real (started h) p) - 48" using G(4) [of i] by auto
    have room: "unat sz + 96 \<le> rl (started h) p" using fits_iff [OF splitsD(1) [OF D(2) p(1)] assms(2)] p(3) by simp
    have "0 \<le> h_index (started h) p" using p(2) by simp
    from malloc_from_list [OF t(1,2) w p(1) this room] obtain h1 where h1: "remove_tag p (started h) = Inr h1"
        "\<forall>f. \<exists>h'. place_block p sz (h1\<lparr>l_completePages := f\<rparr>) = (p + 48, h') \<and> heap_state pinv granted h' w (B(p + 48 \<mapsto> unat sz))"
        "B (p + 48) = None"
      unfolding t(3) by blast
    define f where "f = (if h_left h1 p = 0 \<and> h_right h1 p = 0 then (l_completePages h1)(i := l_completePages h1 i - 1) else l_completePages h1)"
    obtain h' where h': "place_block p sz (h1\<lparr>l_completePages := f\<rparr>) = (p + 48, h')" "heap_state pinv granted h' w (B(p + 48 \<mapsto> unat sz))"
      using h1(2) by blast
    have "\<forall>rounds \<ge> ?N. malloc rounds alloc sz h w = Inr (p + 48, h', w)" using M(2) [OF _ False h1(1) f_def, of _ alloc w] h'(1) by simp
    then show ?thesis using h'(2) h1(3) by blast
  qed
qed

lemma free_release:
  assumes "taken_out t h L R" "h_left h t = 0" "h_right h t = 0" "\<forall>(s, n) \<in> R. granted w s n" "pinv w" "l_initialized h"
  shows "\<exists>w'. release t (free_pages (h_real h t)) w = Inr w' \<and> heap_state pinv granted h w' (blocks {t} h L)"
proof -
  obtain n F where n: "(t, n) \<in> R" "free_pages (h_real h t) = n" "tags_ok {} h (L - {t}) (R - {(t, n)}) F"
    using tags_drop(1) [OF assms(1-3)] by blast
  have ar: "arenas R" using assms(1) by (auto simp: taken_out_def tags_ok_def splits_def)
  have "0 < n" using ar n(1) by (auto simp: arenas_def)
  then obtain w' where w': "release t n w = Inr w'" "pinv w'"
      "\<forall>b m. granted w b m \<and> (b + 4096 * m \<le> t \<or> t + 4096 * n \<le> b) \<longrightarrow> granted w' b m"
    using release_granted [OF assms(5), of t n] assms(4) n(1) by auto
  have "granted w' s m" if "(s, m) \<in> R - {(t, n)}" for s m
  proof -
    have "s + 4096 * m \<le> t \<or> t + 4096 * n \<le> s" using ar n(1) that unfolding arenas_def by fastforce
    then show ?thesis using w'(3) assms(4) that by auto
  qed
  then have "\<forall>(s, m) \<in> R - {(t, n)}. granted w' s m" by blast
  then have "heap_state pinv granted h w' (blocks {t} h L)"
    using w'(2) by (rule heap_stateI [OF n(3) _ _ assms(6) tags_drop(2) [OF assms(1-3), symmetric]])
  then show ?thesis using w'(1) n(2) by blast
qed

lemma free_insert:
  assumes "taken_out t h L R" "\<forall>(s, n) \<in> R. granted w s n" "pinv w" "l_initialized h" "8 \<le> i" "i < 32"
    and "h_left h t = 0 \<or> h_index h (h_left h t) < 0" "h_right h t = 0 \<or> h_index h (h_right h t) < 0"
  shows "heap_state pinv granted (insert_tag t (int i) (h\<lparr>l_completePages := f\<rparr>)) w (blocks {t} h L)"
proof -
  let ?h = "h\<lparr>l_completePages := f\<rparr>"
  obtain F where F: "tags_ok {t} ?h L R F" "t \<in> L" "h_index ?h t < 0" using assms(1) by (auto simp: taken_out_def)
  note I = tags_insert [of t "{}" ?h L R F i, OF F]
  have "tags_ok {} (insert_tag t (int i) ?h) L R (F(i := t # F i))" "blocks {} (insert_tag t (int i) ?h) L = blocks {t} h L"
    using I assms(5-8) by simp_all
  moreover have "l_initialized (insert_tag t (int i) ?h)" using assms(4) by (simp add: insert_tag_def Let_def)
  ultimately show ?thesis using assms(2,3) heap_stateI [where pinv = pinv and granted = granted and R = R and w = w] by metis
qed

text \<open>Freeing an allocated block takes it out of the map and leaves the other blocks alone.\<close>

lemma free_deallocates:
  assumes "heap_state pinv granted h w B" "B p = Some n" "2 \<le> rounds"
  shows "\<exists>h' w'. free_block rounds release p h w = Inr (h', w') \<and> heap_state pinv granted h' w' (B(p := None))"
proof -
  have ini: "l_initialized h" and w: "pinv w" using assms(1,2) by (auto simp: heap_state_def split: if_splits)
  obtain L R F where t: "tags_ok {} h L R F" "\<forall>(s, n) \<in> R. granted w s n" "B = blocks {} h L"
    using assms(1) ini unfolding heap_state_def by auto
  let ?t = "p - 48"
  have p: "48 \<le> p" "?t \<in> L" "h_index h ?t < 0" using assms(2) unfolding t(3) by (auto simp: blocks_def split: if_splits)
  have out: "taken_out ?t h L R" "blocks {?t} h L = B(p := None)" using tags_take_out [OF t(1) p(2,3)] p t(3) by (auto simp: taken_out_def)
  obtain t1 h1 L1 where m: "melt_lefts rounds ?t h = Inr (t1, h1)" "taken_out t1 h1 L1 R" "blocks {t1} h1 L1 = B(p := None)"
      "h_left h1 t1 = 0 \<or> h_index h1 (h_left h1 t1) < 0" "l_initialized h1"
    using melt_lefts_correct [OF out(1) assms(3)] out(2) ini by auto
  obtain h2 L2 where a: "absorb_rights rounds t1 h1 = Inr h2" "taken_out t1 h2 L2 R" "blocks {t1} h2 L2 = B(p := None)"
      "h_left h2 t1 = 0 \<or> h_index h2 (h_left h2 t1) < 0" "h_right h2 t1 = 0 \<or> h_index h2 (h_right h2 t1) < 0" "l_initialized h2"
    using absorb_rights_correct [OF m(2) assms(3) m(4)] m(3,5) by auto
  let ?i = "nat (list_index (h_real h2 t1 - 48))"
  have i: "0 \<le> list_index (h_real h2 t1 - 48)" "8 \<le> ?i" "?i < 32" using list_index_bounds [of "h_real h2 t1 - 48"] by auto
  have "h_magic h ?t = LIBALLOC_MAGIC" using tags_okD(3) [OF t(1) p(2)] .
  then have e: "free_block rounds release p h w =
      (if h_left h2 t1 = 0 \<and> h_right h2 t1 = 0
       then if l_completePages h2 ?i = MAXCOMPLETE
            then kbind (release t1 (free_pages (h_real h2 t1)) w) (\<lambda>w. Inr (h2, w))
            else Inr (insert_tag t1 (int ?i) (h2\<lparr>l_completePages := (l_completePages h2)(?i := l_completePages h2 ?i + 1)\<rparr>), w)
       else Inr (insert_tag t1 (int ?i) h2, w))"
    using p(1) m(1) a(1) i(1) by (simp add: free_block_def Let_def)
  show ?thesis
  proof (cases "h_left h2 t1 = 0 \<and> h_right h2 t1 = 0 \<and> l_completePages h2 ?i = MAXCOMPLETE")
    case True
    then obtain w' where "release t1 (free_pages (h_real h2 t1)) w = Inr w'" "heap_state pinv granted h2 w' (B(p := None))"
      using free_release [OF a(2) _ _ t(2) w a(6)] a(3) by auto
    then show ?thesis using e True by auto
  next
    case False
    define f where "f = (if h_left h2 t1 = 0 \<and> h_right h2 t1 = 0
      then (l_completePages h2)(?i := l_completePages h2 ?i + 1) else l_completePages h2)"
    have "free_block rounds release p h w = Inr (insert_tag t1 (int ?i) (h2\<lparr>l_completePages := f\<rparr>), w)" using e False by (auto simp: f_def)
    moreover have "heap_state pinv granted (insert_tag t1 (int ?i) (h2\<lparr>l_completePages := f\<rparr>)) w (B(p := None))"
      using free_insert [OF a(2) t(2) w a(6) i(2,3) a(4,5)] by (simp add: a(3))
    ultimately show ?thesis by blast
  qed
qed

end

section \<open>The pages of the kernel\<close>

text \<open>
  The heap of the kernel takes its pages from the heap window.  The window has no large pages; the frames the
  allocator can find are below 4 GiB, because the translation of addresses loses the bits above, and
  \<open>max_blocks\<close> as \<open>initialize_physical_allocator\<close> sets it keeps them there.  A granted range is mapped to frames
  that can be given back.
\<close>

definition small_tables :: "kheap \<Rightarrow> bool" where
  "small_tables h \<longleftrightarrow> (\<forall>t. \<not> bit (kernel_heap_dir h t) 7)"

definition page_frame :: "u64 \<Rightarrow> nat" where
  "page_frame e = unat (drop_bit 12 (ucast (push_bit 12 (get_page_frame e) :: u32) :: u64))"

definition window_ok :: "vmm \<Rightarrow> bool" where
  "window_ok vm \<longleftrightarrow> heap_inv (vm_heap vm) \<and> small_tables (vm_heap vm) \<and> phys_inv (vm_phys vm) \<and> max_blocks (vm_phys vm) \<le> 2 ^ 20"

definition backed_page :: "vmm \<Rightarrow> nat \<Rightarrow> bool" where
  "backed_page vm k \<longleftrightarrow> present (pages (vm_heap vm) k) \<and> page_frame (pages (vm_heap vm) k) \<noteq> 0
     \<and> page_frame (pages (vm_heap vm) k) div 32 < length (phys_mem_bitmap (vm_phys vm))"

definition window_granted :: "vmm \<Rightarrow> ptr \<Rightarrow> nat \<Rightarrow> bool" where
  "window_granted vm a n \<longleftrightarrow> (\<exists>s. a = 0xFFFFFFFFC0000000 + 4096 * s \<and> s + n \<le> 262144
     \<and> (\<forall>k. s \<le> k \<and> k < s + n \<longrightarrow> backed_page vm k))"

lemma and_PDE_2M: "e AND PDE_2M = 0 \<longleftrightarrow> \<not> bit e 7"
proof -
  have "PDE_2M = push_bit 7 1" by (simp add: PDE_2M_def)
  then show ?thesis by (simp add: bit_iff_and_push_bit_not_eq_0)
qed

lemma set_entry_dir: "set_entry d p e h = Inr h' \<Longrightarrow> kernel_heap_dir h' = kernel_heap_dir h"
  by (auto simp: set_entry_def split: if_splits)

lemma use_table_small:
  assumes "use_table tp d h = Inr h'" "small_tables h"
  shows "small_tables h'"
proof -
  have "\<not> bit (TABLE_WRITEABLE OR TABLE_PRESENT) 7" by (simp add: TABLE_WRITEABLE_def TABLE_PRESENT_def)
  then show ?thesis
    using assms by (auto simp: use_table_def small_tables_def set_page_frame_def bit_or_iff bit_and_iff bit_PAGE_FRAME split: if_splits)
qed

lemma mark_pages_dir: "mark_pages n d off h = Inr h' \<Longrightarrow> kernel_heap_dir h' = kernel_heap_dir h"
  by (induction n arbitrary: d off h) (auto simp: Let_def split: prod.splits dest!: set_entry_dir)

lemma small_tables_dir: "kernel_heap_dir h' = kernel_heap_dir h \<Longrightarrow> small_tables h' = small_tables h"
  by (simp add: small_tables_def)

lemma mark_new_pages_small: "mark_new_pages tp n d off h = Inr h' \<Longrightarrow> small_tables h \<Longrightarrow> small_tables h'"
proof (induction n arbitrary: d off h)
  case (Suc n)
  show ?case
  proof (cases "512 \<le> off")
    case True
    then obtain h1 h2 where h: "use_table tp (d + 1) h = Inr h1" "set_entry (d + 1) 0 (TABLE_WRITEABLE OR TABLE_PRESENT) h1 = Inr h2"
        "mark_new_pages tp n (d + 1) 1 h2 = Inr h'" using Suc.prems(1) by auto
    have "small_tables h2" using use_table_small [OF h(1) Suc.prems(2)] small_tables_dir [OF set_entry_dir [OF h(2)]] by simp
    then show ?thesis using Suc.IH [OF h(3)] by simp
  next
    case False
    then obtain h1 where h: "set_entry d off (TABLE_WRITEABLE OR TABLE_PRESENT) h = Inr h1" "mark_new_pages tp n d (off + 1) h1 = Inr h'"
      using Suc.prems(1) by auto
    then show ?thesis using Suc.IH [OF h(2)] Suc.prems(2) small_tables_dir [OF set_entry_dir [OF h(1)]] by simp
  qed
qed simp

lemma kernel_allocate_small:
  assumes "kernel_allocate_4k_pages tp n h = Inr (a, h')" "small_tables h"
  shows "small_tables h'"
  using assms by (auto simp: kernel_allocate_4k_pages_def small_tables_dir [OF mark_pages_dir]
      split: sum.splits prod.splits option.splits intro: mark_new_pages_small use_table_small)

text \<open>A frame of the allocator, as an entry of a table holds it.\<close>

lemma page_frame_entry:
  assumes "b < 2 ^ 20"
  shows "page_frame (set_page_frame flags (push_bit 12 (of_nat b))) = b"
proof -
  have m: "(0xFFFFF000 :: u64) = push_bit 12 (mask 20)" by (simp add: mask_eq_exp_minus_1)
  have u: "unat (of_nat b :: u64) = b" using assms by (intro unat_of_nat_small) simp
  have "push_bit 12 (of_nat b) AND (0xFFFFF000 :: u64) = push_bit 12 (of_nat b AND mask 20)" unfolding m by (simp add: push_bit_and)
  also have "of_nat b AND mask 20 = take_bit 20 (of_nat b :: u64)" by (simp add: take_bit_eq_mask)
  also have "\<dots> = of_nat b" using assms u by (simp add: word_unat_eq_iff unsigned_take_bit_eq take_bit_nat_eq_self)
  finally show ?thesis using block_of_address [of b] assms unfolding page_frame_def translate_frame by simp
qed

lemma allocate_frame:
  assumes "phys_inv p" "max_blocks p \<le> 2 ^ 20" "allocate_physical_block p = Inr (a, p')"
  shows "\<exists>b. a = push_bit 12 (of_nat b) \<and> b \<noteq> 0 \<and> b < 2 ^ 20 \<and> b div 32 < length (phys_mem_bitmap p')
    \<and> length (phys_mem_bitmap p') = length (phys_mem_bitmap p) \<and> phys_inv p' \<and> max_blocks p' = max_blocks p"
proof -
  obtain b where b: "a = push_bit 12 (of_nat b)" "b \<in> searched p" and l: "length (phys_mem_bitmap p') = length (phys_mem_bitmap p)"
    using get_first_free_block_correct [OF assms(1)] assms(3) bitmap_length(2) by (auto simp: allocate_physical_block_def split: if_splits)
  have "b div 32 < max_blocks p div 32" using b(2) by (simp add: searched_def)
  then have "b < max_blocks p" by (metis div_le_mono not_le)
  then show ?thesis using b l assms(2) searched_bound [OF assms(1)] allocate_max_blocks [OF assms(1,3)] by auto
qed

lemma map_kernel_pages_correct:
  "map_kernel_pages n (0xFFFFFFFFC0000000 + 4096 * of_nat s) vm = Inr vm' \<Longrightarrow> s + n \<le> 262144 \<Longrightarrow>
   phys_inv (vm_phys vm) \<Longrightarrow> max_blocks (vm_phys vm) \<le> 2 ^ 20 \<Longrightarrow>
   kernel_heap_dir (vm_heap vm') = kernel_heap_dir (vm_heap vm)
   \<and> (\<forall>k. k < s \<or> s + n \<le> k \<longrightarrow> pages (vm_heap vm') k = pages (vm_heap vm) k)
   \<and> (\<forall>k. s \<le> k \<and> k < s + n \<longrightarrow> backed_page vm' k)
   \<and> length (phys_mem_bitmap (vm_phys vm')) = length (phys_mem_bitmap (vm_phys vm))
   \<and> phys_inv (vm_phys vm') \<and> max_blocks (vm_phys vm') = max_blocks (vm_phys vm)"
proof (induction n arbitrary: s vm)
  case (Suc n)
  let ?a = "0xFFFFFFFFC0000000 + 4096 * of_nat s :: u64"
  have s: "s < 262144" using Suc.prems(2) by simp
  obtain phys p h where a: "allocate_physical_block (vm_phys vm) = Inr (phys, p)"
      "kernel_map_virtual_memory_4k 1 phys ?a (TABLE_PRESENT OR TABLE_WRITEABLE) (vm_heap vm) = Inr h"
      "map_kernel_pages n (?a + 4096) \<lparr>vm_heap = h, vm_phys = p\<rparr> = Inr vm'"
    using Suc.prems(1) by (auto simp del: kernel_map_virtual_memory_4k.simps)
  obtain b where b: "phys = push_bit 12 (of_nat b)" "b \<noteq> 0" "b < 2 ^ 20" "b div 32 < length (phys_mem_bitmap p)"
      "length (phys_mem_bitmap p) = length (phys_mem_bitmap (vm_phys vm))" "phys_inv p" "max_blocks p = max_blocks (vm_phys vm)"
    using allocate_frame [OF Suc.prems(3,4) a(1)] by blast
  let ?e = "set_page_frame (TABLE_PRESENT OR TABLE_WRITEABLE) phys"
  have h: "pages h = (pages (vm_heap vm))(s := ?e)" "kernel_heap_dir h = kernel_heap_dir (vm_heap vm)"
    using a(2) set_entry_pages [of "s div 512" "s mod 512" ?e "vm_heap vm"] less_mult_imp_div_less [of s 512 512] s
    by (auto simp: heap_page_index [OF s])
  have "present (TABLE_PRESENT OR TABLE_WRITEABLE)" by (simp add: present_def flag_defs)
  then have e: "present ?e" "page_frame ?e = b" using page_frame_entry [OF b(3)] b(1) by simp_all
  have "?a + 4096 = 0xFFFFFFFFC0000000 + 4096 * of_nat (Suc s)" by (simp add: algebra_simps)
  from Suc.IH [OF a(3) [unfolded this]] Suc.prems(2,4) b(5-7) h(2) have
    IH: "kernel_heap_dir (vm_heap vm') = kernel_heap_dir (vm_heap vm)" "\<And>k. k < Suc s \<or> Suc s + n \<le> k \<Longrightarrow> pages (vm_heap vm') k = pages h k"
      "\<And>k. Suc s \<le> k \<and> k < Suc s + n \<Longrightarrow> backed_page vm' k"
      "length (phys_mem_bitmap (vm_phys vm')) = length (phys_mem_bitmap (vm_phys vm))" "phys_inv (vm_phys vm')"
      "max_blocks (vm_phys vm') = max_blocks (vm_phys vm)" by auto
  have "backed_page vm' s" using IH(2) [of s] IH(4) b(2,4,5) h(1) e by (simp add: backed_page_def)
  then have "backed_page vm' k" if "s \<le> k" "k < s + Suc n" for k using IH(3) [of k] that by (cases "k = s") auto
  moreover have "pages (vm_heap vm') k = pages (vm_heap vm) k" if "k < s \<or> s + Suc n \<le> k" for k using IH(2) [of k] h(1) that by auto
  ultimately show ?case using IH by blast
qed auto

lemma liballoc_alloc_granted:
  assumes "window_ok vm" "0 < n" "liballoc_alloc tp n vm = Inr (a, vm')"
  shows "window_ok vm'" "window_granted vm b m \<Longrightarrow> window_granted vm' b m" "window_granted vm' a n"
    "window_granted vm b m \<Longrightarrow> 0 < m \<Longrightarrow> b + 4096 * m \<le> a \<or> a + 4096 * n \<le> b"
proof -
  obtain v h where v: "kernel_allocate_4k_pages tp n (vm_heap vm) = Inr (v, h)" "map_kernel_pages n v (vm\<lparr>vm_heap := h\<rparr>) = Inr vm'"
      "a = unat v" using assms(3) by (auto simp: liballoc_alloc_def)
  have w: "heap_inv (vm_heap vm)" "small_tables (vm_heap vm)" "phys_inv (vm_phys vm)" "max_blocks (vm_phys vm) \<le> 2 ^ 20"
    using assms(1) by (auto simp: window_ok_def)
  obtain s where s: "v = 0xFFFFFFFFC0000000 + 4096 * of_nat s" "allocated (vm_heap vm) h s n"
    using kernel_allocate_correct [OF w(1) assms(2), of tp] v(1) by auto
  have sn: "s + n \<le> 262144" "s < 262144" using s(2) assms(2) by (auto simp: allocated_def)
  note M = map_kernel_pages_correct [OF v(2) [unfolded s(1)] sn(1), simplified, OF w(3)]
  have a: "a = 0xFFFFFFFFC0000000 + 4096 * s" using heap_page_unat [OF sn(2)] v(3) s(1) by simp
  have hi: "heap_inv h" "small_tables h" using allocated_inv [OF w(1) s(2)] kernel_allocate_small [OF v(1) w(2)] .
  have "heap_inv (vm_heap vm')"
    unfolding heap_inv_def
  proof (intro allI impI)
    fix k
    assume k: "\<not> present (kernel_heap_dir (vm_heap vm') (k div 512))"
    then have "k < s \<or> s + n \<le> k" using M w(4) s(2) by (auto simp: allocated_def not_less [symmetric])
    then show "\<not> present (pages (vm_heap vm') k)" using M w(4) hi(1) k by (auto simp: heap_inv_def)
  qed
  then show "window_ok vm'" using M w(4) hi(2) by (simp add: window_ok_def small_tables_def)
  show "window_granted vm' a n" using M w(4) a sn(1) by (auto simp: window_granted_def)
  have old: "backed_page vm' k \<and> (k < s \<or> s + n \<le> k)" if "backed_page vm k" for k
  proof -
    have k: "k < s \<or> s + n \<le> k" using that s(2) by (auto simp: backed_page_def allocated_def not_less [symmetric])
    then have "pages (vm_heap vm') k = pages (vm_heap vm) k" using M w(4) s(2) by (auto simp: allocated_def)
    then show ?thesis using that k M w(4) by (auto simp: backed_page_def)
  qed
  then show "window_granted vm' b m" if "window_granted vm b m" using that unfolding window_granted_def by blast
  show "b + 4096 * m \<le> a \<or> a + 4096 * n \<le> b" if g: "window_granted vm b m" "0 < m"
  proof -
    obtain t where t: "b = 0xFFFFFFFFC0000000 + 4096 * t" "\<And>k. t \<le> k \<Longrightarrow> k < t + m \<Longrightarrow> backed_page vm k"
      using g(1) by (auto simp: window_granted_def)
    have "\<not> (t < s + n \<and> s < t + m)"
      using old [OF t(2), of s] old [OF t(2), of t] g(2) assms(2) by (cases "s \<le> t") auto
    then show ?thesis using a t(1) by auto
  qed
qed

lemma release_frames_correct:
  "(\<And>k. s \<le> k \<Longrightarrow> k < s + n \<Longrightarrow> backed_page vm k) \<Longrightarrow> s + n \<le> 262144 \<Longrightarrow> phys_inv (vm_phys vm) \<Longrightarrow> small_tables (vm_heap vm) \<Longrightarrow>
   \<exists>vm'. release_frames n (0xFFFFFFFFC0000000 + 4096 * of_nat s) vm = Inr vm' \<and> vm_heap vm' = vm_heap vm \<and> phys_inv (vm_phys vm')
     \<and> max_blocks (vm_phys vm') = max_blocks (vm_phys vm)
     \<and> length (phys_mem_bitmap (vm_phys vm')) = length (phys_mem_bitmap (vm_phys vm))"
proof (induction n arbitrary: s vm)
  case (Suc n)
  let ?a = "0xFFFFFFFFC0000000 + 4096 * of_nat s :: u64"
  have s: "s < 262144" using Suc.prems(2) by simp
  let ?e = "pages (vm_heap vm) s" let ?b = "page_frame ?e"
  have b: "?b \<noteq> 0" "?b div 32 < length (phys_mem_bitmap (vm_phys vm))" using Suc.prems(1) [of s] by (auto simp: backed_page_def)
  have v: "unat (drop_bit 12 (virtual_to_physical_addr (vm_heap vm) ?a)) = ?b"
    using Suc.prems(4) by (simp add: virtual_to_physical_addr_def heap_page_index [OF s] page_frame_def pages_def small_tables_def and_PDE_2M)
  obtain bm where bm: "clear_bit ?b (phys_mem_bitmap (vm_phys vm)) = Inr bm" using b(2) by (auto simp: clear_bit_def)
  then obtain p where p: "free_physical_block (virtual_to_physical_addr (vm_heap vm) ?a) (vm_phys vm) = Inr p"
      "length (phys_mem_bitmap p) = length (phys_mem_bitmap (vm_phys vm))"
    using b(1) bitmap_length(1) [OF bm] by (auto simp: free_physical_block_def v Let_def)
  have inv: "phys_inv p" "max_blocks p = max_blocks (vm_phys vm)" using free_physical_block_inv [OF p(1) Suc.prems(3)] by auto
  have "?a + 4096 = 0xFFFFFFFFC0000000 + 4096 * of_nat (Suc s)" by (simp add: algebra_simps)
  then show ?case
    using Suc.IH [of "Suc s" "vm\<lparr>vm_phys := p\<rparr>"] Suc.prems p inv by (auto simp: vm_free_phys_def backed_page_def)
qed simp

lemma liballoc_free_granted:
  assumes "window_ok vm" "window_granted vm a n" "0 < n"
  shows "\<exists>vm'. liballoc_free a n vm = Inr vm' \<and> window_ok vm'
    \<and> (\<forall>b m. window_granted vm b m \<and> (b + 4096 * m \<le> a \<or> a + 4096 * n \<le> b) \<longrightarrow> window_granted vm' b m)"
proof -
  obtain s where s: "a = 0xFFFFFFFFC0000000 + 4096 * s" "s + n \<le> 262144" "\<And>k. s \<le> k \<Longrightarrow> k < s + n \<Longrightarrow> backed_page vm k"
    using assms(2) by (auto simp: window_granted_def)
  have w: "heap_inv (vm_heap vm)" "small_tables (vm_heap vm)" "phys_inv (vm_phys vm)" "max_blocks (vm_phys vm) \<le> 2 ^ 20"
    using assms(1) by (auto simp: window_ok_def)
  have a: "of_nat a = (0xFFFFFFFFC0000000 + 4096 * of_nat s :: u64)" by (simp add: s(1))
  obtain vm1 where vm1: "release_frames n (of_nat a) vm = Inr vm1" "vm_heap vm1 = vm_heap vm" "phys_inv (vm_phys vm1)"
      "max_blocks (vm_phys vm1) = max_blocks (vm_phys vm)" "length (phys_mem_bitmap (vm_phys vm1)) = length (phys_mem_bitmap (vm_phys vm))"
    using release_frames_correct [OF s(3) s(2) w(3,2)] unfolding a by blast
  obtain h where h: "kernel_free_4k_pages n (of_nat a) (vm_heap vm) = Inr h" "pages h = filled s n 0 (pages (vm_heap vm))"
      "kernel_heap_dir h = kernel_heap_dir (vm_heap vm)"
    using free_pages_correct [OF s(2)] unfolding a by blast
  let ?vm = "vm1\<lparr>vm_heap := h\<rparr>"
  have "liballoc_free a n vm = Inr ?vm" using vm1(1,2) h(1) by (simp add: liballoc_free_def)
  moreover have "window_ok ?vm"
    using w vm1 h by (auto simp: window_ok_def heap_inv_def small_tables_def filled_def present_def)
  moreover have "window_granted ?vm b m" if b: "window_granted vm b m" "b + 4096 * m \<le> a \<or> a + 4096 * n \<le> b" for b m
  proof -
    obtain t where t: "b = 0xFFFFFFFFC0000000 + 4096 * t" "t + m \<le> 262144" "\<And>k. t \<le> k \<Longrightarrow> k < t + m \<Longrightarrow> backed_page vm k"
      using b(1) by (auto simp: window_granted_def)
    have "t + m \<le> s \<or> s + n \<le> t" using b(2) s(1) t(1) by auto
    then have "backed_page ?vm k" if "t \<le> k" "k < t + m" for k
      using t(3) [OF that] that h(2) vm1(5) by (auto simp: backed_page_def filled_def)
    then show ?thesis using t(1,2) by (auto simp: window_granted_def)
  qed
  ultimately show ?thesis by blast
qed

interpretation kp: page_source "liballoc_alloc tp" liballoc_free window_ok window_granted
proof
  show "window_ok w' \<and> (\<forall>b m. window_granted w b m \<longrightarrow> window_granted w' b m)
      \<and> (a \<noteq> 0 \<longrightarrow> window_granted w' a n \<and> (\<forall>b m. window_granted w b m \<and> 0 < m \<longrightarrow> b + 4096 * m \<le> a \<or> a + 4096 * n \<le> b))"
    if "window_ok w" "0 < n" "liballoc_alloc tp n w = Inr (a, w')" for w n a w'
    using liballoc_alloc_granted [OF that] by blast
  show "\<exists>w'. liballoc_free a n w = Inr w' \<and> window_ok w'
      \<and> (\<forall>b m. window_granted w b m \<and> (b + 4096 * m \<le> a \<or> a + 4096 * n \<le> b) \<longrightarrow> window_granted w' b m)"
    if "window_ok w" "window_granted w a n" "0 < n" for w a n
    using liballoc_free_granted [OF that] .
qed

text \<open>There are pages for a request while a table is unused and enough frames are free.\<close>

definition room_for :: "nat \<Rightarrow> vmm \<Rightarrow> bool" where
  "room_for n vm \<longleftrightarrow> n \<le> 512 \<and> (\<exists>t < 512. \<not> present (kernel_heap_dir (vm_heap vm) t))
     \<and> n \<le> card (free_blocks (vm_phys vm) \<inter> searched (vm_phys vm))"

lemma map_kernel_pages_total:
  "phys_inv (vm_phys vm) \<Longrightarrow> n \<le> card (free_blocks (vm_phys vm) \<inter> searched (vm_phys vm)) \<Longrightarrow>
   \<exists>vm'. map_kernel_pages n virt vm = Inr vm'"
proof (induction n arbitrary: virt vm)
  case (Suc n)
  let ?p = "vm_phys vm"
  have "free_blocks ?p \<inter> searched ?p \<noteq> {}" using Suc.prems(2) by auto
  then obtain b p' where b: "allocate_physical_block ?p = Inr (push_bit 12 (of_nat b), p')" "phys_inv p'" "b \<in> free_blocks ?p \<inter> searched ?p"
      "free_blocks p' = free_blocks ?p - {b}" "searched p' = searched ?p"
    using allocate_correct [OF Suc.prems(1)] by auto
  have "card (free_blocks p' \<inter> searched p') = card (free_blocks ?p \<inter> searched ?p - {b})"
    unfolding b(4,5) by (rule arg_cong [of _ _ card]) blast
  then have "n \<le> card (free_blocks p' \<inter> searched p')" using Suc.prems(2) b(3) by (simp add: card_Diff_singleton)
  moreover obtain h where "kernel_map_virtual_memory_4k 1 (push_bit 12 (of_nat b)) virt (TABLE_PRESENT OR TABLE_WRITEABLE) (vm_heap vm) = Inr h"
    by (auto simp: set_entry_def)
  ultimately show ?case using Suc.IH [of "\<lparr>vm_heap = h, vm_phys = p'\<rparr>"] b(1,2) by (auto simp del: kernel_map_virtual_memory_4k.simps)
qed simp

lemma liballoc_alloc_total:
  assumes "window_ok vm" "0 < n" "room_for n vm"
  shows "\<exists>a vm'. liballoc_alloc tp n vm = Inr (a, vm')"
proof -
  have "heap_inv (vm_heap vm)" using assms(1) by (simp add: window_ok_def)
  then obtain v h where v: "kernel_allocate_4k_pages tp n (vm_heap vm) = Inr (v, h)"
    using kernel_allocate_correct [OF _ assms(2), of "vm_heap vm" tp] assms(3) by (auto simp: room_for_def)
  show ?thesis
    using map_kernel_pages_total [of "vm\<lparr>vm_heap := h\<rparr>" n v] assms v by (auto simp: liballoc_alloc_def window_ok_def room_for_def)
qed

text \<open>Every byte of an allocated block and of its tag is mapped to a frame.\<close>

lemma heap_state_mapped:
  assumes "heap_state window_ok window_granted h vm B" "B a = Some n" "a - 48 \<le> x" "x < a + n"
  shows "\<exists>k. backed_page vm k \<and> 0xFFFFFFFFC0000000 + 4096 * k \<le> x \<and> x < 0xFFFFFFFFC0000000 + 4096 * (k + 1)"
proof -
  obtain L R F where t: "tags_ok {} h L R F" "\<forall>(s, n) \<in> R. window_granted vm s n" "B = blocks {} h L"
    using assms(1,2) by (auto simp: heap_state_def split: if_splits)
  note D = tags_okD [OF t(1)]
  have a: "48 \<le> a" "a - 48 \<in> L" "n + 48 \<le> rl h (a - 48)"
    using assms(2) D(4) [of "a - 48"] unfolding t(3) by (auto simp: blocks_def split: if_splits)
  obtain s m where s: "(s, m) \<in> R" "s \<le> a - 48" "a - 48 + rl h (a - 48) \<le> s + 4096 * m"
    using splitsD(2) [OF D(2) a(2)] by (auto simp: in_arena_def)
  then obtain q where q: "s = 0xFFFFFFFFC0000000 + 4096 * q" "\<And>k. q \<le> k \<Longrightarrow> k < q + m \<Longrightarrow> backed_page vm k"
    using t(2) by (auto simp: window_granted_def)
  let ?y = "x - 0xFFFFFFFFC0000000"
  have x: "0xFFFFFFFFC0000000 + 4096 * q \<le> x" "?y < 4096 * (q + m)" using s(2,3) q(1) a assms(3,4) by auto
  then have "q \<le> ?y div 4096" "?y div 4096 < q + m" by (auto simp: div_less_iff_less_mult less_eq_div_iff_mult_less_eq)
  then have "backed_page vm (?y div 4096)" by (rule q(2))
  moreover have "4096 * (?y div 4096) \<le> ?y" "?y < 4096 * (?y div 4096 + 1)"
    using dividend_less_times_div [of 4096 ?y] by simp_all
  ultimately show ?thesis using x(1) by (intro exI [of _ "?y div 4096"]) linarith
qed

section \<open>Properties\<close>

lemma malloc_window:
  assumes "heap_state window_ok window_granted h vm B" "unat sz \<le> 0x7FFFE000"
  shows "(\<exists>N e. liballoc_alloc tp (new_pages (ucast sz)) vm = Inl e \<and> \<not> room_for (new_pages (ucast sz)) vm
      \<and> (\<forall>rounds \<ge> N. malloc rounds (liballoc_alloc tp) sz h vm = Inl e))
    \<or> (\<exists>N p h' vm'. (\<forall>rounds \<ge> N. malloc rounds (liballoc_alloc tp) sz h vm = Inr (p, h', vm')) \<and> p \<noteq> 0 \<and> B p = None
         \<and> heap_state window_ok window_granted h' vm' (B(p \<mapsto> unat sz))
         \<and> (\<forall>a n. B a = Some n \<longrightarrow> a + n \<le> p - 48 \<or> p + unat sz \<le> a - 48))"
  using kp.malloc_allocates [OF assms, of tp]
proof (elim exE disjE conjE)
  fix N e
  assume "liballoc_alloc tp (new_pages (ucast sz)) vm = Inl e" "\<forall>rounds \<ge> N. malloc rounds (liballoc_alloc tp) sz h vm = Inl e"
  moreover have "window_ok vm" "0 < new_pages (ucast sz)" using assms(1) by (auto simp: heap_state_def new_pages_def Let_def)
  ultimately show ?thesis using liballoc_alloc_total [of vm "new_pages (ucast sz)" tp] by fastforce
next
  fix vm'
  assume "liballoc_alloc tp (new_pages (ucast sz)) vm = Inr (0, vm')"
  moreover have "window_ok vm" using assms(1) by (simp add: heap_state_def)
  ultimately have "window_granted vm' 0 (new_pages (ucast sz))" using liballoc_alloc_granted(3) by (simp add: new_pages_def Let_def)
  then show ?thesis by (simp add: window_granted_def)
next
  fix N p h' vm'
  assume m: "\<forall>rounds \<ge> N. malloc rounds (liballoc_alloc tp) sz h vm = Inr (p, h', vm')" "B p = None"
    "heap_state window_ok window_granted h' vm' (B(p \<mapsto> unat sz))"
  have "p \<noteq> 0" using heap_state_address [OF m(3), of p] by simp
  moreover have "a + n \<le> p - 48 \<or> p + unat sz \<le> a - 48" if "B a = Some n" for a n
    using heap_state_disjoint [OF m(3), of a n p "unat sz"] that m(2) by (cases "a = p") auto
  ultimately show ?thesis using m by blast
qed

text \<open>
  C25. The kernel's \<open>malloc\<close> allocates.  Seen from its callers the heap is a finite map from the addresses of the
  allocated blocks to their sizes.  A call for up to 2 GiB less two pages either stops with the fault of the page
  functions (which does not happen while a
  table of the heap window is unused, enough frames are free and the request fits a table) or returns an address outside the map, not null, and the heap then holds the
  old blocks, unchanged, and the new one with the size asked for, which overlaps no old block nor its tag.  The
  search ends.
\<close>

theorem kernel_malloc_correct:
  assumes "heap_state window_ok window_granted h vm B" "unat sz \<le> 0x7FFFE000"
  shows "(\<exists>N e. liballoc_alloc tp (new_pages (ucast sz)) vm = Inl e \<and> \<not> room_for (new_pages (ucast sz)) vm
      \<and> (\<forall>rounds \<ge> N. malloc rounds (liballoc_alloc tp) sz h vm = Inl e))
    \<or> (\<exists>N p h' vm'. (\<forall>rounds \<ge> N. malloc rounds (liballoc_alloc tp) sz h vm = Inr (p, h', vm')) \<and> p \<noteq> 0 \<and> B p = None
         \<and> heap_state window_ok window_granted h' vm' (B(p \<mapsto> unat sz))
         \<and> (\<forall>a n. B a = Some n \<longrightarrow> a + n \<le> p - 48 \<or> p + unat sz \<le> a - 48))"
  by (rule malloc_window [OF assms])

text \<open>
  The kernel's \<open>free\<close> gives back.  Freeing the address of an allocated block returns, after at most one step to
  either side, and the heap then holds exactly the other blocks: the block is merged with free neighbours and kept
  or, as part of an arena that is free as a whole, its pages and frames go back to the kernel.
\<close>

theorem kernel_free_correct:
  assumes "heap_state window_ok window_granted h vm B" "B p = Some n" "2 \<le> rounds"
  shows "\<exists>h' vm'. free_block rounds liballoc_free p h vm = Inr (h', vm') \<and> heap_state window_ok window_granted h' vm' (B(p := None))"
  by (rule kp.free_deallocates [OF assms])

text \<open>
  The states of the heap: it starts empty over a window in order; calls of \<open>malloc\<close> and \<open>free\<close> that return follow in any
  order, and other parts of the kernel may use pages of their own in between.
\<close>

inductive heap_reach :: "(nat \<Rightarrow> u64) \<Rightarrow> heap \<Rightarrow> vmm \<Rightarrow> (ptr \<rightharpoonup> nat) \<Rightarrow> bool" for tp where
  heap_start: "window_ok vm \<Longrightarrow> \<not> l_initialized h \<Longrightarrow> heap_reach tp h vm Map.empty"
| heap_malloc: "heap_reach tp h vm B \<Longrightarrow> unat sz \<le> 0x7FFFE000 \<Longrightarrow>
    \<forall>rounds \<ge> N. malloc rounds (liballoc_alloc tp) sz h vm = Inr (p, h', vm') \<Longrightarrow> heap_reach tp h' vm' (B(p \<mapsto> unat sz))"
| heap_free: "heap_reach tp h vm B \<Longrightarrow> B p = Some n \<Longrightarrow>
    \<forall>rounds \<ge> N. free_block rounds liballoc_free p h vm = Inr (h', vm') \<Longrightarrow> heap_reach tp h' vm' (B(p := None))"
| heap_other: "heap_reach tp h vm B \<Longrightarrow> window_ok vm' \<Longrightarrow> (\<And>a n. window_granted vm a n \<Longrightarrow> window_granted vm' a n) \<Longrightarrow>
    heap_reach tp h vm' B"

lemma malloc_result:
  assumes "heap_state window_ok window_granted h vm B" "unat sz \<le> 0x7FFFE000"
    "\<forall>rounds \<ge> N. malloc rounds (liballoc_alloc tp) sz h vm = Inr (p, h', vm')"
  shows "heap_state window_ok window_granted h' vm' (B(p \<mapsto> unat sz))"
proof -
  have "malloc (max M N) (liballoc_alloc tp) sz h vm = Inr (p, h', vm')" for M using assms(3) by simp
  moreover have w: "window_ok vm" using assms(1) by (simp add: heap_state_def)
  have "liballoc_alloc tp (new_pages (ucast sz)) vm \<noteq> Inr (0, v)" for v
    using liballoc_alloc_granted(3) [OF w, of "new_pages (ucast sz)" tp 0 v] by (auto simp: new_pages_def Let_def window_granted_def)
  ultimately show ?thesis using kp.malloc_allocates [OF assms(1,2), of tp] by (metis Inl_Inr_False Inr_inject max.cobounded1 prod.inject)
qed

lemma heap_reach_state: "heap_reach tp h vm B \<Longrightarrow> heap_state window_ok window_granted h vm B"
proof (induction rule: heap_reach.induct)
  case (heap_start vm h)
  then show ?case by (simp add: heap_state_def)
next
  case (heap_malloc h vm B sz N p h' vm')
  then show ?case using malloc_result by blast
next
  case (heap_free h vm B p n N h' vm')
  have "free_block (max 2 N) liballoc_free p h vm = Inr (h', vm')" using heap_free.hyps(3) by simp
  then show ?case using kp.free_deallocates [OF heap_free.IH heap_free.hyps(2), of "max 2 N"] by (auto simp: fun_upd_def)
next
  case (heap_other h vm B vm')
  show ?case
  proof (cases "l_initialized h")
    case True
    then obtain L R F where t: "tags_ok {} h L R F" "\<forall>(s, n) \<in> R. window_granted vm s n" "B = blocks {} h L"
      using heap_other.IH by (auto simp: heap_state_def)
    then have "\<forall>(s, n) \<in> R. window_granted vm' s n" using heap_other.hyps(3) by blast
    then show ?thesis using heap_other.hyps(2) by (rule heap_stateI [OF t(1) _ _ True t(3)])
  next
    case False
    then show ?thesis using heap_other by (simp add: heap_state_def)
  qed
qed

text \<open>
  Memory safety of the heap.  After any sequence of calls the allocated blocks lie apart from each other and from
  each other's tags, and every byte of a block and of its tag is mapped to a frame.
\<close>

theorem heap_blocks_safe:
  assumes "heap_reach tp h vm B" "B a = Some n"
  shows "(\<forall>x. a - 48 \<le> x \<and> x < a + n \<longrightarrow>
      (\<exists>k. backed_page vm k \<and> 0xFFFFFFFFC0000000 + 4096 * k \<le> x \<and> x < 0xFFFFFFFFC0000000 + 4096 * (k + 1)))
    \<and> (\<forall>b m. B b = Some m \<and> b \<noteq> a \<longrightarrow> a + n \<le> b - 48 \<or> b + m \<le> a - 48)"
  using heap_state_mapped [OF heap_reach_state [OF assms(1)] assms(2)]
    heap_state_disjoint [OF heap_reach_state [OF assms(1)] assms(2)] by blast

section \<open>An example\<close>

definition demo_pages :: vmm where
  "demo_pages = \<lparr>vm_heap = \<lparr>kernel_heap_dir = (\<lambda>_. 0), kernel_heap_dir_tables = (\<lambda>_ _. 0)\<rparr>,
     vm_phys = \<lparr>phys_mem_bitmap = [- 1, 0], used_blocks = 32, max_blocks = 64, next_chunk = 1\<rparr>\<rparr>"

definition demo_heap :: heap where
  "demo_heap = \<lparr>h_magic = (\<lambda>_. 0), h_size = (\<lambda>_. 0), h_real = (\<lambda>_. 0), h_index = (\<lambda>_. 0), h_left = (\<lambda>_. 0), h_right = (\<lambda>_. 0),
     h_next = (\<lambda>_. 0), h_prev = (\<lambda>_. 0), l_freePages = (\<lambda>_. 0), l_completePages = (\<lambda>_. 0), l_initialized = False\<rparr>"

lemma demo_pages_ok: "window_ok demo_pages" "room_for 16 demo_pages"
proof -
  show "window_ok demo_pages"
    by (simp add: window_ok_def demo_pages_def heap_inv_def small_tables_def pages_def present_def phys_inv_def)
  have "free_blocks (vm_phys demo_pages) \<inter> searched (vm_phys demo_pages) = {32..<64}"
    by (auto simp: free_blocks_def searched_def demo_pages_def less_Suc_eq Suc_le_eq nth_Cons' split: if_splits)
  then show "room_for 16 demo_pages" by (auto simp: room_for_def demo_pages_def present_def intro: exI [of _ 0])
qed

lemma demo_state: "heap_state window_ok window_granted demo_heap demo_pages Map.empty"
  using demo_pages_ok(1) by (simp add: heap_state_def demo_heap_def)

lemma demo_pages: "new_pages (ucast (1000 :: u64)) = 16"
  by (simp add: new_pages_def)

lemma demo_malloc:
  "\<exists>N p h vm. (\<forall>rounds \<ge> N. malloc rounds (liballoc_alloc (\<lambda>_. 0)) 1000 demo_heap demo_pages = Inr (p, h, vm))
     \<and> heap_state window_ok window_granted h vm [p \<mapsto> 1000]"
  using malloc_window [OF demo_state, of 1000 "\<lambda>_. 0"] demo_pages_ok(2) demo_pages by auto

lemma kernel_malloc_correct_witness:
  "\<exists>N p h' vm'. (\<forall>rounds \<ge> N. malloc rounds (liballoc_alloc (\<lambda>_. 0)) 1000 demo_heap demo_pages = Inr (p, h', vm')) \<and> p \<noteq> 0
     \<and> heap_state window_ok window_granted h' vm' [p \<mapsto> 1000]"
  using kernel_malloc_correct [OF demo_state, of 1000 "\<lambda>_. 0"] demo_pages_ok(2) demo_pages by auto

lemma kernel_free_correct_witness:
  "\<exists>N p h vm h' vm'. (\<forall>rounds \<ge> N. malloc rounds (liballoc_alloc (\<lambda>_. 0)) 1000 demo_heap demo_pages = Inr (p, h, vm))
     \<and> free_block 2 liballoc_free p h vm = Inr (h', vm') \<and> heap_state window_ok window_granted h' vm' Map.empty"
proof -
  obtain N p h vm where m: "\<forall>rounds \<ge> N. malloc rounds (liballoc_alloc (\<lambda>_. 0)) 1000 demo_heap demo_pages = Inr (p, h, vm)"
      "heap_state window_ok window_granted h vm [p \<mapsto> 1000]" using demo_malloc by blast
  obtain h' vm' where "free_block 2 liballoc_free p h vm = Inr (h', vm')" "heap_state window_ok window_granted h' vm' Map.empty"
    using kernel_free_correct [OF m(2), of p 1000 2] by auto
  then show ?thesis using m(1) by blast
qed

lemma heap_blocks_safe_witness:
  "\<exists>p h vm k. heap_reach (\<lambda>_. 0) h vm [p \<mapsto> 1000] \<and> backed_page vm k
     \<and> 0xFFFFFFFFC0000000 + 4096 * k \<le> p + 999 \<and> p + 999 < 0xFFFFFFFFC0000000 + 4096 * (k + 1)"
proof -
  obtain N p h vm where m: "\<forall>rounds \<ge> N. malloc rounds (liballoc_alloc (\<lambda>_. 0)) 1000 demo_heap demo_pages = Inr (p, h, vm)"
    using demo_malloc by blast
  have "heap_reach (\<lambda>_. 0) demo_heap demo_pages Map.empty" using demo_pages_ok(1) by (intro heap_start) (simp_all add: demo_heap_def)
  from heap_malloc [OF this _ m] have r: "heap_reach (\<lambda>_. 0) h vm [p \<mapsto> 1000]" by simp
  have "\<forall>x. p - 48 \<le> x \<and> x < p + 1000 \<longrightarrow>
      (\<exists>k. backed_page vm k \<and> 0xFFFFFFFFC0000000 + 4096 * k \<le> x \<and> x < 0xFFFFFFFFC0000000 + 4096 * (k + 1))"
    using heap_blocks_safe [OF r, of p 1000] by simp
  moreover have "p - 48 \<le> p + 999 \<and> p + 999 < p + 1000" by simp
  ultimately show ?thesis using r by blast
qed

end
