(* ===== verification/Calloc.thy ===== *)
theory Calloc
  imports Malloc KString
begin

unbundle bit_operations_syntax

text \<open>
  The rest of the C interface of the kernel heap, \<^verbatim>\<open>Kernel/src/liballoc/liballoc.c\<close>: \<open>calloc\<close> and \<open>realloc\<close>, with the
  routines they use to clear and copy memory.  The contents of the blocks are the byte store of \<open>KString\<close>; the tags
  are the fields of the heap.  The counter of \<open>liballoc_memset\<close> is taken to be wide enough, since blocks of 2 GiB and
  more are outside the bounds of \<open>malloc\<close>.
\<close>

section \<open>Model\<close>

primrec memset_loop :: "mem \<Rightarrow> ptr \<Rightarrow> u8 \<Rightarrow> nat \<Rightarrow> nat \<Rightarrow> mem" where
  "memset_loop m s c i 0 = m"
| "memset_loop m s c i (Suc n) = memset_loop (m(s + i := c)) s c (i + 1) n"

definition liballoc_memset :: "mem \<Rightarrow> ptr \<Rightarrow> u8 \<Rightarrow> nat \<Rightarrow> mem" where
  "liballoc_memset m s c n = memset_loop m s c 0 n"

definition copy_int :: "mem \<Rightarrow> ptr \<Rightarrow> ptr \<Rightarrow> mem" where
  "copy_int m d s = (\<lambda>a. if d \<le> a \<and> a < d + 4 then m (s + (a - d)) else m a)"

fun copy_ints :: "mem \<Rightarrow> ptr \<Rightarrow> ptr \<Rightarrow> nat \<Rightarrow> mem \<times> ptr \<times> ptr \<times> nat" where
  "copy_ints m d s n = (if n \<ge> 4 then copy_ints (copy_int m d s) (d + 4) (s + 4) (n - 4) else (m, d, s, n))"

declare copy_ints.simps [simp del]

definition liballoc_memcpy :: "mem \<Rightarrow> ptr \<Rightarrow> ptr \<Rightarrow> nat \<Rightarrow> mem" where
  "liballoc_memcpy m s1 s2 n = (let (m, d, s, n) = copy_ints m s1 s2 n in copy_bytes m d s n)"

text \<open>The product is kept in an \<open>int\<close>, which becomes a \<open>size_t\<close> again; a null result is written to all the same.\<close>

definition calloc ::
  "nat \<Rightarrow> (nat \<Rightarrow> 'p \<Rightarrow> (ptr \<times> 'p) kres) \<Rightarrow> u64 \<Rightarrow> u64 \<Rightarrow> mem \<Rightarrow> heap \<Rightarrow> 'p \<Rightarrow> (ptr \<times> mem \<times> heap \<times> 'p) kres" where
  "calloc rounds alloc nobj sz m h w =
     (let real_size = ucast (nobj * sz) :: u32; n = scast real_size :: u64 in
      kbind (malloc rounds alloc n h w) (\<lambda>(p, h, w).
      if p = 0 \<and> n \<noteq> 0 then Inl Null_deref else Inr (p, liballoc_memset m p 0 (unat n), h, w)))"

definition realloc ::
  "nat \<Rightarrow> (nat \<Rightarrow> 'p \<Rightarrow> (ptr \<times> 'p) kres) \<Rightarrow> (ptr \<Rightarrow> nat \<Rightarrow> 'p \<Rightarrow> 'p kres) \<Rightarrow> ptr \<Rightarrow> u64 \<Rightarrow> mem \<Rightarrow> heap \<Rightarrow> 'p
     \<Rightarrow> (ptr \<times> mem \<times> heap \<times> 'p) kres" where
  "realloc rounds alloc release p sz m h w =
     (if sz = 0 then kbind (free_block rounds release p h w) (\<lambda>(h, w). Inr (0, m, h, w))
      else if p = 0 then kbind (malloc rounds alloc sz h w) (\<lambda>(q, h, w). Inr (q, m, h, w))
      else
        let old = h_size h (p - tag_size);
            real_size = (if (scast old :: u64) > sz then ucast sz else old);
            n = scast real_size :: u64 in
        kbind (malloc rounds alloc sz h w) (\<lambda>(q, h, w).
        if q = 0 \<and> n \<noteq> 0 then Inl Null_deref
        else let m = liballoc_memcpy m q p (unat n) in
             kbind (free_block rounds release p h w) (\<lambda>(h, w). Inr (q, m, h, w))))"

section \<open>Clearing and copying\<close>

lemma memset_loop_eq: "memset_loop m s c i n = (\<lambda>a. if s + i \<le> a \<and> a < s + i + n then c else m a)"
  by (induction n arbitrary: m i) (auto simp: fun_eq_iff)

lemma copy_ints_moved:
  "disjoint d s n \<Longrightarrow> copy_ints m d s n = (moved m d s (n - n mod 4), d + (n - n mod 4), s + (n - n mod 4), n mod 4)"
proof (induction m d s n rule: copy_ints.induct)
  case (1 m d s n)
  show ?case
  proof (cases "4 \<le> n")
    case True
    have disj: "disjoint (d + 4) (s + 4) (n - 4)" "forward d s (n - n mod 4)" using "1.prems" True by (auto simp: disjoint_def forward_def)
    have mod: "(n - 4) mod 4 = n mod 4" using True by (simp add: mod_if [of n 4])
    have "1 \<le> n div 4" using True by (simp add: Suc_le_eq div_greater_zero_iff)
    then have le: "4 \<le> n - n mod 4" by (simp add: minus_mod_eq_mult_div)
    have "copy_int m d s = moved m d s 4" by (simp add: copy_int_def moved_def)
    then have "moved (copy_int m d s) (d + 4) (s + 4) (n - 4 - n mod 4) = moved m d s (n - n mod 4)"
      using moved_compose [OF disj(2) le, of m] by (simp add: add.commute)
    then show ?thesis using "1.IH" [OF True disj(1)] True le mod by (subst copy_ints.simps) simp
  next
    case False
    then show ?thesis by (subst copy_ints.simps) simp
  qed
qed

lemma liballoc_memcpy_moved:
  assumes "disjoint d s n"
  shows "liballoc_memcpy m d s n = moved m d s n"
proof -
  let ?k = "n - n mod 4"
  have "forward (d + ?k) (s + ?k) (n mod 4)" "forward d s n" "?k \<le> n" using assms by (auto simp: disjoint_def forward_def)
  then show ?thesis
    using moved_compose [of d s n ?k m] copy_bytes_moved [of "d + ?k" "s + ?k" "n mod 4" "moved m d s ?k"]
    by (simp add: liballoc_memcpy_def copy_ints_moved [OF assms])
qed

lemma scast_small:
  assumes "unat (x :: u32) < 2 ^ 31"
  shows "unat (scast x :: u64) = unat x"
proof -
  have "\<not> bit (unat x) 31" using assms by (simp add: bit_iff_odd)
  then have top: "\<not> bit x 31" by (simp add: bit_unsigned_iff)
  have "(scast x :: u64) = ucast x"
  proof (rule bit_word_eqI)
    fix n assume "n < LENGTH(64)"
    show "bit (scast x :: u64) n = bit (ucast x :: u64) n"
    proof (cases "n < 32")
      case True
      then show ?thesis by (simp add: bit_simps)
    next
      case False
      then have "\<not> bit x n" using bit_imp_le_length [of x n] by auto
      then show ?thesis using False top by (auto simp: bit_simps)
    qed
  qed
  then show ?thesis by simp
qed

lemma malloc_room:
  assumes "heap_state window_ok window_granted h vm B" "unat sz \<le> 0x7FFFE000" "room_for (new_pages (ucast sz)) vm"
  obtains N p h' vm' where "\<And>rounds. N \<le> rounds \<Longrightarrow> malloc rounds (liballoc_alloc tp) sz h vm = Inr (p, h', vm')" "p \<noteq> 0" "B p = None"
    "heap_state window_ok window_granted h' vm' (B(p \<mapsto> unat sz))"
    "\<And>a n. B a = Some n \<Longrightarrow> a + n \<le> p - 48 \<or> p + unat sz \<le> a - 48"
  using malloc_window [OF assms(1,2), of tp] assms(3) by blast

section \<open>Properties\<close>

text \<open>
  \<open>calloc\<close> returns cleared memory: when the product of number and size is at most 2 GiB less two pages and there is
  room, the result is a new block of that size, all its bytes are zero, and the contents of the other blocks stay.
\<close>

theorem calloc_correct:
  assumes "heap_state window_ok window_granted h vm B" "unat nobj * unat sz \<le> 0x7FFFE000"
    "room_for (new_pages (of_nat (unat nobj * unat sz))) vm"
  shows "\<exists>N p h' vm' m'. (\<forall>rounds \<ge> N. calloc rounds (liballoc_alloc tp) nobj sz m h vm = Inr (p, m', h', vm')) \<and> B p = None
    \<and> heap_state window_ok window_granted h' vm' (B(p \<mapsto> unat nobj * unat sz))
    \<and> (\<forall>i < unat nobj * unat sz. m' (p + i) = 0) \<and> (\<forall>a n i. B a = Some n \<and> i < n \<longrightarrow> m' (a + i) = m (a + i))"
proof -
  let ?n = "unat nobj * unat sz"
  have u: "unat (nobj * sz) = ?n" using assms(2) by (intro unat_times_no_wrap) simp
  then have r: "unat (ucast (nobj * sz) :: u32) = ?n" using assms(2) by (subst unat_ucast_64_32) simp_all
  then have s: "unat (scast (ucast (nobj * sz) :: u32) :: u64) = ?n" using assms(2) by (subst scast_small) simp_all
  let ?s = "scast (ucast (nobj * sz) :: u32) :: u64"
  have "unat (ucast ?s :: u32) = unat (of_nat ?n :: u32)"
    using s assms(2) unat_of_nat_small [of ?n, where 'a = 32] by (subst unat_ucast_64_32) simp_all
  then have "(ucast ?s :: u32) = of_nat ?n" by (simp only: word_unat_eq_iff)
  then have room: "room_for (new_pages (ucast ?s)) vm" using assms(3) by simp
  obtain N p h' vm' where a: "\<And>rounds. N \<le> rounds \<Longrightarrow> malloc rounds (liballoc_alloc tp) ?s h vm = Inr (p, h', vm')" "p \<noteq> 0" "B p = None"
      "heap_state window_ok window_granted h' vm' (B(p \<mapsto> ?n))" "\<And>a n. B a = Some n \<Longrightarrow> a + n \<le> p - 48 \<or> p + ?n \<le> a - 48"
    using malloc_room [OF assms(1) _ room, of tp] s assms(2) by (metis (no_types))
  let ?m = "liballoc_memset m p 0 ?n"
  have z: "?m = (\<lambda>a. if p \<le> a \<and> a < p + ?n then 0 else m a)" by (simp add: liballoc_memset_def memset_loop_eq)
  have "\<forall>rounds \<ge> N. calloc rounds (liballoc_alloc tp) nobj sz m h vm = Inr (p, ?m, h', vm')"
    using a(1,2) by (simp add: calloc_def s)
  moreover have "?m (b + i) = m (b + i)" if "B b = Some n" "i < n" for b n i
    using a(5) [OF that(1)] that(2) heap_state_address [OF assms(1) that(1)] by (auto simp: z)
  ultimately show ?thesis using a(3,4) z by (intro exI [of _ N] exI [of _ p] exI [of _ h'] exI [of _ vm'] exI [of _ ?m]) auto
qed

text \<open>
  \<open>realloc\<close> keeps what fits: for an allocated block and a new size of at least one byte, when there is room, the
  result is a new block of the new size that starts with the bytes of the old one, as many as both have; the old
  block is gone and the contents of the other blocks stay.
\<close>

theorem realloc_correct:
  assumes "heap_state window_ok window_granted h vm B" "B p = Some n" "sz \<noteq> 0" "unat sz \<le> 0x7FFFE000" "room_for (new_pages (ucast sz)) vm"
  shows "\<exists>N q. B q = None \<and> (\<forall>rounds \<ge> N. \<exists>m' h' vm'. realloc rounds (liballoc_alloc tp) liballoc_free p sz m h vm = Inr (q, m', h', vm')
    \<and> heap_state window_ok window_granted h' vm' ((B(q \<mapsto> unat sz))(p := None))
    \<and> (\<forall>i < min n (unat sz). m' (q + i) = m (p + i)) \<and> (\<forall>a k i. B a = Some k \<and> i < k \<longrightarrow> m' (a + i) = m (a + i)))"
proof -
  obtain N q h1 vm1 where a: "\<And>rounds. N \<le> rounds \<Longrightarrow> malloc rounds (liballoc_alloc tp) sz h vm = Inr (q, h1, vm1)" "q \<noteq> 0" "B q = None"
      "heap_state window_ok window_granted h1 vm1 (B(q \<mapsto> unat sz))" "\<And>a n. B a = Some n \<Longrightarrow> a + n \<le> q - 48 \<or> q + unat sz \<le> a - 48"
    using malloc_room [OF assms(1,4,5), of tp] by blast
  have p: "p \<noteq> 0" "p \<noteq> q" "48 \<le> p" using heap_state_address [OF assms(1,2)] assms(2) a(3) by auto
  have n: "unat (h_size h (p - 48)) = n" "n < 2 ^ 31" using heap_state_size [OF assms(1,2)] by auto
  let ?old = "h_size h (p - 48)" let ?r = "if (scast ?old :: u64) > sz then ucast sz else ?old"
  have "unat (scast ?old :: u64) = n" using n by (simp add: scast_small)
  then have "unat (scast ?r :: u64) = min n (unat sz)"
    using assms(4) n by (auto simp: word_less_nat_alt scast_small unat_ucast_64_32 min_def)
  note r = this
  have d: "disjoint q p (min n (unat sz))" using a(5) [OF assms(2)] p by (auto simp: disjoint_def)
  let ?m = "moved m q p (min n (unat sz))"
  have f: "\<exists>h' vm'. free_block rounds liballoc_free p h1 vm1 = Inr (h', vm')
      \<and> heap_state window_ok window_granted h' vm' ((B(q \<mapsto> unat sz))(p := None))" if "2 \<le> rounds" for rounds
    using kp.free_deallocates [OF a(4) _ that, of p n] assms(2) p(2) by auto
  have "\<forall>i < min n (unat sz). ?m (q + i) = m (p + i)" by (simp add: moved_def)
  moreover have "?m (b + i) = m (b + i)" if "B b = Some k" "i < k" for b k i
    using a(5) [OF that(1)] that(2) heap_state_address [OF assms(1) that(1)] by (auto simp: moved_def)
  moreover have "\<exists>h' vm'. realloc rounds (liballoc_alloc tp) liballoc_free p sz m h vm = Inr (q, ?m, h', vm')
      \<and> heap_state window_ok window_granted h' vm' ((B(q \<mapsto> unat sz))(p := None))" if "max N 2 \<le> rounds" for rounds
    using f [of rounds] a(1) [of rounds] that assms(3) p a(2) r
    by (auto simp: realloc_def Let_def liballoc_memcpy_moved [OF d])
  ultimately show ?thesis using a(3) by (intro exI [of _ "max N 2"] exI [of _ q]) blast
qed

end
