(* ===== verification/Spec2Isabelle.thy ===== *)
theory Spec2Isabelle
  imports KMath KList KString PhysAlloc Locks Paging VmObject AddressSpace
    Streams Keyboard Pty LruCache RefCounted Timer Process Syscalls Threads Scheduler Filesystem Devices Tar Bytes Storage Ext2 Ext2Read Ext2Dir Ext2Mount Elf ElfStack Loader Prelude Liballoc Malloc Calloc
begin

text \<open>
  A verification of borrrdex, a small UNIX-like operating system for x86-64: its kernel, from the page-frame
  allocator up to the file systems, the scheduler and the making of processes.

  \<^bold>\<open>The program and its parts.\<close>  At the bottom, \<^verbatim>\<open>Kernel/src/arch/x86_64/physical_allocator.cpp\<close> hands out
  page frames and \<^verbatim>\<open>paging.cpp\<close> maps them, for the kernel heap window and for the page map of each process.  The kernel
  heap, \<^verbatim>\<open>liballoc/liballoc.c\<close>, cuts pages of the window into blocks.  Memory
  objects (\<^verbatim>\<open>mm/vm_object.cpp\<close>) own frames, address spaces (\<^verbatim>\<open>mm/address_space.cpp\<close>) place them in regions, and the page
  fault handler joins the three.  Threads (\<^verbatim>\<open>thread.cpp\<close>) block, sleep and are woken, by the timer or by whoever has data
  for them; the scheduler (\<^verbatim>\<open>scheduler.cpp\<close>) switches between the threads on the run queue of each processor, ends
  processes and collects them.  A process is made from an executable by \<^verbatim>\<open>elf.cpp\<close> and the rest of \<^verbatim>\<open>scheduler.cpp\<close>.  Files
  are nodes below a root (\<^verbatim>\<open>fs/filesystem.cpp\<close>): volumes read from an archive in memory (\<^verbatim>\<open>fs/tar.cpp\<close>) or from a disk
  (\<^verbatim>\<open>fs/ext2.cpp\<close>, over \<^verbatim>\<open>storage/\<close>), devices (\<^verbatim>\<open>device.cpp\<close>), pipes and terminals.  System calls (\<^verbatim>\<open>syscalls.cpp\<close>) check
  their arguments and call these parts for the running process.

  \<^bold>\<open>How the parts are modelled.\<close>  One theory holds the data and the operations of one part, with its properties; a
  definition carries the name of the function it translates.
    \<^item> \<open>Prelude\<close>: the word types, faults and error numbers as values, lemmas on lists and words that the parts share;
      \<open>Bytes\<close>: little-endian integers inside byte lists, as packed structures overlay them.
    \<^item> \<open>KMath\<close>, \<open>KList\<close>, \<open>KString\<close>, \<open>LruCache\<close>, \<open>RefCounted\<close>: the kernel's own library.  The growable array is refined to
      lists, the string routines work on a store of bytes with their word-at-a-time loops, the cache and the
      shared pointers keep the laws their users need.
    \<^item> \<open>PhysAlloc\<close>, \<open>Paging\<close>, \<open>VmObject\<close>, \<open>AddressSpace\<close>: memory.  Frames are handed out once and come back, a walk of the
      tables finds what was mapped, regions stay sorted and disjoint, and a fault that is reported resolved leaves the
      page usable.  A page map is \<open>pm_linked\<close> when its entries hold the frames of the tables the kernel works on; then the
      walk of the hardware (\<open>mmu_walk\<close>, from the root through the frame numbers in the entries) and the kernel's view of the
      tables (\<open>walk\<close>) agree, and making and mapping keep it so.
    \<^item> \<open>Liballoc\<close>, \<open>Malloc\<close>, \<open>Calloc\<close>: the kernel heap, its boundary tags and free lists over the pages of the window.  It
      refines a finite map from addresses to sizes, and its blocks never overlap; \<open>calloc\<close> clears and \<open>realloc\<close> copies.
    \<^item> \<open>Locks\<close>, \<open>Threads\<close>, \<open>Timer\<close>, \<open>Scheduler\<close>: concurrency.  Locks and blockers are step relations over any number of
      threads, one shared access a step; the scheduler is a function from a tick to the next thread, with an invariant,
      fairness for runnable threads, and the end of a process with the locks it takes: it completes when no other
      processor runs the process and never does when one does.
    \<^item> \<open>Elf\<close>, \<open>ElfStack\<close>, \<open>Loader\<close>: executables, the initial stack, the making of processes and the start of the
      scheduler.
    \<^item> \<open>Process\<close>, \<open>Syscalls\<close>: the table of open files and the system calls over an interface to the file system.
    \<^item> \<open>Streams\<close>, \<open>Keyboard\<close>, \<open>Pty\<close>: buffers of bytes, pipes, the key ring and terminals.
    \<^item> \<open>Filesystem\<close>, \<open>Devices\<close>, \<open>Tar\<close>: path resolution with symbolic links, mounted volumes, /dev and archives.
    \<^item> \<open>Storage\<close>, \<open>Ext2\<close>, \<open>Ext2Read\<close>, \<open>Ext2Dir\<close>, \<open>Ext2Mount\<close>: disks, partition tables, partitions, transfers, and the
      second extended file system from its superblock to lookup in a directory.

  \<^bold>\<open>Interfaces.\<close>  What one part promises another is a locale, interpreted on the model of the provider: \<open>frame_allocator\<close>
  (the frame bitmap), \<open>placement\<close> (the two ways to choose a region), \<open>sequence\<close> (the growable array), \<open>byte_fifo\<close> (data
  streams, character buffers and the key ring), \<open>directory\<close> (the root and /dev), \<open>sector_reader\<close> (a whole disk
  and a partition of it), \<open>page_source\<close> (the pages under the kernel heap).  The lemmas proved once inside them carry the properties of the clients.

  \<^bold>\<open>Conventions.\<close>  Machine integers are words of their width and wrap; addresses and sizes of which the code computes
  only valid ones are natural numbers.  A panic, a failed assertion, an access to memory that is not there and a
  division by zero are values (\<open>kfault\<close>), an error number a caller sees is another (\<open>errno\<close>, by name, since the values
  come from a header outside the repository).  Objects shared by pointer live in stores indexed by numbers.  The lists
  and hash maps of the frigg library, which is not part of the repository, are lists and finite maps.  Hardware, the
  contents of memory \<open>malloc\<close> returns and virtual methods of nodes are arguments.  Loops that only their data bound have a
  termination proof; loops that may run forever are partial functions or carry a number of rounds, and the theorems
  say that enough rounds give a result: \<open>resolve_path\<close> takes the depth of the calls (one more than the links
  followed), the readers of archives and block maps the number of blocks, waiting loops a sequence of what the other
  side does.

  \<^bold>\<open>What is not modelled, and why.\<close>  Code that only writes to registers of the machine or draws on the screen: the
  descriptor and interrupt tables, the interrupt controllers, the start of further processors, the firmware tables,
  the programming of the timer chip and of the AHCI registers, the serial port, the frame buffer, graphics and fonts
  of LibBor.  Logging, which no other part reads.  Assembly.  The C library and the ported programs, which are
  third-party.  The text attributes, colours and drawing of the terminal program fterm.
\<close>

end
